(* ===== verification/Prelude.thy ===== *)
theory Prelude
  imports "HOL-Library.Word" "HOL-Library.Monad_Syntax"
begin

unbundle bit_operations_syntax

text \<open>
  Shared ground of the development: the machine types the code under
  \<^verbatim>\<open>src/divine/vm\<close> and \<^verbatim>\<open>src/divine/mem\<close> is written over, the collections
  that carry the component proofs, and the generic facts on words and lists that more than
  one component uses.
\<close>

section \<open>Machine types\<close>

type_synonym u8 = "8 word"
type_synonym u16 = "16 word"
type_synonym u32 = "32 word"
type_synonym u64 = "64 word"

text \<open>
  A result of type \<open>'a option\<close> is \<open>None\<close> where the C++ code fails an \<^verbatim>\<open>ASSERT\<close>,
  reaches \<^verbatim>\<open>NOT_IMPLEMENTED\<close> or leaves the behaviour undefined; every definition
  that returns an option says which.
\<close>

abbreviation asserting :: "bool \<Rightarrow> 'a option \<Rightarrow> 'a option" where
  "asserting b r \<equiv> (if b then r else None)"

named_theorems vm_simps \<open>defining equations of the value layer\<close>
named_theorems mem_simps \<open>defining equations of the heap layers\<close>
named_theorems inv_intros \<open>preservation of the component invariants\<close>

section \<open>Words\<close>

lemma word_eq_iff:
  fixes a b :: "'a::len word"
  shows "a = b \<longleftrightarrow> (\<forall>i < LENGTH('a). bit a i = bit b i)"
  by (auto intro: bit_word_eqI)

lemma word_and_eq_self_iff:
  fixes a b :: "'a::len word"
  shows "a AND b = b \<longleftrightarrow> (\<forall>i < LENGTH('a). bit b i \<longrightarrow> bit a i)"
  by (auto simp: bit_eq_iff bit_simps)

lemma word_eq_on_mask_iff:
  fixes x y m :: "'a::len word"
  shows "(x XOR y) AND m = 0 \<longleftrightarrow> (\<forall>i < LENGTH('a). bit m i \<longrightarrow> bit x i = bit y i)"
  by (auto simp: bit_eq_iff bit_simps)

lemma word_or_eq_0_iff:
  fixes a b :: "'a::len word"
  shows "a OR b = 0 \<longleftrightarrow> a = 0 \<and> b = 0"
  by (auto simp: bit_eq_iff bit_simps)

lemma word_less_exp_iff:
  fixes w :: "'a::len word"
  assumes "n < LENGTH('a)"
  shows "w < 2 ^ n \<longleftrightarrow> take_bit n w = w"
proof -
  have "w < 2 ^ n \<longleftrightarrow> uint w < 2 ^ n"
    using assms by (intro word_2p_lem) (simp add: word_size)
  also have "\<dots> \<longleftrightarrow> take_bit n (uint w) = uint w"
    by (simp add: take_bit_int_eq_self_iff)
  also have "\<dots> \<longleftrightarrow> take_bit n w = w"
    by (metis unsigned_take_bit_eq unsigned_word_eqI)
  finally show ?thesis .
qed

section \<open>Options\<close>

lemma asserting_Some_iff [simp]: "asserting b r = Some x \<longleftrightarrow> b \<and> r = Some x"
  by simp

end
