(* ===== verification/BitLevel.thy ===== *)
theory BitLevel
  imports Prelude
begin

unbundle bit_operations_syntax

text \<open>
  The bit utilities of \<^verbatim>\<open>src/bricks/brick-bitlevel\<close> the heap and the value layer use:
  \<^verbatim>\<open>ones\<close>, \<^verbatim>\<open>MSB\<close>, \<^verbatim>\<open>align\<close>, \<^verbatim>\<open>downalign\<close>, and the little-endian view of an integer as a
  sequence of bytes that \<^verbatim>\<open>bitcast\<close> and the byte-wise copies of the code rely on.
\<close>

section \<open>Masks\<close>

text \<open>\<^verbatim>\<open>ones< T >( bits )\<close>, by the recursion of the code.\<close>

fun ones :: "nat \<Rightarrow> 'a::len word" where
  "ones bits = (if bits \<noteq> 0 then push_bit (bits - 1) 1 OR ones (bits - 1) else 0)"

declare ones.simps [simp del]

lemma bit_ones [bit_simps]: "bit (ones n :: 'a::len word) i \<longleftrightarrow> i < n \<and> i < LENGTH('a)"
proof (induction n)
  case 0
  then show ?case by (simp add: ones.simps)
next
  case (Suc n)
  then show ?case by (subst ones.simps) (auto simp: bit_simps)
qed

lemma ones_eq_mask: "ones n = (mask n :: 'a::len word)"
  by (rule bit_eqI) (auto simp: bit_simps)

lemma ones_0 [simp]: "ones 0 = 0"
  by (simp add: ones.simps)

lemma ones_full [simp]: "LENGTH('a) \<le> n \<Longrightarrow> ones n = (- 1 :: 'a::len word)"
  by (rule bit_eqI) (auto simp: bit_simps)

fun MSB :: "nat \<Rightarrow> nat" where
  "MSB x = (if x > 1 then 1 + MSB (x div 2) else 0)"

declare MSB.simps [simp del]

section \<open>Alignment\<close>

definition align :: "nat \<Rightarrow> nat \<Rightarrow> nat" where
  "align v a = (if v mod a \<noteq> 0 then v + a - v mod a else v)"

definition downalign :: "nat \<Rightarrow> nat \<Rightarrow> nat" where
  "downalign v a = v - v mod a"

lemma downalign_mod [simp]: "downalign v a mod a = 0"
  by (simp add: downalign_def minus_mod_eq_mult_div)

lemma downalign_le: "downalign v a \<le> v"
  by (simp add: downalign_def)

lemma downalign_eq_mult: "downalign v a = a * (v div a)"
  by (simp add: downalign_def minus_mod_eq_mult_div)

lemma downalign_add_mod: "downalign v a + v mod a = v"
  by (simp add: downalign_eq_mult)

lemma align_ge: "0 < a \<Longrightarrow> v \<le> align v a"
  by (simp add: align_def) (use mod_le_divisor [of a v] in linarith)

lemma align_mod [simp]: "align v a mod a = 0"
proof (cases "a = 0 \<or> v mod a = 0")
  case False
  then have "v + a - v mod a = a * (v div a) + a"
    by (metis Nat.add_diff_assoc2 add.commute minus_mod_eq_mult_div mod_less_eq_dividend)
  with False show ?thesis by (simp add: align_def)
qed (auto simp: align_def)

lemma align_less: "0 < a \<Longrightarrow> align v a < v + a"
  by (auto simp: align_def)

lemma align_4_words: "align v 4 = 4 * ((v + 3) div 4)"
  by (simp add: align_def) presburger

section \<open>Little-endian bytes\<close>

text \<open>
  Reading and writing an integer through a byte pointer: byte \<open>i\<close> of the object
  representation is bits \<open>8 * i .. 8 * i + 7\<close> (the code assumes a little-endian host, see the
  comment in \<^verbatim>\<open>vm/pointer.hpp\<close>).
\<close>

definition byte_of :: "'a::len word \<Rightarrow> nat \<Rightarrow> u8" where
  "byte_of w i = ucast (drop_bit (8 * i) w)"

definition bytes_of :: "nat \<Rightarrow> 'a::len word \<Rightarrow> u8 list" where
  "bytes_of n w = map (byte_of w) [0..<n]"

fun of_bytes :: "u8 list \<Rightarrow> 'a::len word" where
  "of_bytes [] = 0"
| "of_bytes (b # bs) = ucast b OR push_bit 8 (of_bytes bs)"

lemma bit_byte_of [bit_simps]:
  "bit (byte_of (w :: 'a::len word) k) i \<longleftrightarrow> i < 8 \<and> bit w (8 * k + i)"
  by (auto simp: byte_of_def bit_simps)

lemma length_bytes_of [simp]: "length (bytes_of n w) = n"
  by (simp add: bytes_of_def)

lemma nth_bytes_of [simp]: "i < n \<Longrightarrow> bytes_of n w ! i = byte_of w i"
  by (simp add: bytes_of_def)

lemma bit_of_bytes [bit_simps]:
  "bit (of_bytes bs :: 'a::len word) i \<longleftrightarrow>
     i < LENGTH('a) \<and> i div 8 < length bs \<and> bit (bs ! (i div 8)) (i mod 8)"
proof (induction bs arbitrary: i)
  case Nil
  then show ?case by simp
next
  case (Cons b bs)
  show ?case
  proof (cases "i < 8")
    case True
    then show ?thesis by (auto simp: bit_simps)
  next
    case False
    then obtain j where j: "i = j + 8" using le_Suc_ex by (metis add.commute not_less)
    have "\<not> bit b (j + 8)" using bit_imp_le_length by fastforce
    moreover have "(j + 8) div 8 = Suc (j div 8)" by simp
    ultimately show ?thesis
      using Cons.IH [of j] by (auto simp: j bit_simps dest: bit_imp_le_length)
  qed
qed

lemma of_bytes_bytes_of:
  assumes "LENGTH('a) \<le> 8 * n"
  shows "of_bytes (bytes_of n w) = (w :: 'a::len word)"
proof (rule bit_word_eqI)
  fix i assume "i < LENGTH('a)"
  with assms have "i div 8 < n" by simp
  then show "bit (of_bytes (bytes_of n w) :: 'a word) i = bit w i"
    using \<open>i < LENGTH('a)\<close> by (simp add: bit_simps)
qed

lemma bytes_of_of_bytes:
  assumes "8 * length bs \<le> LENGTH('a)"
  shows "bytes_of (length bs) (of_bytes bs :: 'a::len word) = bs"
proof (rule nth_equalityI)
  fix i assume "i < length (bytes_of (length bs) (of_bytes bs :: 'a word))"
  then have i: "i < length bs" by simp
  have "bit (byte_of (of_bytes bs :: 'a word) i) k = bit (bs ! i) k" if "k < 8" for k
  proof -
    have "8 * i + k < LENGTH('a)" using assms i that by linarith
    then show ?thesis using i that by (simp add: bit_simps)
  qed
  then show "bytes_of (length bs) (of_bytes bs :: 'a word) ! i = bs ! i"
    using i by (auto intro: bit_word_eqI)
qed simp

end
