(* ===== verification/VmPointer.thy ===== *)
theory VmPointer
  imports BitLevel
begin

unbundle bit_operations_syntax

text \<open>
  Pointers of the virtual machine (\<^verbatim>\<open>src/divine/vm/pointer.hpp\<close>) and the constants of
  \<^verbatim>\<open>src/divine/vm/divm.h\<close> they depend on. A pointer is 64 bits: an object identifier in the
  upper half, a byte offset in the lower half. The range an object identifier falls into says
  what kind of object it names.
\<close>

section \<open>Object identifier ranges\<close>

definition VM_PB_Full :: nat where "VM_PB_Full = 64"
definition VM_PB_Obj :: nat where "VM_PB_Obj = 32"
definition VM_PB_Off :: nat where "VM_PB_Off = VM_PB_Full - VM_PB_Obj"

definition VM_PL_Global :: u32 where "VM_PL_Global = 0x00080000"
definition VM_PL_Code :: u32 where "VM_PL_Code = 0x00100000"
definition VM_PL_Alloca :: u32 where "VM_PL_Alloca = 0x10000000"
definition VM_PL_Heap :: u32 where "VM_PL_Heap = 0xF0000000"
definition VM_PL_Marked :: u32 where "VM_PL_Marked = 0xF7000000"

lemmas vm_limits = VM_PL_Global_def VM_PL_Code_def VM_PL_Alloca_def VM_PL_Heap_def
  VM_PL_Marked_def

lemmas vm_widths [simp] = VM_PB_Full_def VM_PB_Obj_def VM_PB_Off_def

datatype pointer_type = PT_Global | PT_Code | PT_Alloca | PT_Heap | PT_Marked | PT_Weak

definition vm_pointer_type :: "u32 \<Rightarrow> pointer_type" where
  "vm_pointer_type objid =
     (if objid < VM_PL_Global then PT_Global
      else if objid < VM_PL_Code then PT_Code
      else if objid < VM_PL_Alloca then PT_Alloca
      else if objid < VM_PL_Heap then PT_Heap
      else if objid < VM_PL_Marked then PT_Marked
      else PT_Weak)"

text \<open>The array \<^verbatim>\<open>__vm_pointer_limits\<close>: lower and upper bound of each range.\<close>

fun vm_pointer_limits :: "pointer_type \<Rightarrow> u32 \<times> u32" where
  "vm_pointer_limits PT_Global = (0, VM_PL_Global)"
| "vm_pointer_limits PT_Code = (VM_PL_Global, VM_PL_Code)"
| "vm_pointer_limits PT_Alloca = (VM_PL_Code, VM_PL_Alloca)"
| "vm_pointer_limits PT_Heap = (VM_PL_Alloca, VM_PL_Heap)"
| "vm_pointer_limits PT_Marked = (VM_PL_Heap, VM_PL_Marked)"
| "vm_pointer_limits PT_Weak = (VM_PL_Marked, 0xFFFFFFFF)"

section \<open>Generic pointers\<close>

type_synonym gptr = u64

text \<open>The struct \<^verbatim>\<open>Rep\<close>: on a little-endian host \<^verbatim>\<open>off\<close> is the low word.\<close>

definition gp_make :: "u32 \<Rightarrow> u32 \<Rightarrow> gptr" where
  "gp_make obj off = push_bit 32 (ucast obj) OR ucast off"

definition gp_object :: "gptr \<Rightarrow> u32" where
  "gp_object p = ucast (drop_bit 32 p)"

definition gp_offset :: "gptr \<Rightarrow> u32" where
  "gp_offset p = ucast p"

definition gp_set_offset :: "u32 \<Rightarrow> gptr \<Rightarrow> gptr" where
  "gp_set_offset o' p = gp_make (gp_object p) o'"

definition gp_set_object :: "u32 \<Rightarrow> gptr \<Rightarrow> gptr" where
  "gp_set_object o' p = gp_make o' (gp_offset p)"

definition gp_null :: "gptr \<Rightarrow> bool" where
  "gp_null p \<longleftrightarrow> gp_object p = 0"

definition gp_type :: "gptr \<Rightarrow> pointer_type" where
  "gp_type p = vm_pointer_type (gp_object p)"

definition gp_heap :: "gptr \<Rightarrow> bool" where
  "gp_heap p \<longleftrightarrow> VM_PL_Code \<le> gp_object p"

text \<open>\<^verbatim>\<open>operator+( int )\<close>: the sum is taken at the width of the offset.\<close>

definition gp_plus :: "gptr \<Rightarrow> int \<Rightarrow> gptr" where
  "gp_plus p n = gp_make (gp_object p) (gp_offset p + word_of_int n)"

text \<open>\<^verbatim>\<open>operator-\<close> asserts that both pointers name one object; the difference is an \<^verbatim>\<open>int\<close>.\<close>

definition gp_minus :: "gptr \<Rightarrow> gptr \<Rightarrow> int option" where
  "gp_minus p q = asserting (gp_object q = gp_object p) (Some (sint (gp_offset p - gp_offset q)))"

definition nullPointer :: gptr where
  "nullPointer = gp_make 0 0"

section \<open>Code, slot and heap pointers\<close>

text \<open>\<^verbatim>\<open>CodePointer( ObjT f, OffT i )\<close>, with its assertion on the resulting object.\<close>

definition code_ptr :: "u32 \<Rightarrow> u32 \<Rightarrow> gptr option" where
  "code_ptr f i =
     (let p = gp_make (f OR VM_PL_Global) i in asserting (gp_object p < VM_PL_Code) (Some p))"

definition code_of_generic :: "gptr \<Rightarrow> gptr option" where
  "code_of_generic r =
     (if gp_object r \<noteq> 0 then asserting (gp_type r = PT_Code) (Some r) else Some r)"

definition code_function :: "gptr \<Rightarrow> u32" where
  "code_function p = gp_object p AND NOT VM_PL_Global"

definition code_set_function :: "u32 \<Rightarrow> gptr \<Rightarrow> gptr option" where
  "code_set_function f p =
     asserting (f < VM_PL_Global) (Some (gp_set_object (f OR VM_PL_Global) p))"

definition code_instruction :: "gptr \<Rightarrow> u32" where
  "code_instruction p = gp_offset p"

definition code_set_instruction :: "u32 \<Rightarrow> gptr \<Rightarrow> gptr" where
  "code_set_instruction i p = gp_set_offset i p"

definition code_null :: "gptr \<Rightarrow> bool" where
  "code_null p \<longleftrightarrow> code_function p = 0"

definition slot_of_generic :: "pointer_type \<Rightarrow> gptr \<Rightarrow> gptr option" where
  "slot_of_generic T r = (if \<not> gp_null r then asserting (gp_type r = T) (Some r) else Some r)"

definition heap_of_generic :: "gptr \<Rightarrow> gptr option" where
  "heap_of_generic r = (if \<not> gp_null r then asserting (gp_heap r) (Some r) else Some r)"

section \<open>Facts\<close>

lemma bit_gp_make [bit_simps]:
  "bit (gp_make obj off) i \<longleftrightarrow> (if i < 32 then bit off i else bit obj (i - 32))"
  by (auto simp: gp_make_def bit_simps dest: bit_imp_le_length)

lemma gp_object_make [simp]: "gp_object (gp_make obj off) = obj"
  by (rule bit_word_eqI) (simp add: gp_object_def bit_simps)

lemma gp_offset_make [simp]: "gp_offset (gp_make obj off) = off"
  by (rule bit_word_eqI) (simp add: gp_offset_def bit_simps)

lemma gp_make_parts [simp]: "gp_make (gp_object p) (gp_offset p) = p"
  by (rule bit_word_eqI) (auto simp: gp_object_def gp_offset_def bit_simps)

lemma gp_eqI: "gp_object p = gp_object q \<Longrightarrow> gp_offset p = gp_offset q \<Longrightarrow> p = q"
  by (metis gp_make_parts)

lemma gp_object_set_offset [simp]: "gp_object (gp_set_offset o' p) = gp_object p"
  and gp_offset_set_offset [simp]: "gp_offset (gp_set_offset o' p) = o'"
  and gp_object_set_object [simp]: "gp_object (gp_set_object o' p) = o'"
  and gp_offset_set_object [simp]: "gp_offset (gp_set_object o' p) = gp_offset p"
  by (simp_all add: gp_set_offset_def gp_set_object_def)

lemma gp_object_plus [simp]: "gp_object (gp_plus p n) = gp_object p"
  and gp_offset_plus [simp]: "gp_offset (gp_plus p n) = gp_offset p + word_of_int n"
  by (simp_all add: gp_plus_def)

lemma gp_object_null [simp]: "gp_object nullPointer = 0" "gp_offset nullPointer = 0"
  by (simp_all add: nullPointer_def)

lemma nullPointer_0: "nullPointer = 0"
  by (rule bit_word_eqI) (simp add: nullPointer_def bit_simps)

lemma vm_limits_ordered:
  "VM_PL_Global < VM_PL_Code" "VM_PL_Code < VM_PL_Alloca" "VM_PL_Alloca < VM_PL_Heap"
  "VM_PL_Heap < VM_PL_Marked"
  by (simp_all add: vm_limits)

lemma pointer_type_limits:
  assumes "o' \<noteq> - 1"
  shows "vm_pointer_type o' = T \<longleftrightarrow>
     fst (vm_pointer_limits T) \<le> o' \<and> o' < snd (vm_pointer_limits T)"
proof -
  have "(0xFFFFFFFF :: u32) = - 1" by simp
  then have "o' < 0xFFFFFFFF" using assms word_order.not_eq_extremum by metis
  then show ?thesis
    by (cases T) (auto simp: vm_pointer_type_def vm_limits word_less_nat_alt word_le_nat_alt)
qed

lemma gp_heap_iff_type: "gp_heap p \<longleftrightarrow> gp_type p \<notin> {PT_Global, PT_Code}"
  using vm_limits_ordered
  by (auto simp: gp_heap_def gp_type_def vm_pointer_type_def not_less)

lemma bit_VM_PL_Global: "bit VM_PL_Global i \<longleftrightarrow> i = 19"
proof -
  have "VM_PL_Global = push_bit 19 1"
    by (simp add: VM_PL_Global_def)
  then show ?thesis
    using bit_push_bit_iff [of 19 "1 :: u32" i] by (auto simp: bit_1_iff)
qed

lemma less_VM_PL_Global_iff: "f < VM_PL_Global \<longleftrightarrow> take_bit 19 f = f"
  by (subst word_less_exp_iff [symmetric]) (simp_all add: VM_PL_Global_def)

lemma less_VM_PL_Code_iff: "f < VM_PL_Code \<longleftrightarrow> take_bit 20 f = f"
  by (subst word_less_exp_iff [symmetric]) (simp_all add: VM_PL_Code_def)

lemma small_or_global:
  assumes "f < VM_PL_Global"
  shows "(f OR VM_PL_Global) AND NOT VM_PL_Global = f" "f OR VM_PL_Global < VM_PL_Code"
    "VM_PL_Global \<le> f OR VM_PL_Global"
proof -
  have hi: "i < 19" if "bit f i" for i
    using assms that unfolding less_VM_PL_Global_iff by (metis bit_take_bit_iff)
  show "(f OR VM_PL_Global) AND NOT VM_PL_Global = f"
    by (rule bit_word_eqI) (auto simp: bit_VM_PL_Global bit_simps dest: hi)
  show "f OR VM_PL_Global < VM_PL_Code"
    unfolding less_VM_PL_Code_iff
    by (rule bit_word_eqI) (auto simp: bit_VM_PL_Global bit_simps dest: hi)
  show "VM_PL_Global \<le> f OR VM_PL_Global"
    by (metis or.commute le_word_or2)
qed

end
