(* ===== verification/VmValue.thy ===== *)
theory VmValue
  imports VmPointer "HOL-Library.Signed_Division"
begin

unbundle bit_operations_syntax

text \<open>
  The values the virtual machine computes with (\<^verbatim>\<open>src/divine/vm/value.hpp\<close>). An integer
  carries, next to its bits, a mask of the bits that are defined, the bit offset at which it
  holds an object identifier (if it does) and a set of taints; a pointer carries one definedness
  flag for each half, a flag that it really is a pointer, and taints. The class template
  \<^verbatim>\<open>Int\<close> is modelled at \<^verbatim>\<open>is_dynamic = false\<close>, so the branches under
  \<^verbatim>\<open>if constexpr ( is_dynamic )\<close> are not part of the model. The template arguments are data
  here: \<open>'r\<close> is the width of \<^verbatim>\<open>Raw\<close> (the power of two \<^verbatim>\<open>bitvec\<close> picks), \<open>tw\<close> is
  \<^verbatim>\<open>_width\<close> and \<open>sgn\<close> is \<^verbatim>\<open>is_signed\<close>.
\<close>

section \<open>Integers: representation\<close>

type_synonym taintset = "5 word"

record 'w vint =
  iraw :: 'w
  im :: 'w
  tw :: nat
  sgn :: bool
  iptr :: nat
  itaints :: taintset

definition raw_bits :: "'r::len word vint \<Rightarrow> nat" where
  "raw_bits v = LENGTH('r)"

text \<open>The width C++ promotes \<^verbatim>\<open>Raw\<close> to before arithmetic and shifts.\<close>

definition prom_bits :: "'r::len word vint \<Rightarrow> nat" where
  "prom_bits v = max 32 LENGTH('r)"

definition isptr :: "'r::len word vint \<Rightarrow> nat" where
  "isptr v = (if tw v > VM_PB_Obj then tw v - VM_PB_Obj else 0)"

definition notptr :: "'r::len word vint \<Rightarrow> nat" where
  "notptr v = isptr v + 1"

definition int_size :: "'r::len word vint \<Rightarrow> nat" where
  "int_size v = LENGTH('r) div 8"

definition full :: "'r::len word vint \<Rightarrow> 'r word" where
  "full v = ones (tw v)"

text \<open>\<^verbatim>\<open>Int( Raw, Raw, bool )\<close> at the type of \<open>t\<close>, and the default constructor.\<close>

definition int_make :: "'r::len word vint \<Rightarrow> 'r word \<Rightarrow> 'r word \<Rightarrow> bool \<Rightarrow> 'r word vint" where
  "int_make t r m p =
     \<lparr>iraw = r, im = m, tw = tw t, sgn = sgn t,
      iptr = (if p then isptr t else notptr t), itaints = 0\<rparr>"

definition int_default :: "'r::len word vint \<Rightarrow> 'r word vint" where
  "int_default t = int_make t 0 0 False"

text \<open>\<^verbatim>\<open>explicit Int( Cooked )\<close>: all bits of \<^verbatim>\<open>Raw\<close> are defined, not only \<^verbatim>\<open>_width\<close> of them.\<close>

definition int_of_cooked :: "'r::len word vint \<Rightarrow> int \<Rightarrow> 'r word vint" where
  "int_of_cooked t i = int_make t (word_of_int i) (- 1) False"

section \<open>Integers: accessors\<close>

definition objid_at :: "'r::len word vint \<Rightarrow> nat \<Rightarrow> u32" where
  "objid_at v offset =
     (if offset > isptr v then 0
      else ucast (drop_bit offset (iraw v) AND ones VM_PB_Obj))"

definition objid :: "'r::len word vint \<Rightarrow> u32" where
  "objid v = objid_at v (iptr v)"

definition defbits :: "'r::len word vint \<Rightarrow> 'r word" where
  "defbits v = im v AND full v"

definition set_defbits :: "'r word \<Rightarrow> 'r::len word vint \<Rightarrow> 'r word vint" where
  "set_defbits b v = v\<lparr>im := b\<rparr>"

definition defined :: "'r::len word vint \<Rightarrow> bool" where
  "defined v \<longleftrightarrow> defbits v = full v"

definition set_defined :: "bool \<Rightarrow> 'r::len word vint \<Rightarrow> 'r word vint" where
  "set_defined d v = set_defbits (if d then full v else 0) v"

definition int_pointer :: "'r::len word vint \<Rightarrow> bool" where
  "int_pointer v \<longleftrightarrow> iptr v = isptr v"

definition set_int_pointer :: "bool \<Rightarrow> 'r::len word vint \<Rightarrow> 'r word vint" where
  "set_int_pointer p v = v\<lparr>iptr := (if p then isptr v else notptr v)\<rparr>"

definition raw :: "'r::len word vint \<Rightarrow> 'r word" where
  "raw v = iraw v AND full v"

definition set_raw :: "'r word \<Rightarrow> 'r::len word vint \<Rightarrow> 'r word vint" where
  "set_raw r v = v\<lparr>iraw := r AND full v\<rparr>"

text \<open>\<^verbatim>\<open>cooked()\<close> is \<^verbatim>\<open>raw()\<close> read at the C++ integer type of the same storage.\<close>

definition cooked :: "'r::len word vint \<Rightarrow> int" where
  "cooked v = (if sgn v then sint (raw v) else uint (raw v))"

definition convert :: "bool \<Rightarrow> 'r::len word vint \<Rightarrow> 'r word vint" where
  "convert want_sign v =
     (int_make (v\<lparr>sgn := want_sign\<rparr>) (iraw v) (im v) False)
       \<lparr>iptr := iptr v, itaints := itaints v\<rparr>"

definition make_signed :: "'r::len word vint \<Rightarrow> 'r word vint" where
  "make_signed = convert True"

definition make_unsigned :: "'r::len word vint \<Rightarrow> 'r word vint" where
  "make_unsigned = convert False"

section \<open>Integers: operations\<close>

text \<open>
  \<^verbatim>\<open>checkptr\<close>: the result holds a pointer only where the object identifier found in it at the
  (shifted) offset is the one the operand held. It is called on the operand \<open>a\<close> with the other
  operand \<open>b\<close> and updates \<open>r\<close>.
\<close>

definition checkptr1 :: "'r::len word vint \<Rightarrow> 'r word vint \<Rightarrow> nat \<Rightarrow> 'r word vint" where
  "checkptr1 a r offset =
     (if objid a \<noteq> 0 \<and> objid_at r offset \<noteq> 0 \<and> objid_at r offset = objid a
      then r\<lparr>iptr := offset\<rparr> else r)"

definition checkptr :: "'r::len word vint \<Rightarrow> 'r word vint \<Rightarrow> 'r word vint \<Rightarrow> nat \<Rightarrow> 'r word vint" where
  "checkptr a b r shift =
     (if tw a < VM_PB_Obj then r
      else let r' = checkptr1 a r (iptr a + shift) in checkptr1 b r' (iptr b + shift))"

definition arithmetic :: "'r::len word vint \<Rightarrow> 'r word vint \<Rightarrow> 'r word \<Rightarrow> 'r word vint" where
  "arithmetic a b r =
     (let res = int_make a r (if im a AND im b AND full a = full a then full a else 0) False;
          res = res\<lparr>itaints := itaints a OR itaints b\<rparr>
      in checkptr a b res 0)"

definition bitwise :: "'r::len word vint \<Rightarrow> 'r word \<Rightarrow> 'r word \<Rightarrow> 'r word vint \<Rightarrow> 'r word vint" where
  "bitwise a r m b =
     (let res = int_make a r ((im a AND im b) OR m) False;
          res = res\<lparr>itaints := itaints a OR itaints b\<rparr>
      in checkptr a b res 0)"

definition bool_type :: "8 word vint" where
  "bool_type = \<lparr>iraw = 0, im = 0, tw = 1, sgn = False, iptr = 1, itaints = 0\<rparr>"

definition compare :: "'r::len word vint \<Rightarrow> 'r word vint \<Rightarrow> bool \<Rightarrow> 8 word vint" where
  "compare a b v =
     (set_defined (defined a \<and> defined b) (int_of_cooked bool_type (of_bool v)))
       \<lparr>itaints := itaints a OR itaints b\<rparr>"

definition int_or :: "'r::len word vint \<Rightarrow> 'r word vint \<Rightarrow> 'r word vint" where
  "int_or a b = bitwise a (iraw a OR iraw b) ((im a AND iraw a) OR (im b AND iraw b)) b"

definition int_and :: "'r::len word vint \<Rightarrow> 'r word vint \<Rightarrow> 'r word vint" where
  "int_and a b =
     bitwise a (iraw a AND iraw b) ((im a AND NOT (iraw a)) OR (im b AND NOT (iraw b))) b"

definition int_xor :: "'r::len word vint \<Rightarrow> 'r word vint \<Rightarrow> 'r word vint" where
  "int_xor a b = bitwise a (iraw a XOR iraw b) 0 b"

definition int_not :: "'r::len word vint \<Rightarrow> 'r word vint" where
  "int_not a = a\<lparr>iraw := NOT (iraw a)\<rparr>"

text \<open>
  \<^verbatim>\<open>operator<<\<close>. Shifting by at least the width of the promoted operand is undefined in C++:
  \<open>None\<close>.
\<close>

definition int_shl :: "'r::len word vint \<Rightarrow> 's::len word vint \<Rightarrow> 'r word vint option" where
  "int_shl a sh =
     (let res = (int_make a 0 0 False)\<lparr>itaints := itaints a OR itaints sh\<rparr>
      in if \<not> defined sh then Some res
         else let k = nat (cooked sh)
              in asserting (k < prom_bits a)
                   (Some (checkptr a (int_default a)
                      (res\<lparr>iraw := push_bit k (raw a), im := push_bit k (im a) OR ones k\<rparr>) k)))"

text \<open>
  \<^verbatim>\<open>operator>>\<close>. Here the object identifier moves to a lower offset; where the offset would be
  negative the C++ code shifts by a negative amount (in \<^verbatim>\<open>objid( int )\<close>), which is undefined:
  \<open>None\<close>. The second operand of \<^verbatim>\<open>checkptr\<close> is the default integer, which holds no object.
\<close>

definition int_shr :: "'r::len word vint \<Rightarrow> 's::len word vint \<Rightarrow> 'r word vint option" where
  "int_shr a sh =
     (let res = (int_make a 0 0 False)\<lparr>itaints := itaints a OR itaints sh\<rparr>
      in if \<not> defined sh then Some res
         else let k = unat (iraw sh); bits = raw_bits a; kc = nat (cooked sh);
                  m = drop_bit k (im a);
                  m = (if \<not> sgn a \<or> drop_bit (bits - 1) (im a) \<noteq> 0
                       then (if bits \<le> k then ones bits else m OR NOT (ones (bits - k)))
                       else m);
                  res = res\<lparr>im := m, iraw := word_of_int (drop_bit kc (cooked a))\<rparr>
              in asserting (k < prom_bits a \<and> kc < prom_bits a)
                   (if tw a < VM_PB_Obj \<or> objid a = 0 then Some res
                    else asserting (kc \<le> iptr a) (Some (checkptr1 a res (iptr a - kc)))))"

text \<open>
  The arithmetic operators of the macro \<^verbatim>\<open>OP\<close>. Both operands are promoted: to \<^verbatim>\<open>int\<close> where
  \<^verbatim>\<open>Raw\<close> is narrower than 32 bits, else they keep their type. A signed result out of range and
  a division by zero are undefined: \<open>None\<close>.
\<close>

definition prom_result :: "'r::len word vint \<Rightarrow> int \<Rightarrow> 'r word option" where
  "prom_result a r =
     (let w = prom_bits a
      in asserting (sgn a \<or> raw_bits a < 32 \<longrightarrow> - (2 ^ (w - 1)) \<le> r \<and> r < 2 ^ (w - 1))
           (Some (word_of_int r)))"

definition int_add :: "'r::len word vint \<Rightarrow> 'r word vint \<Rightarrow> 'r word vint option" where
  "int_add a b = map_option (arithmetic a b) (prom_result a (cooked a + cooked b))"

definition int_sub :: "'r::len word vint \<Rightarrow> 'r word vint \<Rightarrow> 'r word vint option" where
  "int_sub a b = map_option (arithmetic a b) (prom_result a (cooked a - cooked b))"

definition int_mul :: "'r::len word vint \<Rightarrow> 'r word vint \<Rightarrow> 'r word vint option" where
  "int_mul a b = map_option (arithmetic a b) (prom_result a (cooked a * cooked b))"

definition int_div :: "'r::len word vint \<Rightarrow> 'r word vint \<Rightarrow> 'r word vint option" where
  "int_div a b =
     asserting (cooked b \<noteq> 0)
       (map_option (arithmetic a b) (prom_result a (cooked a sdiv cooked b)))"

definition int_rem :: "'r::len word vint \<Rightarrow> 'r word vint \<Rightarrow> 'r word vint option" where
  "int_rem a b =
     asserting (cooked b \<noteq> 0 \<and> prom_result a (cooked a sdiv cooked b) \<noteq> None)
       (map_option (arithmetic a b) (prom_result a (cooked a smod cooked b)))"

definition int_eq :: "'r::len word vint \<Rightarrow> 'r word vint \<Rightarrow> 8 word vint" where
  "int_eq a b = compare a b (cooked a = cooked b)"

definition int_ne :: "'r::len word vint \<Rightarrow> 'r word vint \<Rightarrow> 8 word vint" where
  "int_ne a b = compare a b (cooked a \<noteq> cooked b)"

definition int_lt :: "'r::len word vint \<Rightarrow> 'r word vint \<Rightarrow> 8 word vint" where
  "int_lt a b = compare a b (cooked a < cooked b)"

definition int_le :: "'r::len word vint \<Rightarrow> 'r word vint \<Rightarrow> 8 word vint" where
  "int_le a b = compare a b (cooked a \<le> cooked b)"

definition int_gt :: "'r::len word vint \<Rightarrow> 'r word vint \<Rightarrow> 8 word vint" where
  "int_gt a b = compare a b (cooked a > cooked b)"

definition int_ge :: "'r::len word vint \<Rightarrow> 'r word vint \<Rightarrow> 8 word vint" where
  "int_ge a b = compare a b (cooked a \<ge> cooked b)"

section \<open>Width conversion\<close>

definition signbit :: "nat \<Rightarrow> 's::len word vint \<Rightarrow> 'r::len word" where
  "signbit w i = (if tw i \<le> w then push_bit (tw i - 1) 1 else 0)"

text \<open>
  The converting constructor \<^verbatim>\<open>Int( Int< w, is_signed, dyn > i )\<close> to the type of \<open>t\<close>. The
  comparison with \<^verbatim>\<open>width() - _VM_PB_Obj\<close> is on signed integers.
\<close>

definition int_conv :: "'r::len word vint \<Rightarrow> 's::len word vint \<Rightarrow> 'r word vint" where
  "int_conv t i =
     (let m = ucast (im i);
          m = (if tw t > tw i \<and> (\<not> sgn t \<or> m AND signbit (tw t) i \<noteq> 0)
               then m OR (ones (tw t) AND NOT (ones (tw i))) else m);
          p = (if int (iptr i) > int (tw t) - int VM_PB_Obj then notptr t else iptr i);
          r = (if sgn t
               then word_of_int (if tw i = 1 \<and> cooked i \<noteq> 0 then - 1 else cooked i)
               else ucast (iraw i))
      in (int_make t r m False)\<lparr>iptr := p, itaints := itaints i\<rparr>)"

section \<open>Pointers\<close>

record vptr =
  pcooked :: gptr
  obj_defined :: bool
  off_defined :: bool
  ispointer :: bool
  ptaints :: taintset

definition PointerBytes :: nat where
  "PointerBytes = VM_PB_Full div 8"

text \<open>\<^verbatim>\<open>explicit Pointer( Cooked x, bool d, bool isptr )\<close>\<close>

definition ptr_make :: "gptr \<Rightarrow> bool \<Rightarrow> bool \<Rightarrow> vptr" where
  "ptr_make x d p =
     \<lparr>pcooked = x, obj_defined = d, off_defined = d, ispointer = p, ptaints = 0\<rparr>"

definition ptr_default :: vptr where
  "ptr_default = ptr_make nullPointer False False"

definition ptr_raw :: "vptr \<Rightarrow> u64" where
  "ptr_raw p = pcooked p"

definition ptr_set_raw :: "u64 \<Rightarrow> vptr \<Rightarrow> vptr" where
  "ptr_set_raw r p = p\<lparr>pcooked := r\<rparr>"

definition ptr_defined :: "vptr \<Rightarrow> bool" where
  "ptr_defined p \<longleftrightarrow> obj_defined p \<and> off_defined p"

definition ptr_set_defined :: "bool \<Rightarrow> vptr \<Rightarrow> vptr" where
  "ptr_set_defined d p = p\<lparr>obj_defined := d, off_defined := d\<rparr>"

definition ptr_defbits :: "vptr \<Rightarrow> u64" where
  "ptr_defbits p = (if ptr_defined p then - 1 else 0)"

definition ptr_set_defbits :: "u64 \<Rightarrow> vptr \<Rightarrow> vptr" where
  "ptr_set_defbits r p = p\<lparr>obj_defined := (r = - 1), off_defined := (r = - 1)\<rparr>"

definition ptr_objid :: "vptr \<Rightarrow> u32" where
  "ptr_objid p = gp_object (pcooked p)"

definition ptr_objid_offset :: "vptr \<Rightarrow> nat" where
  "ptr_objid_offset p = 32"

definition ptr_compare :: "vptr \<Rightarrow> vptr \<Rightarrow> bool \<Rightarrow> 8 word vint" where
  "ptr_compare a b v =
     (set_defined (ptr_defined a \<and> ptr_defined b) (int_of_cooked bool_type (of_bool v)))
       \<lparr>itaints := ptaints a OR ptaints b\<rparr>"

text \<open>
  \<^verbatim>\<open>operator+( int off )\<close>: every branch of \<^verbatim>\<open>withType\<close> applies the same lambda, which moves the
  offset; the conversions to \<^verbatim>\<open>GlobalPointer\<close>, \<^verbatim>\<open>HeapPointer\<close> and \<^verbatim>\<open>CodePointer\<close> are taken
  exactly where their assertions hold.
\<close>

definition ptr_plus :: "vptr \<Rightarrow> int \<Rightarrow> vptr" where
  "ptr_plus p n = p\<lparr>pcooked := gp_set_offset (gp_offset (pcooked p) + word_of_int n) (pcooked p)\<rparr>"

text \<open>\<^verbatim>\<open>IntPtr\<close> is \<^verbatim>\<open>Int< _VM_PB_Full, false >\<close>.\<close>

definition intptr_type :: "64 word vint" where
  "intptr_type = \<lparr>iraw = 0, im = 0, tw = VM_PB_Full, sgn = False, iptr = 33, itaints = 0\<rparr>"

text \<open>\<^verbatim>\<open>operator Int< w, s >()\<close>: through \<^verbatim>\<open>IntPtr\<close>, then by the converting constructor.\<close>

definition intptr_of_ptr :: "vptr \<Rightarrow> 64 word vint" where
  "intptr_of_ptr p =
     (int_make intptr_type (ptr_raw p) (ptr_defbits p) True)\<lparr>itaints := ptaints p\<rparr>"

definition int_of_ptr :: "'r::len word vint \<Rightarrow> vptr \<Rightarrow> 'r word vint" where
  "int_of_ptr t p = int_conv t (intptr_of_ptr p)"

text \<open>
  \<^verbatim>\<open>explicit Pointer( Int< w, s > i )\<close>. The condition compares the width in bits with
  \<^verbatim>\<open>PointerBytes\<close>, a number of bytes.
\<close>

definition ptr_of_int :: "'r::len word vint \<Rightarrow> vptr" where
  "ptr_of_int i =
     (if PointerBytes \<le> tw i
      then \<lparr>pcooked = ucast (raw i), obj_defined = defined i, off_defined = defined i,
            ispointer = int_pointer i, ptaints = itaints i\<rparr>
      else \<lparr>pcooked = nullPointer, obj_defined = False, off_defined = False,
            ispointer = False, ptaints = itaints i\<rparr>)"

text \<open>\<^verbatim>\<open>operator+( Int< w, true > off )\<close>, at \<^verbatim>\<open>w = 64\<close>, the width the sum is defined for.\<close>

definition ptr_plus_int :: "vptr \<Rightarrow> 64 word vint \<Rightarrow> vptr option" where
  "ptr_plus_int p off = map_option ptr_of_int (int_add (intptr_of_ptr p) (make_unsigned off))"

end
