(* ===== verification/VmValueFacts.thy ===== *)
theory VmValueFacts
  imports VmValue
begin

unbundle bit_operations_syntax

text \<open>
  What the value layer promises. Definedness: a result bit is marked defined only if it does
  not depend on any undefined operand bit (for the bitwise operators: exactly then).
  Provenance: no operation produces an object identifier neither operand had. Taints: every
  result carries the union of the operands' taints.
\<close>

section \<open>Projections\<close>

lemma checkptr1_fields [simp]:
  "iraw (checkptr1 a r k) = iraw r" "im (checkptr1 a r k) = im r"
  "tw (checkptr1 a r k) = tw r" "sgn (checkptr1 a r k) = sgn r"
  "itaints (checkptr1 a r k) = itaints r"
  by (simp_all add: checkptr1_def)

lemma checkptr_fields [simp]:
  "iraw (checkptr a b r k) = iraw r" "im (checkptr a b r k) = im r"
  "tw (checkptr a b r k) = tw r" "sgn (checkptr a b r k) = sgn r"
  "itaints (checkptr a b r k) = itaints r"
  by (simp_all add: checkptr_def Let_def)

lemma int_make_fields [simp]:
  "iraw (int_make t r m p) = r" "im (int_make t r m p) = m" "tw (int_make t r m p) = tw t"
  "sgn (int_make t r m p) = sgn t" "itaints (int_make t r m p) = 0"
  by (simp_all add: int_make_def)

lemma arithmetic_fields [simp]:
  "iraw (arithmetic a b r) = r"
  "im (arithmetic a b r) = (if im a AND im b AND full a = full a then full a else 0)"
  "tw (arithmetic a b r) = tw a" "sgn (arithmetic a b r) = sgn a"
  "itaints (arithmetic a b r) = itaints a OR itaints b"
  by (simp_all add: arithmetic_def Let_def)

lemma bitwise_fields [simp]:
  "iraw (bitwise a r m b) = r" "im (bitwise a r m b) = im a AND im b OR m"
  "tw (bitwise a r m b) = tw a" "sgn (bitwise a r m b) = sgn a"
  "itaints (bitwise a r m b) = itaints a OR itaints b"
  by (simp_all add: bitwise_def Let_def)

lemma isptr_cong: "tw v = tw w \<Longrightarrow> isptr v = isptr w"
  by (simp add: isptr_def)

section \<open>Definedness\<close>

text \<open>
  Two integers of one type that agree on every defined bit: what the program may observe of
  both is the same, only undefined bits differ.
\<close>

definition agree :: "'r::len word vint \<Rightarrow> 'r word vint \<Rightarrow> bool" where
  "agree v w \<longleftrightarrow> tw v = tw w \<and> sgn v = sgn w \<and> im v = im w \<and> (iraw v XOR iraw w) AND im v = 0"

lemma agree_iff:
  fixes v w :: "'r::len word vint"
  shows "agree v w \<longleftrightarrow> tw v = tw w \<and> sgn v = sgn w \<and> im v = im w \<and>
     (\<forall>i < LENGTH('r). bit (im v) i \<longrightarrow> bit (iraw v) i = bit (iraw w) i)"
  by (simp add: agree_def word_eq_on_mask_iff)

lemma agree_refl [simp]: "agree v v"
  by (simp add: agree_def)

lemma agreeD:
  "agree v w \<Longrightarrow> bit (im v) i \<Longrightarrow> bit (iraw v) i = bit (iraw w) i"
  by (auto simp: agree_iff dest: bit_imp_le_length)

lemma agree_im: "agree v w \<Longrightarrow> im w = im v"
  by (simp add: agree_def)

text \<open>Flipping an undefined bit gives an agreeing integer.\<close>

definition flip_at :: "nat \<Rightarrow> 'r::len word vint \<Rightarrow> 'r word vint" where
  "flip_at i v = v\<lparr>iraw := flip_bit i (iraw v)\<rparr>"

lemma agree_flip: "\<not> bit (im v) i \<Longrightarrow> agree v (flip_at i v)"
  by (auto simp: agree_iff flip_at_def bit_simps)

lemma bit_flip_at:
  "i < LENGTH('r) \<Longrightarrow> bit (iraw (flip_at i (v :: 'r::len word vint))) i \<longleftrightarrow> \<not> bit (iraw v) i"
  by (auto simp: flip_at_def bit_simps)

definition exact_op :: "('r::len word vint \<Rightarrow> 'r word vint \<Rightarrow> 'r word vint) \<Rightarrow> 'r word vint \<Rightarrow> 'r word vint \<Rightarrow> bool" where
  "exact_op f a b \<longleftrightarrow> (\<forall>i < LENGTH('r). bit (im (f a b)) i \<longleftrightarrow>
     (\<forall>a' b'. agree a a' \<longrightarrow> agree b b' \<longrightarrow> bit (iraw (f a' b')) i = bit (iraw (f a b)) i))"

lemma exact_opI:
  fixes a b :: "'r::len word vint"
  assumes "\<And>i a' b'. \<lbrakk>i < LENGTH('r); bit (im (f a b)) i; agree a a'; agree b b'\<rbrakk>
    \<Longrightarrow> bit (iraw (f a' b')) i = bit (iraw (f a b)) i"
    and "\<And>i. \<lbrakk>i < LENGTH('r); \<not> bit (im (f a b)) i\<rbrakk> \<Longrightarrow>
      (\<not> bit (im a) i \<and> bit (iraw (f (flip_at i a) b)) i \<noteq> bit (iraw (f a b)) i) \<or>
      (\<not> bit (im b) i \<and> bit (iraw (f a (flip_at i b))) i \<noteq> bit (iraw (f a b)) i) \<or>
      (\<not> bit (im a) i \<and> \<not> bit (im b) i \<and>
         bit (iraw (f (flip_at i a) (flip_at i b))) i \<noteq> bit (iraw (f a b)) i)"
  shows "exact_op f a b"
  unfolding exact_op_def
proof (intro allI impI)
  fix i assume i: "i < LENGTH('r)"
  show "bit (im (f a b)) i \<longleftrightarrow>
    (\<forall>a' b'. agree a a' \<longrightarrow> agree b b' \<longrightarrow> bit (iraw (f a' b')) i = bit (iraw (f a b)) i)"
    (is "_ \<longleftrightarrow> ?inv")
  proof
    assume ?inv
    then show "bit (im (f a b)) i"
      using assms(2) [OF i] by (meson agree_flip agree_refl)
  next
    assume "bit (im (f a b)) i"
    with i show ?inv by - (intro allI impI, rule assms(1), assumption+)
  qed
qed

lemma int_and_exact: "exact_op int_and a b"
proof (rule exact_opI, goal_cases)
  case (1 i a' b')
  then show ?case
    by (auto simp: int_and_def bit_simps dest: agreeD)
next
  case (2 i)
  then show ?case
    by (auto simp: int_and_def bit_simps bit_flip_at)
qed

lemma int_or_exact: "exact_op int_or a b"
proof (rule exact_opI, goal_cases)
  case (1 i a' b')
  then show ?case
    by (auto simp: int_or_def bit_simps dest: agreeD)
next
  case (2 i)
  then show ?case
    by (auto simp: int_or_def bit_simps bit_flip_at)
qed

lemma int_xor_exact: "exact_op int_xor a b"
proof (rule exact_opI, goal_cases)
  case (1 i a' b')
  then show ?case
    by (auto simp: int_xor_def bit_simps dest: agreeD)
next
  case (2 i)
  then show ?case
    by (auto simp: int_xor_def bit_simps bit_flip_at)
qed

section \<open>Shifts\<close>

text \<open>Full-width integers: \<^verbatim>\<open>_width\<close> is the width of the storage, as for i8, i16, i32, i64.\<close>

definition full_width :: "'r::len word vint \<Rightarrow> bool" where
  "full_width v \<longleftrightarrow> tw v = LENGTH('r)"

lemma full_full_width: "full_width v \<Longrightarrow> full v = - 1"
  by (simp add: full_def full_width_def)

lemma raw_full_width: "full_width v \<Longrightarrow> raw v = iraw v"
  by (simp add: raw_def full_full_width)

lemma cooked_full_width: "full_width v \<Longrightarrow> cooked v = (if sgn v then sint (iraw v) else uint (iraw v))"
  by (simp add: cooked_def raw_full_width)

lemma agree_full_width: "agree v w \<Longrightarrow> full_width v \<Longrightarrow> full_width w"
  by (simp add: agree_def full_width_def)

lemma int_shl_Some:
  fixes a :: "'r::len word vint" and sh :: "'s::len word vint"
  assumes "int_shl a sh = Some r" "defined sh"
  shows "iraw r = push_bit (nat (cooked sh)) (raw a)"
    "im r = push_bit (nat (cooked sh)) (im a) OR ones (nat (cooked sh))"
    "itaints r = itaints a OR itaints sh" "tw r = tw a" "sgn r = sgn a"
  using assms by (auto simp: int_shl_def Let_def split: if_splits)

lemma int_shl_sound:
  fixes a :: "'r::len word vint" and sh :: "'s::len word vint"
  assumes "int_shl a sh = Some r" "int_shl a' sh = Some r'" "agree a a'" "full_width a"
  shows "agree r r'"
proof (cases "defined sh")
  case False
  with assms show ?thesis
    by (auto simp: int_shl_def agree_def)
next
  case True
  note r = int_shl_Some [OF assms(1) True] and r' = int_shl_Some [OF assms(2) True]
  have "raw a = iraw a" "raw a' = iraw a'"
    using assms by (simp_all add: raw_full_width agree_full_width)
  then show ?thesis
    using assms(3) by (auto simp: agree_iff r r' bit_simps)
qed

lemma drop_sign_bit:
  "drop_bit (LENGTH('r) - 1) (w :: 'r::len word) \<noteq> 0 \<longleftrightarrow> bit w (LENGTH('r) - 1)"
proof -
  have "drop_bit (LENGTH('r) - 1) w \<noteq> 0 \<longleftrightarrow> (\<exists>i < LENGTH('r). bit w (LENGTH('r) - 1 + i))"
    by (auto simp: bit_eq_iff bit_simps)
  also have "\<dots> \<longleftrightarrow> bit w (LENGTH('r) - 1)"
  proof
    assume "\<exists>i < LENGTH('r). bit w (LENGTH('r) - 1 + i)"
    then obtain i where i: "bit w (LENGTH('r) - 1 + i)" by blast
    then have "LENGTH('r) - 1 + i < LENGTH('r)" by (rule bit_imp_le_length)
    then have "i = 0" by simp
    with i show "bit w (LENGTH('r) - 1)" by simp
  qed (auto intro!: exI [of _ 0])
  finally show ?thesis .
qed

lemma bit_word_of_int_drop_sint:
  fixes w :: "'r::len word"
  shows "bit (word_of_int (drop_bit k (sint w)) :: 'r word) i \<longleftrightarrow>
     i < LENGTH('r) \<and> bit w (min (i + k) (LENGTH('r) - 1))"
  by (cases "i + k = LENGTH('r) - 1") (auto simp: bit_simps bit_sint_iff min_def add.commute)

lemma bit_word_of_int_drop_uint:
  fixes w :: "'r::len word"
  shows "bit (word_of_int (drop_bit k (uint w)) :: 'r word) i \<longleftrightarrow> i < LENGTH('r) \<and> bit w (i + k)"
  by (auto simp: bit_simps add.commute)

lemma int_shr_Some:
  fixes a :: "'r::len word vint" and sh :: "'s::len word vint"
  assumes "int_shr a sh = Some r" "defined sh" "full_width a" "full_width sh" "\<not> sgn sh"
  defines "k \<equiv> unat (iraw sh)"
  shows "bit (iraw r) i \<longleftrightarrow> i < LENGTH('r) \<and>
           bit (iraw a) (if sgn a then min (i + k) (LENGTH('r) - 1) else i + k)"
    "bit (im r) i \<longleftrightarrow> i < LENGTH('r) \<and>
       (bit (im a) (i + k) \<or>
        (LENGTH('r) \<le> i + k \<and> (sgn a \<longrightarrow> bit (im a) (LENGTH('r) - 1))))"
    "itaints r = itaints a OR itaints sh" "tw r = tw a" "sgn r = sgn a"
proof -
  have kc: "nat (cooked sh) = k"
    using assms by (simp add: cooked_full_width)
  have r: "iraw r = word_of_int (drop_bit k (cooked a)) \<and>
     im r = (if \<not> sgn a \<or> bit (im a) (LENGTH('r) - 1)
             then (if LENGTH('r) \<le> k then ones LENGTH('r)
                   else drop_bit k (im a) OR NOT (ones (LENGTH('r) - k)))
             else drop_bit k (im a)) \<and>
     itaints r = itaints a OR itaints sh \<and> tw r = tw a \<and> sgn r = sgn a"
    using assms(1,2)
    unfolding int_shr_def Let_def kc drop_sign_bit raw_bits_def k_def [symmetric]
    by (auto split: if_splits)
  then show "itaints r = itaints a OR itaints sh" "tw r = tw a" "sgn r = sgn a"
    by simp_all
  show "bit (iraw r) i \<longleftrightarrow> i < LENGTH('r) \<and>
           bit (iraw a) (if sgn a then min (i + k) (LENGTH('r) - 1) else i + k)"
    using r cooked_full_width [OF assms(3)]
    by (simp add: bit_word_of_int_drop_sint bit_word_of_int_drop_uint)
  show "bit (im r) i \<longleftrightarrow> i < LENGTH('r) \<and>
       (bit (im a) (i + k) \<or>
        (LENGTH('r) \<le> i + k \<and> (sgn a \<longrightarrow> bit (im a) (LENGTH('r) - 1))))"
    using r by (auto simp: bit_simps add.commute dest: bit_imp_le_length)
qed

lemma int_shr_undefined_shift:
  "int_shr a sh = Some r \<Longrightarrow> \<not> defined sh \<Longrightarrow> im r = 0 \<and> iraw r = 0 \<and> tw r = tw a \<and> sgn r = sgn a"
  by (auto simp: int_shr_def Let_def)

lemma int_shr_sound:
  fixes a :: "'r::len word vint" and sh :: "'s::len word vint"
  assumes "int_shr a sh = Some r" "int_shr a' sh = Some r'" "agree a a'"
    and "full_width a" "full_width sh" "\<not> sgn sh"
  shows "agree r r'"
proof (cases "defined sh")
  case False
  then show ?thesis
    using assms(3) int_shr_undefined_shift [OF assms(1)] int_shr_undefined_shift [OF assms(2)]
    by (simp add: agree_def)
next
  case True
  note r = int_shr_Some [OF assms(1) True assms(4-6)]
    and r' = int_shr_Some [OF assms(2) True agree_full_width [OF assms(3,4)] assms(5,6)]
  have "im r = im r'"
    using assms(3) by (intro bit_word_eqI) (auto simp: r r' agree_iff)
  moreover have "bit (iraw r) i = bit (iraw r') i" if "bit (im r) i" for i
    using that assms(3) agreeD [OF assms(3)]
    by (auto simp: r r' agree_iff min_def dest: bit_imp_le_length)
  ultimately show ?thesis
    using assms(3) by (simp add: agree_iff r r')
qed

section \<open>Provenance\<close>

lemma objid_make [simp]: "objid (int_make t r m False) = 0"
  by (simp add: objid_def objid_at_def int_make_def notptr_def isptr_def)

lemma objid_default [simp]: "objid (int_default t) = 0"
  by (simp add: int_default_def)

lemma objid_update [simp]:
  "objid (v\<lparr>itaints := t\<rparr>) = objid v" "objid (v\<lparr>im := m\<rparr>) = objid v"
  by (simp_all add: objid_def objid_at_def isptr_def)

lemma objid_iptr_update: "objid (v\<lparr>iptr := k\<rparr>) = objid_at v k"
  by (simp add: objid_def objid_at_def isptr_def)

text \<open>A result that holds no pointer yet gains one only with an operand's object identifier.\<close>

lemma objid_checkptr1: "objid (checkptr1 a r k) = objid r \<or> objid (checkptr1 a r k) = objid a"
  by (simp add: checkptr1_def objid_iptr_update)

lemma objid_checkptr1_eq:
  "objid (checkptr1 a r k) = (if objid a \<noteq> 0 \<and> objid_at r k = objid a then objid a else objid r)"
  by (auto simp: checkptr1_def objid_iptr_update)

lemma objid_literal:
  "objid \<lparr>iraw = r, im = m, tw = tw a, sgn = s, iptr = notptr a, itaints = t\<rparr> = 0"
  by (simp add: objid_def objid_at_def notptr_def isptr_def)

lemma objid_checkptr:
  "objid r = 0 \<Longrightarrow> objid (checkptr a b r k) \<in> {0, objid a, objid b}"
  using objid_checkptr1 [of a r "iptr a + k"]
    objid_checkptr1 [of b "checkptr1 a r (iptr a + k)" "iptr b + k"]
  by (auto simp: checkptr_def Let_def)

lemma objid_arithmetic: "objid (arithmetic a b r) \<in> {0, objid a, objid b}"
  unfolding arithmetic_def Let_def by (rule objid_checkptr) simp

lemma objid_bitwise: "objid (bitwise a r m b) \<in> {0, objid a, objid b}"
  unfolding bitwise_def Let_def by (rule objid_checkptr) simp

lemma objid_int_shl:
  assumes "int_shl a sh = Some r"
  shows "objid r \<in> {0, objid a}"
proof (cases "defined sh")
  case False
  with assms show ?thesis by (auto simp: int_shl_def Let_def)
next
  case True
  let ?k = "nat (cooked sh)"
  let ?r = "(int_make a (push_bit ?k (raw a)) (push_bit ?k (im a) OR ones ?k) False)
    \<lparr>itaints := itaints a OR itaints sh\<rparr>"
  have "r = checkptr a (int_default a) ?r ?k"
    using assms True by (auto simp: int_shl_def Let_def int_make_def split: if_splits)
  moreover have "objid (checkptr a (int_default a) ?r ?k) \<in> {0, objid a, objid (int_default a)}"
    by (rule objid_checkptr) simp
  ultimately show ?thesis by auto
qed

lemma objid_int_shr:
  assumes "int_shr a sh = Some r"
  shows "objid r \<in> {0, objid a}"
  using assms
  by (auto simp: int_shr_def Let_def int_make_def objid_checkptr1_eq objid_literal split: if_splits)

text \<open>The complement keeps the place of the object identifier and complements the identifier.\<close>

lemma objid_int_not:
  fixes a :: "'r::len word vint"
  assumes "VM_PB_Obj \<le> tw a" "tw a \<le> LENGTH('r)"
  shows "objid (int_not a) = (if iptr a \<le> isptr a then NOT (objid a) else 0)"
proof (cases "iptr a \<le> isptr a")
  case True
  then have fits: "iptr a + 32 \<le> LENGTH('r)" using assms by (auto simp: isptr_def VM_PB_Obj_def split: if_splits)
  have "objid (int_not a) = NOT (objid a)"
  proof (rule bit_word_eqI)
    fix n assume "n < LENGTH(32)"
    then show "bit (objid (int_not a)) n = bit (NOT (objid a)) n"
      using True fits
      by (simp add: objid_def objid_at_def int_not_def isptr_def bit_simps ones_eq_mask)
        (auto simp: VM_PB_Obj_def)
  qed
  then show ?thesis using True by simp
next
  case False
  moreover have "isptr (int_not a) = isptr a" "iptr (int_not a) = iptr a" by (simp_all add: int_not_def isptr_def)
  ultimately show ?thesis by (simp add: objid_def objid_at_def)
qed

lemma int_arith_result:
  assumes "int_add a b = Some r \<or> int_sub a b = Some r \<or> int_mul a b = Some r \<or>
    int_div a b = Some r \<or> int_rem a b = Some r"
  obtains w where "r = arithmetic a b w"
  using assms
  by (auto simp: int_add_def int_sub_def int_mul_def int_div_def int_rem_def split: if_splits)

section \<open>Arithmetic\<close>

lemma defined_iff: "defined v \<longleftrightarrow> (\<forall>i < tw v. i < LENGTH('r) \<longrightarrow> bit (im v) i)"
  for v :: "'r::len word vint"
  by (auto simp: defined_def defbits_def full_def bit_eq_iff bit_simps)

lemma defined_arithmetic:
  fixes a b :: "'r::len word vint"
  assumes "0 < tw a" "tw b = tw a"
  shows "defined (arithmetic a b r) \<longleftrightarrow> defined a \<and> defined b"
    "\<not> (defined a \<and> defined b) \<Longrightarrow> defbits (arithmetic a b r) = 0"
proof -
  have both: "im a AND im b AND full a = full a \<longleftrightarrow> defined a \<and> defined b"
    using assms(2)
    by (auto simp: defined_def defbits_def full_def word_eq_iff bit_simps)
  have "ones (tw a) \<noteq> (0 :: 'r word)"
    using assms(1) by (auto simp: bit_eq_iff bit_simps intro!: exI [of _ 0])
  then show "defined (arithmetic a b r) \<longleftrightarrow> defined a \<and> defined b"
    using both unfolding defined_def [of "arithmetic a b r"] defbits_def full_def arithmetic_fields
    by auto
  show "\<not> (defined a \<and> defined b) \<Longrightarrow> defbits (arithmetic a b r) = 0"
    unfolding defbits_def arithmetic_fields both by auto
qed

lemma compare_fields:
  "defined (compare a b v) \<longleftrightarrow> defined a \<and> defined b"
  "itaints (compare a b v) = itaints a OR itaints b"
  "raw (compare a b v) = of_bool v" "cooked (compare a b v) = of_bool v"
proof -
  have f: "full (compare a b v) = 1"
    by (rule bit_word_eqI)
      (auto simp: full_def compare_def set_defined_def set_defbits_def int_of_cooked_def
        bool_type_def bit_simps bit_1_iff)
  have m: "im (compare a b v) = (if defined a \<and> defined b then ones 1 else 0)"
    and i: "iraw (compare a b v) = of_bool v" "\<not> sgn (compare a b v)"
    by (simp_all add: compare_def set_defined_def set_defbits_def int_of_cooked_def
        bool_type_def full_def)
  have one: "ones 1 = (1 :: 8 word)"
    by (rule bit_word_eqI) (auto simp: bit_simps bit_1_iff)
  then have "ones (Suc 0) = (1 :: 8 word)" by simp
  note one = one this
  show "defined (compare a b v) \<longleftrightarrow> defined a \<and> defined b"
    by (simp add: defined_def defbits_def f m one)
  show "itaints (compare a b v) = itaints a OR itaints b"
    by (simp add: compare_def)
  show r: "raw (compare a b v) = of_bool v"
    by (simp add: raw_def f i)
  show "cooked (compare a b v) = of_bool v"
    by (simp add: cooked_def r i)
qed

section \<open>Width conversion\<close>

text \<open>
  The integers the interpreter stores: full-width ones, and \<^verbatim>\<open>Int< 1 >\<close> with nothing above its
  only bit.
\<close>

definition canonical :: "'r::len word vint \<Rightarrow> bool" where
  "canonical v \<longleftrightarrow> full_width v \<or>
     tw v = 1 \<and> iraw v AND NOT (full v) = 0 \<and> im v AND NOT (full v) = 0"

lemma canonical_bits:
  fixes v :: "'r::len word vint"
  assumes "canonical v"
  shows "0 < tw v" "tw v \<le> LENGTH('r)"
    "bit (iraw v) i \<Longrightarrow> i < tw v" "bit (im v) i \<Longrightarrow> i < tw v"
proof -
  have le: "Suc 0 \<le> LENGTH('r)" using len_gt_0 [where 'a = 'r] by linarith
  show "0 < tw v" "tw v \<le> LENGTH('r)"
    using assms le by (auto simp: canonical_def full_width_def)
  have *: "w AND NOT (ones (Suc 0)) = 0 \<Longrightarrow> bit w i \<Longrightarrow> i = 0" for w :: "'r word"
    using bit_imp_le_length [of w i] by (auto simp: word_eq_iff bit_simps)
  show "bit (iraw v) i \<Longrightarrow> i < tw v" "bit (im v) i \<Longrightarrow> i < tw v"
    using assms by (auto simp: canonical_def full_width_def full_def dest: * bit_imp_le_length)
qed

lemma raw_canonical: "canonical v \<Longrightarrow> raw v = iraw v"
  by (auto simp: raw_def full_def bit_eq_iff bit_simps dest: canonical_bits)

lemma bit_im_conv:
  fixes t :: "'r::len word vint" and i :: "'s::len word vint"
  assumes "canonical i" "tw t \<le> LENGTH('r)"
  shows "bit (im (int_conv t i)) j \<longleftrightarrow> j < LENGTH('r) \<and>
    (bit (im i) j \<or> (tw i \<le> j \<and> j < tw t \<and> (sgn t \<longrightarrow> bit (im i) (tw i - 1))))"
proof -
  have s: "ucast (im i) AND signbit (tw t) i \<noteq> (0 :: 'r word) \<longleftrightarrow> bit (im i) (tw i - 1)"
    if "tw i < tw t"
  proof -
    have "ucast (im i) AND signbit (tw t) i \<noteq> (0 :: 'r word) \<longleftrightarrow>
        (\<exists>n. n < LENGTH('r) \<and> bit (im i) n \<and> n = tw i - 1)"
      using that by (auto simp: bit_eq_iff bit_simps signbit_def bit_1_iff)
    then show ?thesis using that assms canonical_bits(1) [OF assms(1)] by auto
  qed
  show ?thesis
    using assms s by (auto simp: int_conv_def Let_def bit_simps dest: canonical_bits)
qed

lemma bit_iraw_conv:
  fixes t :: "'r::len word vint" and i :: "'s::len word vint"
  assumes "canonical i" "sgn t = sgn i"
  shows "bit (iraw (int_conv t i)) j \<longleftrightarrow> j < LENGTH('r) \<and>
     bit (iraw i) (if sgn i then min j (tw i - 1) else j)"
proof (cases "sgn i")
  case False
  then show ?thesis
    using assms by (auto simp: int_conv_def Let_def bit_simps dest: bit_imp_le_length)
next
  case True
  show ?thesis
  proof (cases "tw i = 1")
    case True
    then have "iraw i \<noteq> 0 \<longleftrightarrow> bit (iraw i) 0"
      using canonical_bits(3) [OF assms(1)] by (auto simp: word_eq_iff)
    moreover have "sint (iraw i) = 0 \<longleftrightarrow> iraw i = 0" "uint (iraw i) = 0 \<longleftrightarrow> iraw i = 0"
      by (metis signed_0 signed_word_eqI, metis unsigned_0 unsigned_word_eqI)
    ultimately have "cooked i \<noteq> 0 \<longleftrightarrow> bit (iraw i) 0"
      using assms(1) by (simp add: cooked_def raw_canonical)
    with True \<open>sgn i\<close> show ?thesis
      using assms by (auto simp: int_conv_def Let_def bit_simps)
  next
    case False
    then have "full_width i" using assms(1) by (simp add: canonical_def)
    then show ?thesis
      using False \<open>sgn i\<close> assms
      by (cases "j = LENGTH('s) - 1") (auto simp: int_conv_def Let_def bit_simps cooked_full_width bit_sint_iff full_width_def
          min_def not_less)
  qed
qed

lemma int_conv_sound:
  fixes t :: "'r::len word vint" and i i' :: "'s::len word vint"
  assumes "canonical i" "canonical i'" "agree i i'" "sgn t = sgn i" "tw t \<le> LENGTH('r)"
  shows "agree (int_conv t i) (int_conv t i')"
proof -
  have tw: "tw i' = tw i" "sgn i' = sgn i" "im i' = im i"
    using assms(3) by (auto simp: agree_def)
  note im = bit_im_conv [OF assms(1,5)] bit_im_conv [OF assms(2,5)]
  note ir = bit_iraw_conv [OF assms(1,4)] bit_iraw_conv [OF assms(2)]
  have "im (int_conv t i) = im (int_conv t i')"
    by (rule bit_word_eqI) (simp add: im tw)
  moreover have "bit (iraw (int_conv t i)) j = bit (iraw (int_conv t i')) j"
    if d: "bit (im (int_conv t i)) j" for j
  proof -
    let ?k = "if sgn i then min j (tw i - 1) else j"
    have "bit (iraw i) ?k = bit (iraw i') ?k"
    proof (cases "j < tw i")
      case True
      with d have "bit (im i) j" "?k = j" by (auto simp: im)
      then show ?thesis using agreeD [OF assms(3)] by simp
    next
      case False
      with d canonical_bits(4) [OF assms(1)] have *: "sgn i \<longrightarrow> bit (im i) (tw i - 1)"
        using assms(4) by (auto simp: im)
      show ?thesis
      proof (cases "sgn i")
        case True
        with False have "?k = tw i - 1" by auto
        with * True show ?thesis using agreeD [OF assms(3)] by simp
      next
        case sgn: False
        then show ?thesis
          using False canonical_bits(3) [OF assms(1), of j] canonical_bits(3) [OF assms(2), of j]
          by (auto simp: tw)
      qed
    qed
    then show ?thesis
      using assms(4) by (simp add: ir tw)
  qed
  ultimately show ?thesis
    by (auto simp: agree_iff int_conv_def Let_def)
qed

section \<open>Pointers\<close>

lemma full_intptr: "full_width v \<Longrightarrow> tw v = 64" for v :: "64 word vint"
  by (simp add: full_width_def)

lemma intptr_of_ptr_fields [simp]:
  "iraw (intptr_of_ptr p) = pcooked p" "tw (intptr_of_ptr p) = 64"
  "im (intptr_of_ptr p) = (if ptr_defined p then - 1 else 0)"
  "sgn (intptr_of_ptr p) = False" "iptr (intptr_of_ptr p) = 32"
  "itaints (intptr_of_ptr p) = ptaints p" "full_width (intptr_of_ptr p)"
  by (simp_all add: intptr_of_ptr_def intptr_type_def int_make_def isptr_def ptr_raw_def
      ptr_defbits_def full_width_def)

lemma isptr_64: "tw v = 64 \<Longrightarrow> isptr v = 32"
  by (simp add: isptr_def)

lemma objid_at_32:
  fixes v :: "64 word vint"
  assumes "tw v = 64"
  shows "objid_at v 32 = gp_object (iraw v)"
  using assms
  by (auto simp: objid_at_def isptr_64 gp_object_def word_eq_iff bit_simps)

lemma objid_intptr_of_ptr: "objid (intptr_of_ptr p) = ptr_objid p"
  by (simp add: objid_def objid_at_32 ptr_objid_def)

lemma defined_full_width:
  fixes v :: "'r::len word vint"
  assumes "full_width v"
  shows "defined v \<longleftrightarrow> im v = - 1"
  using assms by (simp add: defined_def defbits_def full_full_width)

lemma ptr_int_roundtrip:
  "ptr_of_int (intptr_of_ptr p) =
     p\<lparr>obj_defined := ptr_defined p, off_defined := ptr_defined p, ispointer := True\<rparr>"
  by (simp add: ptr_of_int_def PointerBytes_def defined_full_width raw_full_width int_pointer_def
      isptr_64 ptr_defined_def)

lemma prom_result_unsigned:
  "\<not> sgn v \<Longrightarrow> prom_result v r = Some (word_of_int r)" for v :: "64 word vint"
  by (simp add: prom_result_def raw_bits_def)

lemma make_unsigned_fields [simp]:
  "iraw (make_unsigned v) = iraw v" "im (make_unsigned v) = im v" "tw (make_unsigned v) = tw v"
  "sgn (make_unsigned v) = False" "iptr (make_unsigned v) = iptr v"
  "itaints (make_unsigned v) = itaints v"
  by (simp_all add: make_unsigned_def convert_def int_make_def)

lemma full_width_make_unsigned [simp]: "full_width (make_unsigned v) = full_width v"
  by (simp add: full_width_def)

lemma objid_make_unsigned [simp]: "objid (make_unsigned v) = objid v"
  by (simp add: objid_def objid_at_def isptr_def)

lemma iptr_arithmetic_64:
  fixes a b :: "64 word vint"
  assumes "tw a = 64" "iptr a = 32" "\<not> int_pointer b" "tw b = 64" "objid b = 0"
  shows "iptr (arithmetic a b r) =
    (if gp_object (iraw a) \<noteq> 0 \<and> gp_object r = gp_object (iraw a) then 32 else 33)"
  using assms
  by (simp add: arithmetic_def Let_def checkptr_def checkptr1_def objid_def int_make_def
      notptr_def isptr_64 objid_at_32)

lemma ptr_plus_int_Some:
  assumes "full_width off"
  shows "ptr_plus_int p off =
    Some (ptr_of_int (arithmetic (intptr_of_ptr p) (make_unsigned off) (pcooked p + iraw off)))"
proof -
  have "word_of_int (cooked (intptr_of_ptr p) + cooked (make_unsigned off)) = pcooked p + iraw off"
    using assms by (simp add: cooked_full_width)
  then show ?thesis
    by (simp add: ptr_plus_int_def int_add_def prom_result_unsigned)
qed

text \<open>Adding a number to the offset half without leaving it.\<close>

lemma gp_make_add: "gp_make ob off = push_bit 32 (ucast ob) + ucast off"
proof -
  have "push_bit 32 (ucast ob) AND ucast off = (0 :: u64)"
    by (rule bit_word_eqI) (auto simp: bit_simps dest: bit_imp_le_length)
  then show ?thesis
    by (simp add: gp_make_def disjunctive_add_eq_or)
qed

lemma ucast_of_int_offset:
  assumes "0 \<le> n" "n < 2 ^ 32"
  shows "ucast (word_of_int n :: u32) = (word_of_int n :: u64)"
proof -
  have "uint (word_of_int n :: u32) = n"
    using assms by (simp add: unsigned_of_int take_bit_int_eq_self)
  then show ?thesis by (metis ucast_eq)
qed

lemma gp_add_in_object:
  fixes p off :: u64
  assumes "0 \<le> sint off + uint (gp_offset p)" "sint off + uint (gp_offset p) < 2 ^ 32"
  shows "p + off = gp_make (gp_object p) (word_of_int (sint off + uint (gp_offset p)))"
proof -
  let ?n = "sint off + uint (gp_offset p)"
  have n: "ucast (word_of_int ?n :: u32) = (word_of_int ?n :: u64)"
    using assms by (rule ucast_of_int_offset)
  have "p + off = push_bit 32 (ucast (gp_object p)) + (ucast (gp_offset p) + off)"
    using gp_make_add [of "gp_object p" "gp_offset p"] by (simp add: add.assoc)
  also have "ucast (gp_offset p) + off = word_of_int ?n"
    by (simp only: ucast_eq of_int_add of_int_sint scast_id add.commute)
  finally show ?thesis
    by (simp only: gp_make_add n)
qed

lemma gp_plus_word:
  assumes "0 \<le> sint off + uint (gp_offset p)" "sint off + uint (gp_offset p) < 2 ^ 32"
  shows "p + off = gp_plus p (sint off)"
  unfolding gp_add_in_object [OF assms] gp_plus_def by (simp add: add.commute)

text \<open>Once \<^verbatim>\<open>checkptr\<close> marks a fresh result a pointer, it holds an object identifier.\<close>

lemma iptr_checkptr1:
  "iptr (checkptr1 a r k) \<noteq> iptr r \<Longrightarrow> objid (checkptr1 a r k) \<noteq> 0"
  by (auto simp: checkptr1_def objid_iptr_update)

lemma iptr_checkptr:
  assumes "iptr (checkptr a b r k) \<noteq> iptr r"
  shows "objid (checkptr a b r k) \<noteq> 0"
proof -
  define mid where "mid = checkptr1 a r (iptr a + k)"
  have eq: "checkptr a b r k = checkptr1 b mid (iptr b + k)"
    using assms by (auto simp: checkptr_def Let_def mid_def split: if_splits)
  show ?thesis
  proof (cases "iptr (checkptr1 b mid (iptr b + k)) = iptr mid")
    case True
    then have "iptr mid \<noteq> iptr r" using assms eq by simp
    then have "objid mid \<noteq> 0" unfolding mid_def by (rule iptr_checkptr1)
    then show ?thesis by (simp add: eq objid_checkptr1_eq)
  qed (simp add: eq iptr_checkptr1)
qed

lemma int_pointer_arithmetic:
  assumes "int_pointer (arithmetic a b w)"
  shows "objid (arithmetic a b w) \<noteq> 0"
proof -
  let ?r = "(int_make a w (if im a AND im b AND full a = full a then full a else 0) False)
    \<lparr>itaints := itaints a OR itaints b\<rparr>"
  have eq: "arithmetic a b w = checkptr a b ?r 0"
    by (simp add: arithmetic_def Let_def)
  have "iptr (checkptr a b ?r 0) \<noteq> iptr ?r"
    using assms unfolding int_pointer_def eq
    by (simp add: int_make_def notptr_def isptr_def)
  then show ?thesis
    unfolding eq by (rule iptr_checkptr)
qed

lemma ptr_plus_int_provenance:
  assumes "full_width off" "ptr_plus_int p off = Some p'" "ispointer p'"
  shows "gp_object (pcooked p') \<noteq> 0 \<and> gp_object (pcooked p') \<in> {gp_object (pcooked p), objid off}"
proof -
  let ?r = "arithmetic (intptr_of_ptr p) (make_unsigned off) (pcooked p + iraw off)"
  have p': "p' = ptr_of_int ?r"
    using assms(1,2) by (simp add: ptr_plus_int_Some)
  have fw: "full_width ?r" by (simp add: full_width_def)
  have ip: "int_pointer ?r"
    using assms(3) by (simp add: p' ptr_of_int_def PointerBytes_def)
  have "objid ?r = gp_object (pcooked p')"
    using ip fw by (simp add: objid_def objid_at_32 int_pointer_def isptr_64 p' ptr_of_int_def
        PointerBytes_def raw_full_width)
  moreover have "objid ?r \<noteq> 0"
    using ip by (rule int_pointer_arithmetic)
  ultimately show ?thesis
    using objid_arithmetic [of "intptr_of_ptr p" "make_unsigned off" "pcooked p + iraw off"]
    by (auto simp: objid_intptr_of_ptr ptr_objid_def)
qed

lemma ptr_plus_int_in_object:
  assumes off: "full_width off" "objid off = 0" "\<not> int_pointer off"
    and p: "ptr_objid p \<noteq> 0"
    and bounds: "0 \<le> sint (iraw off) + uint (gp_offset (pcooked p))"
      "sint (iraw off) + uint (gp_offset (pcooked p)) < 2 ^ 32"
  shows "ptr_plus_int p off = Some
    \<lparr>pcooked = gp_plus (pcooked p) (sint (iraw off)),
     obj_defined = ptr_defined p \<and> defined off, off_defined = ptr_defined p \<and> defined off,
     ispointer = True, ptaints = ptaints p OR itaints off\<rparr>"
proof -
  let ?r = "arithmetic (intptr_of_ptr p) (make_unsigned off) (pcooked p + iraw off)"
  have tw: "tw off = 64" using off(1) by (rule full_intptr)
  have fw: "full_width ?r" by (simp add: full_width_def)
  have raw: "raw ?r = gp_plus (pcooked p) (sint (iraw off))"
    using fw bounds by (simp add: raw_full_width gp_plus_word)
  have "iptr ?r = 32"
    using off p tw
    by (subst iptr_arithmetic_64)
      (simp_all add: int_pointer_def isptr_64 ptr_objid_def gp_plus_word [OF bounds])
  then have ptr: "int_pointer ?r" by (simp add: int_pointer_def isptr_64)
  have "defined (make_unsigned off) = defined off"
    using off(1) by (simp add: defined_full_width)
  then have "defined ?r \<longleftrightarrow> ptr_defined p \<and> defined off"
    using defined_arithmetic(1) [of "intptr_of_ptr p" "make_unsigned off"] tw
    by (simp add: defined_full_width [of "intptr_of_ptr p"])
  with raw ptr show ?thesis
    by (simp add: ptr_plus_int_Some off(1) ptr_of_int_def PointerBytes_def)
qed

end
