(* ===== verification/VmValueProps.thy ===== *)
theory VmValueProps
  imports VmValueFacts
begin

unbundle bit_operations_syntax

text \<open>The properties of the value layer and of pointers, each with a concrete instance.\<close>

section \<open>Concrete values\<close>

definition u16v :: "16 word \<Rightarrow> 16 word \<Rightarrow> 16 word vint" where
  "u16v r m = \<lparr>iraw = r, im = m, tw = 16, sgn = False, iptr = 1, itaints = 0\<rparr>"

definition s16v :: "16 word \<Rightarrow> 16 word \<Rightarrow> 16 word vint" where
  "s16v r m = \<lparr>iraw = r, im = m, tw = 16, sgn = True, iptr = 1, itaints = 0\<rparr>"

definition u64v :: "64 word \<Rightarrow> bool \<Rightarrow> 64 word vint" where
  "u64v r p = \<lparr>iraw = r, im = - 1, tw = 64, sgn = False, iptr = (if p then 32 else 33), itaints = 0\<rparr>"

lemmas concrete_values = u16v_def s16v_def u64v_def

section \<open>Definedness\<close>

text \<open>
  C16. For the bitwise operators the definedness mask is exact: a bit of the result is marked
  defined if and only if no change of undefined operand bits can change it.
\<close>

theorem bitwise_mask_exact:
  "exact_op int_and a b \<and> exact_op int_or a b \<and> exact_op int_xor a b"
  by (simp add: int_and_exact int_or_exact int_xor_exact)

text \<open>
  C17. Shifting right never marks a bit defined that depends on an undefined bit of the shifted
  operand, be the operand signed (the sign bit is copied in) or not (zeros are).
\<close>

theorem shift_right_sound:
  fixes a a' :: "'r::len word vint" and sh :: "'s::len word vint"
  assumes "full_width a" "full_width sh" "\<not> sgn sh" "agree a a'"
    and "int_shr a sh = Some r" "int_shr a' sh = Some r'"
  shows "im r = im r' \<and> (iraw r XOR iraw r') AND im r = 0"
  using int_shr_sound [OF assms(5,6,4,1-3)] unfolding agree_def by blast

theorem shift_right_sound_witness:
  "\<exists>r r'. int_shr (s16v 115 0x7FFF) (u16v 2 0xFFFF) = Some r \<and>
     int_shr (s16v 32883 0x7FFF) (u16v 2 0xFFFF) = Some r' \<and>
     im r = 0x1FFF \<and> iraw r \<noteq> iraw r' \<and> (iraw r XOR iraw r') AND im r = 0"
proof -
  let ?a = "s16v 115 0x7FFF" and ?a' = "s16v 32883 0x7FFF" and ?s = "u16v 2 0xFFFF"
  have d: "defined ?s"
    by (simp add: concrete_values defined_full_width full_width_def)
  have k: "nat (cooked ?s) = 2" "unat (iraw ?s) = 2"
    by (simp_all add: concrete_values cooked_full_width full_width_def)
  obtain r where r: "int_shr ?a ?s = Some r" "im r = 0x1FFF" "iraw r = 28"
    using d by (simp add: int_shr_def k prom_bits_def raw_bits_def Let_def)
      (simp add: concrete_values cooked_def raw_def full_def ones_eq_mask int_make_def mask_eq_exp_minus_1)
  obtain r' where r': "int_shr ?a' ?s = Some r'" "iraw r' = 0xE01C"
    using d by (simp add: int_shr_def k prom_bits_def raw_bits_def Let_def)
      (simp add: concrete_values cooked_def raw_def full_def ones_eq_mask int_make_def mask_eq_exp_minus_1)
  have "agree ?a ?a'" "full_width ?a" "full_width ?s" "\<not> sgn ?s"
    by (simp_all add: concrete_values agree_def full_width_def)
  then have "(iraw r XOR iraw r') AND im r = 0"
    using shift_right_sound [OF _ _ _ _ r(1) r'(1)] by blast
  then show ?thesis
    using r r' by (intro exI [of _ r] exI [of _ r']) simp
qed

text \<open>
  C23. Shifting left is sound in the same sense, and the bits shifted in are defined.
\<close>

theorem shift_left_sound:
  fixes a a' :: "'r::len word vint" and sh :: "'s::len word vint"
  assumes "full_width a" "agree a a'"
    and "int_shl a sh = Some r" "int_shl a' sh = Some r'"
  shows "im r = im r' \<and> (iraw r XOR iraw r') AND im r = 0 \<and>
    (defined sh \<longrightarrow> ones (nat (cooked sh)) AND im r = ones (nat (cooked sh)))"
proof -
  have "defined sh \<Longrightarrow> ones (nat (cooked sh)) AND im r = ones (nat (cooked sh))"
    using int_shl_Some(2) [OF assms(3)] by (auto simp: bit_eq_iff bit_simps)
  with int_shl_sound [OF assms(3,4,2,1)] show ?thesis unfolding agree_def by blast
qed

theorem shift_left_sound_witness:
  "\<exists>r r'. int_shl (u16v 1 0x00FF) (u16v 4 0xFFFF) = Some r \<and>
     int_shl (u16v 0x101 0x00FF) (u16v 4 0xFFFF) = Some r' \<and>
     im r = 0x0FFF \<and> iraw r \<noteq> iraw r' \<and> (iraw r XOR iraw r') AND im r = 0"
proof -
  let ?a = "u16v 1 0x00FF" and ?a' = "u16v 0x101 0x00FF" and ?s = "u16v 4 0xFFFF"
  have d: "defined ?s"
    by (simp add: concrete_values defined_full_width full_width_def)
  have k: "nat (cooked ?s) = 4"
    by (simp add: concrete_values cooked_full_width full_width_def)
  obtain r where r: "int_shl ?a ?s = Some r"
    using d by (simp add: int_shl_def k prom_bits_def Let_def)
  obtain r' where r': "int_shl ?a' ?s = Some r'"
    using d by (simp add: int_shl_def k prom_bits_def Let_def)
  have val: "im r = 0x0FFF" "iraw r = 0x10" "iraw r' = 0x1010"
    using int_shl_Some [OF r d] int_shl_Some [OF r' d]
    by (simp_all add: k) (simp_all add: concrete_values raw_def full_def ones_eq_mask mask_eq_exp_minus_1)
  have "agree ?a ?a'" "full_width ?a"
    by (simp_all add: concrete_values agree_def full_width_def)
  then have "(iraw r XOR iraw r') AND im r = 0"
    using shift_left_sound [OF _ _ r r'] by blast
  with r r' val show ?thesis by (intro exI [of _ r] exI [of _ r']) simp
qed

text \<open>
  Arithmetic is all or nothing: the result is defined when both operands are, and has no
  defined bit when one of them is not. Its taints are the union of the operands'.
\<close>

theorem arithmetic_definedness:
  fixes a b r :: "'r::len word vint"
  assumes "0 < tw a" "tw b = tw a"
    and "int_add a b = Some r \<or> int_sub a b = Some r \<or> int_mul a b = Some r \<or>
      int_div a b = Some r \<or> int_rem a b = Some r"
  shows "(defined r \<longleftrightarrow> defined a \<and> defined b) \<and>
    (\<not> (defined a \<and> defined b) \<longrightarrow> defbits r = 0) \<and> itaints r = itaints a OR itaints b"
proof -
  obtain w where "r = arithmetic a b w"
    using assms(3) by (rule int_arith_result)
  then show ?thesis
    using defined_arithmetic [OF assms(1,2)] by simp
qed

theorem arithmetic_definedness_witness:
  "\<exists>r. int_add (u16v 40 0xFFFF) (u16v 2 0xFFFD) = Some r \<and> iraw r = 42 \<and> \<not> defined r \<and> defbits r = 0"
proof -
  let ?a = "u16v 40 0xFFFF" and ?b = "u16v 2 0xFFFD"
  have s: "int_add ?a ?b = Some (arithmetic ?a ?b 42)"
    by (simp add: int_add_def prom_result_def prom_bits_def raw_bits_def)
      (simp add: concrete_values cooked_full_width full_width_def)
  have "\<not> defined ?b"
    by (simp add: concrete_values defined_full_width full_width_def)
  moreover have "0 < tw ?a" "tw ?b = tw ?a" by (simp_all add: concrete_values)
  ultimately have "\<not> defined (arithmetic ?a ?b 42) \<and> defbits (arithmetic ?a ?b 42) = 0"
    using arithmetic_definedness [of ?a ?b "arithmetic ?a ?b 42"] s by blast
  with s show ?thesis by simp
qed

text \<open>
  C24. Converting between widths is sound: two integers that agree on their defined bits convert
  to integers that agree on their defined bits, whether the conversion truncates, extends with
  zeros or extends with the sign.
\<close>

theorem width_conversion_sound:
  fixes t :: "'r::len word vint" and i i' :: "'s::len word vint"
  assumes "canonical i" "canonical i'" "agree i i'" "sgn t = sgn i" "tw t \<le> LENGTH('r)"
  shows "im (int_conv t i) = im (int_conv t i') \<and>
    (iraw (int_conv t i) XOR iraw (int_conv t i')) AND im (int_conv t i) = 0"
  using int_conv_sound [OF assms] unfolding agree_def by blast

theorem width_conversion_sound_witness:
  "im (int_conv (u64v 0 False) (u16v 7 0x00FF)) = 0xFFFFFFFFFFFF00FF \<and>
   iraw (int_conv (u64v 0 False) (u16v 0xAB07 0x00FF)) = 0xAB07 \<and>
   (iraw (int_conv (u64v 0 False) (u16v 7 0x00FF)) XOR
    iraw (int_conv (u64v 0 False) (u16v 0xAB07 0x00FF))) AND
      im (int_conv (u64v 0 False) (u16v 7 0x00FF)) = 0"
proof -
  let ?i = "u16v 7 0x00FF" and ?i' = "u16v 0xAB07 0x00FF" and ?t = "u64v 0 False"
  have "canonical ?i" "canonical ?i'" "agree ?i ?i'" "sgn ?t = sgn ?i" "tw ?t \<le> LENGTH(64)"
    by (simp_all add: concrete_values agree_def canonical_def full_width_def)
  from width_conversion_sound [OF this] show ?thesis
    by (simp add: int_conv_def concrete_values Let_def ones_eq_mask mask_eq_exp_minus_1)
qed

section \<open>Provenance of object identifiers\<close>

text \<open>
  C22. The bitwise operations and, or and exclusive or, the arithmetic operations and the shifts of integers
  forge no pointer: the object identifier of a result, if it has one, is the object identifier of an
  operand. The complement does: it keeps the place of the identifier and complements the bits there, so
  that the identifier of its result is the complement of the operand's (where the integer is wide enough
  to hold an identifier).
\<close>

theorem objects_of_results:
  fixes a b r :: "'r::len word vint" and sh :: "'s::len word vint"
  assumes "r \<in> {int_and a b, int_or a b, int_xor a b} \<or>
    int_add a b = Some r \<or> int_sub a b = Some r \<or> int_mul a b = Some r \<or>
    int_div a b = Some r \<or> int_rem a b = Some r \<or> int_shl a sh = Some r \<or> int_shr a sh = Some r"
  shows "objid r \<in> {0, objid a, objid b} \<and>
    (VM_PB_Obj \<le> tw a \<and> tw a \<le> LENGTH('r) \<longrightarrow>
       objid (int_not a) = (if iptr a \<le> isptr a then NOT (objid a) else 0))"
proof
  consider "r \<in> {int_and a b, int_or a b, int_xor a b}"
    | "int_add a b = Some r \<or> int_sub a b = Some r \<or> int_mul a b = Some r \<or>
      int_div a b = Some r \<or> int_rem a b = Some r"
    | "int_shl a sh = Some r" | "int_shr a sh = Some r"
    using assms by blast
  then show "objid r \<in> {0, objid a, objid b}"
  proof cases
    case 1
    then show ?thesis
      using objid_bitwise unfolding int_and_def int_or_def int_xor_def by blast
  next
    case 2
    then obtain w where "r = arithmetic a b w" by (rule int_arith_result)
    then show ?thesis using objid_arithmetic by blast
  next
    case 3
    then show ?thesis using objid_int_shl by blast
  next
    case 4
    then show ?thesis using objid_int_shr by blast
  qed
qed (simp add: objid_int_not)

theorem objects_of_results_witness:
  "objid (u64v 0x2100000000 True) = 33 \<and> objid (u64v 5 False) = 0 \<and>
   objid (int_or (u64v 0x2100000000 True) (u64v 5 False)) = 33 \<and>
   objid (int_or (u64v 0x2100000000 True) (u64v 5 False)) \<in>
     {0, objid (u64v 0x2100000000 True), objid (u64v 5 False)} \<and>
   objid (int_not (u64v 0x2100000000 True)) = 0xFFFFFFDE"
  using objects_of_results [of "int_or (u64v 0x2100000000 True) (u64v 5 False)"
      "u64v 0x2100000000 True" "u64v 5 False" "u16v 0 0"]
  by (simp add: int_or_def bitwise_def Let_def checkptr_def checkptr1_def int_make_def objid_def
      objid_at_def isptr_def notptr_def concrete_values ones_eq_mask mask_eq_exp_minus_1 VM_PB_Obj_def)

section \<open>Pointers\<close>

definition objptr :: "u32 \<Rightarrow> u32 \<Rightarrow> vptr" where
  "objptr ob off = ptr_make (gp_make ob off) True True"

text \<open>
  C26. A pointer survives the round trip through a 64-bit integer: address, definedness and
  taints come back. The flag that it is a pointer is set by the conversion to an integer whether
  or not it was set before.
\<close>

theorem pointer_integer_roundtrip:
  "ptr_of_int (intptr_of_ptr p) =
     \<lparr>pcooked = pcooked p, obj_defined = ptr_defined p, off_defined = ptr_defined p,
      ispointer = True, ptaints = ptaints p\<rparr>"
  by (simp add: ptr_int_roundtrip)

text \<open>
  Adding an integer to a pointer without leaving the offset range moves the offset by the
  signed value, keeps the object and the pointer flag, and is defined when both operands are.
\<close>

theorem pointer_plus_in_object:
  assumes "full_width off" "objid off = 0" "\<not> int_pointer off" "ptr_objid p \<noteq> 0"
    and "0 \<le> sint (iraw off) + uint (gp_offset (pcooked p))"
    and "sint (iraw off) + uint (gp_offset (pcooked p)) < 2 ^ 32"
  shows "ptr_plus_int p off = Some
    \<lparr>pcooked = gp_plus (pcooked p) (sint (iraw off)),
     obj_defined = ptr_defined p \<and> defined off, off_defined = ptr_defined p \<and> defined off,
     ispointer = True, ptaints = ptaints p OR itaints off\<rparr>"
  using assms by (rule ptr_plus_int_in_object)

theorem pointer_plus_in_object_witness:
  "ptr_plus_int (objptr 3 20) (u64v (- 8) False) = Some (objptr 3 12)"
proof -
  let ?off = "u64v (- 8) False" and ?p = "objptr 3 20"
  have h: "full_width ?off" "objid ?off = 0" "\<not> int_pointer ?off" "ptr_objid ?p \<noteq> 0"
    "0 \<le> sint (iraw ?off) + uint (gp_offset (pcooked ?p))"
    "sint (iraw ?off) + uint (gp_offset (pcooked ?p)) < 2 ^ 32"
    by (simp_all add: concrete_values full_width_def objid_def objid_at_def isptr_def
        int_pointer_def objptr_def ptr_make_def ptr_objid_def)
  have d: "defined ?off" "ptr_defined ?p"
    by (simp_all add: concrete_values defined_full_width full_width_def objptr_def ptr_make_def
        ptr_defined_def)
  show ?thesis
    using pointer_plus_in_object [OF h] d
    by (simp add: concrete_values objptr_def ptr_make_def gp_plus_def)
qed

text \<open>
  C25. Whatever the integer added, a sum that is flagged as a pointer names an object one of the
  operands named: arithmetic that crosses from one object into another loses the flag.
\<close>

theorem pointer_plus_provenance:
  assumes "full_width off" "ptr_plus_int p off = Some p'" "ispointer p'"
  shows "gp_object (pcooked p') \<noteq> 0 \<and> gp_object (pcooked p') \<in> {gp_object (pcooked p), objid off}"
  using assms by (rule ptr_plus_int_provenance)

theorem pointer_plus_provenance_witness:
  "\<exists>p'. ptr_plus_int (objptr 3 20) (u64v 4 False) = Some p' \<and> ispointer p' \<and>
     gp_object (pcooked p') \<in> {3, 0} \<and> gp_object (pcooked p') \<noteq> 0"
proof -
  let ?off = "u64v 4 False" and ?p = "objptr 3 20"
  have h: "full_width ?off" "objid ?off = 0" "\<not> int_pointer ?off" "ptr_objid ?p \<noteq> 0"
    "0 \<le> sint (iraw ?off) + uint (gp_offset (pcooked ?p))"
    "sint (iraw ?off) + uint (gp_offset (pcooked ?p)) < 2 ^ 32"
    by (simp_all add: concrete_values full_width_def objid_def objid_at_def isptr_def
        int_pointer_def objptr_def ptr_make_def ptr_objid_def)
  obtain p' where p': "ptr_plus_int ?p ?off = Some p'" "ispointer p'"
    using ptr_plus_int_in_object [OF h] by simp
  show ?thesis
    using pointer_plus_provenance [OF h(1) p'] p' h(2)
    by (intro exI [of _ p']) (auto simp: objptr_def ptr_make_def)
qed

text \<open>
  The classification of object identifiers agrees with the table of limits: below the
  largest identifier, an identifier has a type exactly if it lies in that type's range; and a
  pointer is a data pointer exactly if it is neither a global nor a code pointer.
\<close>

theorem pointer_types_by_limits:
  assumes "ob \<noteq> - 1"
  shows "(vm_pointer_type ob = T \<longleftrightarrow>
      fst (vm_pointer_limits T) \<le> ob \<and> ob < snd (vm_pointer_limits T)) \<and>
    (gp_heap (gp_make ob off) \<longleftrightarrow> vm_pointer_type ob \<notin> {PT_Global, PT_Code})"
  using pointer_type_limits [OF assms, of T] gp_heap_iff_type [of "gp_make ob off"]
  by (simp add: gp_type_def)

theorem pointer_types_by_limits_witness:
  "vm_pointer_type 0x10000001 = PT_Heap \<and> gp_heap (gp_make 0x10000001 8)"
proof -
  have h: "(0x10000001 :: u32) \<noteq> - 1" by simp
  show ?thesis
    using pointer_types_by_limits [OF h, of PT_Heap 8] by (simp add: vm_limits)
qed

text \<open>
  Code pointers: a function number below the limit is recovered from the pointer built from
  it, the pointer is classified as code and passes the check of the conversion from a generic
  pointer, and the instruction index is independent of it.
\<close>

theorem code_pointer_roundtrip:
  assumes "f < VM_PL_Global"
  shows "\<exists>p. code_ptr f i = Some p \<and> code_function p = f \<and> code_instruction p = i \<and>
    gp_type p = PT_Code \<and> code_of_generic p = Some p \<and> \<not> gp_heap p \<and>
    code_set_function f (gp_make g i) = Some p"
proof -
  note so = small_or_global [OF assms]
  have t: "vm_pointer_type (f OR VM_PL_Global) = PT_Code"
    using so by (auto simp: vm_pointer_type_def not_less)
  show ?thesis
    using so t assms
    by (intro exI [of _ "gp_make (f OR VM_PL_Global) i"])
      (simp add: code_ptr_def code_function_def code_instruction_def gp_type_def
        code_of_generic_def gp_heap_iff_type code_set_function_def gp_set_object_def)
qed

theorem code_pointer_roundtrip_witness:
  "\<exists>p. code_ptr 7 2 = Some p \<and> code_function p = 7 \<and> code_instruction p = 2 \<and> gp_type p = PT_Code"
proof -
  have "(7 :: u32) < VM_PL_Global" by (simp add: vm_limits)
  from code_pointer_roundtrip [OF this, of 2] show ?thesis by blast
qed

text \<open>
  The conversion of an integer to a pointer takes every storage width for wide enough: a
  defined 32-bit integer becomes a defined pointer into object 0 (a comment in the code says
  that truncated pointers are undefined; the test compares a number of bits with a number of
  bytes).
\<close>

theorem narrow_int_to_pointer:
  fixes i :: "32 word vint"
  assumes "full_width i"
  shows "gp_object (pcooked (ptr_of_int i)) = 0 \<and> gp_offset (pcooked (ptr_of_int i)) = iraw i \<and>
    (ptr_defined (ptr_of_int i) \<longleftrightarrow> defined i) \<and> (ispointer (ptr_of_int i) \<longleftrightarrow> int_pointer i)"
proof -
  have "tw i = 32" using assms by (simp add: full_width_def)
  moreover have "gp_object (ucast (iraw i)) = 0" "gp_offset (ucast (iraw i)) = iraw i"
    by (auto simp: gp_object_def gp_offset_def word_eq_iff bit_simps dest: bit_imp_le_length)
  ultimately show ?thesis
    using assms by (simp add: ptr_of_int_def PointerBytes_def raw_full_width ptr_defined_def)
qed

theorem narrow_int_to_pointer_witness:
  "ptr_defined (ptr_of_int \<lparr>iraw = (5 :: 32 word), im = - 1, tw = 32, sgn = False, iptr = 1, itaints = 0\<rparr>)"
proof -
  let ?i = "\<lparr>iraw = (5 :: 32 word), im = - 1, tw = 32, sgn = False, iptr = 1, itaints = 0\<rparr>"
  have "full_width ?i" by (simp add: full_width_def)
  from narrow_int_to_pointer [OF this] show ?thesis
    by (simp add: defined_def defbits_def)
qed

end
