(* ===== verification/IntervalMap.thy ===== *)
theory IntervalMap
  imports Prelude
begin

text \<open>
  Intervals with data attached (\<^verbatim>\<open>Interval\<close> and \<^verbatim>\<open>IntervalMetadataMap\<close> of
  \<^verbatim>\<open>src/divine/mem/exceptions.hpp\<close>), at the level of the \<^verbatim>\<open>std::map\<close> of one object. The map is
  keyed by intervals that compare by their lower end only, so it is modelled as a list of
  entries in that order; an iterator is a position in it, given by what is before it and what
  is from it on. Offsets are integers; the code keeps them in 32-bit words, and the operations that add
  to them or subtract from them write the wrap-around out.
\<close>

section \<open>Intervals and ordered maps\<close>

text \<open>Conversion to \<^verbatim>\<open>uint32_t\<close>, and to \<^verbatim>\<open>int\<close>.\<close>

definition wrap32 :: "int \<Rightarrow> int" where
  "wrap32 x = x mod 2 ^ 32"

definition signed32 :: "int \<Rightarrow> int" where
  "signed32 x = (x + 2 ^ 31) mod 2 ^ 32 - 2 ^ 31"

record ival =
  ifrom :: int
  ito :: int

definition mk_ival :: "int \<Rightarrow> int \<Rightarrow> ival" where
  "mk_ival f t = \<lparr>ifrom = f, ito = t\<rparr>"

text \<open>\<^verbatim>\<open>explicit Interval( K from )\<close>\<close>

definition ival_at :: "int \<Rightarrow> ival" where
  "ival_at f = mk_ival f f"

definition ival_less :: "ival \<Rightarrow> ival \<Rightarrow> bool" where
  "ival_less i j \<longleftrightarrow> ifrom i < ifrom j"

definition ival_plus :: "ival \<Rightarrow> int \<Rightarrow> ival" where
  "ival_plus i tr = mk_ival (wrap32 (ifrom i + tr)) (wrap32 (ito i + tr))"

definition ival_minus :: "ival \<Rightarrow> int \<Rightarrow> ival" where
  "ival_minus i tr = mk_ival (wrap32 (ifrom i - tr)) (wrap32 (ito i - tr))"

text \<open>\<^verbatim>\<open>operator-\<close> on two intervals, used as a three-way comparison.\<close>

definition ival_diff :: "ival \<Rightarrow> ival \<Rightarrow> int" where
  "ival_diff i j = (if ifrom i = ifrom j then ito i - ito j else ifrom i - ifrom j)"

type_synonym 'v imap = "(ival \<times> 'v) list"

text \<open>\<^verbatim>\<open>std::map::insert\<close> keeps an entry that is there; \<^verbatim>\<open>operator[]\<close> with an assignment keeps its
  key and replaces its data.\<close>

fun map_insert :: "ival \<times> 'v \<Rightarrow> 'v imap \<Rightarrow> 'v imap" where
  "map_insert e [] = [e]"
| "map_insert e (x # xs) =
     (if ival_less (fst e) (fst x) then e # x # xs
      else if ival_less (fst x) (fst e) then x # map_insert e xs
      else x # xs)"

fun map_assign :: "ival \<times> 'v \<Rightarrow> 'v imap \<Rightarrow> 'v imap" where
  "map_assign e [] = [e]"
| "map_assign e (x # xs) =
     (if ival_less (fst e) (fst x) then e # x # xs
      else if ival_less (fst x) (fst e) then x # map_assign e xs
      else (fst x, snd e) # xs)"

text \<open>\<^verbatim>\<open>upper_bound\<close>: the entries up to the first one with a key above \<open>k\<close>, and the rest;
  \<^verbatim>\<open>lower_bound\<close>: up to the first one with a key not below \<open>k\<close>.\<close>

definition upper_bound :: "'v imap \<Rightarrow> ival \<Rightarrow> 'v imap \<times> 'v imap" where
  "upper_bound m k =
     (takeWhile (\<lambda>e. \<not> ival_less k (fst e)) m, dropWhile (\<lambda>e. \<not> ival_less k (fst e)) m)"

definition lower_bound :: "'v imap \<Rightarrow> ival \<Rightarrow> 'v imap \<times> 'v imap" where
  "lower_bound m k =
     (takeWhile (\<lambda>e. ival_less (fst e) k) m, dropWhile (\<lambda>e. ival_less (fst e) k) m)"

section \<open>Erasing and inserting\<close>

text \<open>The loop \<^verbatim>\<open>Destroy covered\<close> of \<^verbatim>\<open>erase_or_create\<close>.\<close>

fun destroy_covered :: "int \<Rightarrow> int \<Rightarrow> 'v imap \<Rightarrow> 'v imap" where
  "destroy_covered from to [] = []"
| "destroy_covered from to (e # es) =
     (if from \<le> ifrom (fst e) \<and> to \<ge> ito (fst e) then destroy_covered from to es else e # es)"

text \<open>
  \<^verbatim>\<open>Chomp from left\<close>: the entry at the iterator is erased and inserted again with its lower end
  moved up, at the hinted place.
\<close>

fun chomp_left :: "int \<Rightarrow> 'v imap \<Rightarrow> 'v imap" where
  "chomp_left to [] = []"
| "chomp_left to (e # es) =
     (if ifrom (fst e) < to \<and> to < ito (fst e)
      then (mk_ival to (ito (fst e)), snd e) # es else e # es)"

text \<open>
  \<^verbatim>\<open>erase_or_create\<close> on the map of the object: the result is the new map cut at the returned
  iterator. After a split the iterator stays on the left piece.
\<close>

definition erase_at :: "int \<Rightarrow> int \<Rightarrow> 'v imap \<Rightarrow> ival \<times> 'v \<Rightarrow> 'v imap \<Rightarrow> 'v imap \<times> 'v imap" where
  "erase_at from to pre e es =
     (let i = fst e; d = snd e
      in if ifrom i < from \<and> to < ito i
         then (pre, (i\<lparr>ito := from\<rparr>, d) # map_insert (mk_ival to (ito i), d) es)
         else let (pre, post) =
                    (if ito i \<le> from then (pre @ [e], es)
                     else if ifrom i < from \<and> to \<ge> ito i then (pre @ [(i\<lparr>ito := from\<rparr>, d)], es)
                     else (pre, e # es))
              in (pre, chomp_left to (destroy_covered from to post)))"

definition erase_or_create :: "int \<Rightarrow> int \<Rightarrow> 'v imap \<Rightarrow> 'v imap \<times> 'v imap" where
  "erase_or_create from to m =
     (if from \<ge> to \<or> m = [] then (m, [])
      else let (pre, post) = upper_bound m (ival_at from);
               (pre, post) = (if pre \<noteq> [] then (butlast pre, last pre # post) else (pre, post))
           in erase_at from to pre (hd post) (tl post))"

definition im_insert :: "int \<Rightarrow> int \<Rightarrow> 'v \<Rightarrow> 'v imap \<Rightarrow> 'v imap" where
  "im_insert from to d m =
     (let (pre, post) = erase_or_create from to m
      in if from \<ge> to then pre @ post else map_insert (mk_ival from to, d) (pre @ post))"

definition im_erase :: "int \<Rightarrow> int \<Rightarrow> 'v imap \<Rightarrow> 'v imap" where
  "im_erase from to m = (let (pre, post) = erase_or_create from to m in pre @ post)"

section \<open>Looking up\<close>

definition inside :: "int \<Rightarrow> ival \<Rightarrow> bool" where
  "inside p i \<longleftrightarrow> ifrom i \<le> p \<and> p < ito i"

definition intersects :: "ival \<Rightarrow> ival \<Rightarrow> bool" where
  "intersects a b \<longleftrightarrow>
     (if ifrom a = ifrom b then True
      else if ifrom a < ifrom b then ito a > ifrom b
      else ito b > ifrom a)"

text \<open>\<^verbatim>\<open>before\<close>: the iterator before \<^verbatim>\<open>upper_bound\<close>, or the end. Given as the entry it is at and
  the entries after that.\<close>

definition im_before :: "'v imap \<Rightarrow> int \<Rightarrow> ((ival \<times> 'v) \<times> 'v imap) option" where
  "im_before m val =
     (let (pre, post) = upper_bound m (ival_at val)
      in if pre = [] then None else Some (last pre, post))"

definition im_at :: "'v imap \<Rightarrow> int \<Rightarrow> (ival \<times> 'v) option" where
  "im_at m val =
     (case im_before m val of
        None \<Rightarrow> None
      | Some (e, _) \<Rightarrow> if inside val (fst e) then Some e else None)"

definition im_intersect :: "'v imap \<Rightarrow> int \<Rightarrow> int \<Rightarrow> (ival \<times> 'v) option" where
  "im_intersect m val len =
     (let query = mk_ival val (val + len)
      in case im_before m val of
           None \<Rightarrow> None
         | Some (e, rest) \<Rightarrow>
             if intersects query (fst e) then Some e
             else (case rest of
                     [] \<Rightarrow> None
                   | e' # _ \<Rightarrow> if intersects query (fst e') then Some e' else None))"

end
