(* ===== verification/SnapMap.thy ===== *)
theory SnapMap
  imports IntervalMap "HOL-Library.AList"
begin

text \<open>
  \<^verbatim>\<open>SlavePoolSnapshotter\<close>, \<^verbatim>\<open>SnapshottedMap\<close> and the object-level part of
  \<^verbatim>\<open>IntervalMetadataMap\<close> (\<^verbatim>\<open>src/divine/mem/exceptions.hpp\<close>). Each object has a map in local,
  mutable storage (a \<^verbatim>\<open>std::map\<close>) or a sorted array in the snapshot pool, or neither. Lookups
  prefer local storage; taking a snapshot moves all local maps that are not empty to the pool.
  The object type is a parameter.
\<close>

section \<open>Storage\<close>

record ('o, 'v) snapmap =
  lmaps :: "('o \<times> 'v imap) list"
  snaps :: "('o \<times> 'v imap) list"

definition sm_empty :: "('o, 'v) snapmap" where
  "sm_empty = \<lparr>lmaps = [], snaps = []\<rparr>"

definition snapped :: "('o, 'v) snapmap \<Rightarrow> 'o \<Rightarrow> bool" where
  "snapped st obj \<longleftrightarrow> map_of (snaps st) obj \<noteq> None"

text \<open>\<^verbatim>\<open>snap_range\<close>: the array of the object, empty where its snapshot pointer is null.\<close>

definition snap_range :: "('o, 'v) snapmap \<Rightarrow> 'o \<Rightarrow> 'v imap" where
  "snap_range st obj = (case map_of (snaps st) obj of None \<Rightarrow> [] | Some m \<Rightarrow> m)"

text \<open>\<^verbatim>\<open>make_snap\<close> asserts that the object has no snapshot yet; the caller fills the array.\<close>

definition make_snap :: "'o \<Rightarrow> 'v imap \<Rightarrow> ('o, 'v) snapmap \<Rightarrow> ('o, 'v) snapmap option" where
  "make_snap obj m st =
     asserting (\<not> snapped st obj) (Some (st\<lparr>snaps := AList.update obj m (snaps st)\<rparr>))"

text \<open>\<^verbatim>\<open>operator[]\<close> creates an empty local map; \<^verbatim>\<open>maps().count\<close> asks for one.\<close>

definition local_map :: "('o, 'v) snapmap \<Rightarrow> 'o \<Rightarrow> 'v imap" where
  "local_map st obj = (case map_of (lmaps st) obj of None \<Rightarrow> [] | Some m \<Rightarrow> m)"

definition has_local :: "('o, 'v) snapmap \<Rightarrow> 'o \<Rightarrow> bool" where
  "has_local st obj \<longleftrightarrow> map_of (lmaps st) obj \<noteq> None"

definition set_local :: "'o \<Rightarrow> 'v imap \<Rightarrow> ('o, 'v) snapmap \<Rightarrow> ('o, 'v) snapmap" where
  "set_local obj m st = st\<lparr>lmaps := AList.update obj m (lmaps st)\<rparr>"

text \<open>The sequence \<^verbatim>\<open>begin( obj )\<close> .. \<^verbatim>\<open>end( obj )\<close>.\<close>

definition sm_view :: "('o, 'v) snapmap \<Rightarrow> 'o \<Rightarrow> 'v imap" where
  "sm_view st obj = (case map_of (lmaps st) obj of Some m \<Rightarrow> m | None \<Rightarrow> snap_range st obj)"

section \<open>Operations of the snapshotted map\<close>

definition ival_eqv :: "ival \<Rightarrow> ival \<Rightarrow> bool" where
  "ival_eqv i j \<longleftrightarrow> \<not> ival_less i j \<and> \<not> ival_less j i"

text \<open>\<^verbatim>\<open>at\<close>: \<^verbatim>\<open>std::map::find\<close> in local storage, a binary search in a snapshot.\<close>

definition sm_at :: "('o, 'v) snapmap \<Rightarrow> 'o \<Rightarrow> ival \<Rightarrow> (ival \<times> 'v) option" where
  "sm_at st obj key =
     (case map_of (lmaps st) obj of
        Some m \<Rightarrow> find (\<lambda>e. ival_eqv (fst e) key) m
      | None \<Rightarrow>
          (case snd (lower_bound (snap_range st obj) key) of
             [] \<Rightarrow> None
           | p # _ \<Rightarrow> if ival_less key (fst p) then None else Some p))"

definition sm_at_rw :: "('o, 'v) snapmap \<Rightarrow> 'o \<Rightarrow> ival \<Rightarrow> (ival \<times> 'v) option" where
  "sm_at_rw st obj key =
     (case map_of (lmaps st) obj of
        Some m \<Rightarrow> find (\<lambda>e. ival_eqv (fst e) key) m
      | None \<Rightarrow> None)"

definition sm_set :: "'o \<Rightarrow> ival \<Rightarrow> 'v \<Rightarrow> ('o, 'v) snapmap \<Rightarrow> ('o, 'v) snapmap" where
  "sm_set obj key v st = set_local obj (map_assign (key, v) (local_map st obj)) st"

definition sm_erase :: "'o \<Rightarrow> ival \<Rightarrow> ('o, 'v) snapmap \<Rightarrow> ('o, 'v) snapmap" where
  "sm_erase obj key st =
     (if has_local st obj
      then set_local obj (filter (\<lambda>e. \<not> ival_eqv (fst e) key) (local_map st obj)) st
      else st)"

text \<open>\<^verbatim>\<open>snapshot\<close>: a loop over the local maps, which are then cleared.\<close>

fun snapshot_loop :: "('o \<times> 'v imap) list \<Rightarrow> ('o, 'v) snapmap \<Rightarrow> ('o, 'v) snapmap option" where
  "snapshot_loop [] st = Some st"
| "snapshot_loop ((obj, m) # rest) st =
     (if m = [] then snapshot_loop rest st
      else case make_snap obj m st of None \<Rightarrow> None | Some st' \<Rightarrow> snapshot_loop rest st')"

definition sm_snapshot :: "('o, 'v) snapmap \<Rightarrow> ('o, 'v) snapmap option" where
  "sm_snapshot st =
     (case snapshot_loop (lmaps st) st of None \<Rightarrow> None | Some st' \<Rightarrow> Some (st'\<lparr>lmaps := []\<rparr>))"

text \<open>\<^verbatim>\<open>materialise\<close> clears the snapshot pointer of the object.\<close>

definition sm_materialise :: "'o \<Rightarrow> ('o, 'v) snapmap \<Rightarrow> ('o, 'v) snapmap" where
  "sm_materialise obj st = st\<lparr>snaps := AList.delete obj (snaps st)\<rparr>"

definition sm_free :: "'o \<Rightarrow> ('o, 'v) snapmap \<Rightarrow> ('o, 'v) snapmap option" where
  "sm_free obj st =
     asserting (\<not> snapped st obj) (Some (st\<lparr>lmaps := AList.delete obj (lmaps st)\<rparr>))"

text \<open>\<^verbatim>\<open>_cmp\<close>: entry by entry, first the keys, then the callback on the values.\<close>

fun sm_cmp :: "(ival \<Rightarrow> 'v \<Rightarrow> 'v \<Rightarrow> int) \<Rightarrow> 'v imap \<Rightarrow> 'v imap \<Rightarrow> int" where
  "sm_cmp cb [] [] = 0"
| "sm_cmp cb [] (b # bs) = 1"
| "sm_cmp cb (a # as) [] = - 1"
| "sm_cmp cb (a # as) (b # bs) =
     (if ival_diff (fst a) (fst b) \<noteq> 0 then ival_diff (fst a) (fst b)
      else if cb (fst a) (snd a) (snd b) \<noteq> 0 then cb (fst a) (snd a) (snd b)
      else sm_cmp cb as bs)"

definition sm_compare :: "(ival \<Rightarrow> 'v \<Rightarrow> 'v \<Rightarrow> int) \<Rightarrow> ('o, 'v) snapmap \<Rightarrow> 'o \<Rightarrow> 'o \<Rightarrow> int" where
  "sm_compare cb st a b = sm_cmp cb (sm_view st a) (sm_view st b)"

text \<open>\<^verbatim>\<open>foreach\<close>: the entries the callback sees, in order. The code walks the snapshot also where
  there is a local map.\<close>

definition sm_foreach :: "('o, 'v) snapmap \<Rightarrow> 'o \<Rightarrow> 'v imap" where
  "sm_foreach st i = local_map st i @ snap_range st i"

text \<open>
  \<^verbatim>\<open>copy\<close>: the entries of the source that start in the range, moved by the distance. \<open>fm\<close> is the
  source storage; where it is the same storage as the destination the two objects differ (the
  code walks backwards for one object and a positive distance, which is not modelled).
\<close>

definition range_entries :: "'v imap \<Rightarrow> ival \<Rightarrow> int \<Rightarrow> 'v imap" where
  "range_entries m off sz = fst (lower_bound (snd (lower_bound m off)) (ival_plus off sz))"

definition sm_copy :: "('o, 'v) snapmap \<Rightarrow> 'o \<Rightarrow> ival \<Rightarrow> 'p \<Rightarrow> ival \<Rightarrow> int
    \<Rightarrow> ('p, 'v) snapmap \<Rightarrow> ('p, 'v) snapmap" where
  "sm_copy fm from_object from_offset to_object to_offset sz st =
     (if sz < 1 then st
      else let delta = signed32 (ival_diff to_offset from_offset)
           in fold (\<lambda>x. sm_set to_object (ival_plus (fst x) delta) (snd x))
                (range_entries (sm_view fm from_object) from_offset sz) st)"

section \<open>The interval metadata map\<close>

definition imm_insert :: "'o \<Rightarrow> int \<Rightarrow> int \<Rightarrow> 'v \<Rightarrow> ('o, 'v) snapmap \<Rightarrow> ('o, 'v) snapmap" where
  "imm_insert obj from to d st = set_local obj (im_insert from to d (local_map st obj)) st"

definition imm_erase :: "'o \<Rightarrow> int \<Rightarrow> int \<Rightarrow> ('o, 'v) snapmap \<Rightarrow> ('o, 'v) snapmap" where
  "imm_erase obj from to st =
     (if has_local st obj then set_local obj (im_erase from to (local_map st obj)) st else st)"

definition imm_at :: "('o, 'v) snapmap \<Rightarrow> 'o \<Rightarrow> int \<Rightarrow> (ival \<times> 'v) option" where
  "imm_at st obj val = im_at (sm_view st obj) val"

definition imm_intersect :: "('o, 'v) snapmap \<Rightarrow> 'o \<Rightarrow> int \<Rightarrow> int \<Rightarrow> (ival \<times> 'v) option" where
  "imm_intersect st obj val len = im_intersect (sm_view st obj) val len"

text \<open>
  \<^verbatim>\<open>copy\<close>: an interval that reaches into the range from the left is inserted cut to the range (and
  is all there is to do if it covers the range), then one that reaches out on the right; what is
  left in between is erased and copied entry by entry. Offsets are \<^verbatim>\<open>uint32_t\<close>, the distance and the
  size are \<^verbatim>\<open>int\<close>. As in \<open>sm_copy\<close>, the two objects differ where the storage is the same.
\<close>

definition copy_middle :: "('o, 'v) snapmap \<Rightarrow> 'o \<Rightarrow> int \<Rightarrow> 'p \<Rightarrow> int \<Rightarrow> int
    \<Rightarrow> ('p, 'v) snapmap \<Rightarrow> ('p, 'v) snapmap" where
  "copy_middle fm from_object from_offset to_object to_offset sz st =
     (if sz < 1 then st
      else sm_copy fm from_object (ival_at from_offset) to_object (ival_at to_offset) sz
             (imm_erase to_object to_offset (wrap32 (to_offset + sz)) st))"

definition copy_right :: "('o, 'v) snapmap \<Rightarrow> 'o \<Rightarrow> int \<Rightarrow> 'p \<Rightarrow> int \<Rightarrow> int \<Rightarrow> int
    \<Rightarrow> ('p, 'v) snapmap \<Rightarrow> ('p, 'v) snapmap" where
  "copy_right fm from_object from_offset to_object to_offset sz delta st =
     (case imm_at fm from_object (wrap32 (from_offset + sz)) of
        None \<Rightarrow> copy_middle fm from_object from_offset to_object to_offset sz st
      | Some p \<Rightarrow>
          copy_middle fm from_object from_offset to_object to_offset (signed32 (ifrom (fst p) - from_offset))
            (imm_insert to_object (wrap32 (ifrom (fst p) + delta)) (wrap32 (to_offset + sz)) (snd p) st))"

definition imm_copy :: "('o, 'v) snapmap \<Rightarrow> 'o \<Rightarrow> int \<Rightarrow> 'p \<Rightarrow> int \<Rightarrow> int
    \<Rightarrow> ('p, 'v) snapmap \<Rightarrow> ('p, 'v) snapmap" where
  "imm_copy fm from_object from_offset to_object to_offset sz st =
     (if sz < 1 then st
      else let delta = signed32 (to_offset - from_offset)
           in case (if 0 < from_offset then imm_at fm from_object (from_offset - 1) else None) of
                None \<Rightarrow> copy_right fm from_object from_offset to_object to_offset sz delta st
              | Some p \<Rightarrow>
                  if ito (fst p) > wrap32 (from_offset + sz)
                  then imm_insert to_object to_offset (wrap32 (to_offset + sz)) (snd p) st
                  else copy_right fm from_object (ito (fst p)) to_object (wrap32 (ito (fst p) + delta))
                         (signed32 (sz - (ito (fst p) - from_offset))) delta
                         (imm_insert to_object to_offset (wrap32 (ito (fst p) + delta)) (snd p) st))"

end
