(* ===== verification/IntervalMapFacts.thy ===== *)
theory IntervalMapFacts
  imports IntervalMap
begin

text \<open>
  The interval map against its meaning. A map denotes a partial function from positions to data;
  inserting and erasing an interval override that function on the interval and nowhere else,
  whatever pieces of other intervals have to be cut away, and keep the entries sorted and
  disjoint.
\<close>

section \<open>Meaning and invariant\<close>

fun den :: "'v imap \<Rightarrow> int \<Rightarrow> 'v option" where
  "den [] x = None"
| "den (e # es) x = (if inside x (fst e) then Some (snd e) else den es x)"

fun disjoint_sorted :: "'v imap \<Rightarrow> bool" where
  "disjoint_sorted [] = True"
| "disjoint_sorted (e # es) =
     (ifrom (fst e) < ito (fst e) \<and> (\<forall>e' \<in> set es. ito (fst e) \<le> ifrom (fst e')) \<and> disjoint_sorted es)"

text \<open>No entry has a point in common with \<open>[from, to)\<close>.\<close>

definition clear_of :: "int \<Rightarrow> int \<Rightarrow> 'v imap \<Rightarrow> bool" where
  "clear_of from to m \<longleftrightarrow> (\<forall>e \<in> set m. ito (fst e) \<le> from \<or> to \<le> ifrom (fst e))"

lemma ival_sel [simp]: "ifrom (mk_ival f t) = f" "ito (mk_ival f t) = t"
  by (simp_all add: mk_ival_def)

lemma ival_at_less [simp]:
  "ival_less (ival_at x) i \<longleftrightarrow> x < ifrom i" "ival_less i (ival_at x) \<longleftrightarrow> ifrom i < x"
  by (simp_all add: ival_less_def ival_at_def)

lemma disjoint_sorted_append [simp]:
  "disjoint_sorted (xs @ ys) \<longleftrightarrow> disjoint_sorted xs \<and> disjoint_sorted ys \<and>
     (\<forall>x \<in> set xs. \<forall>y \<in> set ys. ito (fst x) \<le> ifrom (fst y))"
  by (induction xs) auto

lemma disjoint_sorted_mem: "disjoint_sorted m \<Longrightarrow> e \<in> set m \<Longrightarrow> ifrom (fst e) < ito (fst e)"
  by (induction m) auto

lemma den_append: "den (xs @ ys) x = (case den xs x of None \<Rightarrow> den ys x | Some v \<Rightarrow> Some v)"
  by (induction xs) auto

lemma den_None: "(\<And>e. e \<in> set m \<Longrightarrow> \<not> inside x (fst e)) \<Longrightarrow> den m x = None"
  by (induction m) auto

lemma den_SomeD: "den m x = Some v \<Longrightarrow> \<exists>e \<in> set m. inside x (fst e) \<and> snd e = v"
  by (induction m) (auto split: if_splits)

lemma den_None_iff: "den m x = None \<longleftrightarrow> (\<forall>e \<in> set m. \<not> inside x (fst e))"
  by (induction m) auto

lemma den_mem:
  "disjoint_sorted m \<Longrightarrow> e \<in> set m \<Longrightarrow> inside x (fst e) \<Longrightarrow> den m x = Some (snd e)"
proof (induction m)
  case (Cons a m)
  show ?case
  proof (cases "e = a")
    case False
    then have "\<not> inside x (fst a)" using Cons.prems by (auto simp: inside_def)
    then show ?thesis using Cons False by auto
  qed (use Cons.prems in simp)
qed simp

lemma clear_of_append [simp]: "clear_of f t (xs @ ys) \<longleftrightarrow> clear_of f t xs \<and> clear_of f t ys"
  by (auto simp: clear_of_def)

lemma clear_of_Cons [simp]:
  "clear_of f t (e # m) \<longleftrightarrow> (ito (fst e) \<le> f \<or> t \<le> ifrom (fst e)) \<and> clear_of f t m"
  by (auto simp: clear_of_def)

lemma clear_of_Nil [simp]: "clear_of f t []"
  by (simp add: clear_of_def)

lemma clear_den: "clear_of f t m \<Longrightarrow> f \<le> x \<Longrightarrow> x < t \<Longrightarrow> den m x = None"
  by (rule den_None) (force simp: clear_of_def inside_def)

section \<open>Insertion of an interval nothing overlaps\<close>

lemma map_insert_clear:
  assumes "disjoint_sorted m" "clear_of f t m" "f < t"
  shows "disjoint_sorted (map_insert (mk_ival f t, d) m) \<and>
    set (map_insert (mk_ival f t, d) m) = insert (mk_ival f t, d) (set m)"
  using assms
proof (induction m)
  case (Cons e m)
  have "ifrom (fst e) < ito (fst e)" using Cons.prems by simp
  then show ?case
    using Cons by (auto simp: ival_less_def)
qed simp

lemma den_map_insert_clear:
  assumes "disjoint_sorted m" "clear_of f t m" "f < t"
  shows "den (map_insert (mk_ival f t, d) m) x = (if f \<le> x \<and> x < t then Some d else den m x)"
proof -
  note ins = map_insert_clear [OF assms, of d]
  show ?thesis
  proof (cases "f \<le> x \<and> x < t")
    case True
    then show ?thesis
      using den_mem [of "map_insert (mk_ival f t, d) m" "(mk_ival f t, d)" x] ins
      by (auto simp: inside_def)
  next
    case False
    show ?thesis
    proof (cases "den m x")
      case None
      then have "den (map_insert (mk_ival f t, d) m) x = None"
        using False ins by (auto simp: den_None_iff inside_def)
      with None False show ?thesis by simp
    next
      case (Some v)
      then obtain e where "e \<in> set m" "inside x (fst e)" "snd e = v"
        by (blast dest: den_SomeD)
      then show ?thesis
        using den_mem [of "map_insert (mk_ival f t, d) m" e x] ins False Some by auto
    qed
  qed
qed

section \<open>Erasing\<close>

text \<open>From the first entry that starts at or after \<open>from\<close> on, the loop and the cut to the left
  remove what lies in \<open>[from, to)\<close>.\<close>

lemma chomp_destroy:
  assumes "disjoint_sorted m" "\<forall>e \<in> set m. from \<le> ifrom (fst e)" "from < to"
  defines "m' \<equiv> chomp_left to (destroy_covered from to m)"
  shows "disjoint_sorted m' \<and> (\<forall>e \<in> set m'. to \<le> ifrom (fst e)) \<and>
    (\<forall>x. den m' x = (if from \<le> x \<and> x < to then None else den m x)) \<and>
    (\<forall>e' \<in> set m'. \<exists>e \<in> set m. ifrom (fst e) \<le> ifrom (fst e'))"
  using assms(1,2) unfolding m'_def
proof (induction m)
  case (Cons e m)
  have ne: "ifrom (fst e) < ito (fst e)" "from \<le> ifrom (fst e)"
    and tail: "\<forall>e' \<in> set m. ito (fst e) \<le> ifrom (fst e')"
    using Cons.prems by auto
  show ?case
  proof (cases "to \<ge> ito (fst e)")
    case True
    then have "\<not> inside x (fst e)" if "\<not> (from \<le> x \<and> x < to)" for x
      using that ne by (auto simp: inside_def)
    then show ?thesis using Cons True ne by auto
  next
    case False
    then have tail': "\<forall>e' \<in> set m. to \<le> ifrom (fst e')" using tail by force
    then have out: "den m x = None" if "x < to" for x
      using that by (intro den_None) (auto simp: inside_def)
    have d: "destroy_covered from to (e # m) = e # m" using False by simp
    show ?thesis
      unfolding d using False Cons.prems tail' ne out assms(3)
      by (auto simp: inside_def)
  qed
qed simp

lemma chomp_destroy_from:
  assumes "disjoint_sorted m" "\<forall>e \<in> set m. from \<le> ifrom (fst e)" "from < to"
    and "e' \<in> set (chomp_left to (destroy_covered from to m))"
  shows "to \<le> ifrom (fst e')"
  using chomp_destroy [OF assms(1-3)] assms(4) by blast

lemma map_insert_front:
  assumes "\<forall>e \<in> set es. t < ifrom (fst e)"
  shows "map_insert (mk_ival t u, d) es = (mk_ival t u, d) # es"
  using assms by (cases es) (auto simp: ival_less_def)

lemma erase_at_spec:
  assumes m: "disjoint_sorted (pre @ e # es)" and "from < to"
    and pre: "\<forall>e' \<in> set pre. ito (fst e') \<le> from" and es: "\<forall>e' \<in> set es. from \<le> ifrom (fst e')"
    and r: "erase_at from to pre e es = (p, q)"
  shows "disjoint_sorted (p @ q) \<and> clear_of from to (p @ q) \<and>
    den (p @ q) x = (if from \<le> x \<and> x < to then None else den (pre @ e # es) x)"
proof -
  let ?i = "fst e" and ?d = "snd e"
  have ne: "ifrom ?i < ito ?i" and tail: "\<forall>e' \<in> set es. ito ?i \<le> ifrom (fst e')"
    and dses: "disjoint_sorted es" and dspre: "disjoint_sorted pre"
    using m by auto
  have pre_out: "from \<le> x \<Longrightarrow> den pre x = None" for x
    using pre by (intro den_None) (auto simp: inside_def)
  have clear_pre: "clear_of from to pre"
    using pre by (auto simp: clear_of_def)
  show ?thesis
  proof (cases "ifrom ?i < from \<and> to < ito ?i")
    case True
    have "\<forall>e' \<in> set es. to < ifrom (fst e')" using tail True by force
    then have q: "p = pre" "q = (?i\<lparr>ito := from\<rparr>, ?d) # (mk_ival to (ito ?i), ?d) # es"
      using r True by (auto simp: erase_at_def Let_def map_insert_front)
    have "den es x = None" if "x < ito ?i" for x
      using that tail by (intro den_None) (auto simp: inside_def)
    then show ?thesis
      unfolding q using True m tail pre \<open>from < to\<close>
      by (auto simp: den_append inside_def clear_of_def pre_out split: option.splits)
  next
    case False
    define post where "post = (if ito ?i \<le> from \<or> ifrom ?i < from \<and> to \<ge> ito ?i then es else e # es)"
    define p0 where "p0 = (if ito ?i \<le> from then pre @ [e]
      else if ifrom ?i < from \<and> to \<ge> ito ?i then pre @ [(?i\<lparr>ito := from\<rparr>, ?d)] else pre)"
    have pq: "p = p0" "q = chomp_left to (destroy_covered from to post)"
      using r False by (auto simp: erase_at_def Let_def post_def p0_def split: if_splits)
    have post: "disjoint_sorted post" "\<forall>e' \<in> set post. from \<le> ifrom (fst e')"
      using m es False by (auto simp: post_def)
    note cd = chomp_destroy [OF post \<open>from < to\<close>]
    have dsp0: "disjoint_sorted p0" "\<forall>e' \<in> set p0. ito (fst e') \<le> from"
      using m pre by (auto simp: p0_def)
    have "disjoint_sorted (p @ q)"
      using cd dsp0 \<open>from < to\<close> by (force simp: pq)
    moreover have "clear_of from to (p @ q)"
      using cd dsp0 by (auto simp: pq clear_of_def)
    moreover have "den (p @ q) x = (if from \<le> x \<and> x < to then None else den (pre @ e # es) x)"
    proof -
      have p0_out: "from \<le> x \<Longrightarrow> den p0 x = None"
        using dsp0 by (intro den_None) (auto simp: inside_def)
      have post_out: "x < from \<Longrightarrow> den post x = None"
        using post by (intro den_None) (auto simp: inside_def)
      have left: "x < from \<Longrightarrow> den p0 x = den (pre @ e # es) x"
        using False es ne
        by (auto simp: p0_def den_append inside_def den_None split: option.splits
            intro!: den_None [symmetric])
      have right: "\<not> x < to \<Longrightarrow> den post x = den (pre @ e # es) x"
        using False pre_out [of x] \<open>from < to\<close>
        by (auto simp: post_def den_append inside_def)
      have q: "den q x = (if from \<le> x \<and> x < to then None else den post x)"
        using cd by (simp add: pq)
      have app: "den (p @ q) x = (case den p0 x of None \<Rightarrow> den q x | Some v \<Rightarrow> Some v)"
        by (simp add: pq(1) den_append)
      show ?thesis
      proof (cases "x < from")
        case True
        then show ?thesis
          using q app left post_out by (auto split: option.splits)
      next
        case False
        then have "den (p @ q) x = den q x" using app p0_out by simp
        then show ?thesis using q right False by simp
      qed
    qed
    ultimately show ?thesis by blast
  qed
qed

section \<open>The cut at \<^verbatim>\<open>upper_bound\<close>\<close>

lemma upper_bound_parts:
  assumes "disjoint_sorted m" "upper_bound m (ival_at k) = (pre, post)"
  shows "m = pre @ post" "\<forall>e \<in> set pre. ifrom (fst e) \<le> k" "\<forall>e \<in> set post. k < ifrom (fst e)"
proof -
  have pp: "pre = takeWhile (\<lambda>e. \<not> k < ifrom (fst e)) m" "post = dropWhile (\<lambda>e. \<not> k < ifrom (fst e)) m"
    using assms(2) by (simp_all add: upper_bound_def)
  show m: "m = pre @ post" by (simp add: pp)
  show "\<forall>e \<in> set pre. ifrom (fst e) \<le> k"
    by (auto simp: pp dest: set_takeWhileD)
  show "\<forall>e \<in> set post. k < ifrom (fst e)"
  proof (cases post)
    case (Cons a as)
    then have "k < ifrom (fst a)"
      using pp(2) by (metis dropWhile_eq_Cons_conv)
    moreover have "disjoint_sorted post" using assms(1) by (simp add: m)
    ultimately show ?thesis using Cons by force
  qed simp
qed

lemma upper_bound_last:
  assumes "disjoint_sorted m" "upper_bound m (ival_at k) = (pre, post)" "pre \<noteq> []"
  shows "m = butlast pre @ last pre # post" "ifrom (fst (last pre)) \<le> k"
    "\<forall>e \<in> set (butlast pre). ito (fst e) \<le> k"
proof -
  note ub = upper_bound_parts [OF assms(1,2)]
  have pre: "pre = butlast pre @ [last pre]" using assms(3) by simp
  show m: "m = butlast pre @ last pre # post"
    using ub(1) pre by (metis append.assoc append_Cons append_Nil)
  show last: "ifrom (fst (last pre)) \<le> k" using ub(2) assms(3) by simp
  show "\<forall>e \<in> set (butlast pre). ito (fst e) \<le> k"
    using assms(1) last by (subst (asm) m) force
qed

lemma erase_or_create_spec:
  assumes "disjoint_sorted m" "from < to" "erase_or_create from to m = (p, q)"
  shows "disjoint_sorted (p @ q) \<and> clear_of from to (p @ q) \<and>
    den (p @ q) x = (if from \<le> x \<and> x < to then None else den m x)"
proof (cases "m = []")
  case True
  then show ?thesis using assms(3) by (simp add: erase_or_create_def)
next
  case False
  obtain pre post where ub: "upper_bound m (ival_at from) = (pre, post)" by fastforce
  note parts = upper_bound_parts [OF assms(1) ub]
  show ?thesis
  proof (cases "pre = []")
    case True
    then obtain e es where post: "post = e # es" "m = e # es"
      using parts(1) \<open>m \<noteq> []\<close> by (cases post) auto
    have r: "erase_at from to [] e es = (p, q)"
      using assms ub True post False by (simp add: erase_or_create_def)
    have "\<forall>e' \<in> set es. from \<le> ifrom (fst e')" using parts(3) post by force
    then show ?thesis
      using erase_at_spec [OF _ assms(2) _ _ r, of x] assms(1) post by simp
  next
    case pre: False
    note last = upper_bound_last [OF assms(1) ub pre]
    have r: "erase_at from to (butlast pre) (last pre) post = (p, q)"
      using assms ub pre False by (simp add: erase_or_create_def)
    have "\<forall>e' \<in> set post. from \<le> ifrom (fst e')" using parts(3) by force
    then show ?thesis
      using erase_at_spec [OF _ assms(2) last(3) _ r, of x] assms(1) last(1) by metis
  qed
qed

lemma erase_or_create_empty:
  "\<not> from < to \<Longrightarrow> erase_or_create from to m = (m, [])"
  by (simp add: erase_or_create_def)

section \<open>The operations\<close>

lemma im_insert_spec:
  assumes "disjoint_sorted m"
  shows "disjoint_sorted (im_insert from to d m) \<and>
    den (im_insert from to d m) x = (if from \<le> x \<and> x < to then Some d else den m x)"
proof (cases "from < to")
  case False
  then show ?thesis using assms by (auto simp: im_insert_def erase_or_create_empty)
next
  case True
  obtain p q where pq: "erase_or_create from to m = (p, q)" by fastforce
  note spec = erase_or_create_spec [OF assms True pq]
  then have ds: "disjoint_sorted (p @ q)" and cl: "clear_of from to (p @ q)" by blast+
  have "im_insert from to d m = map_insert (mk_ival from to, d) (p @ q)"
    using True pq by (simp add: im_insert_def)
  then show ?thesis
    using map_insert_clear [OF ds cl True, of d] den_map_insert_clear [OF ds cl True, of d x]
      spec [of x] by simp
qed

lemmas disjoint_sorted_im_insert [inv_intros] = im_insert_spec [THEN conjunct1]
lemmas den_im_insert = im_insert_spec [THEN conjunct2]

lemma im_erase_spec:
  assumes "disjoint_sorted m"
  shows "disjoint_sorted (im_erase from to m) \<and>
    den (im_erase from to m) x = (if from \<le> x \<and> x < to then None else den m x)"
proof (cases "from < to")
  case False
  then show ?thesis using assms by (auto simp: im_erase_def erase_or_create_empty)
next
  case True
  obtain p q where pq: "erase_or_create from to m = (p, q)" by fastforce
  then show ?thesis
    using erase_or_create_spec [OF assms True pq, of x] by (simp add: im_erase_def)
qed

lemmas disjoint_sorted_im_erase [inv_intros] = im_erase_spec [THEN conjunct1]
lemmas den_im_erase = im_erase_spec [THEN conjunct2]

lemma clear_of_im_erase:
  assumes "disjoint_sorted m" "from < to"
  shows "clear_of from to (im_erase from to m)"
proof -
  obtain p q where pq: "erase_or_create from to m = (p, q)" by fastforce
  then show ?thesis
    using erase_or_create_spec [OF assms pq] by (simp add: im_erase_def)
qed

lemma im_at_spec:
  assumes "disjoint_sorted m"
  shows "map_option snd (im_at m x) = den m x"
    "im_at m x = Some e \<Longrightarrow> e \<in> set m \<and> inside x (fst e)"
proof -
  obtain pre post where ub: "upper_bound m (ival_at x) = (pre, post)" by fastforce
  note parts = upper_bound_parts [OF assms ub]
  have *: "im_at m x = (if pre \<noteq> [] \<and> inside x (fst (last pre)) then Some (last pre) else None)"
    using ub by (simp add: im_at_def im_before_def)
  show "im_at m x = Some e \<Longrightarrow> e \<in> set m \<and> inside x (fst e)"
    using * parts(1) by (auto split: if_splits)
  show "map_option snd (im_at m x) = den m x"
  proof (cases "pre \<noteq> [] \<and> inside x (fst (last pre))")
    case True
    then have "last pre \<in> set m" using parts(1) by simp
    then show ?thesis using True den_mem [OF assms] * by auto
  next
    case False
    have "\<not> inside x (fst e)" if "e \<in> set m" for e
    proof (cases "pre = []")
      case True
      then show ?thesis using parts that by (auto simp: inside_def)
    next
      case pre: False
      note last = upper_bound_last [OF assms ub pre]
      have "e \<in> set (butlast pre) \<or> e = last pre \<or> e \<in> set post"
        using that last(1) by (metis Un_iff set_ConsD set_append)
      then show ?thesis
        using last(3) parts(3) False pre by (auto simp: inside_def)
    qed
    then have "den m x = None" by (rule den_None)
    with False * show ?thesis by auto
  qed
qed

end
