(* ===== verification/SnapMapFacts.thy ===== *)
theory SnapMapFacts
  imports SnapMap IntervalMapFacts
begin

text \<open>
  The contract of a store of ranges, as a locale, and its two providers: the interval map of one
  object and the snapshotted storage of all objects. Then what snapshots and copies do to the
  meaning of the storage.
\<close>

section \<open>The interface of a range store\<close>

datatype 'v range_op = Insert int int 'v | Erase int int

fun op_covers :: "int \<Rightarrow> 'v range_op \<Rightarrow> bool" where
  "op_covers x (Insert f t d) = (f \<le> x \<and> x < t)"
| "op_covers x (Erase f t) = (f \<le> x \<and> x < t)"

fun op_value :: "'v range_op \<Rightarrow> 'v option" where
  "op_value (Insert f t d) = Some d"
| "op_value (Erase f t) = None"

text \<open>What a position holds after a history of operations: the last one that covers it decides.\<close>

fun history_value :: "'v range_op list \<Rightarrow> int \<Rightarrow> 'v option \<Rightarrow> 'v option" where
  "history_value [] x old = old"
| "history_value (a # as) x old = history_value as x (if op_covers x a then op_value a else old)"

locale range_store =
  fixes inv :: "'s \<Rightarrow> bool"
    and look :: "'s \<Rightarrow> int \<Rightarrow> 'v option"
    and ins :: "int \<Rightarrow> int \<Rightarrow> 'v \<Rightarrow> 's \<Rightarrow> 's"
    and era :: "int \<Rightarrow> int \<Rightarrow> 's \<Rightarrow> 's"
  assumes inv_ins: "inv s \<Longrightarrow> inv (ins f t d s)"
    and inv_era: "inv s \<Longrightarrow> inv (era f t s)"
    and look_ins: "inv s \<Longrightarrow> look (ins f t d s) x = (if f \<le> x \<and> x < t then Some d else look s x)"
    and look_era: "inv s \<Longrightarrow> look (era f t s) x = (if f \<le> x \<and> x < t then None else look s x)"
begin

fun apply_op :: "'v range_op \<Rightarrow> 's \<Rightarrow> 's" where
  "apply_op (Insert f t d) s = ins f t d s"
| "apply_op (Erase f t) s = era f t s"

lemma apply_op_laws:
  assumes "inv s"
  shows "inv (apply_op a s)"
    "look (apply_op a s) x = (if op_covers x a then op_value a else look s x)"
  using assms by (cases a; simp add: inv_ins inv_era look_ins look_era)+

lemma run_history:
  assumes "inv s"
  shows "inv (fold apply_op as s) \<and> look (fold apply_op as s) x = history_value as x (look s x)"
  using assms
proof (induction as arbitrary: s)
  case (Cons a as)
  then show ?case using apply_op_laws [OF Cons.prems] by simp
qed simp

end

interpretation im: range_store disjoint_sorted den im_insert im_erase
  by unfold_locales (simp_all add: disjoint_sorted_im_insert disjoint_sorted_im_erase den_im_insert
      den_im_erase)

section \<open>The storage\<close>

definition sm_ok :: "('o, 'v) snapmap \<Rightarrow> bool" where
  "sm_ok st \<longleftrightarrow> distinct (map fst (lmaps st)) \<and> (\<forall>obj. has_local st obj \<longrightarrow> \<not> snapped st obj) \<and>
     (\<forall>obj. disjoint_sorted (sm_view st obj))"

definition sm_look :: "('o, 'v) snapmap \<Rightarrow> 'o \<Rightarrow> int \<Rightarrow> 'v option" where
  "sm_look st obj x = den (sm_view st obj) x"

lemma sm_ok_view: "sm_ok st \<Longrightarrow> disjoint_sorted (sm_view st obj)"
  by (simp add: sm_ok_def)

lemma set_local_simps [simp]:
  "map_of (lmaps (set_local obj m st)) = (map_of (lmaps st))(obj \<mapsto> m)"
  "snaps (set_local obj m st) = snaps st"
  "snap_range (set_local obj m st) = snap_range st"
  "snapped (set_local obj m st) = snapped st"
  by (auto simp: set_local_def update_conv' snap_range_def snapped_def fun_eq_iff)

lemma sm_view_set_local:
  "sm_view (set_local obj m st) obj' = (if obj' = obj then m else sm_view st obj')"
  by (simp add: sm_view_def split: option.split)

lemma has_local_set_local [simp]: "has_local (set_local obj m st) obj' \<longleftrightarrow> obj' = obj \<or> has_local st obj'"
  by (simp add: has_local_def)

lemma sm_view_not_snapped: "\<not> snapped st obj \<Longrightarrow> sm_view st obj = local_map st obj"
  by (simp add: sm_view_def snapped_def local_map_def snap_range_def split: option.split)

lemma sm_ok_set_local:
  assumes "sm_ok st" "\<not> snapped st obj" "disjoint_sorted m"
  shows "sm_ok (set_local obj m st)"
proof -
  have "distinct (map fst (lmaps (set_local obj m st)))"
    using assms by (simp add: set_local_def sm_ok_def distinct_update)
  then show ?thesis
    using assms by (auto simp: sm_ok_def sm_view_set_local)
qed

text \<open>The object's own storage is a range store, provided no snapshot of the object is in the way.\<close>

definition writable :: "'o \<Rightarrow> ('o, 'v) snapmap \<Rightarrow> bool" where
  "writable obj st \<longleftrightarrow> sm_ok st \<and> \<not> snapped st obj"

lemma imm_insert_view:
  "\<not> snapped st obj \<Longrightarrow> sm_view (imm_insert obj f t d st) obj' =
     (if obj' = obj then im_insert f t d (sm_view st obj) else sm_view st obj')"
  by (simp add: imm_insert_def sm_view_set_local sm_view_not_snapped)

lemma imm_erase_view:
  "\<not> snapped st obj \<Longrightarrow> sm_view (imm_erase obj f t st) obj' =
     (if obj' = obj then im_erase f t (sm_view st obj) else sm_view st obj')"
  by (auto simp: imm_erase_def sm_view_set_local sm_view_not_snapped has_local_def local_map_def
      im_erase_def erase_or_create_def)

lemma writable_imm_insert: "writable obj st \<Longrightarrow> writable obj (imm_insert obj f t d st)"
  unfolding writable_def imm_insert_def
  by (simp add: sm_ok_set_local disjoint_sorted_im_insert sm_view_not_snapped [symmetric] sm_ok_view)

lemma writable_imm_erase: "writable obj st \<Longrightarrow> writable obj (imm_erase obj f t st)"
  unfolding writable_def imm_erase_def
  by (simp add: sm_ok_set_local disjoint_sorted_im_erase sm_view_not_snapped [symmetric] sm_ok_view)

interpretation imm: range_store "writable obj" "\<lambda>st. sm_look st obj" "imm_insert obj" "imm_erase obj"
  for obj :: 'o
proof unfold_locales
  fix s :: "('o, 'v) snapmap" and f t d x
  assume w: "writable obj s"
  show "writable obj (imm_insert obj f t d s)" using w by (rule writable_imm_insert)
  show "writable obj (imm_erase obj f t s)" using w by (rule writable_imm_erase)
  have ds: "disjoint_sorted (sm_view s obj)" "\<not> snapped s obj"
    using w by (simp_all add: writable_def sm_ok_view)
  then show "sm_look (imm_insert obj f t d s) obj x = (if f \<le> x \<and> x < t then Some d else sm_look s obj x)"
    by (simp add: sm_look_def imm_insert_view den_im_insert)
  show "sm_look (imm_erase obj f t s) obj x = (if f \<le> x \<and> x < t then None else sm_look s obj x)"
    using ds by (simp add: sm_look_def imm_erase_view den_im_erase)
qed

section \<open>Snapshots\<close>

lemma snapshot_loop_spec:
  assumes "distinct (map fst l)" "\<forall>obj \<in> fst ` set l. \<not> snapped st obj"
  shows "\<exists>st'. snapshot_loop l st = Some st' \<and> lmaps st' = lmaps st \<and>
    (\<forall>obj. map_of (snaps st') obj =
       (case map_of l obj of Some m \<Rightarrow> if m = [] then map_of (snaps st) obj else Some m
        | None \<Rightarrow> map_of (snaps st) obj))"
  using assms
proof (induction l arbitrary: st)
  case (Cons p l)
  obtain obj m where p: "p = (obj, m)" by fastforce
  show ?case
  proof (cases "m = []")
    case True
    obtain st' where st': "snapshot_loop l st = Some st'" "lmaps st' = lmaps st"
      "\<And>ob. map_of (snaps st') ob = (case map_of l ob of Some m \<Rightarrow> if m = [] then map_of (snaps st) ob else Some m
        | None \<Rightarrow> map_of (snaps st) ob)"
      using Cons.IH [of st] Cons.prems by (auto simp: p)
    have "map_of l obj = None" using Cons.prems by (simp add: p map_of_eq_None_iff)
    then show ?thesis using st' True by (auto simp: p)
  next
    case False
    define st1 where "st1 = st\<lparr>snaps := AList.update obj m (snaps st)\<rparr>"
    have mk: "make_snap obj m st = Some st1"
      using Cons.prems by (simp add: make_snap_def st1_def p)
    have s1: "map_of (snaps st1) = (map_of (snaps st))(obj \<mapsto> m)" "lmaps st1 = lmaps st"
      by (simp_all add: st1_def update_conv')
    have "\<forall>ob \<in> fst ` set l. \<not> snapped st1 ob"
      using Cons.prems by (auto simp: p snapped_def s1)
    then obtain st' where st': "snapshot_loop l st1 = Some st'" "lmaps st' = lmaps st"
      "\<And>ob. map_of (snaps st') ob = (case map_of l ob of Some m \<Rightarrow> if m = [] then map_of (snaps st1) ob else Some m
        | None \<Rightarrow> map_of (snaps st1) ob)"
      using Cons.IH [of st1] Cons.prems by (auto simp: p s1)
    have "map_of l obj = None" using Cons.prems by (simp add: p map_of_eq_None_iff)
    then have "\<forall>ob. map_of (snaps st') ob = (case map_of (p # l) ob of
        Some m \<Rightarrow> if m = [] then map_of (snaps st) ob else Some m | None \<Rightarrow> map_of (snaps st) ob)"
      using False by (auto simp: st'(3) p s1 split: option.splits)
    then show ?thesis
      using st' mk False by (auto simp: p)
  qed
qed simp

lemma sm_snapshot_spec:
  assumes "sm_ok st"
  shows "\<exists>st'. sm_snapshot st = Some st' \<and> lmaps st' = [] \<and> sm_ok st' \<and>
    (\<forall>obj. sm_view st' obj = sm_view st obj)"
proof -
  have "\<forall>obj \<in> fst ` set (lmaps st). \<not> snapped st obj"
    using assms by (auto simp: sm_ok_def has_local_def map_of_eq_None_iff)
  then obtain st' where st': "snapshot_loop (lmaps st) st = Some st'"
    "\<And>obj. map_of (snaps st') obj = (case map_of (lmaps st) obj of
        Some m \<Rightarrow> if m = [] then map_of (snaps st) obj else Some m | None \<Rightarrow> map_of (snaps st) obj)"
    using snapshot_loop_spec [of "lmaps st" st] assms by (auto simp: sm_ok_def)
  let ?st = "st'\<lparr>lmaps := []\<rparr>"
  have view: "sm_view ?st obj = sm_view st obj" for obj
    using assms st'(2) [of obj]
    by (auto simp: sm_view_def snap_range_def sm_ok_def has_local_def snapped_def split: option.splits)
  have "sm_ok ?st"
    using assms view by (auto simp: sm_ok_def has_local_def)
  then show ?thesis
    using st'(1) view by (auto simp: sm_snapshot_def)
qed

section \<open>Copying entries\<close>

text \<open>Where nothing overflows, the conversions do nothing.\<close>

lemma wrap32_id [simp]: "0 \<le> x \<Longrightarrow> x < 2 ^ 32 \<Longrightarrow> wrap32 x = x"
  by (simp add: wrap32_def)

lemma signed32_id [simp]: "- (2 ^ 31) \<le> x \<Longrightarrow> x < 2 ^ 31 \<Longrightarrow> signed32 x = x"
  by (simp add: signed32_def)

lemma wrap32_signed32 [simp]: "wrap32 (x + signed32 d) = wrap32 (x + d)"
proof -
  have "(x + signed32 d) mod 2 ^ 32 = (x - 2 ^ 31 + (d + 2 ^ 31) mod 2 ^ 32) mod 2 ^ 32"
    by (simp add: signed32_def algebra_simps)
  also have "\<dots> = (x - 2 ^ 31 + (d + 2 ^ 31)) mod 2 ^ 32" by (rule mod_add_right_eq)
  finally show ?thesis by (simp add: wrap32_def)
qed

definition ival_shift :: "ival \<Rightarrow> int \<Rightarrow> ival" where
  "ival_shift i d = mk_ival (ifrom i + d) (ito i + d)"

lemma ival_plus_shift:
  assumes "0 \<le> ifrom i + d" "ifrom i + d < 2 ^ 32" "0 \<le> ito i + d" "ito i + d < 2 ^ 32"
  shows "ival_plus i d = ival_shift i d" "ival_plus i (signed32 d) = ival_shift i d"
  using assms by (simp_all add: ival_plus_def ival_shift_def)

definition shifted :: "int \<Rightarrow> 'v imap \<Rightarrow> 'v imap" where
  "shifted delta es = map (\<lambda>e. (ival_shift (fst e) delta, snd e)) es"

lemma ival_shift_sel [simp]: "ifrom (ival_shift i d) = ifrom i + d" "ito (ival_shift i d) = ito i + d"
  by (simp_all add: ival_shift_def)

lemma den_shifted: "den (shifted delta es) x = den es (x - delta)"
  by (induction es) (auto simp: shifted_def inside_def algebra_simps)

lemma map_assign_clear:
  assumes "disjoint_sorted m" "clear_of (ifrom i) (ito i) m" "ifrom i < ito i"
  shows "map_assign (i, d) m = map_insert (mk_ival (ifrom i) (ito i), d) m"
  using assms
proof (induction m)
  case (Cons e m)
  have "ifrom (fst e) < ito (fst e)" using Cons.prems by simp
  then show ?case using Cons by (auto simp: ival_less_def mk_ival_def)
qed (simp add: mk_ival_def)

lemma fold_assign:
  assumes "disjoint_sorted es" "disjoint_sorted m"
    and "\<forall>e \<in> set es. clear_of (ifrom (fst e)) (ito (fst e)) m"
  shows "disjoint_sorted (fold map_assign es m) \<and>
    den (fold map_assign es m) x = (case den es x of Some v \<Rightarrow> Some v | None \<Rightarrow> den m x)"
  using assms
proof (induction es arbitrary: m)
  case (Cons e es)
  let ?i = "fst e" and ?m = "map_assign e m"
  have ne: "ifrom ?i < ito ?i" using Cons.prems by simp
  have asg: "?m = map_insert (mk_ival (ifrom ?i) (ito ?i), snd e) m"
    using map_assign_clear [of m ?i "snd e"] Cons.prems ne by simp
  have cl: "clear_of (ifrom ?i) (ito ?i) m" using Cons.prems by simp
  note ins = map_insert_clear [OF Cons.prems(2) cl ne, of "snd e"]
  have "\<forall>e' \<in> set es. clear_of (ifrom (fst e')) (ito (fst e')) ?m"
    using Cons.prems ins by (auto simp: clear_of_def asg)
  then have IH: "disjoint_sorted (fold map_assign es ?m) \<and>
      den (fold map_assign es ?m) x = (case den es x of Some v \<Rightarrow> Some v | None \<Rightarrow> den ?m x)"
    using Cons.IH [of ?m] Cons.prems ins by (simp add: asg)
  have "inside x ?i \<Longrightarrow> den es x = None"
    using Cons.prems by (intro den_None) (auto simp: inside_def)
  then show ?case
    using IH den_map_insert_clear [OF Cons.prems(2) cl ne, of "snd e" x]
    by (auto simp: asg inside_def split: option.splits)
qed simp

lemma disjoint_sorted_shifted [simp]: "disjoint_sorted (shifted d es) = disjoint_sorted es"
  by (induction es) (auto simp: shifted_def)

lemma range_entries_spec:
  assumes "disjoint_sorted m" "0 \<le> sz" "0 \<le> f" "f + sz < 2 ^ 32"
  shows "disjoint_sorted (range_entries m (ival_at f) sz)"
    "set (range_entries m (ival_at f) sz) = {e \<in> set m. f \<le> ifrom (fst e) \<and> ifrom (fst e) < f + sz}"
proof -
  have at: "ival_plus (ival_at f) sz = ival_at (f + sz)"
    using assms(2-4) by (simp add: ival_plus_def ival_at_def mk_ival_def)
  have *: "range_entries m (ival_at f) sz =
      takeWhile (\<lambda>e. ifrom (fst e) < f + sz) (dropWhile (\<lambda>e. ifrom (fst e) < f) m)"
    by (simp add: range_entries_def lower_bound_def at)
  have "disjoint_sorted (dropWhile P m)" for P
    using assms(1) by (metis disjoint_sorted_append takeWhile_dropWhile_id)
  then show "disjoint_sorted (range_entries m (ival_at f) sz)"
    unfolding * by (metis disjoint_sorted_append takeWhile_dropWhile_id)
  have tw: "set (takeWhile (\<lambda>e. ifrom (fst e) < k) l) = {e \<in> set l. ifrom (fst e) < k}"
    and dw: "set (dropWhile (\<lambda>e. ifrom (fst e) < k) l) = {e \<in> set l. k \<le> ifrom (fst e)}"
    if "disjoint_sorted l" for k and l :: "'v imap"
    using that by (induction l) force+
  show "set (range_entries m (ival_at f) sz) = {e \<in> set m. f \<le> ifrom (fst e) \<and> ifrom (fst e) < f + sz}"
    unfolding * using tw \<open>\<And>P. disjoint_sorted (dropWhile P m)\<close> dw [OF assms(1)] by blast
qed

lemma sm_set_view:
  "\<not> snapped st obj \<Longrightarrow> sm_view (sm_set obj k v st) obj' =
    (if obj' = obj then map_assign (k, v) (sm_view st obj) else sm_view st obj')"
  by (simp add: sm_set_def sm_view_set_local sm_view_not_snapped)

lemma snapped_sm_set [simp]: "snapped (sm_set obj k v st) = snapped st"
  by (simp add: sm_set_def)

lemma fold_sm_set:
  assumes "\<not> snapped st obj"
  shows "sm_view (fold (\<lambda>x. sm_set obj (ival_shift (fst x) delta) (snd x)) es st) obj' =
    (if obj' = obj then fold map_assign (shifted delta es) (sm_view st obj) else sm_view st obj')
    \<and> snapped (fold (\<lambda>x. sm_set obj (ival_shift (fst x) delta) (snd x)) es st) = snapped st"
  using assms by (induction es arbitrary: st) (simp_all add: shifted_def sm_set_view)

lemma distinct_lmaps_sm_set:
  "distinct (map fst (lmaps st)) \<Longrightarrow> distinct (map fst (lmaps (sm_set obj k v st)))"
  by (simp add: sm_set_def set_local_def distinct_update)

lemma has_local_sm_set: "has_local (sm_set obj k v st) ob \<longleftrightarrow> ob = obj \<or> has_local st ob"
  by (simp add: sm_set_def)

lemma fold_sm_set_distinct:
  "distinct (map fst (lmaps st)) \<Longrightarrow>
    distinct (map fst (lmaps (fold (\<lambda>x. sm_set obj (g x) (snd x)) es st)))"
  by (induction es arbitrary: st) (simp_all add: distinct_lmaps_sm_set)

lemma fold_sm_set_has_local:
  "has_local (fold (\<lambda>x. sm_set obj (g x) (snd x)) es st) ob \<Longrightarrow> ob = obj \<or> has_local st ob"
proof (induction es arbitrary: st)
  case (Cons e es)
  then have "ob = obj \<or> has_local (sm_set obj (g e) (snd e) st) ob" by simp
  then show ?case by (auto simp: has_local_sm_set)
qed simp

text \<open>No entry straddles the position.\<close>

definition cut_at :: "int \<Rightarrow> 'v imap \<Rightarrow> bool" where
  "cut_at k m \<longleftrightarrow> (\<forall>e \<in> set m. ito (fst e) \<le> k \<or> k \<le> ifrom (fst e))"

lemma cut_atD: "cut_at k m \<Longrightarrow> e \<in> set m \<Longrightarrow> ito (fst e) \<le> k \<or> k \<le> ifrom (fst e)"
  by (simp add: cut_at_def)

lemma den_range_entries:
  assumes "disjoint_sorted m" "0 \<le> sz" "0 \<le> f" "f + sz < 2 ^ 32" and cut: "cut_at f m" "cut_at (f + sz) m"
  shows "den (range_entries m (ival_at f) sz) x = (if f \<le> x \<and> x < f + sz then den m x else None)"
proof -
  note spec = range_entries_spec [OF assms(1-4)]
  show ?thesis
  proof (cases "f \<le> x \<and> x < f + sz")
    case False
    have "\<not> inside x (fst e)" if "e \<in> set (range_entries m (ival_at f) sz)" for e
      using that spec(2) cut_atD [OF cut(2), of e] False by (auto simp: inside_def)
    then show ?thesis using False by (auto simp: den_None)
  next
    case True
    have mem: "e \<in> set (range_entries m (ival_at f) sz)" if "e \<in> set m" "inside x (fst e)" for e
      using that spec(2) cut_atD [OF cut(1), of e] True by (auto simp: inside_def)
    show ?thesis
    proof (cases "den m x")
      case None
      then have "den (range_entries m (ival_at f) sz) x = None" using spec(2) by (auto simp: den_None_iff)
      with None True show ?thesis by simp
    next
      case (Some v)
      then obtain e where "e \<in> set m" "inside x (fst e)" "snd e = v" by (blast dest: den_SomeD)
      then show ?thesis using den_mem [OF spec(1) mem] Some True by auto
    qed
  qed
qed

lemma shifted_clear:
  assumes "disjoint_sorted m" "0 \<le> sz" "0 \<le> f" "f + sz < 2 ^ 32" "cut_at (f + sz) m" "clear_of t (t + sz) m'"
    and "e \<in> set (shifted (t - f) (range_entries m (ival_at f) sz))"
  shows "clear_of (ifrom (fst e)) (ito (fst e)) m'"
proof -
  obtain e0 where e0: "e0 \<in> set (range_entries m (ival_at f) sz)"
    and e: "e = (ival_shift (fst e0) (t - f), snd e0)"
    using assms(7) by (auto simp: shifted_def)
  have "f \<le> ifrom (fst e0)" "ito (fst e0) \<le> f + sz"
    using e0 range_entries_spec(2) [OF assms(1-4)] cut_atD [OF assms(5), of e0] by auto
  then show ?thesis
    using assms(6) by (fastforce simp: clear_of_def e)
qed

definition frame_ok :: "'o \<Rightarrow> ('o, 'v) snapmap \<Rightarrow> ('o, 'v) snapmap \<Rightarrow> bool" where
  "frame_ok obj st st' \<longleftrightarrow> writable obj st' \<and> snapped st' = snapped st \<and>
     (\<forall>ob. ob \<noteq> obj \<longrightarrow> sm_view st' ob = sm_view st ob)"

lemma frame_ok_refl: "writable obj st \<Longrightarrow> frame_ok obj st st"
  by (simp add: frame_ok_def)

lemma frame_ok_trans: "frame_ok obj st st' \<Longrightarrow> frame_ok obj st' st'' \<Longrightarrow> frame_ok obj st st''"
  by (simp add: frame_ok_def)

lemma frame_ok_insert: "writable obj st \<Longrightarrow> frame_ok obj st (imm_insert obj f t d st)"
  by (simp add: frame_ok_def writable_imm_insert)
    (simp add: imm_insert_def sm_view_set_local)

lemma frame_ok_erase: "writable obj st \<Longrightarrow> frame_ok obj st (imm_erase obj f t st)"
  by (simp add: frame_ok_def writable_imm_erase)
    (simp add: imm_erase_def sm_view_set_local)

lemma frame_ok_writable: "frame_ok obj st st' \<Longrightarrow> writable obj st'"
  by (simp add: frame_ok_def)

lemma fold_sm_set_frame:
  assumes "writable obj st" "disjoint_sorted (fold map_assign (shifted delta es) (sm_view st obj))"
  shows "frame_ok obj st (fold (\<lambda>x. sm_set obj (ival_shift (fst x) delta) (snd x)) es st)"
proof -
  let ?st = "fold (\<lambda>x. sm_set obj (ival_shift (fst x) delta) (snd x)) es st"
  have ns: "\<not> snapped st obj" and ok: "sm_ok st" using assms(1) by (simp_all add: writable_def)
  have view: "sm_view ?st ob = (if ob = obj then fold map_assign (shifted delta es) (sm_view st obj)
      else sm_view st ob)" and sn: "snapped ?st = snapped st" for ob
    using fold_sm_set [OF ns] by blast+
  have dl: "distinct (map fst (lmaps ?st))"
    using fold_sm_set_distinct [of st obj "\<lambda>x. ival_shift (fst x) delta" es] ok
    by (simp add: sm_ok_def)
  have hl: "\<not> snapped ?st ob" if "has_local ?st ob" for ob
    using fold_sm_set_has_local [OF that] ok ns by (auto simp: sm_ok_def sn)
  have "sm_ok ?st"
    unfolding sm_ok_def using dl hl view assms(2) ok by (simp add: sm_ok_view)
  then show ?thesis using view sn ns by (simp add: frame_ok_def writable_def)
qed

lemma copy_middle_spec:
  assumes w: "writable to_o st" and m: "disjoint_sorted m" "m = sm_view fm from_o"
    and cut: "0 < sz \<Longrightarrow> cut_at f m" "0 < sz \<Longrightarrow> cut_at (f + sz) m"
    and fits: "0 \<le> f" "f + sz < 2 ^ 32" "0 \<le> t" "t + sz < 2 ^ 32"
  shows "frame_ok to_o st (copy_middle fm from_o f to_o t sz st) \<and>
    sm_look (copy_middle fm from_o f to_o t sz st) to_o x =
      (if t \<le> x \<and> x < t + sz then den m (x - (t - f)) else sm_look st to_o x)"
proof (cases "sz < 1")
  case True
  then show ?thesis using w by (auto simp: copy_middle_def frame_ok_refl)
next
  case False
  let ?st1 = "imm_erase to_o t (t + sz) st" and ?d = "t - f"
  let ?es = "range_entries m (ival_at f) sz"
  let ?st2 = "fold (\<lambda>x. sm_set to_o (ival_shift (fst x) ?d) (snd x)) ?es ?st1"
  have sz: "0 < sz" "0 \<le> sz" using False by simp_all
  note range = range_entries_spec(2) [OF m(1) sz(2) fits(1,2)]
  have plus: "ival_plus (fst e) (signed32 ?d) = ival_shift (fst e) ?d" if "e \<in> set ?es" for e
  proof -
    have "f \<le> ifrom (fst e)" "ifrom (fst e) < ito (fst e)" "ito (fst e) \<le> f + sz"
      using that range disjoint_sorted_mem [OF m(1), of e] cut_atD [OF cut(2) [OF sz(1)], of e] by auto
    then show ?thesis using fits by (intro ival_plus_shift) simp_all
  qed
  have "fold (\<lambda>x. sm_set to_o (ival_plus (fst x) (signed32 ?d)) (snd x)) ?es ?st1 = ?st2"
    using plus by (intro fold_cong) simp_all
  moreover have "ival_diff (ival_at t) (ival_at f) = ?d" by (simp add: ival_diff_def ival_at_def mk_ival_def)
  ultimately have cm: "copy_middle fm from_o f to_o t sz st = ?st2"
    using False m fits by (simp add: copy_middle_def sm_copy_def Let_def)
  have fr1: "frame_ok to_o st ?st1" using w by (rule frame_ok_erase)
  then have w1: "writable to_o ?st1" by (rule frame_ok_writable)
  then have ds1: "disjoint_sorted (sm_view ?st1 to_o)" and ns1: "\<not> snapped ?st1 to_o"
    by (simp_all add: writable_def sm_ok_view)
  have "\<not> snapped st to_o" "disjoint_sorted (sm_view st to_o)"
    using w by (simp_all add: writable_def sm_ok_view)
  then have cl: "clear_of t (t + sz) (sm_view ?st1 to_o)"
    using sz by (simp add: imm_erase_view clear_of_im_erase)
  have des: "disjoint_sorted (shifted ?d ?es)" using range_entries_spec(1) [OF m(1) sz(2) fits(1,2)] by simp
  have "\<forall>e \<in> set (shifted ?d ?es). clear_of (ifrom (fst e)) (ito (fst e)) (sm_view ?st1 to_o)"
    using shifted_clear [OF m(1) sz(2) fits(1,2) cut(2) [OF sz(1)] cl] by blast
  note fa = fold_assign [OF des ds1 this]
  have fr2: "frame_ok to_o ?st1 ?st2" using fold_sm_set_frame [OF w1] fa by blast
  have "sm_look ?st2 to_o x = den (fold map_assign (shifted ?d ?es) (sm_view ?st1 to_o)) x"
    using fold_sm_set [OF ns1] by (simp add: sm_look_def)
  also have "\<dots> = (case den ?es (x - ?d) of Some v \<Rightarrow> Some v | None \<Rightarrow> sm_look ?st1 to_o x)"
    using fa [of x] unfolding den_shifted sm_look_def by (rule conjunct2)
  also have "\<dots> = (if t \<le> x \<and> x < t + sz then den m (x - ?d) else sm_look st to_o x)"
    using den_range_entries [OF m(1) sz(2) fits(1,2) cut [OF sz(1)], of "x - ?d"] imm.look_era [OF w, of t "t + sz" x]
    by (auto split: option.split)
  finally show ?thesis using frame_ok_trans [OF fr1 fr2] by (simp add: cm)
qed

lemma im_at_Some:
  assumes "disjoint_sorted m" "im_at m x = Some p"
  shows "p \<in> set m" "ifrom (fst p) \<le> x" "x < ito (fst p)"
    "\<And>y. ifrom (fst p) \<le> y \<Longrightarrow> y < ito (fst p) \<Longrightarrow> den m y = Some (snd p)"
  using im_at_spec(2) [OF assms] den_mem [OF assms(1), of p] by (auto simp: inside_def)

lemma cut_at_bounds:
  assumes "disjoint_sorted m" "p \<in> set m"
  shows "cut_at (ifrom (fst p)) m" "cut_at (ito (fst p)) m"
proof -
  have "ifrom (fst p) < ito (fst p)" using assms disjoint_sorted_mem by blast
  moreover have "e = p \<or> ito (fst e) \<le> ifrom (fst p) \<or> ito (fst p) \<le> ifrom (fst e)" if "e \<in> set m" for e
    using assms that by (induction m) auto
  moreover have "ifrom (fst e) < ito (fst e)" if "e \<in> set m" for e
    using assms(1) that disjoint_sorted_mem by blast
  ultimately show "cut_at (ifrom (fst p)) m" "cut_at (ito (fst p)) m"
    by (fastforce simp: cut_at_def)+
qed

lemma cut_at_None:
  assumes "disjoint_sorted m" "im_at m k = None"
  shows "cut_at k m"
proof -
  have "den m k = None" using im_at_spec(1) [OF assms(1), of k] assms(2) by simp
  then show ?thesis by (auto simp: cut_at_def den_None_iff inside_def)
qed

lemma cut_at_None':
  assumes "disjoint_sorted m" "im_at m (k - 1) = None"
  shows "cut_at k m"
proof -
  have "den m (k - 1) = None" using im_at_spec(1) [OF assms(1), of "k - 1"] assms(2) by simp
  then show ?thesis by (force simp: cut_at_def den_None_iff inside_def)
qed

lemma copy_right_spec:
  assumes w: "writable to_o st" and m: "disjoint_sorted m" "m = sm_view fm from_o"
    and cut: "cut_at f m" and sz: "0 \<le> sz" "sz < 2 ^ 31"
    and fits: "0 \<le> f" "f + sz < 2 ^ 32" "0 \<le> t" "t + sz < 2 ^ 32" and d: "d = signed32 (t - f)"
  shows "frame_ok to_o st (copy_right fm from_o f to_o t sz d st) \<and>
    sm_look (copy_right fm from_o f to_o t sz d st) to_o x =
      (if t \<le> x \<and> x < t + sz then den m (x - (t - f)) else sm_look st to_o x)"
proof (cases "im_at m (f + sz)")
  case None
  then have "copy_right fm from_o f to_o t sz d st = copy_middle fm from_o f to_o t sz st"
    using m fits sz by (simp add: copy_right_def imm_at_def)
  then show ?thesis
    using copy_middle_spec [OF w m cut cut_at_None [OF m(1) None] fits] by simp
next
  case (Some p)
  note p = im_at_Some [OF m(1) Some]
  let ?st1 = "imm_insert to_o (ifrom (fst p) + (t - f)) (t + sz) (snd p) st"
  have "f \<le> ifrom (fst p)"
    using cut_atD [OF cut p(1)] p(3) sz(1) by linarith
  then have "wrap32 (ifrom (fst p) + (t - f)) = ifrom (fst p) + (t - f)"
    "signed32 (ifrom (fst p) - f) = ifrom (fst p) - f"
    using p(2) fits sz by (intro wrap32_id signed32_id; simp)+
  then have cr: "copy_right fm from_o f to_o t sz d st =
      copy_middle fm from_o f to_o t (ifrom (fst p) - f) ?st1"
    using Some m fits sz d by (simp add: copy_right_def imm_at_def)
  have fr1: "frame_ok to_o st ?st1" using w by (rule frame_ok_insert)
  have c2: "cut_at (f + (ifrom (fst p) - f)) m" using cut_at_bounds(1) [OF m(1) p(1)] by simp
  have "f + (ifrom (fst p) - f) < 2 ^ 32" "t + (ifrom (fst p) - f) < 2 ^ 32" using p(2) fits by simp_all
  note cm = copy_middle_spec [OF frame_ok_writable [OF fr1] m cut c2 fits(1) this(1) fits(3) this(2), of x]
  show ?thesis
    unfolding cr using cm frame_ok_trans [OF fr1] p \<open>f \<le> ifrom (fst p)\<close>
      imm.look_ins [OF w, of "ifrom (fst p) + (t - f)" "t + sz" "snd p" x]
    by auto
qed

lemma imm_copy_spec:
  assumes w: "writable to_o st" and m: "disjoint_sorted m" "m = sm_view fm from_o"
    and pos: "\<forall>e \<in> set m. 0 \<le> ifrom (fst e)" and fits: "0 \<le> f" "f + sz < 2 ^ 32" "0 \<le> t" "t + sz < 2 ^ 32" "sz < 2 ^ 31"
  shows "frame_ok to_o st (imm_copy fm from_o f to_o t sz st) \<and>
    sm_look (imm_copy fm from_o f to_o t sz st) to_o x =
      (if t \<le> x \<and> x < t + sz then den m (x - (t - f)) else sm_look st to_o x)"
proof (cases "sz < 1")
  case True
  then show ?thesis using w by (auto simp: imm_copy_def frame_ok_refl)
next
  case False
  show ?thesis
  proof (cases "if 0 < f then im_at m (f - 1) else None")
    case None
    have "cut_at f m"
    proof (cases "0 < f")
      case True
      then show ?thesis using None cut_at_None' [OF m(1)] by simp
    qed (use pos fits in \<open>force simp: cut_at_def\<close>)
    moreover have "imm_copy fm from_o f to_o t sz st = copy_right fm from_o f to_o t sz (signed32 (t - f)) st"
      using False None m by (simp add: imm_copy_def imm_at_def split: if_splits)
    ultimately show ?thesis using copy_right_spec [OF w m _ _ fits(5,1-4) refl] False by simp
  next
    case (Some p)
    then have f: "0 < f" and at: "im_at m (f - 1) = Some p" by (auto split: if_splits)
    note p = im_at_Some [OF m(1) at]
    show ?thesis
    proof (cases "ito (fst p) > f + sz")
      case True
      then have "imm_copy fm from_o f to_o t sz st = imm_insert to_o t (t + sz) (snd p) st"
        using False f at m fits by (simp add: imm_copy_def imm_at_def)
      then show ?thesis
        using frame_ok_insert [OF w] imm.look_ins [OF w] p True by auto
    next
      case nt: False
      let ?f = "ito (fst p)"
      let ?t = "?f + (t - f)" and ?sz = "sz - (?f - f)"
      let ?st1 = "imm_insert to_o t ?t (snd p) st"
      have in_range: "f \<le> ?f" "?f \<le> f + sz" using p(2,3) nt by simp_all
      have t: "wrap32 (?f + signed32 (t - f)) = ?t"
        unfolding wrap32_signed32 using in_range fits by (intro wrap32_id; simp)
      have s: "signed32 ?sz = ?sz" using in_range fits False by (intro signed32_id; simp)
      have ic: "imm_copy fm from_o f to_o t sz st = copy_right fm from_o ?f to_o ?t ?sz (signed32 (?t - ?f)) ?st1"
        using False f at m nt fits t s by (simp add: imm_copy_def imm_at_def Let_def)
      have fr1: "frame_ok to_o st ?st1" using w by (rule frame_ok_insert)
      have "0 \<le> ?sz" "?sz < 2 ^ 31" "0 \<le> ?f" "?f + ?sz < 2 ^ 32" "0 \<le> ?t" "?t + ?sz < 2 ^ 32"
        using in_range fits nt by simp_all
      note cr = copy_right_spec [OF frame_ok_writable [OF fr1] m cut_at_bounds(2) [OF m(1) p(1)] this refl, of x]
      show ?thesis
        unfolding ic using cr frame_ok_trans [OF fr1] p nt imm.look_ins [OF w, of t ?t "snd p" x]
        by auto
    qed
  qed
qed

end
