(* ===== verification/StorageProps.thy ===== *)
theory StorageProps
  imports SnapMapFacts
begin

text \<open>
  The properties of the snapshotted interval storage: what a history of insertions and erasures
  leaves behind, that a snapshot changes no lookup, that a copy moves exactly the requested range,
  that the comparison decides equality, and two places where the storage does less, or more, than
  its callers expect.
\<close>

section \<open>Comparison\<close>

lemma ival_diff_eq_0 [simp]: "ival_diff i j = 0 \<longleftrightarrow> i = j"
  by (cases i; cases j) (auto simp: ival_diff_def)

lemma sm_cmp_eq_0:
  "(\<And>i x y. cb i x y = 0 \<longleftrightarrow> x = y) \<Longrightarrow> sm_cmp cb a b = 0 \<longleftrightarrow> a = b"
proof (induction cb a b rule: sm_cmp.induct)
  case (4 cb a as b bs)
  then show ?case by (cases a; cases b) auto
qed simp_all

lemma writable_empty: "writable obj sm_empty"
  by (simp add: writable_def sm_ok_def sm_empty_def sm_view_def has_local_def snapped_def snap_range_def)

lemma im_at_later: "(\<forall>e \<in> set m. x < ifrom (fst e)) \<Longrightarrow> im_before m x = None"
  by (cases m) (auto simp: im_before_def upper_bound_def)

section \<open>Properties\<close>

text \<open>
  C27. Whatever sequence of insertions and erasures the storage of an object goes through (any of
  which may split, shorten or destroy intervals that are there), a position looked up afterwards
  holds what the last operation covering it put there, and what it held before if none did.
\<close>

theorem storage_history:
  fixes ops :: "'v range_op list"
  assumes "writable obj st"
  shows "sm_look (fold (\<lambda>a s. case a of Insert f t d \<Rightarrow> imm_insert obj f t d s
      | Erase f t \<Rightarrow> imm_erase obj f t s) ops st) obj x = history_value ops x (sm_look st obj x)"
proof -
  have "(case a of Insert f t d \<Rightarrow> imm_insert obj f t d s | Erase f t \<Rightarrow> imm_erase obj f t s) =
      imm.apply_op obj a s" for a :: "'v range_op" and s
    by (cases a) simp_all
  then show ?thesis using imm.run_history [OF assms] by simp
qed

theorem storage_history_witness:
  "sm_look (fold (\<lambda>a s. case a of Insert f t d \<Rightarrow> imm_insert (1::int) f t d s
      | Erase f t \<Rightarrow> imm_erase 1 f t s) [Insert 0 8 ''a'', Insert 2 6 ''b'', Erase 5 7]
      (sm_empty :: (int, string) snapmap)) 1 5 = None"
  by (subst storage_history) (simp_all add: writable_empty)

text \<open>
  C28. Taking a snapshot of a well-formed storage succeeds (no assertion fails), empties the local
  storage, keeps the storage well-formed, and the sequence of intervals of every object is the
  one it was.
\<close>

theorem snapshot_keeps_views:
  assumes "sm_ok st"
  shows "\<exists>st'. sm_snapshot st = Some st' \<and> lmaps st' = [] \<and> sm_ok st' \<and>
    (\<forall>obj. sm_view st' obj = sm_view st obj)"
  using assms by (rule sm_snapshot_spec)

theorem snapshot_keeps_views_witness:
  "\<exists>st'. sm_snapshot (imm_insert 1 0 4 True (sm_empty :: (int, bool) snapmap)) = Some st' \<and>
    lmaps st' = [] \<and> sm_ok st' \<and>
    (\<forall>obj. sm_view st' obj = sm_view (imm_insert 1 0 4 True sm_empty) obj)"
proof (rule snapshot_keeps_views)
  show "sm_ok (imm_insert 1 0 4 True (sm_empty :: (int, bool) snapmap))"
    using writable_imm_insert [OF writable_empty, of "1::int" 0 4 True]
    by (simp add: writable_def)
qed

text \<open>
  C29. Copying a range from one object to another one puts at every position of the target range exactly
  what the source has at the corresponding position (intervals that reach over either end of the range
  are cut, or both ends of one interval), leaves the rest of the target object and every other object
  alone, and keeps the target writable. The ends of both ranges are below \<open>2 ^ 32\<close> and the size fits into
  an \<^verbatim>\<open>int\<close>; the distance, which may not fit, wraps around and does no harm.
\<close>

theorem interval_copy:
  fixes from_object to_object :: 'o
  assumes "writable to_object st" "disjoint_sorted (sm_view fm from_object)" "from_object \<noteq> to_object"
    and "\<forall>e \<in> set (sm_view fm from_object). 0 \<le> ifrom (fst e)"
    and "0 \<le> from_offset" "from_offset + sz < 2 ^ 32" "0 \<le> to_offset" "to_offset + sz < 2 ^ 32" "sz < 2 ^ 31"
  defines "st' \<equiv> imm_copy fm from_object from_offset to_object to_offset sz st"
  shows "sm_look st' to_object x =
      (if to_offset \<le> x \<and> x < to_offset + sz then sm_look fm from_object (x - (to_offset - from_offset))
       else sm_look st to_object x)
    \<and> writable to_object st' \<and> (obj \<noteq> to_object \<longrightarrow> sm_look st' obj x = sm_look st obj x)"
  using imm_copy_spec [OF assms(1,2) refl assms(4-9), of x]
  by (auto simp: st'_def frame_ok_def sm_look_def)

theorem interval_copy_witness:
  "sm_look (imm_copy (imm_insert 1 2 6 ''a'' (sm_empty :: (int, string) snapmap))
     (1::int) 4 (2::int) 0xfffffff0 8 sm_empty) 2 0xfffffff1 = Some ''a''"
proof -
  let ?fm = "imm_insert 1 2 6 ''a'' (sm_empty :: (int, string) snapmap)"
  have view: "sm_view ?fm 1 = [(mk_ival 2 6, ''a'')]"
    by (simp add: imm_insert_def sm_view_set_local local_map_def sm_empty_def im_insert_def
        erase_or_create_def)
  show ?thesis
    using interval_copy [where to_object = "2::int" and st = sm_empty and fm = ?fm and from_object = 1
        and from_offset = 4 and to_offset = "0xfffffff0" and sz = 8 and x = "0xfffffff1" and obj = 2]
    by (simp add: writable_empty view) (simp add: sm_look_def view inside_def)
qed

text \<open>
  The comparison of two objects returns 0 exactly when their interval sequences are equal,
  given a value comparison that is 0 exactly on equal values, and whether they are in local
  storage or in a snapshot makes no difference.
\<close>

theorem compare_decides_equality:
  assumes "\<And>i x y. cb i x y = 0 \<longleftrightarrow> x = y"
  shows "sm_compare cb st a b = 0 \<longleftrightarrow> sm_view st a = sm_view st b"
  unfolding sm_compare_def using assms by (rule sm_cmp_eq_0)

theorem compare_decides_equality_witness:
  "sm_compare (\<lambda>i x y. x - y) (imm_insert 1 0 4 (7::int) (sm_empty :: (int, int) snapmap)) 1 2 = 0
   \<longleftrightarrow> sm_view (imm_insert 1 0 4 7 (sm_empty :: (int, int) snapmap)) 1 =
       sm_view (imm_insert 1 0 4 7 (sm_empty :: (int, int) snapmap)) 2"
  by (rule compare_decides_equality) simp

text \<open>
  C30. \<^verbatim>\<open>intersect\<close> finds nothing when every interval of the object starts above the queried
  offset, also where the first of them meets the queried range.
\<close>

theorem intersect_misses_later_interval:
  assumes "\<forall>e \<in> set (sm_view st obj). val < ifrom (fst e)"
  shows "imm_intersect st obj val len = None"
  using im_at_later [OF assms] by (simp add: imm_intersect_def im_intersect_def)

theorem intersect_misses_later_interval_witness:
  "imm_intersect (imm_insert 1 2 6 True (sm_empty :: (int, bool) snapmap)) 1 0 8 = None
   \<and> intersects (mk_ival 0 8) (mk_ival 2 6)"
proof -
  have "\<forall>e \<in> set (sm_view (imm_insert 1 2 6 True (sm_empty :: (int, bool) snapmap)) 1). 0 < ifrom (fst e)"
    by (simp add: imm_insert_def sm_view_set_local local_map_def sm_empty_def im_insert_def
        erase_or_create_def)
  then show ?thesis
    by (simp add: intersect_misses_later_interval intersects_def)
qed

end
