(* ===== verification/MetaForms.thy ===== *)
theory MetaForms
  imports BitLevel
begin

unbundle bit_operations_syntax

text \<open>
  Forms of the metadata of one 4-byte word: sets of bits packed into the words of an array
  (\<^verbatim>\<open>src/divine/mem/bitset.hpp\<close>), the expanded form the shadow layers work on and the
  compressed form the pool stores (\<^verbatim>\<open>ExpandedMetaPDT\<close>, \<^verbatim>\<open>CompressPDT\<close>, \<^verbatim>\<open>ExpandedMetaPD\<close>
  and \<^verbatim>\<open>CompressPD\<close> of \<^verbatim>\<open>src/divine/mem/metadata.hpp\<close>).
\<close>

section \<open>Bit sets in an array\<close>

text \<open>
  \<^verbatim>\<open>BitsetContainer::proxy\<close>. \<open>'t\<close> is \<^verbatim>\<open>Type\<close>, \<open>bps\<close> is \<^verbatim>\<open>BitsPerSet\<close>; the memory behind
  \<^verbatim>\<open>_base\<close> is a list, and an access outside it is \<open>None\<close>.
\<close>

definition bs_index :: "nat \<Rightarrow> 't::len word list \<Rightarrow> nat \<Rightarrow> nat" where
  "bs_index bps base pos = (pos * bps) div LENGTH('t)"

definition bs_shift :: "nat \<Rightarrow> 't::len word list \<Rightarrow> nat \<Rightarrow> nat" where
  "bs_shift bps base pos = (let sets = LENGTH('t) div bps in bps * (sets - 1 - pos mod sets))"

definition bs_mask :: "nat \<Rightarrow> 't::len word" where
  "bs_mask bps = ones bps"

definition bs_get :: "nat \<Rightarrow> 't::len word list \<Rightarrow> nat \<Rightarrow> 't word option" where
  "bs_get bps base pos =
     asserting (bs_index bps base pos < length base)
       (Some (drop_bit (bs_shift bps base pos) (base ! bs_index bps base pos) AND bs_mask bps))"

definition bs_set :: "nat \<Rightarrow> 't::len word list \<Rightarrow> nat \<Rightarrow> 't word \<Rightarrow> 't word list option" where
  "bs_set bps base pos t =
     asserting (bs_index bps base pos < length base)
       (let i = bs_index bps base pos; s = bs_shift bps base pos;
            w = (base ! i) AND NOT (push_bit s (bs_mask bps));
            w = w OR push_bit s (t AND bs_mask bps)
        in Some (base[i := w]))"

text \<open>\<^verbatim>\<open>operator[]\<close> of the container, with its bounds \<^verbatim>\<open>_from\<close> and \<^verbatim>\<open>_to\<close>.\<close>

definition bs_at :: "nat \<Rightarrow> nat \<Rightarrow> nat \<Rightarrow> nat option" where
  "bs_at from to i = asserting (from + i < to) (Some (from + i))"

section \<open>The expanded form with pointers, definedness and taint\<close>

type_synonym expanded = u16

text \<open>The bit fields of \<^verbatim>\<open>ExpandedMetaPDT\<close>, the first one at the least significant bits.\<close>

definition ex_taint :: "expanded \<Rightarrow> u8" where
  "ex_taint e = ucast (e AND 0x000F)"

definition ex_pointer :: "expanded \<Rightarrow> bool" where
  "ex_pointer e = bit e 7"

definition ex_pointer_exception :: "expanded \<Rightarrow> bool" where
  "ex_pointer_exception e = bit e 8"

definition ex_data_exception :: "expanded \<Rightarrow> bool" where
  "ex_data_exception e = bit e 9"

definition ex_defined :: "expanded \<Rightarrow> u8" where
  "ex_defined e = ucast (drop_bit 12 e)"

definition set_ex_taint :: "u8 \<Rightarrow> expanded \<Rightarrow> expanded" where
  "set_ex_taint t e = (e AND NOT 0x000F) OR (ucast t AND 0x000F)"

definition set_ex_pointer :: "bool \<Rightarrow> expanded \<Rightarrow> expanded" where
  "set_ex_pointer b e = (if b then set_bit 7 e else unset_bit 7 e)"

definition set_ex_pointer_exception :: "bool \<Rightarrow> expanded \<Rightarrow> expanded" where
  "set_ex_pointer_exception b e = (if b then set_bit 8 e else unset_bit 8 e)"

definition set_ex_data_exception :: "bool \<Rightarrow> expanded \<Rightarrow> expanded" where
  "set_ex_data_exception b e = (if b then set_bit 9 e else unset_bit 9 e)"

definition set_ex_defined :: "u8 \<Rightarrow> expanded \<Rightarrow> expanded" where
  "set_ex_defined d e = (e AND NOT 0xF000) OR push_bit 12 (ucast d)"

section \<open>Compression to eight bits\<close>

type_synonym compressed = u8

text \<open>The two loops over the four bytes, with the number of rounds left.\<close>

fun compress_loop :: "nat \<Rightarrow> u8 \<Rightarrow> u8 \<Rightarrow> u8 \<Rightarrow> u8" where
  "compress_loop 0 def taint dt = dt"
| "compress_loop (Suc n) def taint dt =
     compress_loop n (drop_bit 1 def) (drop_bit 1 taint)
       (dt * 3 + ((def AND 1) + (taint AND def AND 1)))"

definition compress :: "expanded \<Rightarrow> compressed" where
  "compress exp =
     (if ex_pointer exp then ucast exp
      else if ex_data_exception exp
      then ucast (drop_bit 4 (exp AND 0x0300) OR 0x40 OR ucast (ex_taint exp))
      else compress_loop 4 (ex_defined exp) (ex_taint exp) 0)"

fun expand_loop :: "nat \<Rightarrow> u8 \<Rightarrow> u8 \<Rightarrow> u8 \<Rightarrow> u8 \<times> u8" where
  "expand_loop 0 c def taint = (def, taint)"
| "expand_loop (Suc n) c def taint =
     (let dt = c mod 3
      in expand_loop n (c div 3) (push_bit 1 def OR (dt AND 1)) (push_bit 1 taint OR drop_bit 1 dt))"

definition expand :: "compressed \<Rightarrow> expanded" where
  "expand c =
     (let raw = ucast c
      in if c AND 0x80 \<noteq> 0 then raw OR 0xF000
         else if c AND 0x60 = 0x60 then (raw OR push_bit 4 raw) AND 0x030F
         else let (def, taint) = expand_loop 4 c 0 0;
                  def = def OR taint
              in push_bit 12 (ucast def) OR ucast taint)"

definition is_trivial :: "compressed \<Rightarrow> bool" where
  "is_trivial c \<longleftrightarrow> c AND 0x60 \<noteq> 0x60"

definition is_pointer :: "compressed \<Rightarrow> bool" where
  "is_pointer c \<longleftrightarrow> c AND 0x80 \<noteq> 0"

definition is_pointer_exception :: "compressed \<Rightarrow> bool" where
  "is_pointer_exception c \<longleftrightarrow> c AND 0xF0 = 0x70"

definition is_pointer_or_exception :: "compressed \<Rightarrow> bool" where
  "is_pointer_or_exception c \<longleftrightarrow> is_pointer c \<or> is_pointer_exception c"

section \<open>The form without taint\<close>

definition pd_defined :: "u8 \<Rightarrow> u8" where "pd_defined e = e AND 0x0F"
definition pd_pointer :: "u8 \<Rightarrow> bool" where "pd_pointer e = bit e 4"
definition pd_pointer_exception :: "u8 \<Rightarrow> bool" where "pd_pointer_exception e = bit e 5"
definition pd_data_exception :: "u8 \<Rightarrow> bool" where "pd_data_exception e = bit e 6"

definition pd_compress :: "u8 \<Rightarrow> u8" where "pd_compress e = e"
definition pd_expand :: "u8 \<Rightarrow> u8" where "pd_expand c = c"

definition pd_is_trivial :: "u8 \<Rightarrow> bool" where "pd_is_trivial c \<longleftrightarrow> c AND 0x60 = 0"
definition pd_is_pointer :: "u8 \<Rightarrow> bool" where "pd_is_pointer c \<longleftrightarrow> c AND 0x10 \<noteq> 0"
definition pd_is_pointer_or_exception :: "u8 \<Rightarrow> bool" where
  "pd_is_pointer_or_exception c \<longleftrightarrow> c AND 0x30 \<noteq> 0"
definition pd_is_pointer_exception :: "u8 \<Rightarrow> bool" where
  "pd_is_pointer_exception c \<longleftrightarrow> c AND 0x20 \<noteq> 0"

end
