(* ===== verification/ExceptionMap.thy ===== *)
theory ExceptionMap
  imports Prelude
begin

text \<open>
  \<^verbatim>\<open>ExceptionMap\<close> of \<^verbatim>\<open>src/divine/mem/exceptions.hpp\<close>: metadata exceptions keyed by object and
  offset. The \<^verbatim>\<open>std::map\<close> is the list of its entries in key order (the order of \<^verbatim>\<open>LocMixin\<close> in
  \<^verbatim>\<open>src/divine/mem/base.hpp\<close>); the mutex that every operation takes has no counterpart.
\<close>

section \<open>Keys and the map\<close>

type_synonym addr = "nat \<times> nat"

definition addr_less :: "addr \<Rightarrow> addr \<Rightarrow> bool" where
  "addr_less a b \<longleftrightarrow> fst a < fst b \<or> fst a = fst b \<and> snd a < snd b"

type_synonym 'e exc_map = "(addr \<times> 'e) list"

fun em_assign :: "addr \<Rightarrow> 'e \<Rightarrow> 'e exc_map \<Rightarrow> 'e exc_map" where
  "em_assign k v [] = [(k, v)]"
| "em_assign k v (x # xs) =
     (if addr_less k (fst x) then (k, v) # x # xs
      else if addr_less (fst x) k then x # em_assign k v xs
      else (fst x, v) # xs)"

fun em_emplace :: "addr \<Rightarrow> 'e \<Rightarrow> 'e exc_map \<Rightarrow> 'e exc_map" where
  "em_emplace k v [] = [(k, v)]"
| "em_emplace k v (x # xs) =
     (if addr_less k (fst x) then (k, v) # x # xs
      else if addr_less (fst x) k then x # em_emplace k v xs
      else x # xs)"

definition em_lower :: "addr \<Rightarrow> 'e exc_map \<Rightarrow> 'e exc_map \<times> 'e exc_map" where
  "em_lower k m = (takeWhile (\<lambda>e. addr_less (fst e) k) m, dropWhile (\<lambda>e. addr_less (fst e) k) m)"

definition em_upper :: "addr \<Rightarrow> 'e exc_map \<Rightarrow> 'e exc_map \<times> 'e exc_map" where
  "em_upper k m = (takeWhile (\<lambda>e. \<not> addr_less k (fst e)) m, dropWhile (\<lambda>e. \<not> addr_less k (fst e)) m)"

section \<open>Operations\<close>

definition em_find :: "addr \<Rightarrow> 'e exc_map \<Rightarrow> 'e option" where
  "em_find k m = map_of m k"

text \<open>\<^verbatim>\<open>at\<close> asserts that the entry is there. It returns a reference: an update through it is a
  call of \<open>em_set\<close> after \<open>em_at\<close>.\<close>

definition em_at :: "'e exc_map \<Rightarrow> nat \<Rightarrow> nat \<Rightarrow> 'e option" where
  "em_at m obj wpos = em_find (obj, wpos) m"

definition em_has :: "'e exc_map \<Rightarrow> nat \<Rightarrow> nat \<Rightarrow> bool" where
  "em_has m obj wpos \<longleftrightarrow> em_find (obj, wpos) m \<noteq> None"

definition em_set :: "nat \<Rightarrow> nat \<Rightarrow> 'e \<Rightarrow> 'e exc_map \<Rightarrow> 'e exc_map" where
  "em_set obj wpos exc m = em_assign (obj, wpos) exc m"

text \<open>
  \<^verbatim>\<open>free\<close> erases the range from \<^verbatim>\<open>Loc( obj, 0 )\<close> to \<^verbatim>\<open>Loc( obj, (1 << _VM_PB_Off) - 1 )\<close>. Since
  \<^verbatim>\<open>_VM_PB_Off\<close> is 32 and \<^verbatim>\<open>1\<close> a 32-bit \<^verbatim>\<open>int\<close>, C++ leaves the value of the shift undefined: it is the
  argument \<open>lim\<close>, which is \<open>2 ^ 32 - 1\<close> if the bound is what it is meant to be and \<open>0\<close> where the
  processor takes the shift count modulo 32.
\<close>

definition em_free :: "nat \<Rightarrow> nat \<Rightarrow> 'e exc_map \<Rightarrow> 'e exc_map" where
  "em_free lim obj m =
     (let (pre, rest) = em_lower (obj, 0) m
      in pre @ snd (em_upper (obj, lim) rest))"

fun em_cmp :: "('e \<Rightarrow> 'e \<Rightarrow> int) \<Rightarrow> 'e exc_map \<Rightarrow> 'e exc_map \<Rightarrow> int" where
  "em_cmp cb [] [] = 0"
| "em_cmp cb [] (b # bs) = 1"
| "em_cmp cb (a # as) [] = - 1"
| "em_cmp cb (a # as) (b # bs) =
     (let diff = int (snd (fst a)) - int (snd (fst b))
      in if diff \<noteq> 0 then diff
         else if cb (snd a) (snd b) \<noteq> 0 then cb (snd a) (snd b)
         else em_cmp cb as bs)"

definition em_range :: "addr \<Rightarrow> addr \<Rightarrow> 'e exc_map \<Rightarrow> 'e exc_map" where
  "em_range a b m = fst (em_upper b (snd (em_lower a m)))"

definition em_compare :: "('e \<Rightarrow> 'e \<Rightarrow> int) \<Rightarrow> 'e exc_map \<Rightarrow> nat \<Rightarrow> nat \<Rightarrow> nat \<Rightarrow> int" where
  "em_compare cb m a b sz = em_cmp cb (em_range (a, 0) (a, sz) m) (em_range (b, 0) (b, sz) m)"

text \<open>
  \<^verbatim>\<open>copy\<close>: the entries from \<^verbatim>\<open>from\<close> up to and including \<^verbatim>\<open>from + sz\<close>, moved to \<^verbatim>\<open>to\<close> and inserted with
  \<^verbatim>\<open>std::inserter\<close>, which keeps an entry that is there.
\<close>

definition em_copy :: "'e exc_map \<Rightarrow> addr \<Rightarrow> addr \<Rightarrow> nat \<Rightarrow> 'e exc_map \<Rightarrow> 'e exc_map" where
  "em_copy from_m from to sz m =
     fold (\<lambda>x. em_emplace (fst to, snd (fst x) + snd to - snd from) (snd x))
       (em_range from (fst from, snd from + sz) from_m) m"

definition em_empty :: "('e \<Rightarrow> bool) \<Rightarrow> 'e exc_map \<Rightarrow> bool" where
  "em_empty valid m \<longleftrightarrow> list_all (\<lambda>e. \<not> valid (snd e)) m"

section \<open>Facts\<close>

definition em_sorted :: "'e exc_map \<Rightarrow> bool" where
  "em_sorted m \<longleftrightarrow> sorted_wrt (\<lambda>a b. addr_less (fst a) (fst b)) m"

lemma addr_less_trans: "addr_less a b \<Longrightarrow> addr_less b c \<Longrightarrow> addr_less a c"
  by (auto simp: addr_less_def)

lemma addr_less_irrefl [simp]: "\<not> addr_less a a"
  by (simp add: addr_less_def)

lemma addr_less_linear: "\<not> addr_less a b \<Longrightarrow> \<not> addr_less b a \<Longrightarrow> a = b"
  by (cases a; cases b) (auto simp: addr_less_def)

lemma addr_less_neq: "addr_less a b \<Longrightarrow> a \<noteq> b"
  by auto

lemma set_em_assign: "set (em_assign k v m) \<subseteq> insert (k, v) (set m)"
  by (induction m) (auto dest: addr_less_linear)

lemma em_sorted_assign [inv_intros]: "em_sorted m \<Longrightarrow> em_sorted (em_assign k v m)"
proof (induction m)
  case (Cons x m)
  have x: "addr_less (fst x) (fst y)" if "y \<in> set m" for y
    using Cons.prems that by (simp add: em_sorted_def)
  consider (lt) "addr_less k (fst x)" | (gt) "\<not> addr_less k (fst x)" "addr_less (fst x) k"
    | (eq) "k = fst x" using addr_less_linear by blast
  then show ?case
  proof cases
    case lt
    then show ?thesis using Cons.prems x addr_less_trans [OF lt] by (auto simp: em_sorted_def)
  next
    case gt
    then have "addr_less (fst x) (fst y)" if "y \<in> set (em_assign k v m)" for y
    proof -
      have "y = (k, v) \<or> y \<in> set m" using that set_em_assign [of k v m] by blast
      then show ?thesis using x gt(2) by (cases y) auto
    qed
    then show ?thesis using Cons gt by (auto simp: em_sorted_def)
  next
    case eq
    then show ?thesis using Cons.prems x by (auto simp: em_sorted_def)
  qed
qed (simp add: em_sorted_def)

lemma em_sorted_Cons: "em_sorted (x # m) \<longleftrightarrow> (\<forall>y \<in> set m. addr_less (fst x) (fst y)) \<and> em_sorted m"
  by (auto simp: em_sorted_def)

lemma map_of_less_None: "\<forall>y \<in> set m. addr_less k (fst y) \<Longrightarrow> map_of m k = None"
  by (induction m) auto

lemma em_find_assign:
  "em_sorted m \<Longrightarrow> em_find k' (em_assign k v m) = (if k' = k then Some v else em_find k' m)"
proof (induction m)
  case (Cons x m)
  then show ?case
    using addr_less_linear [of k "fst x"]
    by (cases x) (auto simp: em_find_def em_sorted_Cons dest: addr_less_neq)
qed (simp add: em_find_def)

lemma em_find_set [simp]:
  "em_sorted m \<Longrightarrow> em_find k (em_set obj wpos e m) = (if k = (obj, wpos) then Some e else em_find k m)"
  by (simp add: em_set_def em_find_assign)

lemma em_sorted_set [simp]: "em_sorted m \<Longrightarrow> em_sorted (em_set obj wpos e m)"
  by (simp add: em_set_def em_sorted_assign)

lemma em_sorted_filter: "em_sorted m \<Longrightarrow> em_sorted (filter P m)"
  by (simp add: em_sorted_def sorted_wrt_filter)

lemma em_lower_filter:
  "em_sorted m \<Longrightarrow> em_lower k m = (filter (\<lambda>e. addr_less (fst e) k) m, filter (\<lambda>e. \<not> addr_less (fst e) k) m)"
proof (induction m)
  case (Cons x m)
  have "filter (\<lambda>e. addr_less (fst e) k) m = []" if "\<not> addr_less (fst x) k"
    using Cons.prems that by (force simp: em_sorted_Cons filter_empty_conv dest: addr_less_trans)
  moreover have "filter (\<lambda>e. \<not> addr_less (fst e) k) m = m" if "\<not> addr_less (fst x) k"
    using Cons.prems that by (force simp: em_sorted_Cons filter_id_conv dest: addr_less_trans)
  ultimately show ?case using Cons by (auto simp: em_lower_def em_sorted_Cons)
qed (simp add: em_lower_def)

lemma em_upper_filter:
  "em_sorted m \<Longrightarrow> em_upper k m = (filter (\<lambda>e. \<not> addr_less k (fst e)) m, filter (\<lambda>e. addr_less k (fst e)) m)"
proof (induction m)
  case (Cons x m)
  have "filter (\<lambda>e. \<not> addr_less k (fst e)) m = []" if "addr_less k (fst x)"
    using Cons.prems that by (force simp: em_sorted_Cons filter_empty_conv dest: addr_less_trans)
  moreover have "filter (\<lambda>e. addr_less k (fst e)) m = m" if "addr_less k (fst x)"
    using Cons.prems that by (force simp: em_sorted_Cons filter_id_conv dest: addr_less_trans)
  ultimately show ?case using Cons by (auto simp: em_upper_def em_sorted_Cons)
qed (simp add: em_upper_def)

lemma map_of_filter_key: "map_of (filter (\<lambda>e. P (fst e)) m) k = (if P k then map_of m k else None)"
  by (induction m) auto

lemma em_free_filter:
  assumes "em_sorted m"
  shows "em_free lim obj m = filter (\<lambda>e. addr_less (fst e) (obj, 0) \<or> addr_less (obj, lim) (fst e)) m"
proof -
  let ?lo = "\<lambda>e. addr_less (fst e) (obj, 0)" and ?hi = "\<lambda>e. addr_less (obj, lim) (fst e)"
  have "filter (\<lambda>e. ?lo e \<or> ?hi e) m = filter ?lo m @ filter (\<lambda>e. \<not> ?lo e \<and> ?hi e) m"
    using assms
  proof (induction m)
    case (Cons x m)
    have "filter ?lo m = []" if "\<not> ?lo x"
      using Cons.prems that by (force simp: em_sorted_Cons filter_empty_conv dest: addr_less_trans)
    then show ?case using Cons by (auto simp: em_sorted_Cons)
  qed simp
  moreover have "filter ?hi (filter (\<lambda>e. \<not> ?lo e) m) = filter (\<lambda>e. \<not> ?lo e \<and> ?hi e) m"
    by (simp add: conj_commute)
  ultimately show ?thesis
    using assms by (simp add: em_free_def em_lower_filter em_upper_filter em_sorted_filter Let_def)
qed

lemma em_find_free:
  assumes "em_sorted m"
  shows "em_find k (em_free lim obj m) = (if fst k = obj \<and> snd k \<le> lim then None else em_find k m)"
  unfolding em_free_filter [OF assms] em_find_def map_of_filter_key
    [of "\<lambda>a. addr_less a (obj, 0) \<or> addr_less (obj, lim) a"]
  by (auto simp: addr_less_def)

lemma em_sorted_free [simp]: "em_sorted m \<Longrightarrow> em_sorted (em_free lim obj m)"
  by (simp add: em_free_filter em_sorted_filter)

end
