(* ===== verification/ShadowLayers.thy ===== *)
theory ShadowLayers
  imports MetaForms ExceptionMap VmValue
begin

unbundle bit_operations_syntax

text \<open>
  The layers of the shadow memory, from the bottom up: \<^verbatim>\<open>ShadowBase\<close> (\<^verbatim>\<open>src/divine/mem/base.hpp\<close>),
  \<^verbatim>\<open>PointerLayer\<close> (\<^verbatim>\<open>pointers.hpp\<close>), \<^verbatim>\<open>DefinednessLayer\<close> (\<^verbatim>\<open>definedness.hpp\<close>) and \<^verbatim>\<open>TaintLayer\<close>
  (\<^verbatim>\<open>taint.hpp\<close>), in the order \<^verbatim>\<open>ShadowLayers\<close> of \<^verbatim>\<open>types.hpp\<close> stacks them. Every operation of a
  layer calls the one below first. A result \<open>None\<close> is a failed assertion.
\<close>

section \<open>Locations and values\<close>

text \<open>\<^verbatim>\<open>Base::Loc\<close>. An object of the pool is named by a number, 0 is the null pointer.\<close>

record loc =
  l_object :: nat
  l_offset :: nat
  l_objid :: u32

definition loc_plus :: "loc \<Rightarrow> nat \<Rightarrow> loc" where
  "loc_plus l i = l\<lparr>l_offset := l_offset l + i\<rparr>"

text \<open>
  What the layers ask of a value that is written: \<^verbatim>\<open>size()\<close>, \<^verbatim>\<open>defbits()\<close> as bytes, \<^verbatim>\<open>taints()\<close>,
  \<^verbatim>\<open>objid()\<close> and \<^verbatim>\<open>objid_offset()\<close>; and what they tell a value that is read: the definedness
  bytes, whether the taint bit of the heap is set, and the call that sets the pointer flag.
\<close>

record sval =
  sv_size :: nat
  sv_def :: "u8 list"
  sv_taints :: taintset
  sv_objid :: u32
  sv_objid_offset :: nat

datatype ptr_action = Set_pointer bool | Set_objid_offset nat

record rval =
  rv_def :: "u8 list"
  rv_taint :: bool
  rv_ptr :: ptr_action

definition sval_of_int :: "'r::len word vint \<Rightarrow> sval" where
  "sval_of_int v =
     \<lparr>sv_size = int_size v, sv_def = bytes_of (int_size v) (defbits v), sv_taints = itaints v,
      sv_objid = objid v, sv_objid_offset = iptr v\<rparr>"

definition sval_of_ptr :: "vptr \<Rightarrow> sval" where
  "sval_of_ptr p =
     \<lparr>sv_size = 8, sv_def = bytes_of 8 (ptr_defbits p), sv_taints = ptaints p,
      sv_objid = ptr_objid p, sv_objid_offset = ptr_objid_offset p\<rparr>"

definition int_apply :: "rval \<Rightarrow> 'r::len word vint \<Rightarrow> 'r word vint" where
  "int_apply r v =
     (let v = (case rv_ptr r of Set_pointer b \<Rightarrow> set_int_pointer b v
                              | Set_objid_offset n \<Rightarrow> v\<lparr>iptr := n\<rparr>);
          v = set_defbits (of_bytes (rv_def r)) v
      in v\<lparr>itaints := (itaints v AND NOT 1) OR of_bool (rv_taint r)\<rparr>)"

definition ptr_apply :: "rval \<Rightarrow> vptr \<Rightarrow> vptr" where
  "ptr_apply r p =
     (let p = (case rv_ptr r of Set_pointer b \<Rightarrow> p\<lparr>ispointer := b\<rparr> | Set_objid_offset n \<Rightarrow> p);
          p = ptr_set_defbits (of_bytes (rv_def r)) p
      in p\<lparr>ptaints := (ptaints p AND NOT 1) OR of_bool (rv_taint r)\<rparr>)"

section \<open>Pointer exceptions\<close>

record ptrexc =
  pe_objid :: "u32 list"
  pe_metadata :: "u8 list"

definition pe_index :: "nat \<Rightarrow> ptrexc \<Rightarrow> u8" where
  "pe_index p e = (pe_metadata e ! p) AND 7"

definition pe_set_index :: "nat \<Rightarrow> u8 \<Rightarrow> ptrexc \<Rightarrow> ptrexc" where
  "pe_set_index p i e =
     e\<lparr>pe_metadata := (pe_metadata e)[p := ((pe_metadata e ! p) AND NOT 7) OR (i AND 7)]\<rparr>"

definition pe_redundant :: "ptrexc \<Rightarrow> bool" where
  "pe_redundant e \<longleftrightarrow> (\<forall>i < 4. pe_index i e = of_nat i) \<and>
     pe_objid e ! 0 = pe_objid e ! 1 \<and> pe_objid e ! 0 = pe_objid e ! 2 \<and> pe_objid e ! 0 = pe_objid e ! 3"

definition pe_valid :: "ptrexc \<Rightarrow> bool" where
  "pe_valid e \<longleftrightarrow> (\<exists>i < 4. pe_objid e ! i \<noteq> 0)"

definition pe_mask :: "ptrexc \<Rightarrow> u32" where
  "pe_mask e = fold (\<lambda>i m. if pe_objid e ! i \<noteq> 0 then m OR push_bit (8 * i) 0xff else m) [0..<4] 0"

text \<open>\<^verbatim>\<open>invalidate\<close> overwrites all fields, so the result does not depend on what was there.\<close>

definition pe_null :: ptrexc where
  "pe_null = \<lparr>pe_objid = [0, 0, 0, 0], pe_metadata = [0, 0, 0, 0]\<rparr>"

definition pe_invalidate :: "ptrexc \<Rightarrow> ptrexc" where
  "pe_invalidate e = pe_null"

section \<open>The state of the layers\<close>

record shadow =
  sh_meta :: "nat \<Rightarrow> compressed list"
  sh_mem :: "nat \<Rightarrow> u8 list"
  sh_pexc :: "ptrexc exc_map"
  sh_dexc :: "u8 list exc_map"
  cur_pfrom :: ptrexc
  cur_pto :: ptrexc
  cur_dfrom :: "u8 list"
  cur_dto :: "u8 list"

text \<open>
  A copy has a source and a destination heap. They may be the same object, and then what the
  destination stores is what the source reads next; \<open>None\<close> stands for that case.
\<close>

definition src_of :: "shadow option \<Rightarrow> shadow \<Rightarrow> shadow" where
  "src_of fr sh = (case fr of None \<Rightarrow> sh | Some f \<Rightarrow> f)"

section \<open>ShadowBase\<close>

definition sb_aligned :: "nat \<Rightarrow> shadow \<Rightarrow> shadow option" where
  "sb_aligned off sh = asserting (off mod 4 = 0) (Some sh)"

section \<open>PointerLayer\<close>

text \<open>
  \<^verbatim>\<open>write\<close>: first the exceptions of the words that have one are invalidated, then the flags are
  set from the value.
\<close>

fun pl_invalidate_words :: "nat \<Rightarrow> nat \<Rightarrow> expanded list \<Rightarrow> shadow \<Rightarrow> shadow option" where
  "pl_invalidate_words obj off [] sh = Some sh"
| "pl_invalidate_words obj off (e # es) sh =
     (if ex_pointer_exception e
      then (case em_at (sh_pexc sh) obj off of
              None \<Rightarrow> None
            | Some x \<Rightarrow> pl_invalidate_words obj (off + 4) es
                         (sh\<lparr>sh_pexc := em_set obj off (pe_invalidate x) (sh_pexc sh)\<rparr>))
      else pl_invalidate_words obj (off + 4) es sh)"

fun pl_set_flags :: "sval \<Rightarrow> nat \<Rightarrow> expanded list \<Rightarrow> expanded list" where
  "pl_set_flags v w [] = []"
| "pl_set_flags v w (e # es) =
     set_ex_pointer_exception False
       (set_ex_pointer (sv_objid v \<noteq> 0 \<and> sv_objid_offset v = w * 32) e) # pl_set_flags v (Suc w) es"

definition pl_write :: "loc \<Rightarrow> sval \<Rightarrow> expanded list \<Rightarrow> shadow \<Rightarrow> (expanded list \<times> shadow) option" where
  "pl_write l v exp sh =
     (case pl_invalidate_words (l_object l) (downalign (l_offset l) 4) exp sh of
        None \<Rightarrow> None
      | Some sh \<Rightarrow> Some (pl_set_flags v 0 exp, sh))"

definition pl_read :: "nat \<Rightarrow> expanded list \<Rightarrow> ptr_action" where
  "pl_read sz exp =
     (if sz = PointerBytes \<and> ex_pointer (exp ! 1) \<and> \<not> ex_pointer (exp ! 0) then Set_pointer True
      else if sz = PointerBytes \<and> \<not> ex_pointer (exp ! 1) \<and> ex_pointer (exp ! 0) then Set_objid_offset 0
      else if sz = VM_PB_Obj div 8 \<and> ex_pointer (exp ! 0) then Set_pointer True
      else Set_pointer False)"

definition pl_pointer_exception :: "shadow \<Rightarrow> nat \<Rightarrow> nat \<Rightarrow> ptrexc option" where
  "pl_pointer_exception sh obj off = asserting (off mod 4 = 0) (em_at (sh_pexc sh) obj off)"

text \<open>\<^verbatim>\<open>_read_ptr\<close>. The fresh \<^verbatim>\<open>PointerException\<close> of a whole pointer has indeterminate upper bits in
  \<^verbatim>\<open>metadata\<close>, which nothing reads; here they are 0.\<close>

definition pl_read_ptr :: "shadow \<Rightarrow> nat \<Rightarrow> nat \<Rightarrow> expanded \<Rightarrow> ptrexc option" where
  "pl_read_ptr sh obj off exp =
     (if ex_pointer_exception exp then pl_pointer_exception sh obj off
      else if \<not> ex_pointer exp then Some pe_null
      else asserting (off + 4 \<le> length (sh_mem sh obj))
        (let objid = of_bytes (take 4 (drop off (sh_mem sh obj)))
         in Some (fold (\<lambda>i. pe_set_index i (of_nat i)) [0..<4]
                    (pe_null\<lparr>pe_objid := replicate 4 objid\<rparr>))))"

definition pl_copy_word :: "shadow option \<Rightarrow> loc \<Rightarrow> expanded \<Rightarrow> loc \<Rightarrow> expanded \<Rightarrow> shadow \<Rightarrow> shadow option" where
  "pl_copy_word fr from exp_src to exp_dst sh =
     (if ex_pointer_exception exp_src
      then (case em_at (sh_pexc (src_of fr sh)) (l_object from) (l_offset from) of
              None \<Rightarrow> None
            | Some x \<Rightarrow> Some (sh\<lparr>sh_pexc := em_set (l_object to) (l_offset to) x (sh_pexc sh)\<rparr>))
      else if ex_pointer_exception exp_dst
      then (case em_at (sh_pexc sh) (l_object to) (l_offset to) of
              None \<Rightarrow> None
            | Some x \<Rightarrow> Some (sh\<lparr>sh_pexc := em_set (l_object to) (l_offset to) (pe_invalidate x)
                                              (sh_pexc sh)\<rparr>))
      else Some sh)"

definition pl_copy_init_src :: "shadow option \<Rightarrow> nat \<Rightarrow> nat \<Rightarrow> expanded \<Rightarrow> shadow \<Rightarrow> shadow option" where
  "pl_copy_init_src fr obj off exp sh =
     (case sb_aligned off sh of None \<Rightarrow> None | Some sh \<Rightarrow>
        (case pl_read_ptr (src_of fr sh) obj off exp of None \<Rightarrow> None
         | Some e \<Rightarrow> Some (sh\<lparr>cur_pfrom := e\<rparr>)))"

definition pl_copy_init_dst :: "nat \<Rightarrow> nat \<Rightarrow> expanded \<Rightarrow> shadow \<Rightarrow> shadow option" where
  "pl_copy_init_dst obj off exp sh =
     (case sb_aligned off sh of None \<Rightarrow> None | Some sh \<Rightarrow>
        (case pl_read_ptr sh obj off exp of None \<Rightarrow> None
         | Some e \<Rightarrow> Some (sh\<lparr>cur_pto := e\<rparr>)))"

definition pl_copy_byte :: "loc \<Rightarrow> loc \<Rightarrow> shadow \<Rightarrow> shadow" where
  "pl_copy_byte from to sh =
     (let i = l_offset from mod 4; j = l_offset to mod 4; p = cur_pfrom sh; q = cur_pto sh
      in sh\<lparr>cur_pto := \<lparr>pe_objid = (pe_objid q)[j := pe_objid p ! i],
                        pe_metadata = (pe_metadata q)[j := pe_metadata p ! i]\<rparr>\<rparr>)"

definition pl_copy_done :: "nat \<Rightarrow> nat \<Rightarrow> expanded \<Rightarrow> shadow \<Rightarrow> (expanded \<times> shadow) option" where
  "pl_copy_done obj off exp sh =
     (case sb_aligned off sh of None \<Rightarrow> None | Some sh \<Rightarrow>
        let was_ptr_exc = ex_pointer_exception exp;
            (exp, sh) =
              (if \<not> pe_valid (cur_pto sh)
               then (set_ex_pointer_exception False (set_ex_pointer False exp), sh)
               else if pe_redundant (cur_pto sh)
               then (set_ex_pointer_exception False (set_ex_pointer True exp), sh)
               else (set_ex_pointer_exception True (set_ex_pointer False exp),
                     sh\<lparr>sh_pexc := em_set obj off (cur_pto sh) (sh_pexc sh)\<rparr>))
        in if was_ptr_exc \<and> \<not> ex_pointer_exception exp
           then (case em_at (sh_pexc sh) obj off of
                   None \<Rightarrow> None
                 | Some x \<Rightarrow> Some (exp, sh\<lparr>sh_pexc := em_set obj off (pe_invalidate x) (sh_pexc sh)\<rparr>))
           else Some (exp, sh))"

text \<open>\<^verbatim>\<open>compare_word\<close> of the layer; what is compared are the positions of the fragments.\<close>

definition pl_compare_word :: "(u32 \<Rightarrow> u32 \<Rightarrow> int) \<Rightarrow> loc \<Rightarrow> expanded \<Rightarrow> loc \<Rightarrow> expanded \<Rightarrow> shadow \<Rightarrow> int option" where
  "pl_compare_word ptr_cb a exp_a b exp_b sh =
     asserting (ex_pointer_exception exp_a = ex_pointer_exception exp_b \<and>
                \<not> ex_pointer exp_a \<and> \<not> ex_pointer exp_b)
       (if ex_pointer_exception exp_a
        then (case (pl_pointer_exception sh (l_object a) (l_offset a),
                    pl_pointer_exception sh (l_object b) (l_offset b)) of
                (Some pe_a, Some pe_b) \<Rightarrow>
                  Some (fold (\<lambda>i cmp. if cmp \<noteq> 0 then cmp
                      else if pe_objid pe_a ! i = 0 \<and> pe_objid pe_b ! i = 0 then 0
                      else if pe_objid pe_a ! i = 0 then - 1
                      else if pe_objid pe_b ! i = 0 then 1
                      else ptr_cb (ucast (pe_index i pe_a)) (ucast (pe_index i pe_b))) [0..<4] 0)
              | _ \<Rightarrow> None)
        else Some 0)"

section \<open>DefinednessLayer\<close>

text \<open>A \<^verbatim>\<open>DataException\<close> is the list of the four bytes of its mask.\<close>

definition de_valid :: "u8 list \<Rightarrow> bool" where
  "de_valid m \<longleftrightarrow> (of_bytes m :: u32) \<noteq> 0"

definition de_null :: "u8 list" where
  "de_null = [0, 0, 0, 0]"

definition bitmask_is_trivial :: "u8 list \<Rightarrow> bool" where
  "bitmask_is_trivial m \<longleftrightarrow> (\<forall>i < 4. m ! i = 0x00 \<or> m ! i = 0xff)"

definition dx_get :: "u8 list exc_map \<Rightarrow> nat \<Rightarrow> nat \<Rightarrow> u8 list option" where
  "dx_get m obj wpos =
     asserting (wpos mod 4 = 0)
       (case em_find (obj, wpos) m of None \<Rightarrow> None | Some d \<Rightarrow> asserting (de_valid d) (Some d))"

definition dx_set :: "nat \<Rightarrow> nat \<Rightarrow> u8 list \<Rightarrow> u8 list exc_map \<Rightarrow> u8 list exc_map option" where
  "dx_set obj wpos msk m = asserting (wpos mod 4 = 0) (Some (em_set obj wpos msk m))"

definition dx_defined :: "u8 list exc_map \<Rightarrow> nat \<Rightarrow> nat \<Rightarrow> u8" where
  "dx_defined m obj pos =
     (let wpos = (pos div 4) * 4
      in case em_find (obj, wpos) m of
           Some d \<Rightarrow> if de_valid d then d ! (pos mod 4) else 0x00
         | None \<Rightarrow> 0x00)"

definition mask_table :: "u8 list list" where
  "mask_table =
     [[0x00, 0x00, 0x00, 0x00],
      [0xff, 0x00, 0x00, 0x00],
      [0x00, 0xff, 0x00, 0x00],
      [0xff, 0xff, 0x00, 0x00],
      [0x00, 0x00, 0xff, 0x00],
      [0xff, 0x00, 0xff, 0x00],
      [0x00, 0xff, 0xff, 0x00],
      [0xff, 0xff, 0xff, 0x00],
      [0x00, 0x00, 0x00, 0xff],
      [0xff, 0x00, 0x00, 0xff],
      [0x00, 0xff, 0x00, 0xff],
      [0xff, 0xff, 0x00, 0xff],
      [0x00, 0x00, 0xff, 0xff],
      [0xff, 0x00, 0xff, 0xff],
      [0x00, 0xff, 0xff, 0xff],
      [0xff, 0xff, 0xff, 0xff]]"

definition dl_read_def :: "shadow \<Rightarrow> nat \<Rightarrow> nat \<Rightarrow> expanded \<Rightarrow> u8 list option" where
  "dl_read_def sh obj off exp =
     asserting (off mod 4 = 0)
       (if ex_data_exception exp then dx_get (sh_dexc sh) obj off
        else asserting (unat (ex_defined exp) < 0x10) (Some (mask_table ! unat (ex_defined exp))))"

definition dl_def_bits :: "u8 list \<Rightarrow> u8" where
  "dl_def_bits src = fold (\<lambda>i def. def OR (if src ! i = 0xff then push_bit i 1 else 0x00)) [0..<4] 0"

definition dl_write_def :: "u8 list \<Rightarrow> nat \<Rightarrow> nat \<Rightarrow> expanded \<Rightarrow> shadow \<Rightarrow> (expanded \<times> shadow) option" where
  "dl_write_def src obj off exp sh =
     asserting (off mod 4 = 0)
       (let was_exc = ex_data_exception exp;
            exp = set_ex_defined (dl_def_bits src) exp;
            exp = set_ex_data_exception (ex_pointer_exception exp \<or> \<not> bitmask_is_trivial src) exp
        in if ex_data_exception exp
           then (case dx_set obj off src (sh_dexc sh) of
                   None \<Rightarrow> None | Some m \<Rightarrow> Some (exp, sh\<lparr>sh_dexc := m\<rparr>))
           else if was_exc
           then (case em_at (sh_dexc sh) obj off of
                   None \<Rightarrow> None
                 | Some _ \<Rightarrow> Some (exp, sh\<lparr>sh_dexc := em_set obj off de_null (sh_dexc sh)\<rparr>))
           else Some (exp, sh))"

text \<open>The whole words of a value, then its tail; \<open>off\<close> and \<open>w\<close> are the loop variables.\<close>

fun dl_write_words :: "nat \<Rightarrow> loc \<Rightarrow> u8 list \<Rightarrow> nat \<Rightarrow> expanded list \<Rightarrow> shadow
    \<Rightarrow> (expanded list \<times> shadow) option" where
  "dl_write_words 0 l bytes w exp sh = Some (exp, sh)"
| "dl_write_words (Suc n) l bytes w exp sh =
     (case dl_write_def (take 4 (drop (4 * w) bytes)) (l_object l) (l_offset l + 4 * w) (exp ! w) sh of
        None \<Rightarrow> None
      | Some (e, sh) \<Rightarrow> dl_write_words n l bytes (Suc w) (exp[w := e]) sh)"

definition overlay :: "nat \<Rightarrow> 'a list \<Rightarrow> 'a list \<Rightarrow> 'a list" where
  "overlay pos xs ys = take pos ys @ xs @ drop (pos + length xs) ys"

definition dl_write :: "loc \<Rightarrow> sval \<Rightarrow> expanded list \<Rightarrow> shadow \<Rightarrow> (expanded list \<times> shadow) option" where
  "dl_write l v exp sh =
     (case pl_write l v exp sh of None \<Rightarrow> None | Some (exp, sh) \<Rightarrow>
        let sz = sv_size v; bytes = sv_def v; n = sz div 4
        in case dl_write_words n l bytes 0 exp sh of None \<Rightarrow> None | Some (exp, sh) \<Rightarrow>
             if sz mod 4 = 0 then Some (exp, sh)
             else let pos = l_offset l + 4 * n; tail_off = downalign pos 4
                  in case dl_read_def sh (l_object l) tail_off (exp ! n) of None \<Rightarrow> None | Some cur \<Rightarrow>
                       let cur = overlay (pos mod 4) (take (sz mod 4) (drop (4 * n) bytes)) cur
                       in case dl_write_def cur (l_object l) tail_off (exp ! n) (sh\<lparr>cur_dto := cur\<rparr>) of
                            None \<Rightarrow> None
                          | Some (e, sh) \<Rightarrow> Some (exp[n := e], sh))"

text \<open>A read also leaves its last tail in the scratch buffer \<^verbatim>\<open>current_def_to\<close>, which a copy sets
  before it uses it; the model of a read has no state to return.\<close>

fun dl_read_words :: "nat \<Rightarrow> loc \<Rightarrow> nat \<Rightarrow> expanded list \<Rightarrow> shadow \<Rightarrow> u8 list option" where
  "dl_read_words 0 l w exp sh = Some []"
| "dl_read_words (Suc n) l w exp sh =
     (case dl_read_def sh (l_object l) (l_offset l + 4 * w) (exp ! w) of
        None \<Rightarrow> None
      | Some m \<Rightarrow> (case dl_read_words n l (Suc w) exp sh of None \<Rightarrow> None | Some r \<Rightarrow> Some (m @ r)))"

definition dl_read :: "loc \<Rightarrow> nat \<Rightarrow> expanded list \<Rightarrow> shadow \<Rightarrow> u8 list option" where
  "dl_read l sz exp sh =
     (let n = sz div 4
      in case dl_read_words n l 0 exp sh of None \<Rightarrow> None | Some bytes \<Rightarrow>
           if sz mod 4 = 0 then Some bytes
           else let pos = l_offset l + 4 * n
                in case dl_read_def sh (l_object l) (downalign pos 4) (exp ! n) of
                     None \<Rightarrow> None
                   | Some cur \<Rightarrow> Some (bytes @ take (sz mod 4) (drop (pos mod 4) cur)))"

definition dl_copy_word :: "shadow option \<Rightarrow> loc \<Rightarrow> expanded \<Rightarrow> loc \<Rightarrow> expanded \<Rightarrow> shadow \<Rightarrow> shadow option" where
  "dl_copy_word fr from exp_src to exp_dst sh =
     (let next = pl_copy_word fr from exp_src to exp_dst
      in if ex_data_exception exp_src
         then (case em_at (sh_dexc (src_of fr sh)) (l_object from) (l_offset from) of
                 None \<Rightarrow> None
               | Some x \<Rightarrow> next (sh\<lparr>sh_dexc := em_set (l_object to) (l_offset to) x (sh_dexc sh)\<rparr>))
         else if ex_data_exception exp_dst
         then (case em_at (sh_dexc sh) (l_object to) (l_offset to) of
                 None \<Rightarrow> None
               | Some _ \<Rightarrow> next (sh\<lparr>sh_dexc := em_set (l_object to) (l_offset to) de_null (sh_dexc sh)\<rparr>))
         else next sh)"

definition dl_copy_init_src :: "shadow option \<Rightarrow> nat \<Rightarrow> nat \<Rightarrow> expanded \<Rightarrow> shadow \<Rightarrow> shadow option" where
  "dl_copy_init_src fr obj off exp sh =
     (case pl_copy_init_src fr obj off exp sh of None \<Rightarrow> None | Some sh \<Rightarrow>
        (case dl_read_def (src_of fr sh) obj off exp of None \<Rightarrow> None
         | Some m \<Rightarrow> Some (sh\<lparr>cur_dfrom := m\<rparr>)))"

definition dl_copy_init_dst :: "nat \<Rightarrow> nat \<Rightarrow> expanded \<Rightarrow> shadow \<Rightarrow> shadow option" where
  "dl_copy_init_dst obj off exp sh =
     (case pl_copy_init_dst obj off exp sh of None \<Rightarrow> None | Some sh \<Rightarrow>
        (case dl_read_def sh obj off exp of None \<Rightarrow> None
         | Some m \<Rightarrow> Some (sh\<lparr>cur_dto := m\<rparr>)))"

definition dl_copy_byte :: "loc \<Rightarrow> loc \<Rightarrow> shadow \<Rightarrow> shadow" where
  "dl_copy_byte from to sh =
     (let sh = pl_copy_byte from to sh
      in sh\<lparr>cur_dto := (cur_dto sh)[l_offset to mod 4 := cur_dfrom sh ! (l_offset from mod 4)]\<rparr>)"

definition dl_copy_done :: "nat \<Rightarrow> nat \<Rightarrow> expanded \<Rightarrow> shadow \<Rightarrow> (expanded \<times> shadow) option" where
  "dl_copy_done obj off exp sh =
     (case pl_copy_done obj off exp sh of None \<Rightarrow> None | Some (exp, sh) \<Rightarrow>
        dl_write_def (cur_dto sh) obj off exp sh)"

definition dl_compare_word :: "(u32 \<Rightarrow> u32 \<Rightarrow> int) \<Rightarrow> loc \<Rightarrow> expanded \<Rightarrow> loc \<Rightarrow> expanded \<Rightarrow> shadow \<Rightarrow> int option" where
  "dl_compare_word ptr_cb a exp_a b exp_b sh =
     asserting (ex_data_exception exp_a \<and> ex_data_exception exp_b)
       (case (dx_get (sh_dexc sh) (l_object a) (l_offset a), dx_get (sh_dexc sh) (l_object b) (l_offset b)) of
          (Some da, Some db) \<Rightarrow>
            let cmp = sint ((of_bytes da :: u32) - of_bytes db)
            in if cmp \<noteq> 0 then Some cmp else pl_compare_word ptr_cb a exp_a b exp_b sh
        | _ \<Rightarrow> None)"

section \<open>TaintLayer\<close>

fun tl_write_words :: "nat \<Rightarrow> sval \<Rightarrow> nat \<Rightarrow> expanded list \<Rightarrow> expanded list" where
  "tl_write_words 0 v w exp = exp"
| "tl_write_words (Suc n) v w exp =
     tl_write_words n v (Suc w) (exp[w := set_ex_taint (if bit (sv_taints v) 0 then 0xF else 0x0) (exp ! w)])"

fun tl_write_tail :: "nat \<Rightarrow> sval \<Rightarrow> u8 \<Rightarrow> expanded \<Rightarrow> expanded" where
  "tl_write_tail 0 v msk e = e"
| "tl_write_tail (Suc n) v msk e =
     tl_write_tail n v (push_bit 1 msk)
       (set_ex_taint (if bit (sv_taints v) 0 then ex_taint e OR msk else ex_taint e AND NOT msk) e)"

definition tl_write :: "loc \<Rightarrow> sval \<Rightarrow> expanded list \<Rightarrow> shadow \<Rightarrow> (expanded list \<times> shadow) option" where
  "tl_write l v exp sh =
     (case dl_write l v exp sh of None \<Rightarrow> None | Some (exp, sh) \<Rightarrow>
        let sz = sv_size v; n = sz div 4; exp = tl_write_words n v 0 exp
        in if sz mod 4 = 0 then Some (exp, sh)
           else Some (exp[n := tl_write_tail (sz mod 4) v (push_bit ((l_offset l + 4 * n) mod 4) 1) (exp ! n)],
                      sh))"

definition tl_read :: "loc \<Rightarrow> nat \<Rightarrow> expanded list \<Rightarrow> bool" where
  "tl_read l sz exp \<longleftrightarrow>
     (let n = sz div 4
      in (\<exists>w < n. ex_taint (exp ! w) \<noteq> 0) \<or>
         sz mod 4 \<noteq> 0 \<and>
           ex_taint (exp ! n) AND push_bit ((l_offset l + 4 * n) mod 4) (ones (sz mod 4)) \<noteq> 0)"

definition tl_copy_byte :: "loc \<Rightarrow> expanded \<Rightarrow> loc \<Rightarrow> expanded \<Rightarrow> shadow \<Rightarrow> expanded \<times> shadow" where
  "tl_copy_byte from exp_src to exp_dst sh =
     (let sh = dl_copy_byte from to sh;
          src_tainted = drop_bit (l_offset from mod 4) (ex_taint exp_src) AND 1;
          exp_dst = set_ex_taint (ex_taint exp_dst AND NOT (push_bit (l_offset to mod 4) 1)) exp_dst;
          exp_dst = set_ex_taint (ex_taint exp_dst OR push_bit (l_offset to mod 4) src_tainted) exp_dst
      in (exp_dst, sh))"

definition tl_compare_word :: "(u32 \<Rightarrow> u32 \<Rightarrow> int) \<Rightarrow> loc \<Rightarrow> expanded \<Rightarrow> loc \<Rightarrow> expanded \<Rightarrow> shadow \<Rightarrow> int option" where
  "tl_compare_word ptr_cb a exp_a b exp_b sh =
     asserting (ex_taint exp_a = ex_taint exp_b) (dl_compare_word ptr_cb a exp_a b exp_b sh)"

text \<open>The whole stack, for a value that is read.\<close>

definition layers_read :: "loc \<Rightarrow> nat \<Rightarrow> expanded list \<Rightarrow> shadow \<Rightarrow> rval option" where
  "layers_read l sz exp sh =
     (case dl_read l sz exp sh of None \<Rightarrow> None | Some d \<Rightarrow>
        Some \<lparr>rv_def = d, rv_taint = tl_read l sz exp, rv_ptr = pl_read sz exp\<rparr>)"

text \<open>\<^verbatim>\<open>free\<close> of the layers: the exceptions of the object go away.\<close>

definition layers_free :: "nat \<Rightarrow> nat \<Rightarrow> shadow \<Rightarrow> shadow" where
  "layers_free lim p sh = sh\<lparr>sh_pexc := em_free lim p (sh_pexc sh), sh_dexc := em_free lim p (sh_dexc sh)\<rparr>"

end
