(* ===== verification/Metadata.thy ===== *)
theory Metadata
  imports ShadowLayers
begin

unbundle bit_operations_syntax

text \<open>
  \<^verbatim>\<open>Metadata\<close> of \<^verbatim>\<open>src/divine/mem/metadata.hpp\<close>: the layer that stores the compressed form of the
  metadata, one byte for each 4-byte word of an object (\<^verbatim>\<open>BPW = 8\<close>), and hands the expanded form
  to the layers of \<open>ShadowLayers\<close>. An access outside the array of an object is \<open>None\<close>, as a
  failed assertion is.
\<close>

section \<open>Storage\<close>

definition meta_size :: "nat \<Rightarrow> nat" where
  "meta_size sz = (let divisor = 32 div 8 in sz div divisor + (if sz mod divisor \<noteq> 0 then 1 else 0))"

text \<open>\<^verbatim>\<open>materialise\<close> clears the array of the object.\<close>

definition md_materialise :: "nat \<Rightarrow> nat \<Rightarrow> shadow \<Rightarrow> shadow" where
  "md_materialise i sz sh = sh\<lparr>sh_meta := (sh_meta sh)(i := replicate (meta_size sz) 0)\<rparr>"

definition md_get :: "shadow \<Rightarrow> nat \<Rightarrow> nat \<Rightarrow> compressed option" where
  "md_get sh obj pos = bs_get 8 (sh_meta sh obj) pos"

definition md_set :: "nat \<Rightarrow> nat \<Rightarrow> compressed \<Rightarrow> shadow \<Rightarrow> shadow option" where
  "md_set obj pos c sh =
     (case bs_set 8 (sh_meta sh obj) pos c of
        None \<Rightarrow> None | Some m \<Rightarrow> Some (sh\<lparr>sh_meta := (sh_meta sh)(obj := m)\<rparr>))"

text \<open>The two \<^verbatim>\<open>std::transform\<close> calls of \<^verbatim>\<open>read\<close> and \<^verbatim>\<open>write\<close>, over \<open>n\<close> words from \<open>pos\<close>.\<close>

fun md_load :: "nat \<Rightarrow> shadow \<Rightarrow> nat \<Rightarrow> nat \<Rightarrow> expanded list option" where
  "md_load 0 sh obj pos = Some []"
| "md_load (Suc n) sh obj pos =
     (case md_get sh obj pos of None \<Rightarrow> None | Some c \<Rightarrow>
        (case md_load n sh obj (Suc pos) of None \<Rightarrow> None | Some es \<Rightarrow> Some (expand c # es)))"

fun md_store :: "expanded list \<Rightarrow> nat \<Rightarrow> nat \<Rightarrow> shadow \<Rightarrow> shadow option" where
  "md_store [] obj pos sh = Some sh"
| "md_store (e # es) obj pos sh =
     (case md_set obj pos (compress e) sh of None \<Rightarrow> None | Some sh \<Rightarrow> md_store es obj (Suc pos) sh)"

text \<open>The assertions on the size and alignment of an access.\<close>

definition md_access_ok :: "nat \<Rightarrow> nat \<Rightarrow> bool" where
  "md_access_ok sz offset \<longleftrightarrow>
     (if sz \<ge> 3 then offset mod 4 = 0 else if sz = 2 then offset mod 4 < 3 else sz = 1)"

section \<open>Writing and reading\<close>

definition md_write :: "loc \<Rightarrow> sval \<Rightarrow> shadow \<Rightarrow> shadow option" where
  "md_write l v sh =
     (let sz = sv_size v; words = (sz + 3) div 4; pos = l_offset l div 4
      in asserting (md_access_ok sz (l_offset l))
           (case md_load words sh (l_object l) pos of None \<Rightarrow> None | Some exp \<Rightarrow>
              (case tl_write l v exp sh of None \<Rightarrow> None | Some (exp, sh) \<Rightarrow>
                 md_store exp (l_object l) pos sh)))"

definition md_read :: "loc \<Rightarrow> nat \<Rightarrow> shadow \<Rightarrow> rval option" where
  "md_read l sz sh =
     (let words = (sz + 3) div 4
      in asserting (md_access_ok sz (l_offset l))
           (case md_load words sh (l_object l) (l_offset l div 4) of None \<Rightarrow> None | Some exp \<Rightarrow>
              layers_read l sz exp sh))"

section \<open>Copying\<close>

text \<open>
  The fast path: \<open>n\<close> words are left, \<open>w\<close> words have been copied. Words with an exception on either
  side are copied in the layers below as well.
\<close>

fun md_fast :: "shadow option \<Rightarrow> loc \<Rightarrow> loc \<Rightarrow> nat \<Rightarrow> nat \<Rightarrow> shadow \<Rightarrow> shadow option" where
  "md_fast fr from to 0 w sh = Some sh"
| "md_fast fr from to (Suc n) w sh =
     (case (md_get (src_of fr sh) (l_object from) (l_offset from div 4 + w),
            md_get sh (l_object to) (l_offset to div 4 + w)) of
        (Some c_from, Some c_to) \<Rightarrow>
          (case (if \<not> is_trivial c_from \<or> \<not> is_trivial c_to
                 then dl_copy_word fr (loc_plus from (4 * w)) (expand c_from)
                        (loc_plus to (4 * w)) (expand c_to) sh
                 else Some sh) of
             None \<Rightarrow> None
           | Some sh \<Rightarrow>
               (case md_get (src_of fr sh) (l_object from) (l_offset from div 4 + w) of
                  None \<Rightarrow> None
                | Some c \<Rightarrow>
                    (case md_set (l_object to) (l_offset to div 4 + w) c sh of
                       None \<Rightarrow> None
                     | Some sh \<Rightarrow> md_fast fr from to n (Suc w) sh)))
      | _ \<Rightarrow> None)"

text \<open>The variables of the slow path: the two iterators, the two expanded words and \<^verbatim>\<open>written\<close>.\<close>

record slow =
  s_from :: nat
  s_to :: nat
  s_src :: expanded
  s_dst :: expanded
  s_written :: bool

definition slow_load_src :: "shadow option \<Rightarrow> nat \<Rightarrow> nat \<Rightarrow> slow \<Rightarrow> shadow \<Rightarrow> (slow \<times> shadow) option" where
  "slow_load_src fr obj aligned s sh =
     (case md_get (src_of fr sh) obj (s_from s) of None \<Rightarrow> None | Some c \<Rightarrow>
        (case dl_copy_init_src fr obj aligned (expand c) sh of None \<Rightarrow> None | Some sh \<Rightarrow>
           Some (s\<lparr>s_src := expand c, s_from := Suc (s_from s)\<rparr>, sh)))"

definition slow_load_dst :: "nat \<Rightarrow> nat \<Rightarrow> bool \<Rightarrow> slow \<Rightarrow> shadow \<Rightarrow> (slow \<times> shadow) option" where
  "slow_load_dst obj aligned init s sh =
     (case md_get sh obj (s_to s) of None \<Rightarrow> None | Some c \<Rightarrow>
        (case (if init then dl_copy_init_dst obj aligned (expand c) sh else Some sh) of
           None \<Rightarrow> None
         | Some sh \<Rightarrow> Some (s\<lparr>s_dst := expand c\<rparr>, sh)))"

definition slow_done :: "nat \<Rightarrow> nat \<Rightarrow> slow \<Rightarrow> shadow \<Rightarrow> (slow \<times> shadow) option" where
  "slow_done obj off s sh =
     (case dl_copy_done obj off (s_dst s) sh of None \<Rightarrow> None | Some (exp_dst, sh) \<Rightarrow>
        (case md_set obj (s_to s) (compress exp_dst) sh of None \<Rightarrow> None | Some sh \<Rightarrow>
           Some (s\<lparr>s_dst := exp_dst\<rparr>, sh)))"

text \<open>One round of the loop \<^verbatim>\<open>while ( off < sz )\<close>, and the loop with the rounds that are left.\<close>

definition slow_step :: "shadow option \<Rightarrow> loc \<Rightarrow> loc \<Rightarrow> nat \<Rightarrow> nat \<Rightarrow> slow \<Rightarrow> shadow \<Rightarrow> (slow \<times> shadow) option" where
  "slow_step fr from to sz off s sh =
     (let off_from = l_offset from + off; off_to = l_offset to + off
      in case (if off_from mod 4 = 0 then slow_load_src fr (l_object from) off_from s sh
               else Some (s, sh)) of None \<Rightarrow> None | Some (s, sh) \<Rightarrow>
         (case (if off_to mod 4 = 0
                then (case slow_load_dst (l_object to) off_to (sz - off < 4) s sh of
                        None \<Rightarrow> None | Some (s, sh) \<Rightarrow> Some (s\<lparr>s_written := False\<rparr>, sh))
                else Some (s, sh)) of None \<Rightarrow> None | Some (s, sh) \<Rightarrow>
            (let (exp_dst, sh) = tl_copy_byte (loc_plus from off) (s_src s) (loc_plus to off) (s_dst s) sh;
                 s = s\<lparr>s_dst := exp_dst\<rparr>;
                 off_to = off_to + 1
             in if off_to mod 4 = 0
                then (case slow_done (l_object to) (off_to - 4) s sh of
                        None \<Rightarrow> None
                      | Some (s, sh) \<Rightarrow> Some (s\<lparr>s_to := Suc (s_to s), s_written := True\<rparr>, sh))
                else Some (s, sh))))"

fun slow_loop :: "shadow option \<Rightarrow> loc \<Rightarrow> loc \<Rightarrow> nat \<Rightarrow> nat \<Rightarrow> nat \<Rightarrow> slow \<Rightarrow> shadow \<Rightarrow> (slow \<times> shadow) option" where
  "slow_loop fr from to sz 0 off s sh = Some (s, sh)"
| "slow_loop fr from to sz (Suc n) off s sh =
     (case slow_step fr from to sz off s sh of
        None \<Rightarrow> None | Some (s, sh) \<Rightarrow> slow_loop fr from to sz n (Suc off) s sh)"

definition md_slow :: "shadow option \<Rightarrow> loc \<Rightarrow> loc \<Rightarrow> nat \<Rightarrow> nat \<Rightarrow> nat \<Rightarrow> nat \<Rightarrow> shadow \<Rightarrow> shadow option" where
  "md_slow fr from to sz off i_from i_to sh =
     (let off_from = l_offset from + off; off_to = l_offset to + off;
          s = \<lparr>s_from = i_from, s_to = i_to, s_src = 0, s_dst = 0, s_written = False\<rparr>
      in case (if off_from mod 4 \<noteq> 0
               then slow_load_src fr (l_object from) (downalign off_from 4) s sh else Some (s, sh)) of
           None \<Rightarrow> None | Some (s, sh) \<Rightarrow>
         (case (if off_to mod 4 \<noteq> 0
                then slow_load_dst (l_object to) (downalign off_to 4) True s sh else Some (s, sh)) of
            None \<Rightarrow> None | Some (s, sh) \<Rightarrow>
          (case slow_loop fr from to sz (sz - off) off s sh of None \<Rightarrow> None | Some (s, sh) \<Rightarrow>
             if s_written s then Some sh
             else (case slow_done (l_object to) (downalign (l_offset to + sz) 4) s sh of
                     None \<Rightarrow> None | Some (s, sh) \<Rightarrow> Some sh))))"

definition md_copy :: "shadow option \<Rightarrow> loc \<Rightarrow> loc \<Rightarrow> nat \<Rightarrow> shadow \<Rightarrow> shadow option" where
  "md_copy fr from to sz sh =
     (if sz = 0 then Some sh
      else if sz \<ge> 4 \<and> l_offset from mod 4 = l_offset to mod 4
      then asserting (l_offset from mod 4 = 0)
             (let n = sz div 4
              in case md_fast fr from to n 0 sh of None \<Rightarrow> None | Some sh \<Rightarrow>
                   if 4 * n < sz
                   then md_slow fr from to sz (4 * n) (l_offset from div 4 + n) (l_offset to div 4 + n) sh
                   else Some sh)
      else md_slow fr from to sz 0 (l_offset from div 4) (l_offset to div 4) sh)"

section \<open>Taint and comparison\<close>

fun md_tainted_words :: "nat \<Rightarrow> shadow \<Rightarrow> nat \<Rightarrow> nat \<Rightarrow> bool option" where
  "md_tainted_words 0 sh obj pos = Some False"
| "md_tainted_words (Suc n) sh obj pos =
     (case md_get sh obj pos of None \<Rightarrow> None | Some c \<Rightarrow>
        if ex_taint (expand c) \<noteq> 0 then Some True else md_tainted_words n sh obj (Suc pos))"

definition md_tainted :: "loc \<Rightarrow> nat \<Rightarrow> shadow \<Rightarrow> bool option" where
  "md_tainted l sz sh =
     (let n = sz div 4; pos = l_offset l div 4
      in asserting (n = 0 \<or> l_offset l mod 4 = 0)
           (case md_tainted_words n sh (l_object l) pos of None \<Rightarrow> None | Some t \<Rightarrow>
              if t then Some True
              else if 4 * n < sz
              then (case md_get sh (l_object l) (pos + n) of None \<Rightarrow> None | Some c \<Rightarrow>
                      let offset_in_word = (l_offset l + 4 * n) mod 4;
                          msk = push_bit offset_in_word (ones (sz - 4 * n))
                      in Some (ex_taint (expand c) AND msk \<noteq> 0))
              else Some False))"

text \<open>\<^verbatim>\<open>compare\<close>: the loop over the words, \<open>n\<close> of which are left.\<close>

fun md_compare_words :: "(u32 \<Rightarrow> u32 \<Rightarrow> int) \<Rightarrow> nat \<Rightarrow> nat \<Rightarrow> nat \<Rightarrow> nat \<Rightarrow> shadow \<Rightarrow> int option" where
  "md_compare_words ptr_cb 0 a b w sh = Some 0"
| "md_compare_words ptr_cb (Suc n) a b w sh =
     (case (md_get sh a w, md_get sh b w) of
        (Some c_a, Some c_b) \<Rightarrow>
          if c_a \<noteq> c_b then Some (uint c_a - uint c_b)
          else if is_trivial c_a then md_compare_words ptr_cb n a b (Suc w) sh
          else (case tl_compare_word ptr_cb \<lparr>l_object = a, l_offset = 4 * w, l_objid = 0\<rparr> (expand c_a)
                       \<lparr>l_object = b, l_offset = 4 * w, l_objid = 0\<rparr> (expand c_b) sh of
                  None \<Rightarrow> None
                | Some cmp \<Rightarrow> if cmp \<noteq> 0 then Some cmp else md_compare_words ptr_cb n a b (Suc w) sh)
      | _ \<Rightarrow> None)"

definition md_compare :: "(u32 \<Rightarrow> u32 \<Rightarrow> int) \<Rightarrow> nat \<Rightarrow> nat \<Rightarrow> nat \<Rightarrow> shadow \<Rightarrow> int option" where
  "md_compare ptr_cb a b sz sh = md_compare_words ptr_cb (align sz 4 div 4) a b 0 sh"

section \<open>The range of pointers of an object\<close>

text \<open>
  \<^verbatim>\<open>PointerC\<close>: the object, and the bounds \<^verbatim>\<open>from\<close> and \<^verbatim>\<open>to\<close>. \<open>pc_now\<close> is \<^verbatim>\<open>c_now\<close>, and \<^verbatim>\<open>c_next\<close> is
  \<open>pc_now\<close> four bytes on; the container of the code has no word past \<^verbatim>\<open>to\<close>.
\<close>

record ptr_range =
  pr_obj :: nat
  pr_from :: nat
  pr_to :: nat

definition pc_at :: "shadow \<Rightarrow> ptr_range \<Rightarrow> nat \<Rightarrow> compressed option" where
  "pc_at sh p off =
     (case bs_at 0 ((pr_to p + 3) div 4) (off div 4) of None \<Rightarrow> None | Some pos \<Rightarrow> md_get sh (pr_obj p) pos)"

definition pc_size :: "shadow \<Rightarrow> ptr_range \<Rightarrow> nat \<Rightarrow> nat option" where
  "pc_size sh p off =
     (case pc_at sh p off of None \<Rightarrow> None | Some now \<Rightarrow>
        if is_pointer now then Some 4
        else if \<not> is_pointer_or_exception now \<and> off + 4 < pr_to p \<and>
                map_option is_pointer (pc_at sh p (off + 4)) = Some True
        then Some 8
        else if is_pointer_exception now then Some 1
        else None)"

text \<open>\<^verbatim>\<open>seek\<close>: first the bytes that are left of a word with a pointer exception, then the search for
  the next word that starts a pointer or has an exception.\<close>

fun pc_scan :: "u32 list \<Rightarrow> nat \<Rightarrow> nat \<Rightarrow> nat + nat" where
  "pc_scan ids 0 off = Inr off"
| "pc_scan ids (Suc n) off =
     (if ids ! (off mod 4) \<noteq> 0 then Inl off else pc_scan ids n (off + 1))"

function pc_skip :: "shadow \<Rightarrow> ptr_range \<Rightarrow> nat \<Rightarrow> nat option" where
  "pc_skip sh p off =
     (if off < pr_to p
      then (case pc_at sh p off of None \<Rightarrow> None | Some now \<Rightarrow>
              if \<not> is_pointer_or_exception now \<and>
                 (\<not> off + 4 < pr_to p \<or> map_option is_pointer (pc_at sh p (off + 4)) = Some False)
              then pc_skip sh p (off + 4) else Some off)
      else Some off)"
  by pat_completeness auto
termination by (relation "measure (\<lambda>(sh, p, off). pr_to p - off)") auto

declare pc_skip.simps [simp del]

lemma pc_skip_ge: "pc_skip sh p off = Some off' \<Longrightarrow> off \<le> off'"
proof (induction sh p off rule: pc_skip.induct)
  case (1 sh p off)
  then show ?case
    by (subst (asm) (2) pc_skip.simps) (fastforce split: if_splits option.splits)
qed

lemma pc_scan_Inr: "pc_scan ids n off = Inr off' \<Longrightarrow> off' = off + n"
  by (induction ids n off rule: pc_scan.induct) (auto split: if_splits)

function pc_seek :: "shadow \<Rightarrow> ptr_range \<Rightarrow> nat \<Rightarrow> nat option" where
  "pc_seek sh p off =
     (if off \<ge> pr_to p then Some off
      else case pc_at sh p off of None \<Rightarrow> None | Some now \<Rightarrow>
        if off mod 4 \<noteq> 0 \<and> \<not> is_pointer_exception now then None
        else case (if is_pointer_exception now
                   then (case pl_pointer_exception sh (pr_obj p) (downalign off 4) of
                           None \<Rightarrow> None
                         | Some exc \<Rightarrow> Some (pc_scan (pe_objid exc) (4 - off mod 4) off))
                   else Some (Inr off)) of
               None \<Rightarrow> None
             | Some (Inl off) \<Rightarrow> Some off
             | Some (Inr off) \<Rightarrow>
                 (case pc_skip sh p off of None \<Rightarrow> None | Some off \<Rightarrow>
                    if off \<ge> pr_to p then Some (pr_to p)
                    else case pc_at sh p off of None \<Rightarrow> None | Some now \<Rightarrow>
                      if is_pointer_exception now then pc_seek sh p off
                      else if pr_to p - off < 4 then Some (pr_to p)
                      else Some off))"
  by pat_completeness auto
termination
proof (relation "measure (\<lambda>(sh, p, off). pr_to p - off)", simp)
  fix sh p off now r off' off'' now'
  assume off: "\<not> pr_to p \<le> off" and now: "pc_at sh p off = Some now"
    and r: "(if is_pointer_exception now
             then (case pl_pointer_exception sh (pr_obj p) (downalign off 4) of
                     None \<Rightarrow> None | Some exc \<Rightarrow> Some (pc_scan (pe_objid exc) (4 - off mod 4) off))
             else Some (Inr off)) = Some r" "r = Inr off'"
    and skip: "pc_skip sh p off' = Some off''" and lt: "\<not> pr_to p \<le> off''"
    and now': "pc_at sh p off'' = Some now'" "is_pointer_exception now'"
  have ge: "off' \<le> off''" using skip by (rule pc_skip_ge)
  have "off < off''"
  proof (cases "is_pointer_exception now")
    case True
    then obtain exc :: ptrexc where "pc_scan (pe_objid exc) (4 - off mod 4) off = Inr off'"
      using r by (cases "pl_pointer_exception sh (pr_obj p) (downalign off 4)") auto
    then have "off' = off + (4 - off mod 4)" by (rule pc_scan_Inr)
    moreover have "off mod 4 < 4" by simp
    ultimately show ?thesis using ge by linarith
  next
    case False
    then have "off' = off" using r by simp
    moreover have "off'' \<noteq> off" using now now' False by auto
    ultimately show ?thesis using ge by simp
  qed
  then show "((sh, p, off''), sh, p, off) \<in> measure (\<lambda>(sh, p, off). pr_to p - off)"
    using lt by simp
qed

declare pc_seek.simps [simp del]

definition pc_begin :: "shadow \<Rightarrow> ptr_range \<Rightarrow> nat option" where
  "pc_begin sh p =
     (if pr_from p mod 4 \<noteq> 0
      then (case pc_at sh p (pr_from p) of None \<Rightarrow> None | Some now \<Rightarrow>
              pc_seek sh p (if \<not> is_pointer_exception now then min (align (pr_from p) 4) (pr_to p)
                            else pr_from p))
      else pc_seek sh p (pr_from p))"

definition pc_next :: "shadow \<Rightarrow> ptr_range \<Rightarrow> nat \<Rightarrow> nat option" where
  "pc_next sh p off =
     (case pc_size sh p off of None \<Rightarrow> None | Some n \<Rightarrow> pc_seek sh p (off + n))"

text \<open>A walk from an iterator to \<^verbatim>\<open>end()\<close>, of at most \<open>fuel\<close> steps: what the loop body sees of each
  pointer, its offset in the range and its size.\<close>

fun pc_walk :: "nat \<Rightarrow> shadow \<Rightarrow> ptr_range \<Rightarrow> nat \<Rightarrow> (nat \<times> nat) list option" where
  "pc_walk fuel sh p off =
     (if off = pr_to p then Some []
      else case fuel of 0 \<Rightarrow> None | Suc fuel \<Rightarrow>
        (case (pc_size sh p off, pc_next sh p off) of
           (Some n, Some off') \<Rightarrow>
             (case pc_walk fuel sh p off' of None \<Rightarrow> None | Some r \<Rightarrow> Some ((off - pr_from p, n) # r))
         | _ \<Rightarrow> None))"

declare pc_walk.simps [simp del]

definition pc_fragment :: "shadow \<Rightarrow> ptr_range \<Rightarrow> nat \<Rightarrow> u32 option" where
  "pc_fragment sh p off =
     (case pl_pointer_exception sh (pr_obj p) (downalign off 4) of
        None \<Rightarrow> None | Some exc \<Rightarrow> Some (pe_objid exc ! (off mod 4)))"

definition md_pointers :: "loc \<Rightarrow> nat \<Rightarrow> ptr_range" where
  "md_pointers l sz = \<lparr>pr_obj = l_object l, pr_from = l_offset l, pr_to = l_offset l + sz\<rparr>"

end
