(* ===== verification/MetaFormsFacts.thy ===== *)
theory MetaFormsFacts
  imports MetaForms
begin

unbundle bit_operations_syntax

text \<open>
  Facts about the metadata forms: bit sets behave as arrays of small integers, the fields of the
  expanded form are independent, and compression keeps what the shadow layers put there.
\<close>

section \<open>Fields of the expanded form\<close>

lemmas ex_getters = ex_taint_def ex_pointer_def ex_pointer_exception_def ex_data_exception_def
  ex_defined_def

lemmas ex_setters = set_ex_taint_def set_ex_pointer_def set_ex_pointer_exception_def
  set_ex_data_exception_def set_ex_defined_def

lemma bit_0xF: "bit (0xF :: int) i \<longleftrightarrow> i < 4"
proof -
  have "(0xF :: int) = mask 4" by (simp add: mask_eq_exp_minus_1)
  then show ?thesis by (simp only: bit_mask_iff) (simp add: possible_bit_def)
qed

lemma bit_0xF000: "bit (0xF000 :: int) i \<longleftrightarrow> 12 \<le> i \<and> i < 16"
proof -
  have "(0xF000 :: int) = push_bit 12 (mask 4)" by (simp add: mask_eq_exp_minus_1)
  then show ?thesis by (simp only: bit_push_bit_iff bit_mask_iff) (auto simp: possible_bit_def)
qed

lemma ex_get_set [simp]:
  "ex_taint (set_ex_taint t e) = t AND 0xF"
  "ex_taint (set_ex_pointer b e) = ex_taint e"
  "ex_taint (set_ex_pointer_exception b e) = ex_taint e"
  "ex_taint (set_ex_data_exception b e) = ex_taint e"
  "ex_taint (set_ex_defined d e) = ex_taint e"
  "ex_defined (set_ex_taint t e) = ex_defined e"
  "ex_defined (set_ex_pointer b e) = ex_defined e"
  "ex_defined (set_ex_pointer_exception b e) = ex_defined e"
  "ex_defined (set_ex_data_exception b e) = ex_defined e"
  "ex_defined (set_ex_defined d e) = d AND 0xF"
  by (rule bit_word_eqI; auto simp: ex_getters ex_setters bit_simps bit_0xF bit_0xF000 dest: bit_imp_le_length)+

lemma ex_flag_set [simp]:
  "ex_pointer (set_ex_taint t e) = ex_pointer e"
  "ex_pointer (set_ex_pointer b e) = b"
  "ex_pointer (set_ex_pointer_exception b e) = ex_pointer e"
  "ex_pointer (set_ex_data_exception b e) = ex_pointer e"
  "ex_pointer (set_ex_defined d e) = ex_pointer e"
  "ex_pointer_exception (set_ex_taint t e) = ex_pointer_exception e"
  "ex_pointer_exception (set_ex_pointer b e) = ex_pointer_exception e"
  "ex_pointer_exception (set_ex_pointer_exception b e) = b"
  "ex_pointer_exception (set_ex_data_exception b e) = ex_pointer_exception e"
  "ex_pointer_exception (set_ex_defined d e) = ex_pointer_exception e"
  "ex_data_exception (set_ex_taint t e) = ex_data_exception e"
  "ex_data_exception (set_ex_pointer b e) = ex_data_exception e"
  "ex_data_exception (set_ex_pointer_exception b e) = ex_data_exception e"
  "ex_data_exception (set_ex_data_exception b e) = b"
  "ex_data_exception (set_ex_defined d e) = ex_data_exception e"
  by (auto simp: ex_getters ex_setters bit_simps bit_0xF bit_0xF000)

lemma ex_small [simp]: "ex_taint e AND 0xF = ex_taint e" "ex_defined e AND 0xF = ex_defined e"
  by (rule bit_word_eqI; auto simp: ex_getters bit_simps bit_0xF dest: bit_imp_le_length)+

section \<open>Compression\<close>

lemma nibble_in_range:
  assumes "x AND 0xF = (x :: u8)"
  shows "x \<in> set (map word_of_nat [0..<16])"
proof -
  have "x AND 0xF = take_bit 4 x" by (simp add: take_bit_eq_mask mask_eq_exp_minus_1)
  then have "take_bit 4 (unat x) = unat x"
    using assms by (metis unsigned_take_bit_eq)
  then have "unat x < 2 ^ 4" by (simp add: take_bit_nat_eq_self_iff)
  then show ?thesis by (auto intro!: image_eqI [of _ _ "unat x"])
qed

lemma digits_roundtrip_all:
  "list_all (\<lambda>d. list_all (\<lambda>t. let c = compress_loop 4 d t 0 in
       c AND 0x80 = 0 \<and> c AND 0x60 \<noteq> 0x60 \<and>
       expand_loop 4 c 0 0 = (d AND NOT t, t AND d))
     (map word_of_nat [0..<16])) (map word_of_nat [0..<16])"
  by code_simp

lemma digits_roundtrip:
  assumes "d AND 0xF = d" "t AND 0xF = t"
  shows "compress_loop 4 d t 0 AND 0x80 = 0" "compress_loop 4 d t 0 AND 0x60 \<noteq> 0x60"
    "expand_loop 4 (compress_loop 4 d t 0) 0 0 = (d AND NOT t, t AND d)"
  using digits_roundtrip_all nibble_in_range [OF assms(1)] nibble_in_range [OF assms(2)]
  by (auto simp: list_all_iff Let_def)

lemma exception_code_all:
  "list_all (\<lambda>t. let c = 0x60 OR t; d = 0x70 OR t in
       c AND 0x80 = (0 :: u8) \<and> d AND 0x80 = 0 \<and> c AND 0x60 = 0x60 \<and> d AND 0x60 = 0x60 \<and>
       expand c = 0x0200 OR ucast t \<and> expand d = 0x0300 OR ucast t)
     (map word_of_nat [0..<16])"
  by code_simp

lemma and_0x80: "(c :: u8) AND 0x80 = 0 \<longleftrightarrow> \<not> bit c 7"
  by (auto simp: and_exp_eq_0_iff_not_bit [of c 7, simplified])

lemma exception_bits:
  "ex_data_exception e \<Longrightarrow>
     (ucast (drop_bit 4 (e AND 0x0300) OR 0x40 OR ucast (ex_taint e)) :: u8) =
       (if ex_pointer_exception e then 0x70 else 0x60) OR ex_taint e"
  by (simp add: word_eq_iff All_less_Suc2 numeral_eq_Suc ex_getters bit_simps)

lemma expand_pointer:
  "bit c 7 \<Longrightarrow> expand c = ucast c OR 0xF000"
  by (simp add: expand_def and_0x80 Let_def)

lemma ex_of_pointer:
  assumes "ex_pointer e"
  shows "ex_pointer (ucast (ucast e :: u8) OR 0xF000)"
    "\<not> ex_pointer_exception (ucast (ucast e :: u8) OR 0xF000)"
    "\<not> ex_data_exception (ucast (ucast e :: u8) OR 0xF000)"
    "ex_taint (ucast (ucast e :: u8) OR 0xF000) = ex_taint e"
    "ex_defined (ucast (ucast e :: u8) OR 0xF000) = 0xF"
  using assms by (simp_all add: word_eq_iff All_less_Suc2 numeral_eq_Suc ex_getters bit_simps)

lemma u8_high: "8 \<le> n \<Longrightarrow> \<not> bit (t :: u8) n"
  using bit_imp_le_length by fastforce

lemma ex_of_exception:
  "t AND 0xF = t \<Longrightarrow> ex_taint (0x0200 OR ucast t) = t"
  "t AND 0xF = t \<Longrightarrow> ex_taint (0x0300 OR ucast t) = t"
  "ex_data_exception (0x0200 OR ucast (t :: u8))" "ex_data_exception (0x0300 OR ucast (t :: u8))"
  "\<not> ex_pointer_exception (0x0200 OR ucast (t :: u8))" "ex_pointer_exception (0x0300 OR ucast (t :: u8))"
  by (auto simp: word_eq_iff All_less_Suc2 numeral_eq_Suc ex_getters bit_simps u8_high)

lemma ex_of_exception_clear:
  assumes "t AND 0xF = (t :: u8)"
  shows "\<not> ex_pointer (0x0200 OR ucast t)" "\<not> ex_pointer (0x0300 OR ucast t)"
    "ex_defined (0x0200 OR ucast t) = 0" "ex_defined (0x0300 OR ucast t) = 0"
  using assms by (auto simp: word_eq_iff All_less_Suc2 numeral_eq_Suc ex_getters bit_simps u8_high)

lemma ex_of_data_all:
  "list_all (\<lambda>d. list_all (\<lambda>t. let e = push_bit 12 (ucast d) OR ucast t in
       \<not> ex_pointer e \<and> \<not> ex_pointer_exception e \<and> \<not> ex_data_exception e \<and> ex_taint e = t \<and>
       ex_defined e = d)
     (map word_of_nat [0..<16])) (map word_of_nat [0..<16])"
  by code_simp

lemma ex_of_data:
  assumes "d AND 0xF = (d :: u8)" "t AND 0xF = t"
  defines "e \<equiv> push_bit 12 (ucast d) OR ucast t :: u16"
  shows "\<not> ex_pointer e" "\<not> ex_pointer_exception e" "\<not> ex_data_exception e" "ex_taint e = t"
    "ex_defined e = d"
  using ex_of_data_all nibble_in_range [OF assms(1)] nibble_in_range [OF assms(2)]
  unfolding list_all_iff Let_def e_def by blast+

lemma expand_compress_fields:
  defines "e' \<equiv> \<lambda>e. expand (compress e)"
  shows "ex_pointer (e' e) = ex_pointer e"
    and "ex_pointer_exception (e' e) \<longleftrightarrow> ex_pointer_exception e \<and> ex_data_exception e \<and> \<not> ex_pointer e"
    and "ex_data_exception (e' e) \<longleftrightarrow> ex_data_exception e \<and> \<not> ex_pointer e"
    and "ex_taint (e' e) = (if ex_pointer e \<or> ex_data_exception e then ex_taint e
           else ex_taint e AND ex_defined e)"
    and "ex_defined (e' e) = (if ex_pointer e then 0xF else if ex_data_exception e then 0
           else ex_defined e)"
proof -
  consider (ptr) "ex_pointer e" | (exc) "\<not> ex_pointer e" "ex_data_exception e"
    | (data) "\<not> ex_pointer e" "\<not> ex_data_exception e" by blast
  then have "ex_pointer (e' e) = ex_pointer e
    \<and> (ex_pointer_exception (e' e) \<longleftrightarrow> ex_pointer_exception e \<and> ex_data_exception e \<and> \<not> ex_pointer e)
    \<and> (ex_data_exception (e' e) \<longleftrightarrow> ex_data_exception e \<and> \<not> ex_pointer e)
    \<and> ex_taint (e' e) = (if ex_pointer e \<or> ex_data_exception e then ex_taint e
           else ex_taint e AND ex_defined e)
    \<and> ex_defined (e' e) = (if ex_pointer e then 0xF else if ex_data_exception e then 0
           else ex_defined e)"
  proof cases
    case ptr
    have "bit (ucast e :: u8) 7" using ptr by (simp add: ex_pointer_def bit_simps)
    then have "e' e = ucast (ucast e :: u8) OR 0xF000"
      using ptr by (simp add: e'_def compress_def expand_pointer)
    then show ?thesis using ptr ex_of_pointer [OF ptr] by simp
  next
    case exc
    have "compress e = (if ex_pointer_exception e then 0x70 else 0x60) OR ex_taint e"
      using exc exception_bits [OF exc(2)] by (simp add: compress_def)
    then have "e' e = (if ex_pointer_exception e then 0x0300 else 0x0200) OR ucast (ex_taint e)"
      using exception_code_all nibble_in_range [OF ex_small(1), of e]
      by (auto simp: list_all_iff Let_def e'_def)
    then show ?thesis
      using exc by (simp add: ex_of_exception ex_of_exception_clear)
  next
    case data
    let ?d = "ex_defined e" and ?t = "ex_taint e"
    note dr = digits_roundtrip [OF ex_small(2) ex_small(1), of e e]
    have or: "(?d AND NOT ?t) OR (?t AND ?d) = ?d"
      by (rule bit_word_eqI) (auto simp: bit_simps)
    have e': "e' e = push_bit 12 (ucast ?d) OR ucast (?t AND ?d)"
      using data dr by (simp add: e'_def compress_def expand_def or)
    have "(?t AND ?d) AND 0xF = ?t AND ?d" by (metis ex_small(2) and.assoc)
    from ex_of_data [OF ex_small(2) this] show ?thesis using data by (simp add: e')
  qed
  then show "ex_pointer (e' e) = ex_pointer e"
    and "ex_pointer_exception (e' e) \<longleftrightarrow> ex_pointer_exception e \<and> ex_data_exception e \<and> \<not> ex_pointer e"
    and "ex_data_exception (e' e) \<longleftrightarrow> ex_data_exception e \<and> \<not> ex_pointer e"
    and "ex_taint (e' e) = (if ex_pointer e \<or> ex_data_exception e then ex_taint e
           else ex_taint e AND ex_defined e)"
    and "ex_defined (e' e) = (if ex_pointer e then 0xF else if ex_data_exception e then 0
           else ex_defined e)"
    by blast+
qed

lemma expand_zero [simp]: "expand 0 = 0"
  by code_simp

lemma expand_loop_bits:
  assumes "\<And>i. k \<le> i \<Longrightarrow> \<not> bit def i \<and> \<not> bit taint i" "expand_loop n c def taint = (d, t)" "k + n \<le> i"
  shows "\<not> bit d i \<and> \<not> bit t i"
  using assms
proof (induction n arbitrary: c def taint k)
  case (Suc n)
  have "c mod 3 < 2 ^ 2" by (simp add: word_less_nat_alt unat_mod)
  then have "take_bit 2 (c mod 3) = c mod 3"
    by (subst (asm) word_less_exp_iff) simp_all
  then have high: "\<not> bit (c mod 3) i" if "2 \<le> i" for i
    using that bit_take_bit_iff [of 2 "c mod 3" i] by (simp add: not_less)
  have small: "\<not> bit (drop_bit 1 (c mod 3)) i" if "1 \<le> i" for i
    using high [of "1 + i"] that by (simp add: bit_drop_bit_eq)
  have one: "\<not> bit (c mod 3 AND 1) i" if "1 \<le> i" for i
    using that by (auto simp: bit_simps)
  show ?case
  proof (rule Suc.IH [of "Suc k"])
    show "expand_loop n (c div 3) (push_bit 1 def OR (c mod 3 AND 1))
        (push_bit 1 taint OR drop_bit 1 (c mod 3)) = (d, t)"
      using Suc.prems(2) by (simp add: Let_def)
    fix i assume i: "Suc k \<le> i"
    then have "\<not> bit def (i - 1) \<and> \<not> bit taint (i - 1)" using Suc.prems(1) [of "i - 1"] by simp
    then show "\<not> bit (push_bit 1 def OR (c mod 3 AND 1)) i \<and>
        \<not> bit (push_bit 1 taint OR drop_bit 1 (c mod 3)) i"
      using small [of i] one [of i] i unfolding bit_or_iff bit_push_bit_iff by auto
  qed (use Suc.prems(3) in simp)
qed auto

lemma expand_loop_small:
  assumes "expand_loop 4 c 0 0 = (d, t)"
  shows "d AND 0xF = d" "t AND 0xF = t"
proof -
  have "\<not> bit d i \<and> \<not> bit t i" if "4 \<le> i" for i
    using expand_loop_bits [of 0 0 0 4 c d t i] assms that by simp
  then show "d AND 0xF = d" "t AND 0xF = t"
    by (intro bit_word_eqI; simp add: bit_simps bit_0xF; metis not_less)+
qed

lemma expand_exception:
  assumes "\<not> bit c 7" "bit c 6" "bit c 5"
  shows "expand c = (if bit c 4 then 0x0300 else 0x0200) OR ucast (c AND 0xF)"
proof -
  have "c = (if bit c 4 then 0x70 else 0x60) OR (c AND 0xF)"
    using assms by (simp add: word_eq_iff All_less_Suc2 numeral_eq_Suc bit_simps)
  moreover have "(c AND 0xF) AND 0xF = c AND 0xF" by (simp add: and.assoc)
  moreover have "c AND 0xF \<in> set (map word_of_nat [0..<16])"
    using calculation(2) by (rule nibble_in_range)
  then have "expand (0x60 OR (c AND 0xF)) = 0x0200 OR ucast (c AND 0xF)"
    "expand (0x70 OR (c AND 0xF)) = 0x0300 OR ucast (c AND 0xF)"
    using exception_code_all unfolding list_all_iff Let_def by blast+
  ultimately show ?thesis by (cases "bit c 4") simp_all
qed

lemma and_0x60: "(c :: u8) AND 0x60 = 0x60 \<longleftrightarrow> bit c 5 \<and> bit c 6"
  by (auto simp: word_eq_iff All_less_Suc2 numeral_eq_Suc bit_simps)

lemma and_0xF0: "(c :: u8) AND 0xF0 = 0x70 \<longleftrightarrow> \<not> bit c 7 \<and> bit c 6 \<and> bit c 5 \<and> bit c 4"
  by (auto simp: word_eq_iff All_less_Suc2 numeral_eq_Suc bit_simps)

lemma predicates_expand:
  "is_pointer c = ex_pointer (expand c) \<and>
   is_pointer_exception c = ex_pointer_exception (expand c) \<and>
   (is_pointer c \<or> is_trivial c = (\<not> ex_data_exception (expand c))) \<and>
   (ex_pointer_exception (expand c) \<longrightarrow> ex_data_exception (expand c)) \<and>
   (ex_pointer (expand c) \<longrightarrow> \<not> ex_data_exception (expand c))"
proof -
  consider (ptr) "bit c 7" | (exc) "\<not> bit c 7" "bit c 5" "bit c 6"
    | (data) "\<not> bit c 7" "\<not> (bit c 5 \<and> bit c 6)" by blast
  then show ?thesis
  proof cases
    case ptr
    then show ?thesis
      by (simp add: is_pointer_def is_pointer_exception_def and_0x80 and_0xF0 expand_pointer
          ex_pointer_def ex_pointer_exception_def ex_data_exception_def bit_simps u8_high)
  next
    case exc
    have "(c AND 0xF) AND 0xF = c AND 0xF" by (simp add: and.assoc)
    then show ?thesis
      using exc by (simp add: is_pointer_def is_pointer_exception_def is_trivial_def and_0x80 and_0xF0
          and_0x60 expand_exception ex_of_exception ex_of_exception_clear)
  next
    case data
    obtain d t where dt: "expand_loop 4 c 0 0 = (d, t)" by fastforce
    have "expand c = push_bit 12 (ucast (d OR t)) OR ucast t"
      using data dt by (auto simp: expand_def and_0x80 and_0x60 Let_def)
    moreover have "(d OR t) AND 0xF = d OR t"
      using expand_loop_small [OF dt] by (simp add: bit.conj_disj_distrib2)
    ultimately show ?thesis
      using data ex_of_data expand_loop_small [OF dt]
      by (auto simp: is_pointer_def is_pointer_exception_def is_trivial_def and_0x80 and_0xF0 and_0x60)
  qed
qed

lemmas is_pointer_expand = predicates_expand [THEN conjunct1]
lemmas is_pointer_exception_expand = predicates_expand [THEN conjunct2, THEN conjunct1]

lemma is_trivial_expand: "\<not> is_pointer c \<Longrightarrow> is_trivial c = (\<not> ex_data_exception (expand c))"
  and expand_exception_dep: "ex_pointer_exception (expand c) \<Longrightarrow> ex_data_exception (expand c)"
  and expand_pointer_no_exception: "ex_pointer (expand c) \<Longrightarrow> \<not> ex_data_exception (expand c)"
  using predicates_expand [of c] by blast+

section \<open>Bit sets\<close>

lemma bs_index_div:
  fixes base :: "'t::len word list"
  assumes "bps dvd LENGTH('t)"
  shows "bs_index bps base p = p div (LENGTH('t) div bps)"
proof -
  obtain k where k: "LENGTH('t) = bps * k" using assms by (elim dvdE)
  then have "0 < bps" using len_gt_0 [where 'a = 't] by (cases bps) simp_all
  then show ?thesis by (simp add: bs_index_def k mult.commute [of p])
qed

lemma bit_bs_set:
  fixes w t :: "'t::len word"
  assumes "i < bps"
  shows "bit (drop_bit s ((w AND NOT (push_bit s' (bs_mask bps))) OR push_bit s' (t AND bs_mask bps))) i =
    (s + i < LENGTH('t) \<and> (if s' \<le> s + i \<and> s + i < s' + bps then bit t (s + i - s') else bit w (s + i)))"
  using assms by (auto simp: bit_simps bs_mask_def dest: bit_imp_le_length)

lemma bs_shift_bounds:
  fixes base :: "'t::len word list"
  assumes "0 < bps" "bps dvd LENGTH('t)"
  shows "bs_shift bps base p + bps \<le> LENGTH('t)"
proof -
  let ?n = "LENGTH('t) div bps"
  have n: "?n * bps = LENGTH('t)" using assms(2) by simp
  have "0 < ?n" using n by (metis len_gt_0 mult_0 not_gr_zero)
  then have "p mod ?n < ?n" by simp
  then have "bps * (?n - 1 - p mod ?n) + bps \<le> bps * ?n"
    by (cases ?n) (simp_all add: algebra_simps diff_mult_distrib2)
  then show ?thesis using n by (simp add: bs_shift_def Let_def mult.commute)
qed

lemma bs_get_set:
  fixes base :: "'t::len word list"
  assumes "0 < bps" "bps dvd LENGTH('t)" "bs_set bps base p t = Some base'"
  shows "length base' = length base"
    and "bs_get bps base' q = (if q = p then Some (t AND ones bps) else bs_get bps base q)"
proof -
  let ?n = "LENGTH('t) div bps" and ?ix = "bs_index bps base" and ?s = "bs_shift bps base"
  have base': "base' = base[?ix p := (base ! ?ix p AND NOT (push_bit (?s p) (bs_mask bps)))
      OR push_bit (?s p) (t AND bs_mask bps)]" and lp: "?ix p < length base"
    using assms(3) by (auto simp: bs_set_def Let_def split: if_splits)
  show len: "length base' = length base" by (simp add: base')
  have ix: "bs_index bps base' = ?ix" "bs_shift bps base' = ?s"
    by (simp_all add: bs_index_def bs_shift_def fun_eq_iff)
  have n: "?n * bps = LENGTH('t)" using assms(2) by simp
  then have n0: "0 < ?n" by (metis len_gt_0 mult_0 not_gr_zero)
  have apart: "?s q + bps \<le> ?s p \<or> ?s p + bps \<le> ?s q" if "?ix q = ?ix p" "q \<noteq> p"
  proof -
    have "q div ?n = p div ?n" using that bs_index_div [OF assms(2)] by metis
    then have "q mod ?n \<noteq> p mod ?n" using \<open>q \<noteq> p\<close> by (metis mod_mult_div_eq)
    moreover have "q mod ?n < ?n" "p mod ?n < ?n" using n0 by simp_all
    ultimately have "Suc (?n - 1 - q mod ?n) \<le> ?n - 1 - p mod ?n \<or> Suc (?n - 1 - p mod ?n) \<le> ?n - 1 - q mod ?n"
      by linarith
    then have "bps * Suc (?n - 1 - q mod ?n) \<le> bps * (?n - 1 - p mod ?n) \<or>
        bps * Suc (?n - 1 - p mod ?n) \<le> bps * (?n - 1 - q mod ?n)"
      by (meson mult_le_mono2)
    then show ?thesis by (auto simp: bs_shift_def Let_def)
  qed
  show "bs_get bps base' q = (if q = p then Some (t AND ones bps) else bs_get bps base q)"
  proof (cases "?ix q = ?ix p")
    case False
    then show ?thesis by (auto simp: bs_get_def ix len) (simp_all add: base')
  next
    case True
    have "drop_bit (?s q) (base' ! ?ix q) AND bs_mask bps =
        (if q = p then t AND bs_mask bps else drop_bit (?s q) (base ! ?ix q) AND bs_mask bps)"
    proof (rule bit_word_eqI)
      fix i assume "i < LENGTH('t)"
      have bd: "?s q + bps \<le> LENGTH('t)" using bs_shift_bounds [OF assms(1,2)] .
      show "bit (drop_bit (?s q) (base' ! ?ix q) AND bs_mask bps) i =
        bit (if q = p then t AND bs_mask bps else drop_bit (?s q) (base ! ?ix q) AND bs_mask bps) i"
      proof (cases "i < bps")
        case i: True
        show ?thesis
          unfolding base' True nth_list_update_eq [OF lp]
          using i bd True apart bit_bs_set [OF i, of "?s q" "base ! ?ix p" "?s p" t]
          by (auto simp: bit_simps bs_mask_def bit_and_iff)
      qed (simp add: bit_simps bs_mask_def)
    qed
    then show ?thesis using True lp by (simp add: bs_get_def ix len) (simp add: bs_mask_def)
  qed
qed

end
