(* ===== verification/MetadataFacts.thy ===== *)
theory MetadataFacts
  imports Metadata MetaFormsFacts
begin

unbundle bit_operations_syntax

text \<open>
  What the metadata of an object means, byte by byte, and how writing, reading and copying act on
  it. The invariant says that every exception a word is flagged with has its entry, and that
  bytes of pointers are defined; it is what keeps the assertions of the layers from failing.
\<close>

section \<open>Access to the compressed words\<close>

lemma bs_8 [simp]: "bs_index 8 (base :: u8 list) pos = pos" "bs_shift 8 (base :: u8 list) pos = 0"
  by (simp_all add: bs_index_def bs_shift_def)

lemma md_get_eq: "md_get sh obj pos =
    (if pos < length (sh_meta sh obj) then Some (sh_meta sh obj ! pos) else None)"
  by (simp add: md_get_def bs_get_def bs_mask_def)

lemma md_set_eq: "md_set obj pos c sh =
    (if pos < length (sh_meta sh obj)
     then Some (sh\<lparr>sh_meta := (sh_meta sh)(obj := (sh_meta sh obj)[pos := c])\<rparr>) else None)"
  by (simp add: md_set_def bs_set_def bs_mask_def)

lemma md_load_eq:
  "pos + n \<le> length (sh_meta sh obj) \<Longrightarrow>
    md_load n sh obj pos = Some (map (\<lambda>w. expand (sh_meta sh obj ! w)) [pos..<pos + n])"
proof (induction n arbitrary: pos)
  case (Suc n)
  then have "[pos..<pos + Suc n] = pos # [Suc pos..<Suc pos + n]"
    by (simp add: upt_rec)
  then show ?case using Suc.IH [of "Suc pos"] Suc.prems by (simp add: md_get_eq)
qed simp

lemma md_store_eq:
  "pos + length es \<le> length (sh_meta sh obj) \<Longrightarrow>
    \<exists>m. md_store es obj pos sh = Some (sh\<lparr>sh_meta := (sh_meta sh)(obj := m)\<rparr>) \<and>
      length m = length (sh_meta sh obj) \<and>
      (\<forall>w < length m. m ! w =
        (if pos \<le> w \<and> w < pos + length es then compress (es ! (w - pos)) else sh_meta sh obj ! w))"
proof (induction es arbitrary: pos sh)
  case (Cons e es)
  let ?m0 = "(sh_meta sh obj)[pos := compress e]"
  let ?sh = "sh\<lparr>sh_meta := (sh_meta sh)(obj := ?m0)\<rparr>"
  have "Suc pos + length es \<le> length (sh_meta ?sh obj)" using Cons.prems by simp
  from Cons.IH [OF this] obtain m where
    m: "md_store es obj (Suc pos) ?sh = Some (?sh\<lparr>sh_meta := (sh_meta ?sh)(obj := m)\<rparr>)"
    "length m = length (sh_meta ?sh obj)"
    "\<forall>w < length m. m ! w = (if Suc pos \<le> w \<and> w < Suc pos + length es then compress (es ! (w - Suc pos))
       else sh_meta ?sh obj ! w)"
    by blast
  have "md_store (e # es) obj pos sh = Some (sh\<lparr>sh_meta := (sh_meta sh)(obj := m)\<rparr>)"
    using m(1) Cons.prems by (simp add: md_set_eq)
  moreover have "m ! w = (if pos \<le> w \<and> w < pos + length (e # es) then compress ((e # es) ! (w - pos))
      else sh_meta sh obj ! w)" if "w < length m" for w
    using m(2,3) that Cons.prems by (cases "w = pos") (auto simp: nth_Cons')
  moreover have "length m = length (sh_meta sh obj)" using m(2) by simp
  ultimately show ?case by blast
next
  case Nil
  show ?case by (rule exI [of _ "sh_meta sh obj"]) auto
qed

section \<open>Masks\<close>

lemma mask_table_nth:
  assumes "d AND 0xF = (d :: u8)"
  shows "length (mask_table ! unat d) = 4"
    "i < 4 \<Longrightarrow> mask_table ! unat d ! i = (if bit d i then 0xff else 0x00)"
proof -
  have "list_all (\<lambda>d. length (mask_table ! unat d) = 4 \<and>
      list_all (\<lambda>i. mask_table ! unat d ! i = (if bit d i then 0xff else 0x00)) [0..<4])
    (map word_of_nat [0..<16] :: u8 list)"
    by code_simp
  then have "length (mask_table ! unat d) = 4 \<and>
      (\<forall>i < 4. mask_table ! unat d ! i = (if bit d i then 0xff else 0x00))"
    using nibble_in_range [OF assms] by (auto simp: list_all_iff)
  then show "length (mask_table ! unat d) = 4"
    "i < 4 \<Longrightarrow> mask_table ! unat d ! i = (if bit d i then 0xff else 0x00)" by blast+
qed

lemma nibble_less: "unat (ex_defined e) < 0x10"
proof -
  have "ex_defined e \<in> set (map word_of_nat [0..<16])"
    by (rule nibble_in_range) simp
  then show ?thesis by (auto simp: unsigned_of_nat take_bit_nat_def)
qed

lemma length_mask_table [simp]: "length (mask_table ! unat (ex_defined e)) = 4"
  by (rule mask_table_nth(1)) simp

lemma all_less_4: "(\<forall>i < 4. P i) \<longleftrightarrow> P 0 \<and> P 1 \<and> P 2 \<and> P (3 :: nat)"
  by (auto simp: less_Suc_eq numeral_eq_Suc)

lemma dl_def_bits_nibble: "dl_def_bits src AND 0xF = dl_def_bits src"
  by (simp add: dl_def_bits_def upt_rec word_eq_iff All_less_Suc2 numeral_eq_Suc bit_simps)

lemma bit_dl_def_bits: "i < 4 \<Longrightarrow> bit (dl_def_bits src) i \<longleftrightarrow> src ! i = 0xff"
proof -
  have "\<forall>i < 4. bit (dl_def_bits src) i \<longleftrightarrow> src ! i = 0xff"
    by (simp add: dl_def_bits_def upt_rec all_less_4 bit_simps numeral_2_eq_2 numeral_3_eq_3)
  then show "i < 4 \<Longrightarrow> bit (dl_def_bits src) i \<longleftrightarrow> src ! i = 0xff" by blast
qed

text \<open>A mask without partial bytes is recovered from its four bits.\<close>

lemma mask_table_def_bits:
  assumes "bitmask_is_trivial src" "length src = 4"
  shows "mask_table ! unat (dl_def_bits src) = src"
  using mask_table_nth(1) [OF dl_def_bits_nibble, of src]
    mask_table_nth(2) [OF dl_def_bits_nibble] assms bit_dl_def_bits
  by (intro nth_equalityI) (auto simp: bitmask_is_trivial_def)

lemma de_valid_iff:
  assumes "length m = 4"
  shows "de_valid m \<longleftrightarrow> (\<exists>i < 4. m ! i \<noteq> 0)"
proof -
  have "(of_bytes m :: u32) = 0 \<longleftrightarrow> (\<forall>i < 4. m ! i = 0)"
  proof
    assume z: "(of_bytes m :: u32) = 0"
    show "\<forall>i < 4. m ! i = 0"
    proof (intro allI impI bit_word_eqI)
      fix i k :: nat assume "i < 4" "k < LENGTH(8)"
      then have "bit (of_bytes m :: u32) (8 * i + k) = bit (m ! i) k"
        using assms by (simp add: bit_of_bytes)
      then show "bit (m ! i) k = bit (0 :: u8) k" using z by simp
    qed
  next
    assume "\<forall>i < 4. m ! i = 0"
    then show "(of_bytes m :: u32) = 0"
      using assms by (intro bit_word_eqI) (auto simp: bit_of_bytes)
  qed
  then show ?thesis by (auto simp: de_valid_def)
qed

lemma not_trivial_valid: "length m = 4 \<Longrightarrow> \<not> bitmask_is_trivial m \<Longrightarrow> de_valid m"
  by (auto simp: de_valid_iff bitmask_is_trivial_def)

end
