(* ===== verification/MetadataWrite.thy ===== *)
theory MetadataWrite
  imports MetadataFacts
begin

unbundle bit_operations_syntax

text \<open>
  The invariant of the shadow memory, the definedness of each byte it denotes, and the effect of
  writing a value and reading one back.
\<close>

section \<open>Invariant and view\<close>

definition word_ok :: "shadow \<Rightarrow> nat \<Rightarrow> nat \<Rightarrow> expanded \<Rightarrow> bool" where
  "word_ok sh obj w e \<longleftrightarrow>
     (\<exists>m p. dl_read_def sh obj (4 * w) e = Some m \<and> pl_read_ptr sh obj (4 * w) e = Some p \<and>
       length m = 4 \<and> length (pe_objid p) = 4 \<and> length (pe_metadata p) = 4 \<and>
       (ex_pointer_exception e \<longrightarrow> pe_valid p) \<and>
       (\<forall>i < 4. pe_objid p ! i \<noteq> 0 \<longrightarrow> m ! i = 0xff \<and> 4 * w + i < length (sh_mem sh obj)))"

definition sh_ok :: "shadow \<Rightarrow> bool" where
  "sh_ok sh \<longleftrightarrow> em_sorted (sh_pexc sh) \<and> em_sorted (sh_dexc sh) \<and>
     (\<forall>obj. length (sh_meta sh obj) = meta_size (length (sh_mem sh obj))) \<and>
     (\<forall>obj w. w < length (sh_meta sh obj) \<longrightarrow> word_ok sh obj w (expand (sh_meta sh obj ! w)))"

text \<open>The definedness of the word \<open>w\<close> of an object, and of its byte \<open>j\<close>.\<close>

definition word_def :: "shadow \<Rightarrow> nat \<Rightarrow> nat \<Rightarrow> u8 list" where
  "word_def sh obj w = the (dl_read_def sh obj (4 * w) (expand (sh_meta sh obj ! w)))"

definition dview :: "shadow \<Rightarrow> nat \<Rightarrow> nat \<Rightarrow> u8" where
  "dview sh obj j = word_def sh obj (j div 4) ! (j mod 4)"

text \<open>The words \<open>W\<close> of \<open>obj\<close> are all that may have changed.\<close>

definition only_words :: "shadow \<Rightarrow> shadow \<Rightarrow> nat \<Rightarrow> nat set \<Rightarrow> bool" where
  "only_words sh sh' obj W \<longleftrightarrow> sh_mem sh' = sh_mem sh \<and>
     em_sorted (sh_pexc sh') \<and> em_sorted (sh_dexc sh') \<and>
     (\<forall>ob w. \<not> (ob = obj \<and> w \<in> W) \<longrightarrow>
        em_find (ob, 4 * w) (sh_pexc sh') = em_find (ob, 4 * w) (sh_pexc sh) \<and>
        em_find (ob, 4 * w) (sh_dexc sh') = em_find (ob, 4 * w) (sh_dexc sh) \<and>
        (w < length (sh_meta sh ob) \<longrightarrow> sh_meta sh' ob ! w = sh_meta sh ob ! w)) \<and>
     (\<forall>ob. length (sh_meta sh' ob) = length (sh_meta sh ob))"

lemma meta_size_eq: "meta_size n = (n + 3) div 4"
  by (simp add: meta_size_def) presburger

lemma read_cong:
  assumes "em_find (obj, 4 * w) (sh_pexc sh') = em_find (obj, 4 * w) (sh_pexc sh)"
    and "em_find (obj, 4 * w) (sh_dexc sh') = em_find (obj, 4 * w) (sh_dexc sh)"
    and "sh_mem sh' obj = sh_mem sh obj"
  shows "dl_read_def sh' obj (4 * w) e = dl_read_def sh obj (4 * w) e"
    and "pl_read_ptr sh' obj (4 * w) e = pl_read_ptr sh obj (4 * w) e"
    and "word_ok sh' obj w e = word_ok sh obj w e"
proof -
  show a: "dl_read_def sh' obj (4 * w) e = dl_read_def sh obj (4 * w) e"
    using assms by (simp add: dl_read_def_def dx_get_def)
  show b: "pl_read_ptr sh' obj (4 * w) e = pl_read_ptr sh obj (4 * w) e"
    using assms by (simp add: pl_read_ptr_def pl_pointer_exception_def em_at_def)
  show "word_ok sh' obj w e = word_ok sh obj w e"
    using assms(3) by (simp add: word_ok_def a b)
qed

lemma only_words_read:
  assumes "only_words sh sh' obj W" "\<not> (ob = obj \<and> w \<in> W)"
  shows "dl_read_def sh' ob (4 * w) e = dl_read_def sh ob (4 * w) e"
    and "pl_read_ptr sh' ob (4 * w) e = pl_read_ptr sh ob (4 * w) e"
    and "word_ok sh' ob w e = word_ok sh ob w e"
proof -
  have "em_find (ob, 4 * w) (sh_pexc sh') = em_find (ob, 4 * w) (sh_pexc sh)"
    "em_find (ob, 4 * w) (sh_dexc sh') = em_find (ob, 4 * w) (sh_dexc sh)"
    "sh_mem sh' ob = sh_mem sh ob"
    using assms unfolding only_words_def by auto
  note r = read_cong [OF this]
  show "dl_read_def sh' ob (4 * w) e = dl_read_def sh ob (4 * w) e"
    and "pl_read_ptr sh' ob (4 * w) e = pl_read_ptr sh ob (4 * w) e"
    and "word_ok sh' ob w e = word_ok sh ob w e"
    by (rule r)+
qed

lemma only_words_view:
  assumes "only_words sh sh' obj W" "\<not> (ob = obj \<and> w \<in> W)" "w < length (sh_meta sh ob)"
  shows "word_def sh' ob w = word_def sh ob w"
  using assms only_words_read [OF assms(1,2)] by (simp add: word_def_def only_words_def)

lemma only_words_ok:
  assumes "sh_ok sh" "only_words sh sh' obj W"
    and "\<And>w. w \<in> W \<Longrightarrow> w < length (sh_meta sh obj) \<Longrightarrow> word_ok sh' obj w (expand (sh_meta sh' obj ! w))"
  shows "sh_ok sh'"
proof -
  have "word_ok sh' ob w (expand (sh_meta sh' ob ! w))" if "w < length (sh_meta sh ob)" for ob w
  proof (cases "ob = obj \<and> w \<in> W")
    case False
    then show ?thesis
      using only_words_read(3) [OF assms(2) False] that assms(1,2) by (simp add: sh_ok_def only_words_def)
  qed (use assms(3) that in blast)
  then show ?thesis using assms(1,2) by (simp add: sh_ok_def only_words_def)
qed

lemma only_words_trans:
  "only_words a b obj V \<Longrightarrow> only_words b c obj W \<Longrightarrow> only_words a c obj (V \<union> W)"
  unfolding only_words_def by auto

lemma only_words_refl: "sh_ok sh \<Longrightarrow> only_words sh sh obj {}"
  by (simp add: only_words_def sh_ok_def)

section \<open>The forms a word is left in\<close>

text \<open>What \<open>dl_write_def\<close> makes of the expanded form for the mask \<open>b\<close>.\<close>

definition with_def :: "u8 list \<Rightarrow> expanded \<Rightarrow> expanded" where
  "with_def b e =
     set_ex_data_exception (ex_pointer_exception e \<or> \<not> bitmask_is_trivial b)
       (set_ex_defined (dl_def_bits b) e)"

lemma with_def_simps [simp]:
  "ex_pointer (with_def b e) = ex_pointer e"
  "ex_pointer_exception (with_def b e) = ex_pointer_exception e"
  "ex_data_exception (with_def b e) \<longleftrightarrow> ex_pointer_exception e \<or> \<not> bitmask_is_trivial b"
  "ex_taint (with_def b e) = ex_taint e"
  "ex_defined (with_def b e) = dl_def_bits b"
  by (auto simp: with_def_def dl_def_bits_nibble)

lemma dl_write_def_spec:
  assumes "off mod 4 = 0" "em_sorted (sh_dexc sh)"
    and "ex_data_exception e \<Longrightarrow> em_find (obj, off) (sh_dexc sh) \<noteq> None"
  shows "\<exists>m. dl_write_def b obj off e sh = Some (with_def b e, sh\<lparr>sh_dexc := m\<rparr>) \<and> em_sorted m \<and>
    (ex_data_exception (with_def b e) \<longrightarrow> em_find (obj, off) m = Some b) \<and>
    (\<forall>k. k \<noteq> (obj, off) \<longrightarrow> em_find k m = em_find k (sh_dexc sh))"
proof -
  consider (exc) "ex_data_exception (with_def b e)"
    | (clear) "\<not> ex_data_exception (with_def b e)" "ex_data_exception e"
    | (none) "\<not> ex_data_exception (with_def b e)" "\<not> ex_data_exception e" by blast
  then show ?thesis
  proof cases
    case exc
    then have "dl_write_def b obj off e sh = Some (with_def b e, sh\<lparr>sh_dexc := em_set obj off b (sh_dexc sh)\<rparr>)"
      using assms(1) by (simp add: dl_write_def_def with_def_def dx_set_def Let_def)
    then show ?thesis using assms(2) by auto
  next
    case clear
    then have "dl_write_def b obj off e sh = Some (with_def b e, sh\<lparr>sh_dexc := em_set obj off de_null (sh_dexc sh)\<rparr>)"
      using assms(1) assms(3) by (auto simp: dl_write_def_def with_def_def em_at_def Let_def)
    then show ?thesis using assms(2) clear by auto
  next
    case none
    then have "dl_write_def b obj off e sh = Some (with_def b e, sh\<lparr>sh_dexc := sh_dexc sh\<rparr>)"
      using assms(1) by (simp add: dl_write_def_def with_def_def Let_def)
    then show ?thesis using assms(2) none by (intro exI [of _ "sh_dexc sh"]) auto
  qed
qed

text \<open>How a word reads that was stored from an expanded form the layers have finished.\<close>

lemma mask_table_15: "mask_table ! unat (0xF :: u8) = replicate 4 0xff"
  by code_simp

lemma read_def_stored:
  assumes "length b = 4" "off mod 4 = 0"
    and "ex_defined e = dl_def_bits b" "ex_pointer_exception e \<Longrightarrow> de_valid b"
    and "ex_data_exception e \<longleftrightarrow> ex_pointer_exception e \<or> \<not> bitmask_is_trivial b"
    and "ex_data_exception e \<Longrightarrow> em_find (obj, off) (sh_dexc sh) = Some b"
  shows "dl_read_def sh obj off (expand (compress e)) =
    Some (if ex_pointer e then replicate 4 0xff else b)"
proof -
  note x = expand_compress_fields [of e]
  show ?thesis
  proof (cases "ex_pointer e")
    case True
    then show ?thesis
      using assms(2) x mask_table_15 by (simp add: dl_read_def_def)
  next
    case False
    show ?thesis
    proof (cases "ex_data_exception e")
      case True
      then have "de_valid b" using assms(1,4,5) not_trivial_valid by blast
      then show ?thesis
        using True False x assms(2,6) by (simp add: dl_read_def_def dx_get_def)
    next
      case nd: False
      then have "bitmask_is_trivial b" using assms(5) by blast
      then show ?thesis
        using nd False x assms(1,2,3) mask_table_def_bits [of b] nibble_less [of e]
        by (simp add: dl_read_def_def)
    qed
  qed
qed

section \<open>The layers on the words of an access\<close>

lemma pl_invalidate_words_spec:
  assumes "em_sorted (sh_pexc sh)"
    and "\<And>i. i < length exp \<Longrightarrow> ex_pointer_exception (exp ! i) \<Longrightarrow> em_find (obj, off + 4 * i) (sh_pexc sh) \<noteq> None"
  shows "\<exists>m. pl_invalidate_words obj off exp sh = Some (sh\<lparr>sh_pexc := m\<rparr>) \<and> em_sorted m \<and>
    (\<forall>k. (\<forall>i < length exp. k \<noteq> (obj, off + 4 * i)) \<longrightarrow> em_find k m = em_find k (sh_pexc sh))"
  using assms
proof (induction exp arbitrary: off sh)
  case Nil
  then show ?case by (auto intro!: exI [of _ "sh_pexc sh"])
next
  case (Cons e es)
  define sh1 where "sh1 = (if ex_pointer_exception e
    then sh\<lparr>sh_pexc := em_set obj off pe_null (sh_pexc sh)\<rparr> else sh)"
  have step: "pl_invalidate_words obj off (e # es) sh = pl_invalidate_words obj (off + 4) es sh1"
    using Cons.prems(2) [of 0] by (auto simp: sh1_def em_at_def pe_invalidate_def)
  have srt: "em_sorted (sh_pexc sh1)" using Cons.prems(1) by (simp add: sh1_def)
  have f1: "em_find k (sh_pexc sh1) = em_find k (sh_pexc sh)" if "k \<noteq> (obj, off)" for k
    using that Cons.prems(1) by (simp add: sh1_def)
  have "em_find (obj, off + 4 + 4 * i) (sh_pexc sh1) \<noteq> None"
    if "i < length es" "ex_pointer_exception (es ! i)" for i
    using Cons.prems(2) [of "Suc i"] that f1 [of "(obj, off + 4 + 4 * i)"] by (simp add: algebra_simps)
  from Cons.IH [OF srt this] obtain m where
    m: "pl_invalidate_words obj (off + 4) es sh1 = Some (sh1\<lparr>sh_pexc := m\<rparr>)" "em_sorted m"
    "\<And>k. (\<forall>i < length es. k \<noteq> (obj, off + 4 + 4 * i)) \<Longrightarrow> em_find k m = em_find k (sh_pexc sh1)"
    by blast
  have "em_find k m = em_find k (sh_pexc sh)"
    if k: "\<forall>i < length (e # es). k \<noteq> (obj, off + 4 * i)" for k
  proof -
    have "k \<noteq> (obj, off + 4 + 4 * i)" if "i < length es" for i
      using k [rule_format, of "Suc i"] that by (simp add: algebra_simps)
    moreover have "k \<noteq> (obj, off)" using k [rule_format, of 0] by simp
    ultimately show ?thesis using m(3) f1 by simp
  qed
  moreover have "sh1\<lparr>sh_pexc := m\<rparr> = sh\<lparr>sh_pexc := m\<rparr>" by (simp add: sh1_def)
  ultimately show ?case using step m(1,2) by auto
qed

lemma pl_set_flags_nth:
  "length (pl_set_flags v w exp) = length exp"
  "i < length exp \<Longrightarrow> pl_set_flags v w exp ! i =
    set_ex_pointer_exception False
      (set_ex_pointer (sv_objid v \<noteq> 0 \<and> sv_objid_offset v = (w + i) * 32) (exp ! i))"
proof (induction exp arbitrary: w i)
  case (Cons e es)
  {
    case 1
    then show ?case using Cons by simp
  next
    case 2
    then show ?case using Cons by (cases i) (simp_all add: algebra_simps)
  }
qed simp_all

lemma dl_write_words_spec:
  assumes "em_sorted (sh_dexc sh)" "l_offset l mod 4 = 0" "w + n \<le> length exp"
    and "\<And>i. w \<le> i \<Longrightarrow> i < w + n \<Longrightarrow> ex_data_exception (exp ! i) \<Longrightarrow>
      em_find (l_object l, l_offset l + 4 * i) (sh_dexc sh) \<noteq> None"
  shows "\<exists>m exp'. dl_write_words n l bytes w exp sh = Some (exp', sh\<lparr>sh_dexc := m\<rparr>) \<and> em_sorted m \<and>
    length exp' = length exp \<and>
    (\<forall>i. exp' ! i = (if w \<le> i \<and> i < w + n then with_def (take 4 (drop (4 * i) bytes)) (exp ! i) else exp ! i)) \<and>
    (\<forall>i. w \<le> i \<and> i < w + n \<and> ex_data_exception (exp' ! i) \<longrightarrow>
       em_find (l_object l, l_offset l + 4 * i) m = Some (take 4 (drop (4 * i) bytes))) \<and>
    (\<forall>k. (\<forall>i. w \<le> i \<and> i < w + n \<longrightarrow> k \<noteq> (l_object l, l_offset l + 4 * i)) \<longrightarrow>
       em_find k m = em_find k (sh_dexc sh))"
  using assms
proof (induction n arbitrary: w exp sh)
  case 0
  then show ?case by (auto intro!: exI [of _ "sh_dexc sh"])
next
  case (Suc n)
  let ?b = "\<lambda>i. take 4 (drop (4 * i) bytes)" and ?k = "\<lambda>i. (l_object l, l_offset l + 4 * i)"
  have al: "(l_offset l + 4 * w) mod 4 = 0" using Suc.prems(2) by presburger
  from dl_write_def_spec [OF al Suc.prems(1), of "exp ! w" "l_object l" "?b w"] Suc.prems(4) [of w]
  obtain m0 where m0: "dl_write_def (?b w) (l_object l) (l_offset l + 4 * w) (exp ! w) sh =
      Some (with_def (?b w) (exp ! w), sh\<lparr>sh_dexc := m0\<rparr>)" "em_sorted m0"
    "ex_data_exception (with_def (?b w) (exp ! w)) \<Longrightarrow> em_find (?k w) m0 = Some (?b w)"
    "\<And>k. k \<noteq> ?k w \<Longrightarrow> em_find k m0 = em_find k (sh_dexc sh)"
    by auto
  let ?exp = "exp[w := with_def (?b w) (exp ! w)]"
  let ?sh = "sh\<lparr>sh_dexc := m0\<rparr>"
  have "em_find (?k i) (sh_dexc ?sh) \<noteq> None"
    if "Suc w \<le> i" "i < Suc w + n" "ex_data_exception (?exp ! i)" for i
    using that Suc.prems(4) [of i] m0(4) [of "?k i"] by auto
  moreover have "em_sorted (sh_dexc ?sh)" "Suc w + n \<le> length ?exp"
    using m0(2) Suc.prems(3) by simp_all
  ultimately obtain m exp' where m: "dl_write_words n l bytes (Suc w) ?exp ?sh = Some (exp', ?sh\<lparr>sh_dexc := m\<rparr>)"
    "em_sorted m" "length exp' = length ?exp"
    "\<forall>i. exp' ! i = (if Suc w \<le> i \<and> i < Suc w + n then with_def (?b i) (?exp ! i) else ?exp ! i)"
    "\<forall>i. Suc w \<le> i \<and> i < Suc w + n \<and> ex_data_exception (exp' ! i) \<longrightarrow> em_find (?k i) m = Some (?b i)"
    "\<forall>k. (\<forall>i. Suc w \<le> i \<and> i < Suc w + n \<longrightarrow> k \<noteq> ?k i) \<longrightarrow> em_find k m = em_find k (sh_dexc ?sh)"
    using Suc.IH [of ?sh "Suc w" ?exp] Suc.prems(2) by blast
  have nth: "exp' ! i = (if w \<le> i \<and> i < w + Suc n then with_def (?b i) (exp ! i) else exp ! i)" for i
    using m(4) [rule_format, of i] Suc.prems(3) by (auto simp: nth_list_update)
  have "em_find (?k i) m = Some (?b i)"
    if "w \<le> i \<and> i < w + Suc n \<and> ex_data_exception (exp' ! i)" for i
  proof (cases "i = w")
    case True
    then have "ex_data_exception (with_def (?b w) (exp ! w))" using nth [of i] that by simp
    then show ?thesis using m(6) [rule_format, of "?k w"] m0(3) True by simp
  qed (use m(5) that in simp)
  moreover have "em_find k m = em_find k (sh_dexc sh)"
    if "\<forall>i. w \<le> i \<and> i < w + Suc n \<longrightarrow> k \<noteq> ?k i" for k
    using m(6) [rule_format, of k] m0(4) [of k] that by simp
  ultimately show ?case using m0(1) m(1,2,3) nth by auto
qed

text \<open>The mask of a word after the bytes of an access have been put over it.\<close>

definition new_mask :: "nat \<Rightarrow> nat \<Rightarrow> u8 list \<Rightarrow> u8 list \<Rightarrow> nat \<Rightarrow> u8 list" where
  "new_mask off sz bytes old w =
     map (\<lambda>k. let j = 4 * w + k in if off \<le> j \<and> j < off + sz then bytes ! (j - off) else old ! k) [0..<4]"

lemma length_new_mask [simp]: "length (new_mask off sz bytes old w) = 4"
  by (simp add: new_mask_def)

lemma nth_new_mask: "k < 4 \<Longrightarrow> new_mask off sz bytes old w ! k =
    (if off \<le> 4 * w + k \<and> 4 * w + k < off + sz then bytes ! (4 * w + k - off) else old ! k)"
  by (simp add: new_mask_def Let_def)

lemma new_mask_full:
  assumes "off mod 4 = 0" "i < sz div 4" "length bytes = sz"
  shows "take 4 (drop (4 * i) bytes) = new_mask off sz bytes old (off div 4 + i)"
proof (rule nth_equalityI)
  have i: "4 * i + 4 \<le> sz" using assms(2) by linarith
  then show "length (take 4 (drop (4 * i) bytes)) = length (new_mask off sz bytes old (off div 4 + i))"
    using assms(3) by simp
  fix k assume "k < length (take 4 (drop (4 * i) bytes))"
  then have k: "k < 4" by simp
  have off: "4 * (off div 4) = off" using assms(1) by presburger
  then have "4 * (off div 4 + i) + k - off = 4 * i + k" by (simp add: algebra_simps)
  moreover have "off \<le> 4 * (off div 4 + i) + k" "4 * (off div 4 + i) + k < off + sz"
    using off i k unfolding distrib_left by linarith+
  ultimately show "take 4 (drop (4 * i) bytes) ! k = new_mask off sz bytes old (off div 4 + i) ! k"
    using k i assms(3) by (simp add: nth_new_mask)
qed

lemma access_tail:
  assumes "md_access_ok sz off" "sz mod 4 \<noteq> 0"
  defines "n \<equiv> sz div 4"
  shows "(off + 4 * n) mod 4 + sz mod 4 \<le> 4" "downalign (off + 4 * n) 4 = 4 * (off div 4 + n)"
    "4 * (off div 4 + n) + (off + 4 * n) mod 4 = off + 4 * n"
proof -
  have md: "(off + 4 * n) mod 4 = off mod 4" by simp
  show "(off + 4 * n) mod 4 + sz mod 4 \<le> 4"
  proof (cases "sz \<ge> 3")
    case True
    have "sz mod 4 < 4" by simp
    then show ?thesis using assms(1) True by (simp add: md_access_ok_def md)
  next
    case False
    then have "sz mod 4 = sz" by simp
    then show ?thesis using assms(1,2) False unfolding md md_access_ok_def by (auto split: if_splits)
  qed
  show "downalign (off + 4 * n) 4 = 4 * (off div 4 + n)"
    by (simp add: downalign_eq_mult)
  show "4 * (off div 4 + n) + (off + 4 * n) mod 4 = off + 4 * n"
    unfolding md by presburger
qed

lemma new_mask_tail:
  assumes "md_access_ok sz off" "sz mod 4 \<noteq> 0" "length bytes = sz" "length old = 4"
  shows "overlay ((off + 4 * (sz div 4)) mod 4) (take (sz mod 4) (drop (4 * (sz div 4)) bytes)) old =
    new_mask off sz bytes old (off div 4 + sz div 4)"
proof (rule nth_equalityI)
  let ?n = "sz div 4" and ?p = "(off + 4 * (sz div 4)) mod 4"
  note at = access_tail [OF assms(1,2)]
  have sz: "sz = 4 * ?n + sz mod 4" by simp
  have lt: "length (take (sz mod 4) (drop (4 * ?n) bytes)) = sz mod 4"
    using assms(3) sz by (metis add_diff_cancel_left' length_drop length_take min.idem)
  show "length (overlay ?p (take (sz mod 4) (drop (4 * ?n) bytes)) old) =
      length (new_mask off sz bytes old (off div 4 + ?n))"
    using at(1) assms(4) lt by (simp add: overlay_def)
  fix k assume "k < length (overlay ?p (take (sz mod 4) (drop (4 * ?n) bytes)) old)"
  then have k: "k < 4" using at(1) assms(4) lt by (simp add: overlay_def)
  have ov: "overlay ?p (take (sz mod 4) (drop (4 * ?n) bytes)) old ! k =
      (if ?p \<le> k \<and> k < ?p + sz mod 4 then bytes ! (4 * ?n + (k - ?p)) else old ! k)"
    using at(1) assms(3,4) lt k sz by (auto simp: overlay_def nth_append)
  have off: "off \<le> off + 4 * ?n" by simp
  show "overlay ?p (take (sz mod 4) (drop (4 * ?n) bytes)) old ! k =
      new_mask off sz bytes old (off div 4 + ?n) ! k"
  proof (cases "?n = 0")
    case True
    define q r where "q = off div 4" and "r = off mod 4"
    have od: "off = 4 * q + r" by (simp add: q_def r_def)
    have "sz mod 4 = sz" using True sz by linarith
    then show ?thesis unfolding ov nth_new_mask [OF k] using True
      by (simp add: q_def [symmetric] r_def [symmetric]) (auto simp: od intro: arg_cong [of _ _ "nth bytes"])
  next
    case False
    then have "sz \<ge> 3" by simp
    then have om: "off mod 4 = 0" using assms(1) by (simp add: md_access_ok_def)
    then have p: "?p = 0" "4 * (off div 4) = off" by (simp, presburger)
    moreover have "k + 4 * ?n < sz \<longleftrightarrow> k < sz mod 4" using sz by linarith
    ultimately show ?thesis unfolding ov nth_new_mask [OF k]
      by (intro if_cong) (auto simp: algebra_simps)
  qed
qed

definition flagged :: "sval \<Rightarrow> nat \<Rightarrow> expanded \<Rightarrow> expanded" where
  "flagged v i e =
     set_ex_pointer_exception False
       (set_ex_pointer (sv_objid v \<noteq> 0 \<and> sv_objid_offset v = i * 32) e)"

lemma flagged_simps [simp]:
  "ex_pointer (flagged v i e) \<longleftrightarrow> sv_objid v \<noteq> 0 \<and> sv_objid_offset v = i * 32"
  "\<not> ex_pointer_exception (flagged v i e)"
  "ex_data_exception (flagged v i e) = ex_data_exception e"
  "ex_taint (flagged v i e) = ex_taint e"
  "ex_defined (flagged v i e) = ex_defined e"
  by (auto simp: flagged_def)

lemma dl_read_def_entry:
  "dl_read_def sh obj off e = Some m \<Longrightarrow> ex_data_exception e \<Longrightarrow> em_find (obj, off) (sh_dexc sh) \<noteq> None"
  by (auto simp: dl_read_def_def dx_get_def split: if_splits option.splits)

lemma dl_read_def_cong:
  "em_find (obj, off) (sh_dexc sh') = em_find (obj, off) (sh_dexc sh) \<Longrightarrow>
    dl_read_def sh' obj off e = dl_read_def sh obj off e"
  by (simp add: dl_read_def_def dx_get_def)

lemma dl_read_def_flagged: "dl_read_def sh obj off (flagged v i e) = dl_read_def sh obj off e"
  by (simp add: dl_read_def_def)

lemma dl_read_def_pexc:
  "dl_read_def (sh\<lparr>sh_pexc := x\<rparr>) obj off e = dl_read_def sh obj off e"
  "dl_read_def (sh\<lparr>cur_dto := y\<rparr>) obj off e = dl_read_def sh obj off e"
  by (simp_all add: dl_read_def_def)

lemma dl_write_spec:
  fixes v :: sval and l :: loc and exp :: "expanded list"
  defines "sz \<equiv> sv_size v" and "off \<equiv> l_offset l" and "obj \<equiv> l_object l" and "pos \<equiv> l_offset l div 4"
  defines "nm \<equiv> \<lambda>old i. new_mask off sz (sv_def v) (old i) (pos + i)"
  assumes srt: "em_sorted (sh_pexc sh)" "em_sorted (sh_dexc sh)"
    and acc: "md_access_ok sz off" "length (sv_def v) = sz" "length exp = (sz + 3) div 4"
    and old: "\<And>i. i < length exp \<Longrightarrow> dl_read_def sh obj (4 * (pos + i)) (exp ! i) = Some (old i) \<and>
      length (old i) = 4 \<and> (ex_pointer_exception (exp ! i) \<longrightarrow> em_find (obj, 4 * (pos + i)) (sh_pexc sh) \<noteq> None)"
  shows "\<exists>mp md c exp'. dl_write l v exp sh = Some (exp', sh\<lparr>sh_pexc := mp, sh_dexc := md, cur_dto := c\<rparr>) \<and>
    em_sorted mp \<and> em_sorted md \<and> length exp' = length exp \<and>
    (\<forall>i < length exp. exp' ! i = with_def (nm old i) (flagged v i (exp ! i)) \<and>
       (ex_data_exception (exp' ! i) \<longrightarrow> em_find (obj, 4 * (pos + i)) md = Some (nm old i))) \<and>
    (\<forall>k. (\<forall>i < length exp. k \<noteq> (obj, 4 * (pos + i))) \<longrightarrow>
       em_find k mp = em_find k (sh_pexc sh) \<and> em_find k md = em_find k (sh_dexc sh))"
proof -
  let ?n = "sz div 4"
  have da: "downalign off 4 + 4 * i = 4 * (pos + i)" for i
    by (simp add: downalign_eq_mult pos_def off_def)
  from pl_invalidate_words_spec [OF srt(1), of exp obj "downalign off 4"] old
  obtain mp where mp: "pl_invalidate_words obj (downalign off 4) exp sh = Some (sh\<lparr>sh_pexc := mp\<rparr>)"
    "em_sorted mp" "\<And>k. (\<forall>i < length exp. k \<noteq> (obj, 4 * (pos + i))) \<Longrightarrow> em_find k mp = em_find k (sh_pexc sh)"
    by (auto simp: da)
  let ?exp1 = "pl_set_flags v 0 exp" and ?sh1 = "sh\<lparr>sh_pexc := mp\<rparr>"
  have pw: "pl_write l v exp sh = Some (?exp1, ?sh1)"
    using mp(1) by (simp add: pl_write_def obj_def off_def)
  have exp1: "length ?exp1 = length exp" "\<And>i. i < length exp \<Longrightarrow> ?exp1 ! i = flagged v i (exp ! i)"
    by (simp_all add: pl_set_flags_nth flagged_def)
  have n_le: "?n \<le> length exp" using acc(3) by simp
  have off4: "off + 4 * i = 4 * (pos + i)" if "i < ?n" for i
  proof -
    have "sz \<ge> 3" using that by linarith
    then have "off mod 4 = 0" using acc(1) by (simp add: md_access_ok_def)
    then show ?thesis unfolding pos_def off_def by (metis add_mult_distrib2 div_mod_decomp mult.commute add_0_right)
  qed
  obtain md1 exp2 where w: "dl_write_words ?n l (sv_def v) 0 ?exp1 ?sh1 = Some (exp2, ?sh1\<lparr>sh_dexc := md1\<rparr>)"
    "em_sorted md1" "length exp2 = length exp"
    "\<forall>i. exp2 ! i = (if i < ?n then with_def (nm old i) (flagged v i (exp ! i)) else ?exp1 ! i)"
    "\<forall>i < ?n. ex_data_exception (exp2 ! i) \<longrightarrow> em_find (obj, 4 * (pos + i)) md1 = Some (nm old i)"
    "\<forall>k. (\<forall>i < ?n. k \<noteq> (obj, 4 * (pos + i))) \<longrightarrow> em_find k md1 = em_find k (sh_dexc sh)"
  proof (cases "?n = 0")
    case True
    show ?thesis
      by (rule that [of ?exp1 "sh_dexc sh"]) (use True srt exp1 in simp_all)
  next
    case False
    then have "0 < ?n" by blast
    have al: "off mod 4 = 0" using off4 [OF \<open>0 < ?n\<close>] by presburger
    have full: "take 4 (drop (4 * i) (sv_def v)) = nm old i" if "i < ?n" for i
      unfolding nm_def pos_def off_def [symmetric] by (rule new_mask_full) (use that al acc(2) in simp_all)
    have ent: "em_find (l_object l, l_offset l + 4 * i) (sh_dexc ?sh1) \<noteq> None"
      if "i < ?n" "ex_data_exception (?exp1 ! i)" for i
    proof -
      have "i < length exp" using that(1) n_le by linarith
      then show ?thesis
        using dl_read_def_entry old [of i] that exp1(2) [of i] off4 [OF that(1)]
        by (auto simp: obj_def off_def)
    qed
    have "l_offset l mod 4 = 0" "0 + ?n \<le> length ?exp1" "em_sorted (sh_dexc ?sh1)"
      using al n_le srt exp1 by (simp_all add: off_def)
    from dl_write_words_spec [OF this(3,1,2), of "sv_def v"] ent
    obtain m exp' where m: "dl_write_words ?n l (sv_def v) 0 ?exp1 ?sh1 = Some (exp', ?sh1\<lparr>sh_dexc := m\<rparr>)"
      "em_sorted m" "length exp' = length ?exp1"
      "\<forall>i. exp' ! i = (if i < ?n then with_def (take 4 (drop (4 * i) (sv_def v))) (?exp1 ! i) else ?exp1 ! i)"
      "\<forall>i. i < ?n \<and> ex_data_exception (exp' ! i) \<longrightarrow>
         em_find (l_object l, l_offset l + 4 * i) m = Some (take 4 (drop (4 * i) (sv_def v)))"
      "\<forall>k. (\<forall>i. i < ?n \<longrightarrow> k \<noteq> (l_object l, l_offset l + 4 * i)) \<longrightarrow> em_find k m = em_find k (sh_dexc ?sh1)"
      by auto
    show ?thesis
    proof (rule that [OF m(1,2)])
      show "length exp' = length exp" using m(3) exp1 by simp
      show "\<forall>i. exp' ! i = (if i < ?n then with_def (nm old i) (flagged v i (exp ! i)) else ?exp1 ! i)"
        using m(4) full exp1(2) n_le by simp
      show "\<forall>i < ?n. ex_data_exception (exp' ! i) \<longrightarrow> em_find (obj, 4 * (pos + i)) m = Some (nm old i)"
        using m(5) full off4 by (auto simp: obj_def off_def)
      show "\<forall>k. (\<forall>i < ?n. k \<noteq> (obj, 4 * (pos + i))) \<longrightarrow> em_find k m = em_find k (sh_dexc sh)"
        using m(6) off4 by (simp add: obj_def off_def)
    qed
  qed
  show ?thesis
  proof (cases "sz mod 4 = 0")
    case True
    then have "length exp = ?n" using acc(3) by presburger
    moreover have "dl_write l v exp sh = Some (exp2, ?sh1\<lparr>sh_dexc := md1\<rparr>)"
      using pw w(1) True by (simp add: dl_write_def sz_def Let_def)
    ultimately show ?thesis
      using mp(2,3) w(2-6)
      by (intro exI [of _ mp] exI [of _ md1] exI [of _ "cur_dto sh"] exI [of _ exp2]) simp
  next
    case False
    have len: "length exp = Suc ?n" using acc(3) False by presburger
    note at = access_tail [OF acc(1) False]
    have tail: "downalign (off + 4 * ?n) 4 = 4 * (pos + ?n)" using at(2) by (simp add: pos_def off_def)
    have old_n: "dl_read_def sh obj (4 * (pos + ?n)) (exp ! ?n) = Some (old ?n)" "length (old ?n) = 4"
      using old [of ?n] len by auto
    have e2: "exp2 ! ?n = flagged v ?n (exp ! ?n)" using w(4) exp1(2) [of ?n] len by simp
    have fk: "em_find (obj, 4 * (pos + ?n)) md1 = em_find (obj, 4 * (pos + ?n)) (sh_dexc sh)"
      using w(6) by simp
    let ?sh2 = "?sh1\<lparr>sh_dexc := md1\<rparr>" and ?k = "4 * (pos + ?n)"
    have rd: "dl_read_def ?sh2 obj ?k (exp2 ! ?n) = Some (old ?n)"
      unfolding e2 dl_read_def_flagged old_n(1) [symmetric] by (rule dl_read_def_cong) (use fk in simp)
    have ov: "overlay ((off + 4 * ?n) mod 4) (take (sz mod 4) (drop (4 * ?n) (sv_def v))) (old ?n) = nm old ?n"
      unfolding nm_def pos_def off_def [symmetric] by (rule new_mask_tail [OF acc(1) False acc(2) old_n(2)])
    have "?k mod 4 = 0" "em_sorted (sh_dexc (?sh2\<lparr>cur_dto := nm old ?n\<rparr>))"
      using w(2) by simp_all
    moreover have "em_find (obj, ?k) (sh_dexc (?sh2\<lparr>cur_dto := nm old ?n\<rparr>)) \<noteq> None"
      if "ex_data_exception (exp2 ! ?n)"
      using dl_read_def_entry [OF rd that] by simp
    ultimately obtain md where md: "dl_write_def (nm old ?n) obj ?k (exp2 ! ?n) (?sh2\<lparr>cur_dto := nm old ?n\<rparr>) =
        Some (with_def (nm old ?n) (exp2 ! ?n), ?sh2\<lparr>cur_dto := nm old ?n\<rparr>\<lparr>sh_dexc := md\<rparr>)" "em_sorted md"
      "ex_data_exception (with_def (nm old ?n) (exp2 ! ?n)) \<Longrightarrow> em_find (obj, ?k) md = Some (nm old ?n)"
      "\<And>k. k \<noteq> (obj, ?k) \<Longrightarrow> em_find k md = em_find k md1"
      using dl_write_def_spec [of ?k "?sh2\<lparr>cur_dto := nm old ?n\<rparr>" "exp2 ! ?n" obj "nm old ?n"] by auto
    let ?exp3 = "exp2[?n := with_def (nm old ?n) (exp2 ! ?n)]"
    have "dl_write l v exp sh = Some (?exp3, sh\<lparr>sh_pexc := mp, sh_dexc := md, cur_dto := nm old ?n\<rparr>)"
      using pw w(1) False rd md(1) tail ov
      by (simp add: dl_write_def sz_def [symmetric] off_def [symmetric] obj_def [symmetric] Let_def)
    moreover have "?exp3 ! i = with_def (nm old i) (flagged v i (exp ! i)) \<and>
        (ex_data_exception (?exp3 ! i) \<longrightarrow> em_find (obj, 4 * (pos + i)) md = Some (nm old i))"
      if "i < length exp" for i
    proof (cases "i = ?n")
      case True
      then show ?thesis using md(3) e2 w(3) len by simp
    next
      case ni: False
      then have "i < ?n" using that len by simp
      then show ?thesis using w(4,5) md(4) [of "(obj, 4 * (pos + i))"] ni by simp
    qed
    moreover have "em_find k md = em_find k (sh_dexc sh)"
      if "\<forall>i < length exp. k \<noteq> (obj, 4 * (pos + i))" for k
    proof -
      have "k \<noteq> (obj, ?k)" using that len by simp
      moreover have "k \<noteq> (obj, 4 * (pos + i))" if "i < ?n" for i
        using \<open>\<forall>i < length exp. k \<noteq> (obj, 4 * (pos + i))\<close> len that by simp
      then have "em_find k md1 = em_find k (sh_dexc sh)" by (rule w(6) [rule_format])
      ultimately show ?thesis using md(4) [of k] by simp
    qed
    ultimately show ?thesis
      using mp(2,3) md(2) w(3)
      by (intro exI [of _ mp] exI [of _ md] exI [of _ "nm old ?n"] exI [of _ ?exp3]) simp
  qed
qed

section \<open>Taint\<close>

definition same_but_taint :: "expanded \<Rightarrow> expanded \<Rightarrow> bool" where
  "same_but_taint e e' \<longleftrightarrow> ex_pointer e' = ex_pointer e \<and>
     ex_pointer_exception e' = ex_pointer_exception e \<and>
     ex_data_exception e' = ex_data_exception e \<and> ex_defined e' = ex_defined e"

lemma same_but_taint_set [simp]: "same_but_taint e (set_ex_taint t e)"
  by (simp add: same_but_taint_def)

lemma same_but_taint_refl [simp]: "same_but_taint e e"
  by (simp add: same_but_taint_def)

lemma tl_write_words_nth:
  "length (tl_write_words n v w exp) = length exp"
  "i < length exp \<Longrightarrow> tl_write_words n v w exp ! i =
    (if w \<le> i \<and> i < w + n then set_ex_taint (if bit (sv_taints v) 0 then 0xF else 0) (exp ! i) else exp ! i)"
proof (induction n arbitrary: w exp)
  case (Suc n)
  {
    case 1
    then show ?case using Suc by simp
  next
    case 2
    then show ?case using Suc(2) [of "exp[w := set_ex_taint (if bit (sv_taints v) 0 then 0xF else 0) (exp ! w)]" "Suc w"]
      by (cases "i = w") (auto simp: nth_list_update)
  }
qed auto

lemma tl_write_tail_spec:
  assumes "p + n \<le> 4"
  shows "same_but_taint e (tl_write_tail n v (push_bit p 1) e)
    \<and> (\<forall>i < 4. bit (ex_taint (tl_write_tail n v (push_bit p 1) e)) i =
         (if p \<le> i \<and> i < p + n then bit (sv_taints v) 0 else bit (ex_taint e) i))"
  using assms
proof (induction n arbitrary: p e)
  case (Suc n)
  define e1 where "e1 = set_ex_taint (if bit (sv_taints v) 0 then ex_taint e OR push_bit p 1
      else ex_taint e AND NOT (push_bit p 1)) e"
  have b1: "bit (ex_taint e1) i = (if i = p then bit (sv_taints v) 0 else bit (ex_taint e) i)" if "i < 4" for i
    using that Suc.prems by (auto simp: e1_def bit_simps bit_0xF)
  have "push_bit 1 (push_bit p (1 :: u8)) = push_bit (Suc p) 1" by (simp add: push_bit_push_bit)
  then have step: "tl_write_tail (Suc n) v (push_bit p 1) e = tl_write_tail n v (push_bit (Suc p) 1) e1"
    by (simp only: tl_write_tail.simps e1_def)
  have "same_but_taint e e1" by (simp add: e1_def)
  then show ?case
    unfolding step using Suc.IH [of "Suc p" e1] Suc.prems b1
    by (auto simp: same_but_taint_def split: if_splits)
qed auto

text \<open>The words of an access after the taint layer: byte \<open>k\<close> of word \<open>i\<close> has the taint of the value
  if the access covers it.\<close>

lemma tl_write_spec:
  fixes v :: sval and l :: loc
  defines "sz \<equiv> sv_size v" and "off \<equiv> l_offset l" and "pos \<equiv> l_offset l div 4"
  assumes dl: "dl_write l v exp sh = Some (exp1, sh1)" "length exp1 = (sz + 3) div 4"
    and acc: "md_access_ok sz off"
  shows "\<exists>exp2. tl_write l v exp sh = Some (exp2, sh1) \<and> length exp2 = length exp1 \<and>
    (\<forall>i < length exp1. same_but_taint (exp1 ! i) (exp2 ! i) \<and>
       (\<forall>k < 4. bit (ex_taint (exp2 ! i)) k =
          (if off \<le> 4 * (pos + i) + k \<and> 4 * (pos + i) + k < off + sz then bit (sv_taints v) 0
           else bit (ex_taint (exp1 ! i)) k)))"
proof -
  let ?n = "sz div 4" and ?t = "if bit (sv_taints v) 0 then 0xF else (0 :: u8)"
  let ?exp = "tl_write_words ?n v 0 exp1"
  have len: "length ?exp = length exp1" by (simp add: tl_write_words_nth)
  have t: "bit (?t AND 0xF) k = bit (sv_taints v) 0" if "k < 4" for k
    using that by (auto simp: bit_simps bit_0xF)
  have full: "same_but_taint (exp1 ! i) (?exp ! i) \<and> (\<forall>k < 4. bit (ex_taint (?exp ! i)) k =
      (if off \<le> 4 * (pos + i) + k \<and> 4 * (pos + i) + k < off + sz then bit (sv_taints v) 0
       else bit (ex_taint (exp1 ! i)) k))" if "i < ?n" for i
  proof -
    have "sz \<ge> 3" using that by linarith
    then have "off mod 4 = 0" using acc by (simp add: md_access_ok_def)
    then have "4 * pos = off" unfolding pos_def off_def by presburger
    then have "off \<le> 4 * (pos + i) + k \<and> 4 * (pos + i) + k < off + sz" if "k < 4" for k
      using \<open>i < ?n\<close> that unfolding distrib_left by linarith
    moreover have "i < length exp1" using that dl(2) by simp
    ultimately show ?thesis using that t tl_write_words_nth(2) [of i exp1 ?n v 0] by simp
  qed
  show ?thesis
  proof (cases "sz mod 4 = 0")
    case True
    then have "length exp1 = ?n" using dl(2) by presburger
    moreover have "tl_write l v exp sh = Some (?exp, sh1)"
      using dl True by (simp add: tl_write_def sz_def)
    ultimately show ?thesis using full len by (intro exI [of _ ?exp]) simp
  next
    case False
    have n: "length exp1 = Suc ?n" using dl(2) False by presburger
    note at = access_tail [OF acc False]
    let ?p = "(off + 4 * ?n) mod 4"
    let ?e = "tl_write_tail (sz mod 4) v (push_bit ?p 1) (?exp ! ?n)"
    let ?exp2 = "?exp[?n := ?e]"
    have en: "?exp ! ?n = exp1 ! ?n" using n by (simp add: tl_write_words_nth)
    have "tl_write l v exp sh = Some (?exp2, sh1)"
      using dl False by (simp add: tl_write_def sz_def off_def Let_def)
    moreover have "same_but_taint (exp1 ! ?n) ?e \<and> (\<forall>k < 4. bit (ex_taint ?e) k =
      (if off \<le> 4 * (pos + ?n) + k \<and> 4 * (pos + ?n) + k < off + sz then bit (sv_taints v) 0
       else bit (ex_taint (exp1 ! ?n)) k))"
    proof -
      have rng: "(?p \<le> k \<and> k < ?p + sz mod 4) \<longleftrightarrow> (off \<le> 4 * (pos + ?n) + k \<and> 4 * (pos + ?n) + k < off + sz)"
        if "k < 4" for k
      proof -
        have "sz = 4 * ?n + sz mod 4" by simp
        then have b: "4 * (pos + ?n) + k < off + sz \<longleftrightarrow> k < ?p + sz mod 4"
          using at(3) unfolding pos_def off_def by linarith
        show ?thesis
        proof (cases "?n = 0")
          case True
          then show ?thesis using b at(3) unfolding pos_def off_def by linarith
        next
          case nz: False
          then have "sz \<ge> 3" by linarith
          then have "off mod 4 = 0" using acc by (simp add: md_access_ok_def)
          then have "?p = 0" "off \<le> 4 * (pos + ?n) + k" unfolding pos_def off_def by (simp, presburger)
          then show ?thesis using b by simp
        qed
      qed
      show ?thesis using tl_write_tail_spec [OF at(1), of "?exp ! ?n" v] rng by (simp add: en)
    qed
    ultimately show ?thesis
      using full n len by (intro exI [of _ ?exp2]) (auto simp: nth_list_update less_Suc_eq)
  qed
qed

section \<open>Writing\<close>

definition sval_ok :: "sval \<Rightarrow> bool" where
  "sval_ok v \<longleftrightarrow> length (sv_def v) = sv_size v \<and> (sv_objid v \<noteq> 0 \<longrightarrow> sv_size v mod 4 = 0)"

definition access_words :: "nat \<Rightarrow> nat \<Rightarrow> nat set" where
  "access_words off sz = {off div 4 ..< off div 4 + (sz + 3) div 4}"

text \<open>The taint of a byte.\<close>

definition tview :: "shadow \<Rightarrow> nat \<Rightarrow> nat \<Rightarrow> bool" where
  "tview sh obj j = bit (ex_taint (expand (sh_meta sh obj ! (j div 4)))) (j mod 4)"

text \<open>Whether a value has its object identifier in the word \<open>w\<close> when it is at \<open>off\<close>.\<close>

definition pointer_word :: "sval \<Rightarrow> nat \<Rightarrow> nat \<Rightarrow> bool" where
  "pointer_word v off w \<longleftrightarrow> sv_objid v \<noteq> 0 \<and> sv_objid_offset v = (w - off div 4) * 32"

lemma pe_set_index_fields [simp]:
  "pe_objid (pe_set_index i x e) = pe_objid e"
  "length (pe_metadata (pe_set_index i x e)) = length (pe_metadata e)"
  by (simp_all add: pe_set_index_def)

lemma pl_read_ptr_pointer:
  assumes "ex_pointer e" "\<not> ex_pointer_exception e" "off + 4 \<le> length (sh_mem sh obj)"
  shows "\<exists>p. pl_read_ptr sh obj off e = Some p \<and>
    pe_objid p = replicate 4 (of_bytes (take 4 (drop off (sh_mem sh obj)))) \<and>
    length (pe_metadata p) = 4 \<and> (\<forall>i < 4. pe_index i p = of_nat i)"
proof -
  let ?id = "of_bytes (take 4 (drop off (sh_mem sh obj)))"
  let ?p = "fold (\<lambda>i. pe_set_index i (of_nat i)) [0..<4] (pe_null\<lparr>pe_objid := replicate 4 ?id\<rparr>)"
  have "pl_read_ptr sh obj off e = Some ?p"
    using assms by (simp add: pl_read_ptr_def Let_def)
  moreover have "pe_objid ?p = replicate 4 ?id" "length (pe_metadata ?p) = 4"
    by (simp_all add: upt_rec pe_null_def)
  moreover have "\<forall>i < 4. pe_index i ?p = of_nat i"
    by (simp add: upt_rec pe_null_def pe_index_def pe_set_index_def all_less_4 numeral_2_eq_2 numeral_3_eq_3)
  ultimately show ?thesis by blast
qed

lemma pe_null_simps [simp]: "length (pe_objid pe_null) = 4" "length (pe_metadata pe_null) = 4"
  "i < 4 \<Longrightarrow> pe_objid pe_null ! i = 0"
  by (auto simp: pe_null_def less_Suc_eq numeral_eq_Suc)

lemma word_ok_read:
  assumes "sh_ok sh" "w < length (sh_meta sh obj)"
  shows "dl_read_def sh obj (4 * w) (expand (sh_meta sh obj ! w)) = Some (word_def sh obj w)"
    "length (word_def sh obj w) = 4"
proof -
  have "word_ok sh obj w (expand (sh_meta sh obj ! w))" using assms by (simp add: sh_ok_def)
  then show "dl_read_def sh obj (4 * w) (expand (sh_meta sh obj ! w)) = Some (word_def sh obj w)"
    "length (word_def sh obj w) = 4"
    by (auto simp: word_ok_def word_def_def)
qed

lemma word_ok_entry:
  assumes "sh_ok sh" "w < length (sh_meta sh obj)" "ex_pointer_exception (expand (sh_meta sh obj ! w))"
  shows "em_find (obj, 4 * w) (sh_pexc sh) \<noteq> None"
proof -
  have "word_ok sh obj w (expand (sh_meta sh obj ! w))" using assms by (simp add: sh_ok_def)
  then show ?thesis
    using assms(3) by (auto simp: word_ok_def pl_read_ptr_def pl_pointer_exception_def em_at_def split: if_splits)
qed

lemma access_bounds:
  assumes "md_access_ok sz off" "off + sz \<le> n"
  shows "off div 4 + (sz + 3) div 4 \<le> meta_size n"
proof (cases "sz \<ge> 3")
  case True
  then have "off mod 4 = 0" using assms(1) by (simp add: md_access_ok_def)
  then obtain q where "off = 4 * q" by (metis mod_0_imp_dvd dvd_def)
  then have "off div 4 + (sz + 3) div 4 = (off + sz + 3) div 4"
    using div_mult_self4 [of 4 q "sz + 3"] by (simp add: add.assoc)
  then show ?thesis using assms(2) by (simp add: meta_size_eq div_le_mono)
next
  case False
  then have "sz = 1 \<or> sz = 2 \<and> off mod 4 < 3"
    using assms(1) by (auto simp: md_access_ok_def split: if_splits)
  then have "off div 4 + (sz + 3) div 4 = (off + sz + 3) div 4"
  proof
    assume a: "sz = 2 \<and> off mod 4 < 3"
    then have "(off mod 4 + 5) div 4 = 1" by (simp add: div_nat_eqI)
    then show ?thesis using a div_mult_self4 [of 4 "off div 4" "off mod 4 + 5"] by simp
  qed simp
  then show ?thesis using assms(2) by (simp add: meta_size_eq div_le_mono)
qed

text \<open>
  Writing a value: no assertion fails, only the words of the access change, the invariant is kept.
  A byte of these words is afterwards as defined as the value says if it is covered, as before if
  it is not, and entirely defined if the word holds an object identifier now. Where a byte is
  defined it is tainted as the value is, or as it was.
\<close>

lemma md_write_spec:
  fixes v :: sval and l :: loc and sh :: shadow
  defines "sz \<equiv> sv_size v" and "off \<equiv> l_offset l" and "obj \<equiv> l_object l"
  assumes ok: "sh_ok sh" "sval_ok v" "md_access_ok sz off" "off + sz \<le> length (sh_mem sh obj)"
  shows "\<exists>sh'. md_write l v sh = Some sh' \<and> sh_ok sh' \<and> only_words sh sh' obj (access_words off sz) \<and>
    (\<forall>j. j div 4 \<in> access_words off sz \<longrightarrow>
       (ex_pointer (expand (sh_meta sh' obj ! (j div 4))) \<longleftrightarrow> pointer_word v off (j div 4)) \<and>
       dview sh' obj j = (if pointer_word v off (j div 4) then 0xff
         else if off \<le> j \<and> j < off + sz then sv_def v ! (j - off) else dview sh obj j) \<and>
       (dview sh' obj j = 0xff \<longrightarrow>
          tview sh' obj j = (if off \<le> j \<and> j < off + sz then bit (sv_taints v) 0 else tview sh obj j)))"
proof -
  let ?pos = "off div 4" and ?words = "(sz + 3) div 4"
  let ?exp = "map (\<lambda>w. expand (sh_meta sh obj ! w)) [?pos..<?pos + ?words]"
  let ?old = "\<lambda>i. word_def sh obj (?pos + i)"
  let ?nm = "\<lambda>i. new_mask off sz (sv_def v) (?old i) (?pos + i)"
  have bound: "?pos + ?words \<le> length (sh_meta sh obj)"
    using access_bounds [OF ok(3,4)] ok(1) by (simp add: sh_ok_def)
  have load: "md_load ?words sh obj ?pos = Some ?exp" using bound by (rule md_load_eq)
  have old: "dl_read_def sh (l_object l) (4 * (l_offset l div 4 + i)) (?exp ! i) = Some (?old i) \<and>
      length (?old i) = 4 \<and> (ex_pointer_exception (?exp ! i) \<longrightarrow>
        em_find (l_object l, 4 * (l_offset l div 4 + i)) (sh_pexc sh) \<noteq> None)" if "i < length ?exp" for i
  proof -
    have "?pos + i < length (sh_meta sh obj)" using that bound by simp
    then show ?thesis
      using word_ok_read [OF ok(1), of "?pos + i" obj] word_ok_entry [OF ok(1), of "?pos + i" obj] that
      by (simp add: obj_def off_def)
  qed
  have srt: "em_sorted (sh_pexc sh)" "em_sorted (sh_dexc sh)" using ok(1) by (simp_all add: sh_ok_def)
  have acc: "md_access_ok (sv_size v) (l_offset l)" "length (sv_def v) = sv_size v"
    "length ?exp = (sv_size v + 3) div 4"
    using ok(2,3) by (simp_all add: sval_ok_def sz_def off_def)
  from dl_write_spec [OF srt acc old]
  obtain mp md c e1 where dl: "dl_write l v ?exp sh = Some (e1, sh\<lparr>sh_pexc := mp, sh_dexc := md, cur_dto := c\<rparr>)"
    "em_sorted mp" "em_sorted md" "length e1 = ?words"
    "\<And>i. i < ?words \<Longrightarrow> e1 ! i = with_def (?nm i) (flagged v i (?exp ! i))"
    "\<And>i. i < ?words \<Longrightarrow> ex_data_exception (e1 ! i) \<Longrightarrow> em_find (obj, 4 * (?pos + i)) md = Some (?nm i)"
    "\<And>k. (\<forall>i < ?words. k \<noteq> (obj, 4 * (?pos + i))) \<Longrightarrow>
       em_find k mp = em_find k (sh_pexc sh) \<and> em_find k md = em_find k (sh_dexc sh)"
    by (auto simp: sz_def off_def obj_def)
  let ?sh1 = "sh\<lparr>sh_pexc := mp, sh_dexc := md, cur_dto := c\<rparr>"
  have "length e1 = (sv_size v + 3) div 4" using dl(4) by (simp add: sz_def)
  from tl_write_spec [OF dl(1) this acc(1)]
  obtain e2 where tl: "tl_write l v ?exp sh = Some (e2, ?sh1)" "length e2 = ?words"
    "\<And>i. i < ?words \<Longrightarrow> same_but_taint (e1 ! i) (e2 ! i)"
    "\<And>i k. i < ?words \<Longrightarrow> k < 4 \<Longrightarrow> bit (ex_taint (e2 ! i)) k =
       (if off \<le> 4 * (?pos + i) + k \<and> 4 * (?pos + i) + k < off + sz then bit (sv_taints v) 0
        else bit (ex_taint (e1 ! i)) k)"
    using dl(4) by (auto simp: sz_def off_def)
  have "?pos + length e2 \<le> length (sh_meta ?sh1 obj)" using bound tl(2) by simp
  from md_store_eq [OF this]
  obtain m where st: "md_store e2 obj ?pos ?sh1 = Some (?sh1\<lparr>sh_meta := (sh_meta ?sh1)(obj := m)\<rparr>)"
    "length m = length (sh_meta sh obj)"
    "\<And>w. w < length m \<Longrightarrow> m ! w = (if ?pos \<le> w \<and> w < ?pos + ?words then compress (e2 ! (w - ?pos))
       else sh_meta sh obj ! w)"
    using tl(2) by auto
  let ?sh2 = "?sh1\<lparr>sh_meta := (sh_meta ?sh1)(obj := m)\<rparr>"
  have res: "md_write l v sh = Some ?sh2"
    using load tl(1) st(1) ok(3)
    by (simp add: md_write_def sz_def off_def obj_def Let_def)
  have words: "w \<in> access_words off sz \<longleftrightarrow> ?pos \<le> w \<and> w < ?pos + ?words" for w
    by (simp add: access_words_def)
  have only: "only_words sh ?sh2 obj (access_words off sz)"
  proof -
    have "(ob, 4 * w) \<noteq> (obj, 4 * (?pos + i))" if "\<not> (ob = obj \<and> w \<in> access_words off sz)" "i < ?words" for ob w i
      using that words [of w] by auto
    then show ?thesis
      using dl(2,3,7) st(2,3) words by (auto simp: only_words_def)
  qed
  text \<open>One word of the access, by its index.\<close>
  have word: "expand (sh_meta ?sh2 obj ! (?pos + i)) = expand (compress (e2 ! i))"
    "dl_read_def ?sh2 obj (4 * (?pos + i)) (expand (compress (e2 ! i))) =
      Some (if pointer_word v off (?pos + i) then replicate 4 0xff else ?nm i)"
    "ex_pointer (expand (compress (e2 ! i))) \<longleftrightarrow> pointer_word v off (?pos + i)"
    "\<not> ex_pointer_exception (expand (compress (e2 ! i)))"
    if i: "i < ?words" for i
  proof -
    have e: "ex_pointer (e2 ! i) \<longleftrightarrow> pointer_word v off (?pos + i)" "\<not> ex_pointer_exception (e2 ! i)"
      "ex_data_exception (e2 ! i) \<longleftrightarrow> \<not> bitmask_is_trivial (?nm i)" "ex_defined (e2 ! i) = dl_def_bits (?nm i)"
      "ex_data_exception (e2 ! i) = ex_data_exception (e1 ! i)"
      using tl(3) [OF i] dl(5) [OF i] by (auto simp: same_but_taint_def pointer_word_def)
    show "expand (sh_meta ?sh2 obj ! (?pos + i)) = expand (compress (e2 ! i))"
      using st(2,3) i bound by simp
    have f: "em_find (obj, 4 * (?pos + i)) (sh_dexc ?sh2) = Some (?nm i)" if "ex_data_exception (e2 ! i)"
      using dl(6) [OF i] that e(5) by simp
    show "dl_read_def ?sh2 obj (4 * (?pos + i)) (expand (compress (e2 ! i))) =
        Some (if pointer_word v off (?pos + i) then replicate 4 0xff else ?nm i)"
      using read_def_stored [of "?nm i" "4 * (?pos + i)" "e2 ! i" obj ?sh2] f e by simp
    show "ex_pointer (expand (compress (e2 ! i))) \<longleftrightarrow> pointer_word v off (?pos + i)"
      "\<not> ex_pointer_exception (expand (compress (e2 ! i)))"
      using e expand_compress_fields [of "e2 ! i"] by simp_all
  qed
  have wok: "word_ok ?sh2 obj w (expand (sh_meta ?sh2 obj ! w))" if "w \<in> access_words off sz" for w
  proof -
    define i where "i = w - ?pos"
    have i: "w = ?pos + i" "i < ?words" using that words [of w] by (auto simp: i_def)
    note wd = word [OF i(2)]
    show ?thesis
    proof (cases "pointer_word v off w")
      case False
      then show ?thesis
        using wd unfolding i(1) word_ok_def by (simp add: pl_read_ptr_def)
    next
      case True
      then have nz: "sz mod 4 = 0" "sz \<ge> 3"
        using ok(2,3) i(2) by (auto simp: pointer_word_def sval_ok_def sz_def)
      have "off mod 4 = 0" using ok(3) nz(2) by (simp add: md_access_ok_def)
      then have "4 * w + 4 \<le> off + sz" using i nz by presburger
      then have b: "4 * w + 4 \<le> length (sh_mem ?sh2 obj)" using ok(4) by simp
      have "ex_pointer (expand (sh_meta ?sh2 obj ! w))" "\<not> ex_pointer_exception (expand (sh_meta ?sh2 obj ! w))"
        using wd True by (simp_all add: i(1))
      from pl_read_ptr_pointer [OF this b]
      obtain p where p: "pl_read_ptr ?sh2 obj (4 * w) (expand (sh_meta ?sh2 obj ! w)) = Some p"
        "pe_objid p = replicate 4 (of_bytes (take 4 (drop (4 * w) (sh_mem ?sh2 obj))))"
        "length (pe_metadata p) = 4" by blast
      show ?thesis
        unfolding word_ok_def using p wd True b by (auto simp: i(1))
    qed
  qed
  have view: "(ex_pointer (expand (sh_meta ?sh2 obj ! (j div 4))) \<longleftrightarrow> pointer_word v off (j div 4)) \<and>
      dview ?sh2 obj j = (if pointer_word v off (j div 4) then 0xff
        else if off \<le> j \<and> j < off + sz then sv_def v ! (j - off) else dview sh obj j) \<and>
      (dview ?sh2 obj j = 0xff \<longrightarrow>
         tview ?sh2 obj j = (if off \<le> j \<and> j < off + sz then bit (sv_taints v) 0 else tview sh obj j))"
    if j: "j div 4 \<in> access_words off sz" for j
  proof -
    define i k where "i = j div 4 - ?pos" and "k = j mod 4"
    have i: "j div 4 = ?pos + i" "i < ?words" using j words [of "j div 4"] by (auto simp: i_def)
    have k: "k < 4" "4 * (?pos + i) + k = j" unfolding i(1) [symmetric] by (simp_all add: k_def)
    note wd = word [OF i(2)]
    have old_nth: "?old i ! k = dview sh obj j" by (simp add: dview_def i(1) k_def)
    have dv: "dview ?sh2 obj j = (if pointer_word v off (j div 4) then 0xff else ?nm i ! k)"
      unfolding dview_def word_def_def i(1) wd(1) wd(2) using k(1) by (simp add: k_def)
    have nm: "?nm i ! k = (if off \<le> j \<and> j < off + sz then sv_def v ! (j - off) else dview sh obj j)"
      using nth_new_mask [OF k(1), of off sz "sv_def v" "?old i" "?pos + i"] unfolding k(2) old_nth .
    have tv: "bit (ex_taint (e2 ! i)) k =
        (if off \<le> j \<and> j < off + sz then bit (sv_taints v) 0 else tview sh obj j)"
    proof -
      have "ex_taint (e1 ! i) = ex_taint (?exp ! i)" using dl(5) [OF i(2)] by simp
      then have "bit (ex_taint (e1 ! i)) k = tview sh obj j" using i by (simp add: tview_def k_def)
      then show ?thesis using tl(4) [OF i(2) k(1)] unfolding k(2) by simp
    qed
    have "tview ?sh2 obj j = bit (ex_taint (e2 ! i)) k" if "dview ?sh2 obj j = 0xff"
    proof -
      note x = expand_compress_fields(4) [of "e2 ! i"]
      have t: "tview ?sh2 obj j = bit (ex_taint (expand (compress (e2 ! i)))) k"
        unfolding tview_def i(1) wd(1) by (simp add: k_def)
      have e: "ex_pointer (e2 ! i) \<longleftrightarrow> pointer_word v off (j div 4)" "ex_defined (e2 ! i) = dl_def_bits (?nm i)"
        using tl(3) [OF i(2)] dl(5) [OF i(2)] i(1) by (auto simp: same_but_taint_def pointer_word_def)
      show ?thesis
      proof (cases "ex_pointer (e2 ! i) \<or> ex_data_exception (e2 ! i)")
        case False
        then have "?nm i ! k = 0xff" using dv that e(1) by simp
        then have "bit (ex_defined (e2 ! i)) k" using bit_dl_def_bits [OF k(1)] e(2) by simp
        then show ?thesis using False x unfolding t by (simp add: bit_and_iff)
      qed (use x t in simp)
    qed
    then show ?thesis using wd(1,3) dv nm tv i(1) by simp
  qed
  have "sh_ok ?sh2"
    using only_words_ok [OF ok(1) only] wok by blast
  then show ?thesis using res only view by blast
qed

section \<open>Reading\<close>

lemma word_def_dview:
  assumes "sh_ok sh" "w < length (sh_meta sh obj)"
  shows "word_def sh obj w = map (dview sh obj) [4 * w..<4 * w + 4]"
proof (rule nth_equalityI)
  show len: "length (word_def sh obj w) = length (map (dview sh obj) [4 * w..<4 * w + 4])"
    using word_ok_read [OF assms] by simp
  fix k assume "k < length (word_def sh obj w)"
  then have "k < 4" using len by simp
  then show "word_def sh obj w ! k = map (dview sh obj) [4 * w..<4 * w + 4] ! k"
    by (simp add: dview_def)
qed

lemma dl_read_words_spec:
  assumes "sh_ok sh" "4 * pos = l_offset l" "pos + w + n \<le> length (sh_meta sh (l_object l))"
    and "\<And>i. w \<le> i \<Longrightarrow> i < w + n \<Longrightarrow> exp ! i = expand (sh_meta sh (l_object l) ! (pos + i))"
  shows "dl_read_words n l w exp sh =
    Some (map (dview sh (l_object l)) [4 * (pos + w)..<4 * (pos + w) + 4 * n])"
  using assms
proof (induction n arbitrary: w)
  case (Suc n)
  let ?o = "l_object l"
  have lt: "pos + w < length (sh_meta sh ?o)" using Suc.prems(3) by simp
  have off: "l_offset l + 4 * w = 4 * (pos + w)" using Suc.prems(2) by simp
  have "dl_read_def sh ?o (l_offset l + 4 * w) (exp ! w) = Some (map (dview sh ?o) [4 * (pos + w)..<4 * (pos + w) + 4])"
    using word_ok_read(1) [OF Suc.prems(1) lt] word_def_dview [OF Suc.prems(1) lt] Suc.prems(4) [of w]
    unfolding off by simp
  moreover have "dl_read_words n l (Suc w) exp sh =
      Some (map (dview sh ?o) [4 * (pos + Suc w)..<4 * (pos + Suc w) + 4 * n])"
    using Suc.IH [of "Suc w"] Suc.prems by simp
  moreover have "[4 * (pos + w)..<4 * (pos + w) + 4 * Suc n] =
      [4 * (pos + w)..<4 * (pos + w) + 4] @ [4 * (pos + Suc w)..<4 * (pos + Suc w) + 4 * n]"
    using upt_add_eq_append [of "4 * (pos + w)" "4 * (pos + w) + 4" "4 * n"] by (simp add: algebra_simps)
  ultimately show ?case by simp
qed simp

lemma window_nonzero:
  assumes "p + r \<le> 4"
  shows "(x :: u8) AND push_bit p (ones r) \<noteq> 0 \<longleftrightarrow> (\<exists>k. p \<le> k \<and> k < p + r \<and> bit x k)"
proof
  assume "x AND push_bit p (ones r) \<noteq> 0"
  then obtain k where "bit (x AND push_bit p (ones r)) k"
    by (metis bit_eq_iff bit_0_eq bot_apply bot_bool_def)
  then show "\<exists>k. p \<le> k \<and> k < p + r \<and> bit x k"
    by (auto simp: bit_and_iff bit_push_bit_iff bit_ones)
next
  assume "\<exists>k. p \<le> k \<and> k < p + r \<and> bit x k"
  then obtain k where "p \<le> k" "k < p + r" "bit x k" by blast
  then have "bit (x AND push_bit p (ones r)) k"
    using assms by (auto simp: bit_and_iff bit_push_bit_iff bit_ones)
  then show "x AND push_bit p (ones r) \<noteq> 0" by auto
qed

lemma ex_shift:
  "(\<exists>k. p \<le> k \<and> k < p + r \<and> P (a + k)) \<longleftrightarrow> (\<exists>j. a + p \<le> j \<and> j < a + (p + r) \<and> P (j :: nat))"
proof
  assume "\<exists>j. a + p \<le> j \<and> j < a + (p + r) \<and> P j"
  then obtain j where "a + p \<le> j" "j < a + (p + r)" "P j" by blast
  then show "\<exists>k. p \<le> k \<and> k < p + r \<and> P (a + k)" by (intro exI [of _ "j - a"]) auto
next
  assume "\<exists>k. p \<le> k \<and> k < p + r \<and> P (a + k)"
  then obtain k where "p \<le> k" "k < p + r" "P (a + k)" by blast
  then show "\<exists>j. a + p \<le> j \<and> j < a + (p + r) \<and> P j" by (intro exI [of _ "a + k"]) auto
qed

lemma ex_split:
  assumes "a \<le> b" "b \<le> c"
  shows "(\<exists>j. a \<le> j \<and> j < b \<and> P j) \<or> (\<exists>j. b \<le> j \<and> j < c \<and> P j) \<longleftrightarrow> (\<exists>j \<ge> a. j < c \<and> P (j :: nat))"
proof
  assume "(\<exists>j. a \<le> j \<and> j < b \<and> P j) \<or> (\<exists>j. b \<le> j \<and> j < c \<and> P j)"
  then show "\<exists>j \<ge> a. j < c \<and> P j" using assms by (meson le_trans less_le_trans)
next
  assume "\<exists>j \<ge> a. j < c \<and> P j"
  then obtain j where "a \<le> j" "j < c" "P j" by blast
  then show "(\<exists>j. a \<le> j \<and> j < b \<and> P j) \<or> (\<exists>j. b \<le> j \<and> j < c \<and> P j)"
    by (cases "j < b") auto
qed

lemma word_byte: "k < 4 \<Longrightarrow> (4 * a + k) div 4 = a" "k < 4 \<Longrightarrow> (4 * a + k) mod 4 = (k :: nat)"
  by simp_all

lemma nibble_nonzero: "ex_taint e \<noteq> 0 \<longleftrightarrow> (\<exists>k < 4. bit (ex_taint e) k)"
proof
  assume "ex_taint e \<noteq> 0"
  then obtain k where k: "bit (ex_taint e) k" by (metis bit_eq_iff bit_0_eq bot_apply bot_bool_def)
  then have "bit (ex_taint e AND 0xF) k" by (simp only: ex_small)
  then have "k < 4" unfolding bit_and_iff by (simp add: bit_0xF)
  with k show "\<exists>k < 4. bit (ex_taint e) k" by blast
qed auto

lemma md_read_spec:
  fixes l :: loc and sh :: shadow
  defines "off \<equiv> l_offset l" and "obj \<equiv> l_object l"
  assumes ok: "sh_ok sh" "md_access_ok sz off" "off + sz \<le> length (sh_mem sh obj)"
  shows "\<exists>r. md_read l sz sh = Some r \<and> rv_def r = map (dview sh obj) [off..<off + sz] \<and>
    (rv_taint r \<longleftrightarrow> (\<exists>j. off \<le> j \<and> j < off + sz \<and> tview sh obj j)) \<and>
    rv_ptr r = pl_read sz (map (\<lambda>w. expand (sh_meta sh obj ! w)) [off div 4..<off div 4 + (sz + 3) div 4])"
proof -
  let ?pos = "off div 4" and ?words = "(sz + 3) div 4" and ?n = "sz div 4"
  let ?exp = "map (\<lambda>w. expand (sh_meta sh obj ! w)) [?pos..<?pos + ?words]"
  have bound: "?pos + ?words \<le> length (sh_meta sh obj)"
    using access_bounds [OF ok(2,3)] ok(1) by (simp add: sh_ok_def)
  have load: "md_load ?words sh obj ?pos = Some ?exp" using bound by (rule md_load_eq)
  have exp_nth: "?exp ! i = expand (sh_meta sh obj ! (?pos + i))" if "i < ?words" for i
    using that by simp
  have n_le: "?n \<le> ?words" by simp
  have al: "4 * ?pos = off" if "?n \<noteq> 0"
  proof -
    have "sz \<ge> 3" using that by linarith
    then have "off mod 4 = 0" using ok(2) by (simp add: md_access_ok_def)
    then show ?thesis by presburger
  qed
  have full: "dl_read_words ?n l 0 ?exp sh = Some (map (dview sh obj) [off..<off + 4 * ?n])"
  proof (cases "?n = 0")
    case False
    have "dl_read_words ?n l 0 ?exp sh =
        Some (map (dview sh (l_object l)) [4 * (?pos + 0)..<4 * (?pos + 0) + 4 * ?n])"
      by (rule dl_read_words_spec) (use ok(1) al [OF False] bound n_le exp_nth in \<open>simp_all add: off_def obj_def\<close>)
    then show ?thesis using al [OF False] by (simp add: obj_def)
  qed simp
  have d: "dl_read l sz ?exp sh = Some (map (dview sh obj) [off..<off + sz])"
  proof (cases "sz mod 4 = 0")
    case True
    then have "4 * ?n = sz" by presburger
    then show ?thesis using full True by (simp add: dl_read_def)
  next
    case False
    note at = access_tail [OF ok(2) False]
    let ?w = "?pos + ?n" and ?p = "(off + 4 * ?n) mod 4"
    have nw: "?n < ?words" using False by presburger
    then have lt: "?w < length (sh_meta sh obj)" using bound by linarith
    have rd: "dl_read_def sh obj (4 * ?w) (?exp ! ?n) = Some (map (dview sh obj) [4 * ?w..<4 * ?w + 4])"
      using word_ok_read(1) [OF ok(1) lt] word_def_dview [OF ok(1) lt] exp_nth [OF nw] by simp
    have "take (sz mod 4) (drop ?p (map (dview sh obj) [4 * ?w..<4 * ?w + 4])) =
        map (dview sh obj) [4 * ?w + ?p..<4 * ?w + ?p + sz mod 4]"
    proof -
      have "4 * ?w + ?p + sz mod 4 \<le> 4 * ?w + 4" using at(1) by linarith
      then show ?thesis by (simp only: drop_map take_map drop_upt take_upt)
    qed
    also have "\<dots> = map (dview sh obj) [off + 4 * ?n..<off + sz]"
      unfolding at(3) by (simp add: add.commute)
    finally have "dl_read l sz ?exp sh = Some (map (dview sh obj) [off..<off + 4 * ?n] @
        map (dview sh obj) [off + 4 * ?n..<off + sz])"
      using full rd False at(2) by (simp add: dl_read_def off_def obj_def Let_def)
    also have "\<dots> = Some (map (dview sh obj) [off..<off + sz])"
      unfolding map_append [symmetric]
      using upt_add_eq_append [of off "off + 4 * ?n" "sz mod 4"] by (simp add: add.commute)
    finally show ?thesis .
  qed
  have tv: "bit (ex_taint (?exp ! i)) k = tview sh obj (4 * (?pos + i) + k)" if "i < ?words" "k < 4" for i k
    unfolding tview_def word_byte [OF that(2)] using that(1) by simp
  have words_t: "(\<exists>w < ?n. ex_taint (?exp ! w) \<noteq> 0) \<longleftrightarrow> (\<exists>j. off \<le> j \<and> j < off + 4 * ?n \<and> tview sh obj j)"
  proof
    assume "\<exists>w < ?n. ex_taint (?exp ! w) \<noteq> 0"
    then obtain w k where w: "w < ?n" "k < 4" "bit (ex_taint (?exp ! w)) k"
      using nibble_nonzero by blast
    then have "4 * ?pos = off" using al by (cases ?n) auto
    then show "\<exists>j. off \<le> j \<and> j < off + 4 * ?n \<and> tview sh obj j"
      using w n_le tv [of w k] by (intro exI [of _ "4 * (?pos + w) + k"]) auto
  next
    assume "\<exists>j. off \<le> j \<and> j < off + 4 * ?n \<and> tview sh obj j"
    then obtain j where j: "off \<le> j" "j < off + 4 * ?n" "tview sh obj j" by blast
    then have a: "4 * ?pos = off" using al by (cases ?n) auto
    define w k where "w = j div 4 - ?pos" and "k = j mod 4"
    have "?pos \<le> j div 4" using j(1) by (rule div_le_mono)
    then have jw: "4 * (?pos + w) + k = j" by (simp add: w_def k_def)
    then have "w < ?n" using j(2) a unfolding distrib_left by linarith
    moreover have "k < 4" by (simp add: k_def)
    ultimately have "bit (ex_taint (?exp ! w)) k"
      using tv [of w k] jw j(3) n_le by simp
    then have "ex_taint (?exp ! w) \<noteq> 0" using \<open>k < 4\<close> nibble_nonzero by blast
    then show "\<exists>w < ?n. ex_taint (?exp ! w) \<noteq> 0" using \<open>w < ?n\<close> by blast
  qed
  have t: "tl_read l sz ?exp \<longleftrightarrow> (\<exists>j. off \<le> j \<and> j < off + sz \<and> tview sh obj j)"
  proof (cases "sz mod 4 = 0")
    case True
    then have "4 * ?n = sz" by presburger
    then show ?thesis using words_t True by (simp add: tl_read_def)
  next
    case False
    note at = access_tail [OF ok(2) False]
    let ?p = "(off + 4 * ?n) mod 4" and ?r = "sz mod 4"
    have nw: "?n < ?words" using False by presburger
    have "(ex_taint (?exp ! ?n) AND push_bit ?p (ones ?r) \<noteq> 0) \<longleftrightarrow>
        (\<exists>k. ?p \<le> k \<and> k < ?p + ?r \<and> bit (ex_taint (?exp ! ?n)) k)"
      using at(1) by (rule window_nonzero)
    also have "\<dots> \<longleftrightarrow> (\<exists>k. ?p \<le> k \<and> k < ?p + ?r \<and> tview sh obj (4 * (?pos + ?n) + k))"
    proof -
      have "bit (ex_taint (?exp ! ?n)) k = tview sh obj (4 * (?pos + ?n) + k)" if "k < ?p + ?r" for k
        by (rule tv [OF nw]) (use that at(1) in linarith)
      then show ?thesis by (intro ex_cong1 conj_cong refl) blast
    qed
    also have "\<dots> \<longleftrightarrow> (\<exists>j. off + 4 * ?n \<le> j \<and> j < off + sz \<and> tview sh obj j)"
    proof -
      have e: "4 * (?pos + ?n) + (?p + ?r) = off + sz" using at(3) by simp
      show ?thesis
        using ex_shift [of ?p ?r "tview sh obj" "4 * (?pos + ?n)"] by (simp only: at(3) e)
    qed
    finally have "tl_read l sz ?exp \<longleftrightarrow> (\<exists>j. off \<le> j \<and> j < off + 4 * ?n \<and> tview sh obj j) \<or>
        (\<exists>j. off + 4 * ?n \<le> j \<and> j < off + sz \<and> tview sh obj j)"
      using words_t False by (simp add: tl_read_def off_def Let_def)
    also have "\<dots> \<longleftrightarrow> (\<exists>j \<ge> off. j < off + sz \<and> tview sh obj j)"
      by (rule ex_split) simp_all
    finally show ?thesis .
  qed
  show ?thesis
    using load d t ok(2)
    by (simp add: md_read_def layers_read_def off_def obj_def Let_def)
qed

lemma access_covers:
  assumes "md_access_ok sz off" "off \<le> j" "j < off + sz"
  shows "j div 4 \<in> access_words off sz"
proof -
  have lo: "off div 4 \<le> j div 4" using assms(2) by (rule div_le_mono)
  have "j div 4 < off div 4 + (sz + 3) div 4"
  proof (cases "sz \<ge> 3")
    case True
    then obtain q where q: "off = 4 * q" using assms(1) by (auto simp: md_access_ok_def elim!: dvdE)
    then have "j < 4 * q + sz" using assms(3) by simp
    then have "j div 4 < q + (sz + 3) div 4" by linarith
    then show ?thesis using q by simp
  next
    case False
    define q r where "q = off div 4" and "r = off mod 4"
    have off: "off = 4 * q + r" by (simp add: q_def r_def)
    have "r + sz \<le> 4 \<and> sz > 0" using False assms(1) by (auto simp: md_access_ok_def r_def split: if_splits)
    then have "j div 4 < q + 1" "(sz + 3) div 4 = 1" using assms(3) off False by linarith+
    then show ?thesis by (simp add: q_def)
  qed
  then show ?thesis using lo by (simp add: access_words_def)
qed

end
