(* ===== verification/MetadataProps.thy ===== *)
theory MetadataProps
  imports MetadataWrite
begin

unbundle bit_operations_syntax

text \<open>
  Properties of the metadata of objects: the compressed form, the storage it is kept in, and what
  a value that has been written is read back as.
\<close>

section \<open>Fresh objects\<close>

definition sh_init :: shadow where
  "sh_init = \<lparr>sh_meta = \<lambda>_. [], sh_mem = \<lambda>_. [], sh_pexc = [], sh_dexc = [],
     cur_pfrom = pe_null, cur_pto = pe_null, cur_dfrom = de_null, cur_dto = de_null\<rparr>"

definition sh_make :: "nat \<Rightarrow> u8 list \<Rightarrow> shadow \<Rightarrow> shadow" where
  "sh_make i bytes sh = md_materialise i (length bytes) (sh\<lparr>sh_mem := (sh_mem sh)(i := bytes)\<rparr>)"

lemma read_zero: "off mod 4 = 0 \<Longrightarrow> dl_read_def sh obj off 0 = Some [0, 0, 0, 0]"
  "pl_read_ptr sh obj off 0 = Some pe_null"
  by (simp_all add: dl_read_def_def pl_read_ptr_def ex_getters mask_table_def)

lemma word_ok_zero: "word_ok sh obj w 0"
proof -
  have "\<not> ex_pointer_exception 0" by (simp add: ex_getters)
  then show ?thesis by (simp add: word_ok_def read_zero)
qed

lemma sh_ok_init: "sh_ok sh_init"
  by (simp add: sh_ok_def sh_init_def em_sorted_def meta_size_def)

lemma sh_ok_make:
  assumes "sh_ok sh"
  shows "sh_ok (sh_make i bytes sh)"
proof -
  let ?sh = "sh_make i bytes sh"
  have sel: "sh_pexc ?sh = sh_pexc sh" "sh_dexc ?sh = sh_dexc sh" "sh_mem ?sh = (sh_mem sh)(i := bytes)"
    "sh_meta ?sh = (sh_meta sh)(i := replicate (meta_size (length bytes)) 0)"
    by (simp_all add: sh_make_def md_materialise_def)
  have "word_ok ?sh ob w (expand (sh_meta ?sh ob ! w))" if "w < length (sh_meta ?sh ob)" for ob w
  proof (cases "ob = i")
    case True
    then show ?thesis using that by (simp add: sel word_ok_zero)
  next
    case False
    then have "word_ok ?sh ob w e = word_ok sh ob w e" for e
      by (intro read_cong(3)) (simp_all add: sel)
    then show ?thesis using assms that False by (simp add: sel sh_ok_def)
  qed
  then show ?thesis using assms by (simp add: sh_ok_def sel)
qed

section \<open>Values written and read back\<close>

lemma pl_read_written:
  assumes "sz = 8 \<or> sz = 4 \<or> sz = 2 \<or> sz = 1" "length exp = (sz + 3) div 4"
    and "\<And>i. i < length exp \<Longrightarrow> ex_pointer (exp ! i) \<longleftrightarrow> sv_objid v \<noteq> 0 \<and> sv_objid_offset v = i * 32"
  shows "pl_read sz exp =
    (if sz \<ge> 4 \<and> sv_objid v \<noteq> 0 \<and> sv_objid_offset v = 8 * sz - 32 then Set_pointer True
     else if sz = 8 \<and> sv_objid v \<noteq> 0 \<and> sv_objid_offset v = 0 then Set_objid_offset 0
     else Set_pointer False)"
  using assms(1)
proof (elim disjE)
  assume "sz = 8"
  then show ?thesis using assms(2) assms(3) [of 0] assms(3) [of 1]
    by (auto simp: pl_read_def PointerBytes_def VM_PB_Full_def VM_PB_Obj_def)
next
  assume "sz = 4"
  then show ?thesis using assms(2) assms(3) [of 0]
    by (auto simp: pl_read_def PointerBytes_def VM_PB_Full_def VM_PB_Obj_def)
qed (simp_all add: pl_read_def PointerBytes_def VM_PB_Full_def VM_PB_Obj_def)

text \<open>
  C31. Compressing the metadata of a word to eight bits and expanding it again keeps the pointer
  flag, and for words that are not pointers the exception flags and which bytes are defined; the
  taint of a word without an exception is kept on its defined bytes, and a pointer becomes
  entirely defined.
\<close>

theorem compression_roundtrip:
  "ex_pointer (expand (compress e)) = ex_pointer e
   \<and> ex_data_exception (expand (compress e)) = (ex_data_exception e \<and> \<not> ex_pointer e)
   \<and> ex_pointer_exception (expand (compress e)) =
       (ex_pointer_exception e \<and> ex_data_exception e \<and> \<not> ex_pointer e)
   \<and> ex_taint (expand (compress e)) =
       (if ex_pointer e \<or> ex_data_exception e then ex_taint e else ex_taint e AND ex_defined e)
   \<and> ex_defined (expand (compress e)) =
       (if ex_pointer e then 0xF else if ex_data_exception e then 0 else ex_defined e)"
  using expand_compress_fields [of e] by simp

text \<open>
  The predicates that look at a compressed word without expanding it agree with the flags of
  its expanded form, for each of the 256 codes (triviality for those that are not pointers), and
  no code expands to a pointer exception without a data exception, or to a pointer with one.
\<close>

theorem compressed_predicates:
  "is_pointer c = ex_pointer (expand c)
   \<and> is_pointer_exception c = ex_pointer_exception (expand c)
   \<and> (is_pointer c \<or> is_trivial c = (\<not> ex_data_exception (expand c)))
   \<and> (ex_pointer_exception (expand c) \<longrightarrow> ex_data_exception (expand c))
   \<and> (ex_pointer (expand c) \<longrightarrow> \<not> ex_data_exception (expand c))"
  by (rule predicates_expand)

theorem compressed_predicates_witness:
  "is_pointer 0x85 \<and> \<not> is_pointer_exception 0x85 \<and> ex_pointer (expand 0x85)"
  using compressed_predicates [of "0x85"] by (simp add: is_pointer_def is_pointer_exception_def)

text \<open>
  Writing a set of bits into the packed array changes that set only, and reads back as the
  bits written, for every set size that divides the word size.
\<close>

theorem bitset_store:
  fixes base :: "'t::len word list"
  assumes "0 < bps" "bps dvd LENGTH('t)" "bs_set bps base p t = Some base'"
  shows "length base' = length base \<and>
    bs_get bps base' q = (if q = p then Some (t AND ones bps) else bs_get bps base q)"
  using bs_get_set [OF assms] by simp

theorem bitset_store_witness:
  "bs_get 4 [0x52 :: u8, 0x34] 2 = Some 3 \<and>
   bs_get 4 (the (bs_set 4 [0x12 :: u8, 0x34] 0 5)) 0 = Some (5 AND ones 4)"
proof -
  have s: "bs_set 4 [0x12 :: u8, 0x34] 0 5 = Some [0x52, 0x34]" by code_simp
  have "bs_get 4 [0x12 :: u8, 0x34] 2 = Some 3" by code_simp
  then show ?thesis using bitset_store [OF _ _ s, of 0] bitset_store [OF _ _ s, of 2] by (simp add: s)
qed

text \<open>
  C32. The invariant of the shadow memory, that every exception a word is flagged with has a valid
  entry and that the bytes of pointers are defined and inside the object, is kept by every write
  of a value inside an object; no assertion of the layers fails and no word outside the access
  changes, in this or in any other object.
\<close>

theorem write_keeps_invariant:
  assumes "sh_ok sh" "sval_ok v" "md_access_ok (sv_size v) (l_offset l)"
    and "l_offset l + sv_size v \<le> length (sh_mem sh (l_object l))"
  shows "\<exists>sh'. md_write l v sh = Some sh' \<and> sh_ok sh' \<and>
    only_words sh sh' (l_object l) (access_words (l_offset l) (sv_size v))"
  using md_write_spec [OF assms] by blast

definition example_int :: sval where
  "example_int = \<lparr>sv_size = 2, sv_def = [0xff, 0x0f], sv_taints = 1, sv_objid = 0, sv_objid_offset = 1\<rparr>"

theorem write_keeps_invariant_witness:
  "\<exists>sh'. md_write \<lparr>l_object = 1, l_offset = 1, l_objid = 0\<rparr> example_int (sh_make 1 [0, 0, 0, 0] sh_init) =
    Some sh' \<and> sh_ok sh' \<and> only_words (sh_make 1 [0, 0, 0, 0] sh_init) sh' 1 (access_words 1 2)"
  using write_keeps_invariant [OF sh_ok_make [OF sh_ok_init], of example_int
      "\<lparr>l_object = 1, l_offset = 1, l_objid = 0\<rparr>" 1 "[0, 0, 0, 0]"]
  by (simp add: sval_ok_def example_int_def md_access_ok_def sh_make_def md_materialise_def)

text \<open>
  After a write, every byte of the words it touches is as defined as the value says if the
  access covers it, as defined as before if it does not, and entirely defined in a word that now
  holds an object identifier; where a byte is defined, its taint is that of the value or the one
  it had.
\<close>

theorem write_definedness:
  assumes "sh_ok sh" "sval_ok v" "md_access_ok (sv_size v) (l_offset l)"
    and "l_offset l + sv_size v \<le> length (sh_mem sh (l_object l))"
    and "j div 4 \<in> access_words (l_offset l) (sv_size v)"
  shows "\<exists>sh'. md_write l v sh = Some sh' \<and>
    dview sh' (l_object l) j =
      (if pointer_word v (l_offset l) (j div 4) then 0xff
       else if l_offset l \<le> j \<and> j < l_offset l + sv_size v then sv_def v ! (j - l_offset l)
       else dview sh (l_object l) j) \<and>
    (dview sh' (l_object l) j = 0xff \<longrightarrow>
       tview sh' (l_object l) j =
         (if l_offset l \<le> j \<and> j < l_offset l + sv_size v then bit (sv_taints v) 0
          else tview sh (l_object l) j))"
  using md_write_spec [OF assms(1-4)] assms(5) by blast

theorem write_definedness_witness:
  "\<exists>sh'. md_write \<lparr>l_object = 1, l_offset = 1, l_objid = 0\<rparr> example_int (sh_make 1 [0, 0, 0, 0] sh_init) =
    Some sh' \<and> dview sh' 1 2 = 0x0f"
  using write_definedness [OF sh_ok_make [OF sh_ok_init], of example_int
      "\<lparr>l_object = 1, l_offset = 1, l_objid = 0\<rparr>" 1 "[0, 0, 0, 0]" 2]
  by (auto simp: sval_ok_def example_int_def md_access_ok_def sh_make_def md_materialise_def
      access_words_def pointer_word_def)

text \<open>
  C33. Reading where a value of the same size was written gives the definedness of the value byte by byte,
  except that a word that holds an object identifier reads as defined. The value read is tainted where
  the written one was, if that one was entirely defined or is tainted and has a byte that is; of
  a value without such a byte nothing is said. The pointer flag is set exactly when the value had a
  nonzero object identifier at the place for a value of this size; that of a pointer to no object is lost.
\<close>

theorem read_after_write:
  assumes "sh_ok sh" "sval_ok v" "sv_size v \<in> {1, 2, 4, 8}"
    and "md_access_ok (sv_size v) (l_offset l)"
    and "l_offset l + sv_size v \<le> length (sh_mem sh (l_object l))"
  shows "\<exists>sh' r. md_write l v sh = Some sh' \<and> md_read l (sv_size v) sh' = Some r \<and>
    (\<forall>i < sv_size v. rv_def r ! i =
       (if pointer_word v (l_offset l) ((l_offset l + i) div 4) then 0xff else sv_def v ! i)) \<and>
    (sv_def v = replicate (sv_size v) 0xff \<longrightarrow> rv_taint r = bit (sv_taints v) 0) \<and>
    (bit (sv_taints v) 0 \<and> i < sv_size v \<and> sv_def v ! i = 0xff \<longrightarrow> rv_taint r) \<and>
    rv_ptr r =
      (if sv_size v \<ge> 4 \<and> sv_objid v \<noteq> 0 \<and> sv_objid_offset v = 8 * sv_size v - 32 then Set_pointer True
       else if sv_size v = 8 \<and> sv_objid v \<noteq> 0 \<and> sv_objid_offset v = 0 then Set_objid_offset 0
       else Set_pointer False)"
proof -
  let ?sz = "sv_size v" and ?off = "l_offset l" and ?o = "l_object l"
  obtain sh' where sh': "md_write l v sh = Some sh'" "sh_ok sh'" "sh_mem sh' = sh_mem sh"
    "\<And>j. j div 4 \<in> access_words ?off ?sz \<Longrightarrow>
       (ex_pointer (expand (sh_meta sh' ?o ! (j div 4))) \<longleftrightarrow> pointer_word v ?off (j div 4)) \<and>
       dview sh' ?o j = (if pointer_word v ?off (j div 4) then 0xff
         else if ?off \<le> j \<and> j < ?off + ?sz then sv_def v ! (j - ?off) else dview sh ?o j) \<and>
       (dview sh' ?o j = 0xff \<longrightarrow>
          tview sh' ?o j = (if ?off \<le> j \<and> j < ?off + ?sz then bit (sv_taints v) 0 else tview sh ?o j))"
    using md_write_spec [OF assms(1,2,4,5)] by (auto simp: only_words_def)
  have inw: "j div 4 \<in> access_words ?off ?sz" if "?off \<le> j" "j < ?off + ?sz" for j
    by (rule access_covers [OF assms(4) that])
  let ?exp = "map (\<lambda>w. expand (sh_meta sh' ?o ! w)) [?off div 4..<?off div 4 + (?sz + 3) div 4]"
  obtain r where r: "md_read l ?sz sh' = Some r" "rv_def r = map (dview sh' ?o) [?off..<?off + ?sz]"
    "rv_taint r \<longleftrightarrow> (\<exists>j. ?off \<le> j \<and> j < ?off + ?sz \<and> tview sh' ?o j)" "rv_ptr r = pl_read ?sz ?exp"
    using md_read_spec [OF sh'(2) assms(4)] assms(5) sh'(3) by auto
  have def: "rv_def r ! i = (if pointer_word v ?off ((?off + i) div 4) then 0xff else sv_def v ! i)"
    if "i < ?sz" for i
    using that sh'(4) [OF inw [of "?off + i"]] by (simp add: r(2))
  have taint: "rv_taint r = bit (sv_taints v) 0" if full: "sv_def v = replicate ?sz 0xff"
  proof -
    have "tview sh' ?o j = bit (sv_taints v) 0" if j: "?off \<le> j" "j < ?off + ?sz" for j
    proof -
      have "sv_def v ! (j - ?off) = 0xff" unfolding full using j by (subst nth_replicate) auto
      then show ?thesis using sh'(4) [OF inw [OF j]] j by auto
    qed
    moreover have "0 < ?sz" using assms(3) by auto
    ultimately show ?thesis unfolding r(3) by (metis le_refl less_add_same_cancel1)
  qed
  have tainted: "rv_taint r" if "bit (sv_taints v) 0" "i < ?sz" "sv_def v ! i = 0xff"
  proof -
    have "tview sh' ?o (?off + i)" using sh'(4) [OF inw [of "?off + i"]] that by (auto split: if_splits)
    then show ?thesis unfolding r(3) using that(2) by (intro exI [of _ "?off + i"]) simp
  qed
  have ptr: "ex_pointer (?exp ! i) \<longleftrightarrow> sv_objid v \<noteq> 0 \<and> sv_objid_offset v = i * 32"
    if "i < length ?exp" for i
    using that sh'(4) [of "4 * (?off div 4 + i)"] by (simp add: access_words_def pointer_word_def)
  have "rv_ptr r = (if ?sz \<ge> 4 \<and> sv_objid v \<noteq> 0 \<and> sv_objid_offset v = 8 * ?sz - 32 then Set_pointer True
       else if ?sz = 8 \<and> sv_objid v \<noteq> 0 \<and> sv_objid_offset v = 0 then Set_objid_offset 0
       else Set_pointer False)"
    unfolding r(4) by (rule pl_read_written [OF _ _ ptr]) (use assms(3) in auto)
  then show ?thesis using sh'(1) r(1) def taint tainted by blast
qed

definition example_ptr :: sval where
  "example_ptr = \<lparr>sv_size = 8, sv_def = replicate 8 0xff, sv_taints = 0, sv_objid = 7, sv_objid_offset = 32\<rparr>"

theorem read_after_write_witness:
  "\<exists>sh' r. md_write \<lparr>l_object = 1, l_offset = 0, l_objid = 0\<rparr> example_ptr
      (sh_make 1 (replicate 8 0) sh_init) = Some sh' \<and>
    md_read \<lparr>l_object = 1, l_offset = 0, l_objid = 0\<rparr> 8 sh' = Some r \<and> rv_ptr r = Set_pointer True"
  using read_after_write [OF sh_ok_make [OF sh_ok_init], of example_ptr
      "\<lparr>l_object = 1, l_offset = 0, l_objid = 0\<rparr>" 1 "replicate 8 0"]
  by (auto simp: sval_ok_def example_ptr_def md_access_ok_def sh_make_def md_materialise_def)

end
