(* ===== verification/HeapData.thy ===== *)
theory HeapData
  imports Metadata SnapMap
begin

unbundle bit_operations_syntax

text \<open>
  The data layer of the heap (\<^verbatim>\<open>src/divine/mem/data.hpp\<close>, \<^verbatim>\<open>data.tpp\<close>) with the layer of user
  metadata below it (\<^verbatim>\<open>usermeta.hpp\<close>): object identifiers are resolved to objects of the pool
  through a map of exceptions and a sorted snapshot; objects are made, resized, freed, read,
  written and copied. An object of the pool is a number, 0 is the null \<^verbatim>\<open>Internal\<close>. What the pool
  answers to \<^verbatim>\<open>allocate\<close> is an argument: the number of an object that is not in use. A result
  \<open>None\<close> is a failed assertion or an access outside an object.
\<close>

section \<open>The store shared by all heaps\<close>

datatype meta_type = Meta_Unknown | Meta_Pointers | Meta_Scalars

text \<open>The bytes and the metadata of the objects, the user metadata and the types of its layers.\<close>

record store =
  st_shadow :: shadow
  st_user :: "(nat, u32) snapmap"
  st_types :: "meta_type list"

definition NLayers :: nat where "NLayers = 4"

definition obj_bytes :: "store \<Rightarrow> nat \<Rightarrow> u8 list" where
  "obj_bytes st i = sh_mem (st_shadow st) i"

definition obj_size :: "store \<Rightarrow> nat \<Rightarrow> nat" where
  "obj_size st i = length (obj_bytes st i)"

definition set_bytes :: "nat \<Rightarrow> u8 list \<Rightarrow> store \<Rightarrow> store" where
  "set_bytes i bs st =
     st\<lparr>st_shadow := (st_shadow st)\<lparr>sh_mem := (sh_mem (st_shadow st))(i := bs)\<rparr>\<rparr>"

text \<open>\<^verbatim>\<open>allocate\<close> of the pool hands out cleared memory.\<close>

definition pool_allocate :: "nat \<Rightarrow> nat \<Rightarrow> store \<Rightarrow> store option" where
  "pool_allocate i sz st = asserting (sz \<noteq> 0) (Some (set_bytes i (replicate sz 0) st))"

section \<open>User metadata\<close>

text \<open>A key is an offset with the number of a layer in its two upper bits.\<close>

definition tagged_offset :: "nat \<Rightarrow> nat \<Rightarrow> int" where
  "tagged_offset off tag = int (off mod 2 ^ 30 + 2 ^ 30 * (tag mod 4))"

definition offset_tag :: "int \<Rightarrow> nat" where
  "offset_tag k = nat (k div 2 ^ 30) mod 4"

definition um_materialise :: "nat \<Rightarrow> nat \<Rightarrow> store \<Rightarrow> store" where
  "um_materialise p sz st =
     st\<lparr>st_user := sm_materialise p (st_user st), st_shadow := md_materialise p sz (st_shadow st)\<rparr>"

definition um_notify_snapshot :: "store \<Rightarrow> store option" where
  "um_notify_snapshot st =
     (case sm_snapshot (st_user st) of None \<Rightarrow> None | Some u \<Rightarrow> Some (st\<lparr>st_user := u\<rparr>))"

definition um_free :: "nat \<Rightarrow> nat \<Rightarrow> store \<Rightarrow> store option" where
  "um_free lim p st =
     (case sm_free p (st_user st) of
        None \<Rightarrow> None
      | Some u \<Rightarrow> Some (st\<lparr>st_user := u, st_shadow := layers_free lim p (st_shadow st)\<rparr>))"

definition layer_type :: "store \<Rightarrow> nat \<Rightarrow> meta_type option" where
  "layer_type st layer = asserting (layer < length (st_types st)) (Some (st_types st ! layer))"

definition set_layer_type :: "nat \<Rightarrow> meta_type \<Rightarrow> store \<Rightarrow> store" where
  "set_layer_type layer t st = st\<lparr>st_types := (st_types st)[layer := t]\<rparr>"

text \<open>\<^verbatim>\<open>peek\<close> gives the start and the length of the interval, the value and whether it is a pointer;
  \<^verbatim>\<open>poke\<close> is given the raw value and whether it is a pointer.\<close>

definition um_peek :: "loc \<Rightarrow> nat \<Rightarrow> nat \<Rightarrow> store \<Rightarrow> (int \<times> int \<times> u32 \<times> bool) option" where
  "um_peek l len layer st =
     (case imm_intersect (st_user st) (l_object l) (tagged_offset (l_offset l) layer) (int len) of
        None \<Rightarrow> Some (0, 0, 0, False)
      | Some p \<Rightarrow>
          (case layer_type st layer of
             None \<Rightarrow> None
           | Some t \<Rightarrow> Some (ifrom (fst p), ito (fst p) - ifrom (fst p), snd p, t = Meta_Pointers)))"

definition um_poke :: "loc \<Rightarrow> nat \<Rightarrow> nat \<Rightarrow> u32 \<Rightarrow> bool \<Rightarrow> store \<Rightarrow> store option" where
  "um_poke l len layer v is_ptr st =
     (case layer_type st layer of
        None \<Rightarrow> None
      | Some t \<Rightarrow>
          let st = (if t = Meta_Unknown
                    then set_layer_type layer (if is_ptr then Meta_Pointers else Meta_Scalars) st
                    else st)
          in asserting ((layer_type st layer = Some Meta_Pointers) = is_ptr)
               (Some (st\<lparr>st_user := imm_insert (l_object l) (tagged_offset (l_offset l) layer)
                                     (tagged_offset (l_offset l + len) layer) v (st_user st)\<rparr>)))"

text \<open>\<^verbatim>\<open>copy\<close>: the user metadata goes along only with copies the heap makes itself.\<close>

fun um_copy_layers :: "nat list \<Rightarrow> loc \<Rightarrow> loc \<Rightarrow> nat \<Rightarrow> (nat, u32) snapmap \<Rightarrow> (nat, u32) snapmap" where
  "um_copy_layers [] from to sz u = u"
| "um_copy_layers (layer # ls) from to sz u =
     um_copy_layers ls from to sz
       (imm_copy u (l_object from) (tagged_offset (l_offset from) layer)
          (l_object to) (tagged_offset (l_offset to) layer) (int sz) u)"

definition um_copy :: "loc \<Rightarrow> loc \<Rightarrow> nat \<Rightarrow> bool \<Rightarrow> store \<Rightarrow> store option" where
  "um_copy from to sz internal st =
     (let st = (if internal
                then st\<lparr>st_user := um_copy_layers [0..<NLayers] from to sz (st_user st)\<rparr>
                else st)
      in case md_copy None from to sz (st_shadow st) of
           None \<Rightarrow> None | Some sh \<Rightarrow> Some (st\<lparr>st_shadow := sh\<rparr>))"

section \<open>Resolving object identifiers\<close>

text \<open>The struct \<^verbatim>\<open>Local\<close>: \<^verbatim>\<open>exceptions\<close> in the order of the keys, and the items of the snapshot (a
  null \<^verbatim>\<open>snap_begin\<close> and an empty snapshot are the same to every operation).\<close>

type_synonym objmap = "(u32 \<times> nat) list"

record heap =
  hp_exc :: objmap
  hp_snap :: objmap

fun exc_assign :: "u32 \<Rightarrow> nat \<Rightarrow> objmap \<Rightarrow> objmap" where
  "exc_assign k v [] = [(k, v)]"
| "exc_assign k v (x # xs) =
     (if k < fst x then (k, v) # x # xs
      else if fst x < k then x # exc_assign k v xs
      else (k, v) # xs)"

definition set_exc :: "u32 \<Rightarrow> nat \<Rightarrow> heap \<Rightarrow> heap" where
  "set_exc obj i h = h\<lparr>hp_exc := exc_assign obj i (hp_exc h)\<rparr>"

definition heap_reset :: "heap \<Rightarrow> heap" where
  "heap_reset h = h\<lparr>hp_exc := [], hp_snap := []\<rparr>"

definition heap_rollback :: "heap \<Rightarrow> heap" where
  "heap_rollback h = h\<lparr>hp_exc := []\<rparr>"

function snap_search :: "objmap \<Rightarrow> u32 \<Rightarrow> nat \<Rightarrow> nat \<Rightarrow> nat" where
  "snap_search s obj b e =
     (if b < e
      then let pivot = b + (e - b) div 2
           in if fst (s ! pivot) > obj then snap_search s obj b pivot
              else if fst (s ! pivot) < obj then snap_search s obj (pivot + 1) e
              else pivot
      else b)"
  by pat_completeness auto
termination by (relation "measure (\<lambda>(s, obj, b, e). e - b)") auto

declare snap_search.simps [simp del]

text \<open>The position that is found, \<open>None\<close> for a null pointer; the assertion on the item that is found
  says what \<open>heap_ok\<close> of \<open>HeapFacts\<close> keeps.\<close>

definition snap_find :: "heap \<Rightarrow> u32 \<Rightarrow> nat option" where
  "snap_find h obj =
     (if hp_snap h = [] then None else Some (snap_search (hp_snap h) obj 0 (length (hp_snap h))))"

definition ptr2i :: "heap \<Rightarrow> u32 \<Rightarrow> nat" where
  "ptr2i h obj =
     (case map_of (hp_exc h) obj of
        Some i \<Rightarrow> i
      | None \<Rightarrow>
          (case snap_find h obj of
             None \<Rightarrow> 0
           | Some p \<Rightarrow> if p \<noteq> length (hp_snap h) \<and> fst (hp_snap h ! p) = obj then snd (hp_snap h ! p) else 0))"

definition valid_obj :: "heap \<Rightarrow> u32 \<Rightarrow> bool" where
  "valid_obj h obj \<longleftrightarrow> ptr2i h obj \<noteq> 0"

definition valid_id :: "heap \<Rightarrow> u32 \<Rightarrow> bool" where
  "valid_id h obj \<longleftrightarrow> obj \<noteq> 0 \<and> valid_obj h obj"

definition valid_ptr :: "heap \<Rightarrow> gptr \<Rightarrow> bool" where
  "valid_ptr h p \<longleftrightarrow> valid_id h (gp_object p)"

definition heap_loc :: "heap \<Rightarrow> gptr \<Rightarrow> loc" where
  "heap_loc h p =
     \<lparr>l_object = ptr2i h (gp_object p), l_offset = unat (gp_offset p), l_objid = gp_object p\<rparr>"

section \<open>Objects\<close>

text \<open>
  The search of \<^verbatim>\<open>make\<close> for a free identifier: \<open>pos\<close> is the position of \<^verbatim>\<open>search\<close> in the snapshot,
  the first argument bounds the rounds.
\<close>

fun make_search :: "nat \<Rightarrow> heap \<Rightarrow> bool \<Rightarrow> nat option \<Rightarrow> u32 \<Rightarrow> u32 option" where
  "make_search 0 h overwrite pos hint = None"
| "make_search (Suc n) h overwrite pos hint =
     (let exc = map_of (hp_exc h) hint;
          at = (case pos of None \<Rightarrow> False
                | Some p \<Rightarrow> p \<noteq> length (hp_snap h) \<and> fst (hp_snap h ! p) = hint);
          found = (if overwrite \<and> exc \<noteq> None then exc = Some 0 else exc = None \<and> \<not> at);
          pos = (if at then map_option Suc pos else pos)
      in if found then Some hint else make_search n h overwrite pos (hint + 1))"

definition make_rounds :: "heap \<Rightarrow> nat" where
  "make_rounds h = Suc (length (hp_exc h) + length (hp_snap h))"

definition make_obj :: "nat \<Rightarrow> nat \<Rightarrow> u32 \<Rightarrow> bool \<Rightarrow> heap \<Rightarrow> store \<Rightarrow> (loc \<times> heap \<times> store) option" where
  "make_obj i sz hint overwrite h st =
     asserting (VM_PL_Code \<le> hint)
       (case make_search (make_rounds h) h overwrite (snap_find h hint) hint of
          None \<Rightarrow> None
        | Some hint \<Rightarrow>
            asserting (ptr2i h hint = 0)
              (case pool_allocate i sz st of
                 None \<Rightarrow> None
               | Some st \<Rightarrow>
                   Some (\<lparr>l_object = i, l_offset = 0, l_objid = hint\<rparr>, set_exc hint i h,
                         um_materialise i sz st)))"

text \<open>\<^verbatim>\<open>copy\<close> within one pool.\<close>

definition data_copy :: "loc \<Rightarrow> loc \<Rightarrow> nat \<Rightarrow> bool \<Rightarrow> store \<Rightarrow> (bool \<times> store) option" where
  "data_copy from to bytes internal st =
     asserting (l_object from \<noteq> 0 \<and> l_object to \<noteq> 0)
       (if l_offset from + bytes > obj_size st (l_object from) \<or>
           l_offset to + bytes > obj_size st (l_object to)
        then Some (False, st)
        else case um_copy from to bytes internal st of
               None \<Rightarrow> None
             | Some st \<Rightarrow>
                 Some (True, set_bytes (l_object to)
                        (overlay (l_offset to) (take bytes (drop (l_offset from) (obj_bytes st (l_object from))))
                          (obj_bytes st (l_object to))) st))"

definition resize_obj :: "nat \<Rightarrow> gptr \<Rightarrow> nat \<Rightarrow> heap \<Rightarrow> store \<Rightarrow> (bool \<times> heap \<times> store) option" where
  "resize_obj i p sz_new h st =
     (if gp_offset p \<noteq> 0 \<or> \<not> valid_ptr h p then Some (False, h, st)
      else let obj_old = ptr2i h (gp_object p); sz_old = obj_size st obj_old
           in case pool_allocate i sz_new st of
                None \<Rightarrow> None
              | Some st \<Rightarrow>
                  (case data_copy ((heap_loc h p)\<lparr>l_object := obj_old\<rparr>) ((heap_loc h p)\<lparr>l_object := i\<rparr>)
                          (min sz_new sz_old) True (um_materialise i sz_new st) of
                     None \<Rightarrow> None
                   | Some (_, st) \<Rightarrow> Some (True, set_exc (gp_object p) i h, st)))"

text \<open>\<^verbatim>\<open>free\<close> of a pointer. The memory of an object of the pool that is freed is given back; its bytes
  are not in use until it is allocated again.\<close>

definition free_obj :: "nat \<Rightarrow> gptr \<Rightarrow> heap \<Rightarrow> store \<Rightarrow> (bool \<times> heap \<times> store) option" where
  "free_obj lim p h st =
     (if \<not> valid_ptr h p then Some (False, h, st)
      else case (case map_of (hp_exc h) (gp_object p) of
                   None \<Rightarrow> Some st
                 | Some i \<Rightarrow> um_free lim i st) of
             None \<Rightarrow> None
           | Some st \<Rightarrow> Some (gp_offset p = 0, set_exc (gp_object p) 0 h, st))"

section \<open>Reading and writing\<close>

text \<open>A value is given by what the shadow layers ask of it and by its raw bytes.\<close>

definition data_write :: "loc \<Rightarrow> sval \<Rightarrow> u8 list \<Rightarrow> store \<Rightarrow> store option" where
  "data_write l v rb st =
     asserting (length rb = sv_size v \<and> l_offset l + sv_size v \<le> obj_size st (l_object l))
       (case md_write l v (st_shadow st) of
          None \<Rightarrow> None
        | Some sh \<Rightarrow>
            let st = st\<lparr>st_shadow := sh\<rparr>
            in Some (set_bytes (l_object l) (overlay (l_offset l) rb (obj_bytes st (l_object l))) st))"

definition data_read :: "loc \<Rightarrow> nat \<Rightarrow> store \<Rightarrow> (u8 list \<times> rval) option" where
  "data_read l sz st =
     asserting (l_offset l + sz \<le> obj_size st (l_object l))
       (case md_read l sz (st_shadow st) of
          None \<Rightarrow> None
        | Some r \<Rightarrow> Some (take sz (drop (l_offset l) (obj_bytes st (l_object l))), r))"

end
