(* ===== verification/HeapFacts.thy ===== *)
theory HeapFacts
  imports HeapData MetadataProps
begin

unbundle bit_operations_syntax

text \<open>
  How object identifiers resolve: the binary search finds what is in a sorted snapshot, exceptions
  override it, and \<^verbatim>\<open>make\<close> ends with an identifier that is not in use.
\<close>

section \<open>Sorted maps of objects\<close>

definition ids_sorted :: "objmap \<Rightarrow> bool" where
  "ids_sorted m \<longleftrightarrow> sorted_wrt (<) (map fst m)"

text \<open>The invariant of the heap: both maps are sorted, and no item of the snapshot is null.\<close>

definition heap_ok :: "heap \<Rightarrow> bool" where
  "heap_ok h \<longleftrightarrow> ids_sorted (hp_exc h) \<and> ids_sorted (hp_snap h) \<and> 0 \<notin> snd ` set (hp_snap h)"

lemma ids_sorted_Nil [simp]: "ids_sorted []"
  by (simp add: ids_sorted_def)

lemma ids_sorted_Cons: "ids_sorted (x # xs) \<longleftrightarrow> (\<forall>y \<in> set xs. fst x < fst y) \<and> ids_sorted xs"
  by (auto simp: ids_sorted_def)

lemma ids_sorted_distinct: "ids_sorted m \<Longrightarrow> distinct (map fst m)"
  by (simp add: ids_sorted_def strict_sorted_iff)

lemma ids_sorted_nth: "ids_sorted m \<Longrightarrow> i < j \<Longrightarrow> j < length m \<Longrightarrow> fst (m ! i) < fst (m ! j)"
  unfolding ids_sorted_def by (auto simp: sorted_wrt_iff_nth_less)

lemma map_of_sorted_None: "(\<forall>y \<in> set (m :: objmap). k < fst y) \<Longrightarrow> map_of m k = None"
  by (induction m) auto

lemma map_of_exc_assign [simp]: "map_of (exc_assign k v m) = (map_of m)(k \<mapsto> v)"
  by (induction k v m rule: exc_assign.induct) (auto simp: fun_eq_iff)

lemma fst_exc_assign: "fst ` set (exc_assign k v m) = insert k (fst ` set m)"
  by (induction k v m rule: exc_assign.induct) auto

lemma exc_assign_mem: "x \<in> set (exc_assign k v m) \<Longrightarrow> x = (k, v) \<or> x \<in> set m"
  by (induction k v m rule: exc_assign.induct) (auto split: if_splits)

lemma ids_sorted_assign: "ids_sorted m \<Longrightarrow> ids_sorted (exc_assign k v m)"
proof (induction k v m rule: exc_assign.induct)
  case (2 k v x xs)
  then show ?case by (auto simp: ids_sorted_Cons dest!: exc_assign_mem)
qed (simp add: ids_sorted_Cons)

section \<open>The binary search\<close>

lemma snap_search_range: "b \<le> e \<Longrightarrow> b \<le> snap_search s obj b e \<and> snap_search s obj b e \<le> e"
proof (induction s obj b e rule: snap_search.induct)
  case (1 s obj b e)
  let ?p = "b + (e - b) div 2"
  show ?case
  proof (cases "b < e")
    case True
    have "b \<le> ?p" "?p < e" using True by auto
    then show ?thesis
      using 1(1) [OF True refl] 1(2) [OF True refl] True
      by (subst (1 2) snap_search.simps) (force simp: Let_def)
  next
    case False
    then show ?thesis using 1(3) by (simp add: snap_search.simps)
  qed
qed

text \<open>Before the position that is found all identifiers are smaller, from it on none is.\<close>

lemma snap_search_bound:
  assumes "ids_sorted s" "b \<le> e" "e \<le> length s"
    and "\<forall>j < b. fst (s ! j) < obj" "\<forall>j < length s. e \<le> j \<longrightarrow> obj \<le> fst (s ! j)"
  shows "(\<forall>j < snap_search s obj b e. fst (s ! j) < obj) \<and>
    (\<forall>j < length s. snap_search s obj b e \<le> j \<longrightarrow> obj \<le> fst (s ! j))"
  using assms
proof (induction s obj b e rule: snap_search.induct)
  case (1 s obj b e)
  let ?p = "b + (e - b) div 2"
  show ?case
  proof (cases "b < e")
    case True
    then have p: "b \<le> ?p" "?p < e" "?p < length s" using 1(5) by auto
    have below: "fst (s ! j) < fst (s ! ?p)" if "j < ?p" for j
      using ids_sorted_nth [OF 1(3) that p(3)] .
    have beyond: "fst (s ! ?p) \<le> fst (s ! j)" if "?p \<le> j" "j < length s" for j
      using ids_sorted_nth [OF 1(3), of ?p j] that by (cases "j = ?p") auto
    consider "obj < fst (s ! ?p)" | "fst (s ! ?p) < obj" | "fst (s ! ?p) = obj" by fastforce
    then show ?thesis
    proof cases
      case 1
      have beyond': "\<forall>j < length s. ?p \<le> j \<longrightarrow> obj \<le> fst (s ! j)" using beyond 1 by force
      have eq: "snap_search s obj b e = snap_search s obj b ?p"
        using True 1 by (subst snap_search.simps) (simp add: Let_def)
      show ?thesis
        unfolding eq
        by (rule "1.IH"(1) [OF True refl 1 "1.prems"(1) p(1) less_imp_le [OF p(3)] "1.prems"(4) beyond'])
    next
      case 2
      have below': "\<forall>j < ?p + 1. fst (s ! j) < obj"
      proof (intro allI impI)
        fix j assume "j < ?p + 1"
        then consider "j < ?p" | "j = ?p" by linarith
        then show "fst (s ! j) < obj" using order.strict_trans [OF below 2] 2 by cases blast+
      qed
      have n: "\<not> obj < fst (s ! ?p)" using 2 by simp
      have eq: "snap_search s obj b e = snap_search s obj (?p + 1) e"
        by (subst snap_search.simps) (simp only: Let_def if_P [OF True] if_P [OF 2] if_not_P [OF n])
      show ?thesis
        unfolding eq
        by (rule "1.IH"(2) [OF True refl n 2 "1.prems"(1) _ "1.prems"(3) below' "1.prems"(5)]) (use p in simp)
    next
      case 3
      then have "snap_search s obj b e = ?p" using True by (subst snap_search.simps) (simp add: Let_def)
      then show ?thesis using below beyond 3 by auto
    qed
  next
    case False
    then have "snap_search s obj b e = b" "b = e" using 1(4) by (simp_all add: snap_search.simps)
    then show ?thesis using 1(6,7) by simp
  qed
qed

section \<open>Resolving\<close>

text \<open>A position splits the snapshot at an identifier.\<close>

definition splits_at :: "objmap \<Rightarrow> u32 \<Rightarrow> nat \<Rightarrow> bool" where
  "splits_at s obj p \<longleftrightarrow> p \<le> length s \<and> (\<forall>j < p. fst (s ! j) < obj) \<and>
     (\<forall>j < length s. p \<le> j \<longrightarrow> obj \<le> fst (s ! j))"

lemma snap_search_splits:
  assumes "ids_sorted s"
  shows "splits_at s obj (snap_search s obj 0 (length s))"
  using snap_search_bound [OF assms le0 order_refl, of obj] snap_search_range [OF le0, of s obj "length s"]
  by (simp add: splits_at_def)

lemma splits_at_lookup:
  assumes "ids_sorted s" "splits_at s obj p"
  shows "map_of s obj = (if p \<noteq> length s \<and> fst (s ! p) = obj then Some (snd (s ! p)) else None)"
proof (cases "p \<noteq> length s \<and> fst (s ! p) = obj")
  case True
  then have "p < length s" using assms(2) by (auto simp: splits_at_def)
  then have "(obj, snd (s ! p)) \<in> set s" using True by (metis nth_mem prod.collapse)
  then show ?thesis using True ids_sorted_distinct [OF assms(1)] by simp
next
  case False
  have "fst (s ! j) \<noteq> obj" if j: "j < length s" for j
  proof (cases j p rule: linorder_cases)
    case less
    then have "fst (s ! j) < obj" using assms(2) by (simp add: splits_at_def)
    then show ?thesis by simp
  next
    case equal
    then show ?thesis using False j by auto
  next
    case greater
    then have "fst (s ! p) < fst (s ! j)" using ids_sorted_nth [OF assms(1) _ j] by simp
    moreover have "obj \<le> fst (s ! p)" using assms(2) greater j by (simp add: splits_at_def)
    ultimately show ?thesis by force
  qed
  then have "obj \<notin> fst ` set s" by (metis imageE in_set_conv_nth)
  then show ?thesis unfolding if_not_P [OF False] by (simp add: map_of_eq_None_iff)
qed

definition found_in :: "objmap \<Rightarrow> u32 \<Rightarrow> nat" where
  "found_in m obj = (case map_of m obj of None \<Rightarrow> 0 | Some i \<Rightarrow> i)"

lemma ptr2i_lookup:
  assumes "ids_sorted (hp_snap h)"
  shows "ptr2i h obj = (case map_of (hp_exc h) obj of Some i \<Rightarrow> i | None \<Rightarrow> found_in (hp_snap h) obj)"
  using splits_at_lookup [OF assms snap_search_splits [OF assms, of obj]]
  by (cases "hp_snap h = []") (auto simp: ptr2i_def snap_find_def found_in_def split: option.split)

lemma heap_ok_snap: "heap_ok h \<Longrightarrow> ids_sorted (hp_snap h)"
  by (simp add: heap_ok_def)

lemma ptr2i_set_exc [simp]:
  "heap_ok h \<Longrightarrow> ptr2i (set_exc obj i h) = (ptr2i h)(obj := i)"
  by (auto simp: fun_eq_iff set_exc_def heap_ok_snap ptr2i_lookup split: option.split)

lemma heap_ok_set_exc: "heap_ok h \<Longrightarrow> heap_ok (set_exc obj i h)"
  by (simp add: heap_ok_def set_exc_def ids_sorted_assign)

lemma hp_snap_set_exc [simp]: "hp_snap (set_exc obj i h) = hp_snap h"
  by (simp add: set_exc_def)

text \<open>The assertion of \<^verbatim>\<open>snap_find\<close>, and how many objects are valid.\<close>

lemma snap_item_valid: "heap_ok h \<Longrightarrow> p < length (hp_snap h) \<Longrightarrow> snd (hp_snap h ! p) \<noteq> 0"
  by (metis heap_ok_def image_eqI nth_mem)

lemma valid_ids_bound:
  assumes "heap_ok h"
  shows "card {p. valid_id h p} \<le> length (hp_exc h) + length (hp_snap h)"
proof -
  have "{p. valid_id h p} \<subseteq> fst ` set (hp_exc h) \<union> fst ` set (hp_snap h)"
    using assms
    by (auto simp: valid_id_def valid_obj_def ptr2i_lookup heap_ok_snap found_in_def map_of_eq_None_iff
        split: option.splits dest!: map_of_SomeD intro: rev_image_eqI)
  then have "card {p. valid_id h p} \<le> card (fst ` set (hp_exc h) \<union> fst ` set (hp_snap h))"
    by (intro card_mono) auto
  also have "\<dots> \<le> card (fst ` set (hp_exc h)) + card (fst ` set (hp_snap h))" by (rule card_Un_le)
  also have "\<dots> \<le> length (hp_exc h) + length (hp_snap h)"
    by (intro add_mono order.trans [OF card_image_le] card_length) auto
  finally show ?thesis .
qed

section \<open>Making objects\<close>

definition pos_ok :: "objmap \<Rightarrow> u32 \<Rightarrow> nat option \<Rightarrow> bool" where
  "pos_ok s hint pos \<longleftrightarrow> (case pos of None \<Rightarrow> s = [] | Some p \<Rightarrow> splits_at s hint p)"

definition pos_at :: "objmap \<Rightarrow> u32 \<Rightarrow> nat option \<Rightarrow> bool" where
  "pos_at s hint pos \<longleftrightarrow>
     (case pos of None \<Rightarrow> False | Some p \<Rightarrow> p \<noteq> length s \<and> fst (s ! p) = hint)"

lemma pos_ok_find: "heap_ok h \<Longrightarrow> pos_ok (hp_snap h) hint (snap_find h hint)"
  by (simp add: pos_ok_def snap_find_def snap_search_splits heap_ok_snap)

lemma pos_at_lookup:
  assumes "ids_sorted s" "pos_ok s hint pos"
  shows "pos_at s hint pos \<longleftrightarrow> map_of s hint \<noteq> None"
  using splits_at_lookup [OF assms(1), of hint] assms(2)
  by (auto simp: pos_ok_def pos_at_def split: option.splits)

lemma pos_ok_next:
  assumes s: "ids_sorted s" "pos_ok s hint pos" and lt: "hint < hint + 1"
  shows "pos_ok s (hint + 1) (if pos_at s hint pos then map_option Suc pos else pos)"
proof (cases pos)
  case None
  then show ?thesis using s(2) by (simp add: pos_ok_def)
next
  case (Some p)
  then have p: "splits_at s hint p" using s(2) by (simp add: pos_ok_def)
  have above: "hint + 1 \<le> fst (s ! j)" if "hint < fst (s ! j)" for j
    using that by (rule inc_le)
  show ?thesis
  proof (cases "p \<noteq> length s \<and> fst (s ! p) = hint")
    case True
    then have len: "p < length s" using p by (auto simp: splits_at_def)
    have "fst (s ! j) < hint + 1" if "j < Suc p" for j
    proof -
      have "j < p \<or> j = p" using that by linarith
      then show ?thesis using p True lt order.strict_trans [of "fst (s ! j)" hint] by (auto simp: splits_at_def)
    qed
    moreover have "hint + 1 \<le> fst (s ! j)" if "j < length s" "Suc p \<le> j" for j
      using ids_sorted_nth [OF s(1), of p j] that True by (intro above) auto
    ultimately have "splits_at s (hint + 1) (Suc p)" using len unfolding splits_at_def by auto
    then show ?thesis using True Some by (simp add: pos_ok_def pos_at_def)
  next
    case False
    have "hint + 1 \<le> fst (s ! j)" if j: "j < length s" "p \<le> j" for j
    proof (rule above, cases "j = p")
      case True
      then show "hint < fst (s ! j)" using False p j by (auto simp: splits_at_def order.order_iff_strict)
    next
      case neq: False
      then have "fst (s ! p) < fst (s ! j)" "hint \<le> fst (s ! p)"
        using ids_sorted_nth [OF s(1), of p j] j p by (auto simp: splits_at_def)
      then show "hint < fst (s ! j)" by simp
    qed
    moreover have "fst (s ! j) < hint + 1" if "j < p" for j
      using p that lt order.strict_trans [of "fst (s ! j)" hint] by (auto simp: splits_at_def)
    ultimately have "splits_at s (hint + 1) p" using p unfolding splits_at_def by auto
    then show ?thesis using False Some by (auto simp: pos_ok_def pos_at_def)
  qed
qed

text \<open>The identifiers from the hint on that are taken.\<close>

definition taken :: "heap \<Rightarrow> u32 \<Rightarrow> u32 set" where
  "taken h hint = {k. k \<in> fst ` set (hp_exc h) \<union> fst ` set (hp_snap h) \<and> hint \<le> k}"

lemma make_search_spec:
  assumes ok: "heap_ok h"
  shows "pos_ok (hp_snap h) hint pos \<Longrightarrow> card (taken h hint) < n \<Longrightarrow> unat hint + n \<le> 2 ^ 32 \<Longrightarrow>
    \<exists>obj. make_search n h overwrite pos hint = Some obj \<and> hint \<le> obj \<and> ptr2i h obj = 0"
proof (induction n arbitrary: pos hint)
  case (Suc n)
  note snap = heap_ok_snap [OF ok]
  let ?exc = "map_of (hp_exc h) hint" and ?at = "pos_at (hp_snap h) hint pos"
  let ?found = "if overwrite \<and> ?exc \<noteq> None then ?exc = Some 0 else ?exc = None \<and> \<not> ?at"
  have eq: "make_search (Suc n) h overwrite pos hint =
      (if ?found then Some hint
       else make_search n h overwrite (if ?at then map_option Suc pos else pos) (hint + 1))"
    unfolding make_search.simps Let_def pos_at_def by (rule refl)
  show ?case
  proof (cases ?found)
    case True
    have "ptr2i h hint = 0"
      using True pos_at_lookup [OF snap Suc.prems(1)]
      by (cases ?exc) (auto simp: ptr2i_lookup [OF snap] found_in_def split: if_splits)
    then show ?thesis unfolding eq if_P [OF True] by blast
  next
    case False
    then have "?exc \<noteq> None \<or> ?at" by (auto split: if_splits)
    then have mem: "hint \<in> taken h hint"
      using pos_at_lookup [OF snap Suc.prems(1)]
      by (auto simp: taken_def map_of_eq_None_iff)
    have fin: "finite (taken h hint)" by simp
    have "0 < card (taken h hint)" using mem by (auto simp: card_gt_0_iff)
    then have n: "0 < n" using Suc.prems(2) by linarith
    then have "unat hint + 1 < 2 ^ 32" using Suc.prems(3) by linarith
    then have un: "unat (hint + 1) = unat hint + 1" by (simp add: unat_word_ariths)
    then have lt: "hint < hint + 1" by (simp add: word_less_nat_alt)
    have "taken h (hint + 1) \<subseteq> taken h hint - {hint}" using lt by (auto simp: taken_def)
    then have "card (taken h (hint + 1)) \<le> card (taken h hint - {hint})" by (intro card_mono) auto
    also have "\<dots> < card (taken h hint)" using mem by (intro card_Diff1_less fin)
    finally have less_n: "card (taken h (hint + 1)) < n" using Suc.prems(2) by linarith
    have room: "unat (hint + 1) + n \<le> 2 ^ 32" using Suc.prems(3) un by linarith
    from Suc.IH [OF pos_ok_next [OF snap Suc.prems(1) lt] less_n room] obtain obj where
      "make_search n h overwrite (if ?at then map_option Suc pos else pos) (hint + 1) = Some obj"
      "hint + 1 \<le> obj" "ptr2i h obj = 0" by blast
    then show ?thesis unfolding eq if_not_P [OF False] using lt by auto
  qed
qed simp

lemma card_taken: "card (taken h hint) < make_rounds h"
proof -
  have "card (taken h hint) \<le> card (fst ` set (hp_exc h) \<union> fst ` set (hp_snap h))"
    by (intro card_mono) (auto simp: taken_def)
  also have "\<dots> \<le> card (fst ` set (hp_exc h)) + card (fst ` set (hp_snap h))" by (rule card_Un_le)
  also have "\<dots> \<le> length (hp_exc h) + length (hp_snap h)"
    by (intro add_mono order.trans [OF card_image_le] card_length) auto
  finally show ?thesis by (simp add: make_rounds_def)
qed

text \<open>
  The store after \<^verbatim>\<open>make\<close>: the object is there, cleared and undefined. \<open>kept_but\<close> says that nothing but the
  object \<open>i\<close> changed: the metadata, the user metadata and the bytes of all others, the exceptions and
  the types of the layers are what they were.
\<close>

definition kept_but :: "nat \<Rightarrow> store \<Rightarrow> store \<Rightarrow> bool" where
  "kept_but i st st' \<longleftrightarrow>
     st_types st' = st_types st \<and> lmaps (st_user st') = lmaps (st_user st) \<and>
     sh_pexc (st_shadow st') = sh_pexc (st_shadow st) \<and> sh_dexc (st_shadow st') = sh_dexc (st_shadow st) \<and>
     (\<forall>j. j \<noteq> i \<longrightarrow> obj_bytes st' j = obj_bytes st j \<and> sh_meta (st_shadow st') j = sh_meta (st_shadow st) j \<and>
        sm_view (st_user st') j = sm_view (st_user st) j)"

lemma sm_materialise_view [simp]: "j \<noteq> i \<Longrightarrow> sm_view (sm_materialise i u) j = sm_view u j"
  by (simp add: sm_view_def sm_materialise_def snap_range_def delete_conv' split: option.split)

lemma made_shadow:
  "st_shadow (um_materialise i sz (set_bytes i (replicate sz 0) st)) = sh_make i (replicate sz 0) (st_shadow st)"
  by (simp add: um_materialise_def set_bytes_def sh_make_def)

lemma made_bytes:
  "obj_bytes (um_materialise i sz (set_bytes i (replicate sz 0) st)) j =
     (if j = i then replicate sz 0 else obj_bytes st j)"
  by (simp add: obj_bytes_def made_shadow sh_make_def md_materialise_def)

lemma made_kept: "kept_but i st (um_materialise i sz (set_bytes i (replicate sz 0) st))"
proof -
  have "lmaps (sm_materialise i u) = lmaps u" for u :: "(nat, u32) snapmap" by (simp add: sm_materialise_def)
  then show ?thesis
    by (simp add: kept_but_def made_bytes) (simp add: um_materialise_def set_bytes_def md_materialise_def)
qed

lemma made_undefined:
  assumes "j < sz"
  shows "dview (st_shadow (um_materialise i sz (set_bytes i (replicate sz 0) st))) i j = 0"
proof -
  have "j div 4 < meta_size sz" using assms by (simp add: meta_size_eq)
  moreover have "expand 0 = 0" by code_simp
  moreover have "[0, 0, 0, 0] = replicate 4 (0 :: u8)" by (simp add: eval_nat_numeral)
  ultimately have "word_def (sh_make i (replicate sz 0) (st_shadow st)) i (j div 4) = replicate 4 0"
    unfolding word_def_def sh_make_def md_materialise_def
    by (simp add: read_zero(1) [where off = "4 * (j div 4)"])
  then show ?thesis unfolding made_shadow dview_def by simp
qed

lemma make_obj_spec:
  assumes "heap_ok h" "sh_ok (st_shadow st)" "0 < sz" "VM_PL_Code \<le> hint"
    and "unat hint + length (hp_exc h) + length (hp_snap h) < 2 ^ 32"
  shows "\<exists>obj h' st'.
    make_obj i sz hint overwrite h st = Some (\<lparr>l_object = i, l_offset = 0, l_objid = obj\<rparr>, h', st') \<and>
    hint \<le> obj \<and> ptr2i h obj = 0 \<and> ptr2i h' = (ptr2i h)(obj := i) \<and> hp_snap h' = hp_snap h \<and>
    heap_ok h' \<and> sh_ok (st_shadow st') \<and> obj_bytes st' i = replicate sz 0 \<and>
    (\<forall>j < sz. dview (st_shadow st') i j = 0) \<and> kept_but i st st'"
proof -
  have "unat hint + make_rounds h \<le> 2 ^ 32" using assms(5) by (simp add: make_rounds_def)
  from make_search_spec [OF assms(1) pos_ok_find [OF assms(1)] card_taken this, of overwrite] obtain obj where
    obj: "make_search (make_rounds h) h overwrite (snap_find h hint) hint = Some obj" "hint \<le> obj" "ptr2i h obj = 0"
    by blast
  let ?st = "um_materialise i sz (set_bytes i (replicate sz 0) st)"
  have "make_obj i sz hint overwrite h st =
      Some (\<lparr>l_object = i, l_offset = 0, l_objid = obj\<rparr>, set_exc obj i h, ?st)"
    using assms(3,4) obj by (simp add: make_obj_def pool_allocate_def)
  moreover have "sh_ok (st_shadow ?st)" unfolding made_shadow by (rule sh_ok_make [OF assms(2)])
  moreover have "obj_bytes ?st i = replicate sz 0" by (simp add: made_bytes)
  moreover have "\<forall>j < sz. dview (st_shadow ?st) i j = 0" by (simp add: made_undefined)
  moreover have "kept_but i st ?st" by (rule made_kept)
  moreover have "ptr2i (set_exc obj i h) = (ptr2i h)(obj := i)" "heap_ok (set_exc obj i h)"
    "hp_snap (set_exc obj i h) = hp_snap h"
    using assms(1) heap_ok_set_exc [OF assms(1)] by simp_all
  ultimately show ?thesis using obj(2,3) by blast
qed

section \<open>Freeing objects\<close>

lemma free_obj_spec:
  assumes "heap_ok h" "valid_ptr h p"
    and "\<And>i. map_of (hp_exc h) (gp_object p) = Some i \<Longrightarrow> \<not> snapped (st_user st) i"
  shows "\<exists>h' st'. free_obj lim p h st = Some (gp_offset p = 0, h', st') \<and>
    heap_ok h' \<and> ptr2i h' = (ptr2i h)(gp_object p := 0) \<and> obj_bytes st' = obj_bytes st"
  using assms
  by (cases "map_of (hp_exc h) (gp_object p)")
    (auto simp: free_obj_def um_free_def sm_free_def heap_ok_set_exc obj_bytes_def layers_free_def fun_eq_iff)

section \<open>Writing and reading back\<close>

text \<open>Reading metadata does not look at the bytes of the memory.\<close>

lemma md_load_mem: "md_load n (sh\<lparr>sh_mem := m\<rparr>) obj pos = md_load n sh obj pos"
  by (induction n arbitrary: pos) (simp_all add: md_get_def split: option.split)

lemma dl_read_def_mem: "dl_read_def (sh\<lparr>sh_mem := m\<rparr>) obj off e = dl_read_def sh obj off e"
  by (simp add: dl_read_def_def)

lemma dl_read_words_mem: "dl_read_words n l w exp (sh\<lparr>sh_mem := m\<rparr>) = dl_read_words n l w exp sh"
  by (induction n arbitrary: w) (simp_all add: dl_read_def_mem split: option.split)

lemma dl_read_mem: "dl_read l sz exp (sh\<lparr>sh_mem := m\<rparr>) = dl_read l sz exp sh"
  by (simp add: dl_read_def dl_read_words_mem dl_read_def_mem Let_def split: option.split)

lemma md_read_mem: "md_read l sz (sh\<lparr>sh_mem := m\<rparr>) = md_read l sz sh"
  by (simp add: md_read_def md_load_mem layers_read_def dl_read_mem Let_def split: option.split)

lemma take_drop_overlay:
  assumes "pos + length xs \<le> length ys"
  shows "take (length xs) (drop pos (overlay pos xs ys)) = xs"
  using assms by (simp add: overlay_def)

lemma around_overlay:
  assumes "pos + length xs \<le> length ys"
  shows "take pos (overlay pos xs ys) = take pos ys"
    "drop (pos + length xs) (overlay pos xs ys) = drop (pos + length xs) ys"
  using assms by (simp_all add: overlay_def)

lemma length_overlay: "pos + length xs \<le> length ys \<Longrightarrow> length (overlay pos xs ys) = length ys"
  by (simp add: overlay_def)

lemma data_write_spec:
  assumes ok: "sh_ok (st_shadow st)" "sval_ok v" "md_access_ok (sv_size v) (l_offset l)"
    and sz: "l_offset l + sv_size v \<le> obj_size st (l_object l)" "length rb = sv_size v"
  obtains sh' where "md_write l v (st_shadow st) = Some sh'"
    and "data_write l v rb st =
      Some (set_bytes (l_object l) (overlay (l_offset l) rb (obj_bytes st (l_object l))) (st\<lparr>st_shadow := sh'\<rparr>))"
    and "sh_ok sh'" "sh_mem sh' = sh_mem (st_shadow st)"
proof -
  obtain sh' where sh': "md_write l v (st_shadow st) = Some sh'" "sh_ok sh'" "sh_mem sh' = sh_mem (st_shadow st)"
    using md_write_spec [OF ok] sz(1) by (auto simp: obj_size_def obj_bytes_def only_words_def)
  show thesis
  proof (rule that [OF sh'(1) _ sh'(2,3)])
    show "data_write l v rb st =
      Some (set_bytes (l_object l) (overlay (l_offset l) rb (obj_bytes st (l_object l))) (st\<lparr>st_shadow := sh'\<rparr>))"
      using sz sh' by (simp add: data_write_def obj_bytes_def)
  qed
qed

end
