(* ===== verification/HeapCompare.thy ===== *)
theory HeapCompare
  imports HeapData
begin

unbundle bit_operations_syntax

text \<open>
  Comparison of heaps: of two objects word by word (\<^verbatim>\<open>compare\<close> in \<^verbatim>\<open>src/divine/mem/data.tpp\<close> and
  \<^verbatim>\<open>usermeta.hpp\<close>), of what can be reached from two roots (\<^verbatim>\<open>util.hpp\<close>, \<^verbatim>\<open>util.tpp\<close>), and of two
  states of the program (\<^verbatim>\<open>src/divine/mc/hasher.hpp\<close>). A callback compares two pointers; it has a
  state of its own, and may fail.
\<close>

section \<open>Results\<close>

type_synonym 's cb = "u32 \<Rightarrow> u32 \<Rightarrow> 's \<Rightarrow> (int \<times> 's) option"

text \<open>\<^verbatim>\<open>if ( int v = ... ) return v;\<close> before the rest of a comparison.\<close>

definition or_return :: "(int \<times> 's) option \<Rightarrow> ('s \<Rightarrow> (int \<times> 's) option) \<Rightarrow> (int \<times> 's) option" where
  "or_return r rest =
     (case r of None \<Rightarrow> None | Some (v, s) \<Rightarrow> if v \<noteq> 0 then Some (v, s) else rest s)"

lemma or_return_cong [fundef_cong]:
  "r = r' \<Longrightarrow> (\<And>s. r' = Some (0, s) \<Longrightarrow> f s = g s) \<Longrightarrow> or_return r f = or_return r' g"
  by (auto simp: or_return_def split: option.splits)

section \<open>Two objects\<close>

definition word_at :: "store \<Rightarrow> nat \<Rightarrow> nat \<Rightarrow> u32 option" where
  "word_at st i off =
     asserting (off + 4 \<le> obj_size st i) (Some (of_bytes (take 4 (drop off (obj_bytes st i)))))"

text \<open>The part of a word with fragments of pointers that is data.\<close>

definition cmp_fragments :: "store \<Rightarrow> nat \<Rightarrow> nat \<Rightarrow> nat \<Rightarrow> u32 \<Rightarrow> u32 \<Rightarrow> int option" where
  "cmp_fragments st a b off x y =
     (case (pl_pointer_exception (st_shadow st) a off, pl_pointer_exception (st_shadow st) b off) of
        (Some e_a, Some e_b) \<Rightarrow> Some (sint ((y AND NOT (pe_mask e_b)) - (x AND NOT (pe_mask e_a))))
      | _ \<Rightarrow> None)"

definition cmp_word :: "'s cb \<Rightarrow> store \<Rightarrow> nat \<Rightarrow> nat \<Rightarrow> nat \<Rightarrow> 's \<Rightarrow> (int \<times> 's) option" where
  "cmp_word cb st a b w s =
     (case (md_get (st_shadow st) a w, md_get (st_shadow st) b w, word_at st a (4 * w), word_at st b (4 * w)) of
        (Some c_a, Some c_b, Some x, Some y) \<Rightarrow>
          or_return (Some (of_bool (is_pointer c_b) - of_bool (is_pointer c_a), s)) (\<lambda>s.
          or_return (if is_pointer c_a then cb x y s else Some (0, s)) (\<lambda>s.
          or_return (Some (of_bool (is_pointer_exception c_b) - of_bool (is_pointer_exception c_a), s)) (\<lambda>s.
          or_return (if \<not> is_pointer c_a \<and> is_pointer_exception c_a
                     then map_option (\<lambda>v. (v, s)) (cmp_fragments st a b (4 * w) x y)
                     else Some (0, s)) (\<lambda>s.
          if \<not> is_pointer c_a \<and> \<not> is_pointer_exception c_a then Some (sint (y - x), s)
          else Some (0, s)))))
      | _ \<Rightarrow> None)"

text \<open>The loop over the words, \<open>n\<close> of which are left.\<close>

fun cmp_words :: "'s cb \<Rightarrow> store \<Rightarrow> nat \<Rightarrow> nat \<Rightarrow> nat \<Rightarrow> nat \<Rightarrow> 's \<Rightarrow> (int \<times> 's) option" where
  "cmp_words cb st a b 0 w s = Some (0, s)"
| "cmp_words cb st a b (Suc n) w s =
     or_return (cmp_word cb st a b w s) (\<lambda>s. cmp_words cb st a b n (Suc w) s)"

text \<open>
  The loop over the bytes that are left, which does not move on to the next byte: \<open>x\<close> and \<open>y\<close> are
  the bytes the two pointers stay at. The second result is \<^verbatim>\<open>bytes\<close> after the loop.
\<close>

fun cmp_trailing :: "nat \<Rightarrow> u8 \<Rightarrow> u8 \<Rightarrow> int \<times> nat" where
  "cmp_trailing 0 x y = (0, 0)"
| "cmp_trailing (Suc n) x y =
     (if uint y - uint x \<noteq> 0 then (uint y - uint x, Suc n) else cmp_trailing n x y)"

text \<open>\<^verbatim>\<open>val_cb\<close> and the walk over the user metadata of the two objects.\<close>

definition um_val :: "'s cb \<Rightarrow> meta_type list \<Rightarrow> ival \<Rightarrow> u32 \<Rightarrow> u32 \<Rightarrow> 's \<Rightarrow> (int \<times> 's) option" where
  "um_val cb ltypes k a b s =
     (if ltypes ! offset_tag (ifrom k) = Meta_Pointers then cb a b s else Some (sint (b - a), s))"

fun um_cmp :: "'s cb \<Rightarrow> meta_type list \<Rightarrow> u32 imap \<Rightarrow> u32 imap \<Rightarrow> 's \<Rightarrow> (int \<times> 's) option" where
  "um_cmp cb ltypes [] [] s = Some (0, s)"
| "um_cmp cb ltypes [] (b # bs) s = Some (1, s)"
| "um_cmp cb ltypes (a # as) [] s = Some (- 1, s)"
| "um_cmp cb ltypes (a # as) (b # bs) s =
     or_return (Some (ival_diff (fst a) (fst b), s)) (\<lambda>s.
     or_return (um_val cb ltypes (fst a) (snd a) (snd b) s) (\<lambda>s.
     um_cmp cb ltypes as bs s))"

text \<open>
  \<^verbatim>\<open>UserMeta::compare\<close>, then \<^verbatim>\<open>Metadata::compare\<close> of \<open>sz\<close> bytes. The only caller passes what its loops
  left of the size, which is 0: no word of metadata is looked at, and which callback the layers
  below get does not matter.
\<close>

definition um_compare :: "'s cb \<Rightarrow> store \<Rightarrow> nat \<Rightarrow> nat \<Rightarrow> nat \<Rightarrow> 's \<Rightarrow> (int \<times> 's) option" where
  "um_compare cb st a b sz s =
     or_return (um_cmp cb (st_types st) (sm_view (st_user st) a) (sm_view (st_user st) b) s) (\<lambda>s.
     map_option (\<lambda>v. (v, s)) (md_compare (\<lambda>_ _. 0) a b sz (st_shadow st)))"

definition data_compare :: "'s cb \<Rightarrow> store \<Rightarrow> nat \<Rightarrow> nat \<Rightarrow> nat \<Rightarrow> 's \<Rightarrow> (int \<times> 's) option" where
  "data_compare cb st a b bytes s =
     or_return (cmp_words cb st a b (bytes div 4) 0 s) (\<lambda>s.
     asserting (bytes mod 4 \<noteq> 0 \<longrightarrow> 4 * (bytes div 4) < obj_size st a \<and> 4 * (bytes div 4) < obj_size st b)
       (let (v, bytes) = cmp_trailing (bytes mod 4) (obj_bytes st a ! (4 * (bytes div 4)))
                           (obj_bytes st b ! (4 * (bytes div 4)))
        in or_return (Some (v, s)) (\<lambda>s. um_compare cb st a b bytes s)))"

text \<open>\<^verbatim>\<open>Frontend::compare\<close> with a size asserts that it is the size of both objects.\<close>

definition heap_compare :: "'s cb \<Rightarrow> store \<Rightarrow> nat \<Rightarrow> nat \<Rightarrow> nat \<Rightarrow> 's \<Rightarrow> (int \<times> 's) option" where
  "heap_compare cb st a b sz s =
     asserting (obj_size st a = sz \<and> obj_size st b = sz) (data_compare cb st a b sz s)"

text \<open>
  \<^verbatim>\<open>match\<close> of \<^verbatim>\<open>ObjHasher\<close> (\<^verbatim>\<open>src/divine/mem/cow.tpp\<close>), by which a snapshot shares objects: once the
  hashes agree, the sizes, the bytes and then the metadata decide. Its callback takes the
  difference of the identifiers.
\<close>

definition id_difference :: "unit cb" where
  "id_difference a b s = Some (sint (b - a), s)"

definition objects_match :: "store \<Rightarrow> nat \<Rightarrow> nat \<Rightarrow> bool option" where
  "objects_match st a b =
     (if obj_size st b \<noteq> obj_size st a then Some False
      else if obj_bytes st a \<noteq> obj_bytes st b then Some False
      else map_option (\<lambda>(d, s). d = 0) (data_compare id_difference st a b (obj_size st a) ()))"

section \<open>Everything reachable from two roots\<close>

text \<open>
  \<^verbatim>\<open>v1\<close>, \<^verbatim>\<open>v2\<close> and \<^verbatim>\<open>seq\<close>, and the pairs of marked objects that \<^verbatim>\<open>PairExtract\<close> collects; the other
  callbacks do nothing, and \<^verbatim>\<open>NoopCmp\<close> does not collect the pairs either.
\<close>

record visit =
  vs_one :: "u32 \<Rightarrow> int option"
  vs_two :: "u32 \<Rightarrow> int option"
  vs_seq :: int
  vs_pairs :: "(u32 \<times> u32) list"

definition visit_start :: visit where
  "visit_start = \<lparr>vs_one = Map.empty, vs_two = Map.empty, vs_seq = 1, vs_pairs = []\<rparr>"

fun pointer_type_num :: "pointer_type \<Rightarrow> int" where
  "pointer_type_num PT_Global = 0"
| "pointer_type_num PT_Code = 1"
| "pointer_type_num PT_Alloca = 2"
| "pointer_type_num PT_Heap = 3"
| "pointer_type_num PT_Marked = 4"
| "pointer_type_num PT_Weak = 5"

text \<open>\<^verbatim>\<open>ptr_cb\<close>; \<open>rec\<close> is the comparison of the objects that two pointers name.\<close>

definition cmp_pointer :: "visit cb \<Rightarrow> heap \<Rightarrow> heap \<Rightarrow> visit cb" where
  "cmp_pointer rec h1 h2 p1 p2 v =
     or_return (Some (pointer_type_num (vm_pointer_type p1) - pointer_type_num (vm_pointer_type p2), v)) (\<lambda>v.
     let v = (if vm_pointer_type p1 = PT_Marked \<and> valid_id h1 p1 \<and> valid_id h2 p2
              then v\<lparr>vs_pairs := vs_pairs v @ [(p1, p2)]\<rparr> else v)
     in or_return (if vm_pointer_type p1 = PT_Heap \<or> vm_pointer_type p1 = PT_Alloca
                   then rec p1 p2 v else Some (0, v)) (\<lambda>v.
     if \<not> gp_heap (gp_make p1 0) then Some (sint (p1 - p2), v) else Some (0, v)))"

text \<open>\<^verbatim>\<open>compare\<close>; the first argument bounds the depth of the recursion.\<close>

fun mem_compare :: "nat \<Rightarrow> store \<Rightarrow> heap \<Rightarrow> heap \<Rightarrow> visit cb" where
  "mem_compare 0 st h1 h2 r1 r2 v = None"
| "mem_compare (Suc fuel) st h1 h2 r1 r2 v =
     (case (vs_one v r1, vs_two v r2) of
        (Some m, Some n) \<Rightarrow> Some (m - n, v)
      | (Some m, None) \<Rightarrow> Some (- 1, v)
      | (None, Some n) \<Rightarrow> Some (1, v)
      | (None, None) \<Rightarrow>
          let v = v\<lparr>vs_one := (vs_one v)(r1 \<mapsto> vs_seq v), vs_two := (vs_two v)(r2 \<mapsto> vs_seq v),
                    vs_seq := vs_seq v + 1\<rparr>
          in or_return (Some (of_bool (valid_id h1 r1) - of_bool (valid_id h2 r2), v)) (\<lambda>v.
             if \<not> valid_id h1 r1 then Some (0, v)
             else let i1 = ptr2i h1 r1; i2 = ptr2i h2 r2
                  in or_return (Some (int (obj_size st i1) - int (obj_size st i2), v)) (\<lambda>v.
                     heap_compare (cmp_pointer (mem_compare fuel st h1 h2) h1 h2) st i1 i2 (obj_size st i1) v)))"

section \<open>Two states\<close>

text \<open>
  The heaps \<^verbatim>\<open>_h1\<close> and \<^verbatim>\<open>_h2\<close> of \<^verbatim>\<open>Hasher\<close> after \<^verbatim>\<open>restore\<close>. A snapshot is the list of its items; both
  comparisons ask first whether the items are the same.
\<close>

definition restored :: "objmap \<Rightarrow> heap" where
  "restored s = \<lparr>hp_exc = [], hp_snap = s\<rparr>"

definition equal_fastpath :: "objmap \<Rightarrow> objmap \<Rightarrow> bool" where
  "equal_fastpath a b \<longleftrightarrow> length a = length b \<and> list_all2 (=) a b"

definition equal_explicit :: "nat \<Rightarrow> store \<Rightarrow> u32 \<Rightarrow> objmap \<Rightarrow> objmap \<Rightarrow> bool option" where
  "equal_explicit fuel st root a b =
     (if equal_fastpath a b then Some True
      else map_option (\<lambda>(d, v). d = 0) (mem_compare fuel st (restored a) (restored b) root root visit_start))"

definition equal_symbolic ::
  "((u32 \<times> u32) list \<Rightarrow> bool) \<Rightarrow> nat \<Rightarrow> store \<Rightarrow> u32 \<Rightarrow> objmap \<Rightarrow> objmap \<Rightarrow> bool option" where
  "equal_symbolic solver fuel st root a b =
     (if equal_fastpath a b then Some True
      else map_option (\<lambda>(d, v). d = 0 \<and> (vs_pairs v = [] \<or> solver (vs_pairs v)))
             (mem_compare fuel st (restored a) (restored b) root root visit_start))"

end
