(* ===== verification/HeapCompareFacts.thy ===== *)
theory HeapCompareFacts
  imports HeapCompare MetadataProps
begin

unbundle bit_operations_syntax

text \<open>
  What the comparison of two objects decides, for every callback that keeps a contract, and from
  it what the comparison of two heaps decides: whether the objects that can be reached can be matched,
  one to one, such that matched ones are alike in what the comparison looks at. Whether that is an
  isomorphism is the subject of \<open>HeapSame\<close>.
\<close>

section \<open>Results\<close>

lemma or_return_None [simp]: "or_return None f = None"
  and or_return_Some [simp]: "or_return (Some (v, s)) f = (if v \<noteq> 0 then Some (v, s) else f s)"
  by (simp_all add: or_return_def)

lemma or_return_if [simp]:
  "or_return (if b then r else r') f = (if b then or_return r f else or_return r' f)"
  by simp

lemma or_return_zero:
  "or_return r f = Some (0, s') \<longleftrightarrow> (\<exists>s. r = Some (0, s) \<and> f s = Some (0, s'))"
  by (cases r) (auto simp: or_return_def split: prod.splits)

lemma sint_zero_iff [simp]: "sint (y - x :: 'a::len word) = 0 \<longleftrightarrow> y = x"
  by (metis eq_iff_diff_eq_0 signed_0 signed_word_eqI)

lemma ival_diff_0: "ival_diff i j = 0 \<longleftrightarrow> i = j"
  by (auto simp: ival_diff_def)

lemma of_bool_diff_0 [simp]: "of_bool b - of_bool c = (0 :: int) \<longleftrightarrow> b = c"
  by (cases b; cases c) simp_all

lemma pointer_type_num_eq [simp]: "pointer_type_num t = pointer_type_num t' \<longleftrightarrow> t = t'"
  by (cases t; cases t') simp_all

lemma cmp_trailing_eq:
  "cmp_trailing n x y = (if n = 0 \<or> x = y then (0, 0) else (uint y - uint x, n))"
  by (induction n) (auto simp: word_uint_eq_iff)

lemma md_compare_nothing [simp]: "md_compare cb a b 0 sh = Some 0"
  by (simp add: md_compare_def align_def)

section \<open>Objects that are alike\<close>

text \<open>
  What two words, and two objects, have in common that compare as equal; \<open>P\<close> relates the pointers
  in them. This is what the code looks at and no more: of the bytes after the last word only the first
  one; of a word with fragments of pointers only the bytes that are none; of the metadata only which
  words are pointers and which have fragments, and neither definedness nor taint.
\<close>

definition data_part :: "store \<Rightarrow> nat \<Rightarrow> nat \<Rightarrow> u32 option" where
  "data_part st i w =
     map_option (\<lambda>e. the (word_at st i (4 * w)) AND NOT (pe_mask e))
       (pl_pointer_exception (st_shadow st) i (4 * w))"

definition word_kind :: "store \<Rightarrow> nat \<Rightarrow> nat \<Rightarrow> bool \<times> bool" where
  "word_kind st i w =
     (let c = sh_meta (st_shadow st) i ! w in (is_pointer c, is_pointer_exception c))"

definition word_alike :: "(u32 \<Rightarrow> u32 \<Rightarrow> bool) \<Rightarrow> store \<Rightarrow> nat \<Rightarrow> nat \<Rightarrow> nat \<Rightarrow> bool" where
  "word_alike P st a b w \<longleftrightarrow>
     word_kind st a w = word_kind st b w \<and>
     (let x = the (word_at st a (4 * w)); y = the (word_at st b (4 * w))
      in if fst (word_kind st a w) then P x y
         else if snd (word_kind st a w) then data_part st a w = data_part st b w
         else x = y)"

definition user_related :: "(u32 \<Rightarrow> u32 \<Rightarrow> bool) \<Rightarrow> meta_type list \<Rightarrow> u32 imap \<Rightarrow> u32 imap \<Rightarrow> bool" where
  "user_related P ltypes =
     list_all2 (\<lambda>e f. fst e = fst f \<and>
       (if ltypes ! offset_tag (ifrom (fst e)) = Meta_Pointers then P (snd e) (snd f) else snd e = snd f))"

definition object_alike :: "(u32 \<Rightarrow> u32 \<Rightarrow> bool) \<Rightarrow> store \<Rightarrow> nat \<Rightarrow> nat \<Rightarrow> bool" where
  "object_alike P st a b \<longleftrightarrow>
     obj_size st a = obj_size st b \<and>
     (\<forall>w < obj_size st a div 4. word_alike P st a b w) \<and>
     (obj_size st a mod 4 \<noteq> 0 \<longrightarrow>
        obj_bytes st a ! (4 * (obj_size st a div 4)) = obj_bytes st b ! (4 * (obj_size st a div 4))) \<and>
     user_related P (st_types st) (sm_view (st_user st) a) (sm_view (st_user st) b)"

lemma word_alike_mono: "P \<le> Q \<Longrightarrow> word_alike P st a b w \<Longrightarrow> word_alike Q st a b w"
  by (auto simp: word_alike_def Let_def split: if_splits)

lemma user_related_mono: "P \<le> Q \<Longrightarrow> user_related P ltypes as bs \<Longrightarrow> user_related Q ltypes as bs"
  unfolding user_related_def by (erule list_all2_mono) (auto split: if_splits)

lemma object_alike_mono: "P \<le> Q \<Longrightarrow> object_alike P st a b \<Longrightarrow> object_alike Q st a b"
  unfolding object_alike_def using word_alike_mono [of P Q] user_related_mono [of P Q] by blast

section \<open>The objects are there\<close>

lemma word_at_Some: "4 * w + 4 \<le> obj_size st i \<Longrightarrow> word_at st i (4 * w) = Some (the (word_at st i (4 * w)))"
  by (simp add: word_at_def)

lemma md_get_Some:
  assumes "sh_ok (st_shadow st)" "4 * w + 4 \<le> obj_size st i"
  shows "md_get (st_shadow st) i w = Some (sh_meta (st_shadow st) i ! w)"
proof -
  have "length (sh_meta (st_shadow st) i) = meta_size (obj_size st i)"
    using assms(1) by (simp add: sh_ok_def obj_size_def obj_bytes_def)
  then show ?thesis using assms(2) by (simp add: md_get_eq meta_size_eq)
qed

lemma pointer_exception_Some:
  assumes "sh_ok (st_shadow st)" "4 * w + 4 \<le> obj_size st i"
    and "is_pointer_exception (sh_meta (st_shadow st) i ! w)"
  shows "\<exists>e. pl_pointer_exception (st_shadow st) i (4 * w) = Some e"
proof -
  have len: "length (sh_meta (st_shadow st) i) = meta_size (obj_size st i)"
    using assms(1) by (simp add: sh_ok_def obj_size_def obj_bytes_def)
  have "w < length (sh_meta (st_shadow st) i)" using len assms(2) by (simp add: meta_size_eq)
  then have "word_ok (st_shadow st) i w (expand (sh_meta (st_shadow st) i ! w))"
    using assms(1) by (simp add: sh_ok_def)
  then show ?thesis
    using assms(3) by (auto simp: word_ok_def pl_read_ptr_def predicates_expand)
qed

section \<open>The contract of a callback\<close>

text \<open>
  Where the callback says 0 in a state with the invariant, its state has grown and knows that the
  two pointers are related; where the two are related as in \<open>target\<close>, and the state has not gone
  beyond that (\<open>within\<close>), it says 0.
\<close>

locale pointer_callback =
  fixes cb :: "'s cb"
    and inv :: "'s \<Rightarrow> bool"
    and grows :: "'s \<Rightarrow> 's \<Rightarrow> bool"
    and related :: "'s \<Rightarrow> u32 \<Rightarrow> u32 \<Rightarrow> bool"
    and within :: "'s \<Rightarrow> bool"
    and target :: "u32 \<Rightarrow> u32 \<Rightarrow> bool"
  assumes grows_refl: "grows s s"
    and grows_trans: "grows s s' \<Longrightarrow> grows s' s'' \<Longrightarrow> grows s s''"
    and related_grows: "grows s s' \<Longrightarrow> related s \<le> related s'"
    and cb_total: "inv s \<Longrightarrow> \<exists>d s'. cb x y s = Some (d, s')"
    and cb_zero: "inv s \<Longrightarrow> cb x y s = Some (0, s') \<Longrightarrow> inv s' \<and> grows s s' \<and> related s' x y"
    and cb_target: "inv s \<Longrightarrow> within s \<Longrightarrow> target x y \<Longrightarrow> cb x y s = Some (d, s') \<Longrightarrow> d = 0 \<and> within s'"
begin

text \<open>A comparison \<open>f\<close> decides \<open>Q\<close>: it ends, and its result is 0 as \<open>Q\<close> says.\<close>

definition decides :: "('s \<Rightarrow> (int \<times> 's) option) \<Rightarrow> ((u32 \<Rightarrow> u32 \<Rightarrow> bool) \<Rightarrow> bool) \<Rightarrow> bool" where
  "decides f Q \<longleftrightarrow> (\<forall>s. inv s \<longrightarrow>
     (\<exists>d s'. f s = Some (d, s') \<and>
        (d = 0 \<longrightarrow> inv s' \<and> grows s s' \<and> Q (related s')) \<and>
        (within s \<and> Q target \<longrightarrow> d = 0 \<and> within s')))"

lemma decides_cb: "decides (cb x y) (\<lambda>P. P x y)"
  unfolding decides_def using cb_total [of _ x y] cb_zero [of _ x y] cb_target [of _ x y] by metis

lemma decides_const: "(v = 0 \<longleftrightarrow> b) \<Longrightarrow> decides (\<lambda>s. Some (v, s)) (\<lambda>_. b)"
  unfolding decides_def using grows_refl by auto

lemma decides_cong: "(\<And>s. f s = g s) \<Longrightarrow> decides g Q \<Longrightarrow> decides f Q"
  unfolding decides_def by simp

lemma decides_or_return:
  assumes f: "decides f Q" and g: "\<And>P. Q P \<Longrightarrow> decides g Q'" and m: "mono Q"
  shows "decides (\<lambda>s. or_return (f s) g) (\<lambda>P. Q P \<and> Q' P)"
  unfolding decides_def
proof (intro allI impI)
  fix s assume s: "inv s"
  then obtain d s' where d: "f s = Some (d, s')" "d = 0 \<Longrightarrow> inv s' \<and> grows s s' \<and> Q (related s')"
    "within s \<and> Q target \<Longrightarrow> d = 0 \<and> within s'"
    using f unfolding decides_def by blast
  show "\<exists>d s'. or_return (f s) g = Some (d, s') \<and>
      (d = 0 \<longrightarrow> inv s' \<and> grows s s' \<and> Q (related s') \<and> Q' (related s')) \<and>
      (within s \<and> Q target \<and> Q' target \<longrightarrow> d = 0 \<and> within s')"
  proof (cases "d = 0")
    case False
    then show ?thesis using d by auto
  next
    case True
    then have s': "inv s'" "grows s s'" "Q (related s')" using d(2) by auto
    then obtain e t where e: "g s' = Some (e, t)" "e = 0 \<Longrightarrow> inv t \<and> grows s' t \<and> Q' (related t)"
      "within s' \<and> Q' target \<Longrightarrow> e = 0 \<and> within t"
      using g [OF s'(3)] unfolding decides_def by blast
    have "Q (related t)" if "e = 0"
    proof -
      have "related s' \<le> related t" using e(2) [OF that] by (intro related_grows) simp
      then have "Q (related s') \<le> Q (related t)" by (rule monoD [OF m])
      then show ?thesis using s'(3) by simp
    qed
    then show ?thesis
      using True d(1,3) e s' by (auto intro: grows_trans)
  qed
qed

lemma decides_iff: "decides f Q \<Longrightarrow> (\<And>P. Q P \<longleftrightarrow> Q' P) \<Longrightarrow> decides f Q'"
  unfolding decides_def by simp

lemma mono_const: "mono (\<lambda>P :: u32 \<Rightarrow> u32 \<Rightarrow> bool. b)"
  by (rule monoI) simp

lemma mono_at: "mono (\<lambda>P :: u32 \<Rightarrow> u32 \<Rightarrow> bool. P x y)"
  by (rule monoI) (auto simp: le_fun_def)

lemma mono_word: "mono (\<lambda>P. word_alike P st a b w)"
  by (rule monoI) (auto intro: word_alike_mono)

lemma mono_words: "mono (\<lambda>P. \<forall>i. R i \<longrightarrow> word_alike P st a b i)"
proof (rule monoI, rule le_boolI)
  fix P Q :: "u32 \<Rightarrow> u32 \<Rightarrow> bool"
  assume "P \<le> Q" "\<forall>i. R i \<longrightarrow> word_alike P st a b i"
  then show "\<forall>i. R i \<longrightarrow> word_alike Q st a b i" using word_alike_mono [of P Q] by blast
qed

lemma mono_user: "mono (\<lambda>P. user_related P ltypes as bs)"
  by (rule monoI) (auto intro: user_related_mono)

lemma decides_if:
  "decides f Q \<Longrightarrow> decides g R \<Longrightarrow> decides (\<lambda>s. if b then f s else g s) (\<lambda>P. if b then Q P else R P)"
  by (cases b) simp_all

lemma mono_if: "mono Q \<Longrightarrow> mono R \<Longrightarrow> mono (\<lambda>P :: u32 \<Rightarrow> u32 \<Rightarrow> bool. if b then Q P else R P)"
  by (cases b) simp_all

lemma decides_fragments:
  assumes "sh_ok (st_shadow st)" "4 * w + 4 \<le> obj_size st a" "4 * w + 4 \<le> obj_size st b"
    and "is_pointer_exception (sh_meta (st_shadow st) a ! w)"
    and "is_pointer_exception (sh_meta (st_shadow st) b ! w)"
    and "word_at st a (4 * w) = Some x" "word_at st b (4 * w) = Some y"
  shows "decides (\<lambda>s. map_option (\<lambda>v. (v, s)) (cmp_fragments st a b (4 * w) x y))
    (\<lambda>_. data_part st a w = data_part st b w)"
proof -
  obtain e e' where e: "pl_pointer_exception (st_shadow st) a (4 * w) = Some e"
    "pl_pointer_exception (st_shadow st) b (4 * w) = Some e'"
    using pointer_exception_Some [OF assms(1,2,4)] pointer_exception_Some [OF assms(1,3,5)] by blast
  show ?thesis
    unfolding cmp_fragments_def e using assms(6,7)
    by (simp, intro decides_const) (auto simp: data_part_def e)
qed

lemma decides_word:
  assumes ok: "sh_ok (st_shadow st)" and a: "4 * w + 4 \<le> obj_size st a" and b: "4 * w + 4 \<le> obj_size st b"
  shows "decides (cmp_word cb st a b w) (\<lambda>P. word_alike P st a b w)"
proof -
  let ?ca = "sh_meta (st_shadow st) a ! w" and ?cb = "sh_meta (st_shadow st) b ! w"
  obtain x y where xy: "word_at st a (4 * w) = Some x" "word_at st b (4 * w) = Some y"
    using word_at_Some [OF a] word_at_Some [OF b] by blast
  have eq: "cmp_word cb st a b w s =
      or_return (Some (of_bool (is_pointer ?cb) - of_bool (is_pointer ?ca), s)) (\<lambda>s.
      or_return (if is_pointer ?ca then cb x y s else Some (0, s)) (\<lambda>s.
      or_return (Some (of_bool (is_pointer_exception ?cb) - of_bool (is_pointer_exception ?ca), s)) (\<lambda>s.
      or_return (if \<not> is_pointer ?ca \<and> is_pointer_exception ?ca
                 then map_option (\<lambda>v. (v, s)) (cmp_fragments st a b (4 * w) x y)
                 else Some (0, s)) (\<lambda>s.
      if \<not> is_pointer ?ca \<and> \<not> is_pointer_exception ?ca then Some (sint (y - x), s)
      else Some (0, s)))))" for s
    unfolding cmp_word_def md_get_Some [OF ok a] md_get_Some [OF ok b] xy
    by (simp only: option.case prod.case option.sel)
  let ?Q = "\<lambda>P. is_pointer ?cb = is_pointer ?ca \<and>
    ((if is_pointer ?ca then P x y else True) \<and>
    (is_pointer_exception ?cb = is_pointer_exception ?ca \<and>
    ((if \<not> is_pointer ?ca \<and> is_pointer_exception ?ca then data_part st a w = data_part st b w else True) \<and>
    (if \<not> is_pointer ?ca \<and> \<not> is_pointer_exception ?ca then y = x else True))))"
  have frag: "decides (\<lambda>s. if \<not> is_pointer ?ca \<and> is_pointer_exception ?ca
                 then map_option (\<lambda>v. (v, s)) (cmp_fragments st a b (4 * w) x y)
                 else Some (0, s))
      (\<lambda>_. if \<not> is_pointer ?ca \<and> is_pointer_exception ?ca then data_part st a w = data_part st b w else True)"
    if "is_pointer_exception ?cb = is_pointer_exception ?ca"
  proof (cases "\<not> is_pointer ?ca \<and> is_pointer_exception ?ca")
    case True
    then show ?thesis using that by (simp add: decides_fragments [OF ok a b _ _ xy])
  next
    case False
    then show ?thesis unfolding if_not_P [OF False] by (intro decides_const) simp
  qed
  have "decides (cmp_word cb st a b w) ?Q"
    unfolding eq [abs_def]
    by (intro decides_or_return decides_if decides_cb decides_const mono_const mono_at mono_if frag)
      (simp_all only: of_bool_diff_0 sint_zero_iff simp_thms)
  then show ?thesis
    by (rule decides_iff) (auto simp: word_alike_def word_kind_def Let_def xy)
qed

lemma decides_words:
  assumes "sh_ok (st_shadow st)" "4 * (w + n) \<le> obj_size st a" "4 * (w + n) \<le> obj_size st b"
  shows "decides (cmp_words cb st a b n w) (\<lambda>P. \<forall>i. w \<le> i \<and> i < w + n \<longrightarrow> word_alike P st a b i)"
  using assms(2,3)
proof (induction n arbitrary: w)
  case 0
  then show ?case using decides_const [of 0 True] by (auto intro: decides_iff)
next
  case (Suc n)
  have "decides (\<lambda>s. or_return (cmp_word cb st a b w s) (cmp_words cb st a b n (Suc w)))
      (\<lambda>P. word_alike P st a b w \<and> (\<forall>i. Suc w \<le> i \<and> i < Suc w + n \<longrightarrow> word_alike P st a b i))"
    using Suc.prems by (intro decides_or_return decides_word assms(1) Suc.IH mono_word) simp_all
  moreover have "(word_alike P st a b w \<and> (\<forall>i. Suc w \<le> i \<and> i < Suc w + n \<longrightarrow> word_alike P st a b i)) \<longleftrightarrow>
      (\<forall>i. w \<le> i \<and> i < w + Suc n \<longrightarrow> word_alike P st a b i)" for P
    by (metis Suc_leI add_Suc_right add_Suc add.commute le_eq_less_or_eq less_add_Suc1 order_refl Suc_leD)
  ultimately show ?case unfolding cmp_words.simps [abs_def] by (rule decides_iff)
qed

lemma decides_val:
  "decides (um_val cb ltypes k a b)
    (\<lambda>P. if ltypes ! offset_tag (ifrom k) = Meta_Pointers then P a b else a = b)"
  unfolding um_val_def [abs_def] by (intro decides_if decides_cb decides_const) auto

lemma decides_user: "decides (um_cmp cb ltypes as bs) (\<lambda>P. user_related P ltypes as bs)"
proof (induction as arbitrary: bs)
  case Nil
  then show ?case
    using decides_const [of 0 True] decides_const [of 1 False]
    by (cases bs) (simp_all add: user_related_def)
next
  case (Cons a as)
  show ?case
  proof (cases bs)
    case Nil
    then show ?thesis using decides_const [of "- 1" False] by (simp add: user_related_def)
  next
    case (Cons b bs')
    let ?v = "\<lambda>P. if ltypes ! offset_tag (ifrom (fst a)) = Meta_Pointers then P (snd a) (snd b) else snd a = snd b"
    have "decides (um_cmp cb ltypes (a # as) (b # bs'))
        (\<lambda>P. fst a = fst b \<and> (?v P \<and> user_related P ltypes as bs'))"
      unfolding um_cmp.simps [abs_def]
      by (intro decides_or_return decides_val decides_const Cons.IH mono_const mono_if mono_at)
        (simp_all only: ival_diff_0)
    then show ?thesis unfolding Cons by (rule decides_iff) (auto simp: user_related_def)
  qed
qed

text \<open>The comparison of two objects of the same size.\<close>

lemma decides_data:
  assumes ok: "sh_ok (st_shadow st)" and sz: "obj_size st a = n" "obj_size st b = n"
  shows "decides (data_compare cb st a b n) (\<lambda>P. object_alike P st a b)"
proof -
  let ?x = "obj_bytes st a ! (4 * (n div 4))" and ?y = "obj_bytes st b ! (4 * (n div 4))"
  have words: "decides (cmp_words cb st a b (n div 4) 0)
      (\<lambda>P. \<forall>i. 0 \<le> i \<and> i < 0 + n div 4 \<longrightarrow> word_alike P st a b i)"
    by (rule decides_words [OF ok]) (simp_all add: sz)
  have user: "decides (um_compare cb st a b 0)
      (\<lambda>P. user_related P (st_types st) (sm_view (st_user st) a) (sm_view (st_user st) b) \<and> True)"
    unfolding um_compare_def [abs_def]
    by (intro decides_or_return decides_user mono_user) (simp add: decides_const)
  have "n mod 4 \<noteq> 0 \<Longrightarrow> 4 * (n div 4) < n" by presburger
  then have inside: "(n mod 4 \<noteq> 0 \<longrightarrow> 4 * (n div 4) < n \<and> 4 * (n div 4) < n) = True" by simp
  have rest: "decides (\<lambda>s. let (v, bytes) = cmp_trailing (n mod 4) ?x ?y
        in or_return (Some (v, s)) (\<lambda>s. um_compare cb st a b bytes s))
      (\<lambda>P. (n mod 4 \<noteq> 0 \<longrightarrow> ?x = ?y) \<and>
         (user_related P (st_types st) (sm_view (st_user st) a) (sm_view (st_user st) b) \<and> True))"
  proof (cases "n mod 4 = 0 \<or> ?x = ?y")
    case True
    then have "decides (um_compare cb st a b 0) (\<lambda>P. (n mod 4 \<noteq> 0 \<longrightarrow> ?x = ?y) \<and>
         (user_related P (st_types st) (sm_view (st_user st) a) (sm_view (st_user st) b) \<and> True))"
      by (intro decides_iff [OF user]) auto
    then show ?thesis using True by (simp add: cmp_trailing_eq)
  next
    case False
    then have "uint ?y \<noteq> uint ?x" by (simp add: word_uint_eq_iff)
    then have "decides (\<lambda>s. Some (uint ?y - uint ?x, s)) (\<lambda>P. (n mod 4 \<noteq> 0 \<longrightarrow> ?x = ?y) \<and>
         (user_related P (st_types st) (sm_view (st_user st) a) (sm_view (st_user st) b) \<and> True))"
      using False decides_const [of "uint ?y - uint ?x" False] by simp
    then show ?thesis using False \<open>uint ?y \<noteq> uint ?x\<close> by (simp add: cmp_trailing_eq)
  qed
  have "decides (data_compare cb st a b n)
      (\<lambda>P. (\<forall>i. 0 \<le> i \<and> i < 0 + n div 4 \<longrightarrow> word_alike P st a b i) \<and>
        ((n mod 4 \<noteq> 0 \<longrightarrow> ?x = ?y) \<and>
         (user_related P (st_types st) (sm_view (st_user st) a) (sm_view (st_user st) b) \<and> True)))"
    unfolding data_compare_def [abs_def] sz inside if_True
    by (intro decides_or_return words rest mono_words)
  then show ?thesis by (rule decides_iff) (auto simp: object_alike_def sz)
qed

end

section \<open>Heaps that are alike\<close>

text \<open>
  Pointers are related if they are of the same type and, by their type, name objects that are
  related by \<open>R\<close>, are the same, or are of no further interest (marked and weak pointers).
\<close>

definition ptr_related :: "(u32 \<times> u32) set \<Rightarrow> u32 \<Rightarrow> u32 \<Rightarrow> bool" where
  "ptr_related R x y \<longleftrightarrow> vm_pointer_type x = vm_pointer_type y \<and>
     (vm_pointer_type x = PT_Heap \<or> vm_pointer_type x = PT_Alloca \<longrightarrow> (x, y) \<in> R) \<and>
     (vm_pointer_type x = PT_Global \<or> vm_pointer_type x = PT_Code \<longrightarrow> x = y)"

definition node_alike ::
  "(u32 \<times> u32) set \<Rightarrow> store \<Rightarrow> heap \<Rightarrow> heap \<Rightarrow> u32 \<Rightarrow> u32 \<Rightarrow> bool" where
  "node_alike R st h1 h2 p q \<longleftrightarrow> valid_id h1 p = valid_id h2 q \<and>
     (valid_id h1 p \<longrightarrow> object_alike (ptr_related R) st (ptr2i h1 p) (ptr2i h2 q))"

definition heap_alike :: "(u32 \<times> u32) set \<Rightarrow> store \<Rightarrow> heap \<Rightarrow> heap \<Rightarrow> bool" where
  "heap_alike R st h1 h2 \<longleftrightarrow> single_valued R \<and> single_valued (R\<inverse>) \<and>
     (\<forall>p q. (p, q) \<in> R \<longrightarrow> node_alike R st h1 h2 p q)"

definition alike :: "store \<Rightarrow> heap \<Rightarrow> heap \<Rightarrow> u32 \<Rightarrow> u32 \<Rightarrow> bool" where
  "alike st h1 h2 r1 r2 \<longleftrightarrow> (\<exists>R. heap_alike R st h1 h2 \<and> (r1, r2) \<in> R)"

lemma ptr_related_mono: "R \<subseteq> R' \<Longrightarrow> ptr_related R \<le> ptr_related R'"
  by (intro le_funI le_boolI) (unfold ptr_related_def, blast)

lemma node_alike_mono:
  assumes "R \<subseteq> R'" "node_alike R st h1 h2 p q"
  shows "node_alike R' st h1 h2 p q"
proof -
  note m = object_alike_mono [OF ptr_related_mono [OF assms(1)], of st "ptr2i h1 p" "ptr2i h2 q"]
  show ?thesis using assms(2) m by (simp add: node_alike_def)
qed

section \<open>What has been visited\<close>

definition vs_rel :: "visit \<Rightarrow> (u32 \<times> u32) set" where
  "vs_rel v = {(p, q). \<exists>n. vs_one v p = Some n \<and> vs_two v q = Some n}"

definition visit_ok :: "visit \<Rightarrow> bool" where
  "visit_ok v \<longleftrightarrow>
     (\<forall>p n. vs_one v p = Some n \<longrightarrow> n < vs_seq v) \<and>
     (\<forall>p n. vs_two v p = Some n \<longrightarrow> n < vs_seq v) \<and>
     (\<forall>p q n. vs_one v p = Some n \<and> vs_one v q = Some n \<longrightarrow> p = q) \<and>
     (\<forall>p q n. vs_two v p = Some n \<and> vs_two v q = Some n \<longrightarrow> p = q) \<and>
     (\<forall>n. (\<exists>p. vs_one v p = Some n) \<longleftrightarrow> (\<exists>q. vs_two v q = Some n))"

definition enough :: "heap \<Rightarrow> nat \<Rightarrow> visit \<Rightarrow> bool" where
  "enough h1 fuel v \<longleftrightarrow> visit_ok v \<and> card {p. valid_id h1 p \<and> vs_one v p = None} < fuel"

definition visits :: "store \<Rightarrow> heap \<Rightarrow> heap \<Rightarrow> visit \<Rightarrow> visit \<Rightarrow> bool" where
  "visits st h1 h2 v v' \<longleftrightarrow> vs_rel v \<subseteq> vs_rel v' \<and>
     (\<forall>p q. (p, q) \<in> vs_rel v' - vs_rel v \<longrightarrow> node_alike (vs_rel v') st h1 h2 p q)"

definition inside :: "(u32 \<times> u32) set \<Rightarrow> store \<Rightarrow> heap \<Rightarrow> heap \<Rightarrow> visit \<Rightarrow> bool" where
  "inside R st h1 h2 v \<longleftrightarrow> heap_alike R st h1 h2 \<and> vs_rel v \<subseteq> R"

lemma visits_refl: "visits st h1 h2 v v"
  by (simp add: visits_def)

lemma visits_trans:
  assumes "visits st h1 h2 v v'" "visits st h1 h2 v' v''"
  shows "visits st h1 h2 v v''"
  using assms node_alike_mono unfolding visits_def by blast

definition add_visit :: "u32 \<Rightarrow> u32 \<Rightarrow> visit \<Rightarrow> visit" where
  "add_visit r1 r2 v = v\<lparr>vs_one := (vs_one v)(r1 \<mapsto> vs_seq v), vs_two := (vs_two v)(r2 \<mapsto> vs_seq v),
     vs_seq := vs_seq v + 1\<rparr>"

lemma add_visit_simps [simp]:
  "vs_one (add_visit r1 r2 v) = (vs_one v)(r1 \<mapsto> vs_seq v)"
  "vs_two (add_visit r1 r2 v) = (vs_two v)(r2 \<mapsto> vs_seq v)"
  "vs_seq (add_visit r1 r2 v) = vs_seq v + 1"
  by (simp_all add: add_visit_def)

lemma visit_ok_fresh:
  "visit_ok v \<Longrightarrow> vs_one v p \<noteq> Some (vs_seq v)" "visit_ok v \<Longrightarrow> vs_two v p \<noteq> Some (vs_seq v)"
  unfolding visit_ok_def by (metis less_irrefl)+

lemma vs_rel_add:
  assumes "visit_ok v" "vs_one v r1 = None" "vs_two v r2 = None"
  shows "vs_rel (add_visit r1 r2 v) = insert (r1, r2) (vs_rel v)"
proof -
  note fresh = visit_ok_fresh [OF assms(1)]
  have "(p, q) \<in> vs_rel (add_visit r1 r2 v) \<longleftrightarrow> (p, q) = (r1, r2) \<or> (p, q) \<in> vs_rel v" for p q
    using assms(2,3) fresh(1) [of p] fresh(2) [of q]
    by (cases "p = r1"; cases "q = r2") (auto simp: vs_rel_def)
  then show ?thesis by auto
qed

lemma visit_ok_add:
  assumes v: "visit_ok v" and new: "vs_one v r1 = None" "vs_two v r2 = None"
  shows "visit_ok (add_visit r1 r2 v)"
proof -
  have one: "n < vs_seq v" if "vs_one v p = Some n" for p n using v that unfolding visit_ok_def by blast
  have two: "n < vs_seq v" if "vs_two v p = Some n" for p n using v that unfolding visit_ok_def by blast
  have inj: "vs_one v p = Some n \<Longrightarrow> vs_one v q = Some n \<Longrightarrow> p = q"
    "vs_two v p = Some n \<Longrightarrow> vs_two v q = Some n \<Longrightarrow> p = q"
    "(\<exists>p. vs_one v p = Some n) \<longleftrightarrow> (\<exists>q. vs_two v q = Some n)" for p q n
    using v unfolding visit_ok_def by blast+
  have ex: "(\<exists>p. ((vs_one v)(r1 \<mapsto> vs_seq v)) p = Some n) \<longleftrightarrow> n = vs_seq v \<or> (\<exists>p. vs_one v p = Some n)"
    "(\<exists>p. ((vs_two v)(r2 \<mapsto> vs_seq v)) p = Some n) \<longleftrightarrow> n = vs_seq v \<or> (\<exists>p. vs_two v p = Some n)" for n
    using new by (metis fun_upd_apply option.distinct(1) option.inject)+
  have lt: "m < vs_seq v + 1" if "((vs_one v)(r1 \<mapsto> vs_seq v)) p = Some m \<or> ((vs_two v)(r2 \<mapsto> vs_seq v)) p = Some m"
    for p m
    using that one [of p m] two [of p m] by (auto split: if_splits)
  have inj': "p = q" if "(f(r \<mapsto> vs_seq v)) p = Some m" "(f(r \<mapsto> vs_seq v)) q = Some m"
    and "\<And>p. f p \<noteq> Some (vs_seq v)" "f p = Some m \<Longrightarrow> f q = Some m \<Longrightarrow> p = q"
    for f :: "u32 \<Rightarrow> int option" and r p q m
    using that(1,2,4) that(3) [of p] that(3) [of q] by (auto split: if_splits)
  show ?thesis
    unfolding visit_ok_def add_visit_simps ex inj(3)
    using lt inj' [where f = "vs_one v", OF _ _ visit_ok_fresh(1) [OF v] inj(1)]
      inj' [where f = "vs_two v", OF _ _ visit_ok_fresh(2) [OF v] inj(2)]
    by blast
qed

section \<open>The comparison of heaps\<close>

lemma pairs_simps [simp]:
  "vs_rel (v\<lparr>vs_pairs := ps\<rparr>) = vs_rel v"
  "visit_ok (v\<lparr>vs_pairs := ps\<rparr>) = visit_ok v"
  "enough h1 n (v\<lparr>vs_pairs := ps\<rparr>) = enough h1 n v"
  "inside R st h1 h2 (v\<lparr>vs_pairs := ps\<rparr>) = inside R st h1 h2 v"
  "visits st h1 h2 (v\<lparr>vs_pairs := ps\<rparr>) v' = visits st h1 h2 v v'"
  "visits st h1 h2 u (v\<lparr>vs_pairs := ps\<rparr>) = visits st h1 h2 u v"
  by (simp_all add: vs_rel_def visit_ok_def enough_def inside_def visits_def)

definition mark_pair :: "heap \<Rightarrow> heap \<Rightarrow> u32 \<Rightarrow> u32 \<Rightarrow> visit \<Rightarrow> visit" where
  "mark_pair h1 h2 p1 p2 v =
     (if vm_pointer_type p1 = PT_Marked \<and> valid_id h1 p1 \<and> valid_id h2 p2
      then v\<lparr>vs_pairs := vs_pairs v @ [(p1, p2)]\<rparr> else v)"

lemma or_return_zero_right: "or_return r (\<lambda>s. Some (0, s)) = r"
  by (cases r) (auto simp: or_return_def)

lemma not_heap_iff: "\<not> gp_heap (gp_make x 0) \<longleftrightarrow> vm_pointer_type x = PT_Global \<or> vm_pointer_type x = PT_Code"
  by (simp add: gp_heap_iff_type gp_type_def)

lemma cmp_pointer_eq:
  "cmp_pointer rec h1 h2 x y v =
     (if vm_pointer_type x \<noteq> vm_pointer_type y
      then Some (pointer_type_num (vm_pointer_type x) - pointer_type_num (vm_pointer_type y), v)
      else let v = mark_pair h1 h2 x y v
           in if vm_pointer_type x = PT_Heap \<or> vm_pointer_type x = PT_Alloca then rec x y v
              else if vm_pointer_type x = PT_Global \<or> vm_pointer_type x = PT_Code then Some (sint (x - y), v)
              else Some (0, v))"
  unfolding cmp_pointer_def mark_pair_def [symmetric] not_heap_iff
  by (cases "vm_pointer_type x"; cases "vm_pointer_type y") (simp_all add: Let_def or_return_zero_right)

lemma cmp_pointer_other:
  assumes "vm_pointer_type x = vm_pointer_type y" "\<not> (vm_pointer_type x = PT_Heap \<or> vm_pointer_type x = PT_Alloca)"
  shows "cmp_pointer rec h1 h2 x y v =
    (if vm_pointer_type x = PT_Global \<or> vm_pointer_type x = PT_Code
     then Some (sint (x - y), mark_pair h1 h2 x y v) else Some (0, mark_pair h1 h2 x y v))"
  unfolding cmp_pointer_eq Let_def if_not_P [OF assms(2)] using assms(1) by simp

lemma mark_pair_simps [simp]:
  "vs_rel (mark_pair h1 h2 x y v) = vs_rel v"
  "enough g n (mark_pair h1 h2 x y v) = enough g n v"
  "inside R st g g' (mark_pair h1 h2 x y v) = inside R st g g' v"
  "visits st g g' (mark_pair h1 h2 x y v) v' = visits st g g' v v'"
  "visits st g g' u (mark_pair h1 h2 x y v) = visits st g g' u v"
  by (simp_all add: mark_pair_def)

text \<open>The contract of the recursion, and that of the callback it makes of it.\<close>

definition compares :: "nat \<Rightarrow> (u32 \<times> u32) set \<Rightarrow> store \<Rightarrow> heap \<Rightarrow> heap \<Rightarrow> bool" where
  "compares n R st h1 h2 \<longleftrightarrow> (\<forall>r1 r2 v. enough h1 n v \<longrightarrow>
     (\<exists>d v'. mem_compare n st h1 h2 r1 r2 v = Some (d, v') \<and>
        (d = 0 \<longrightarrow> enough h1 n v' \<and> visits st h1 h2 v v' \<and> (r1, r2) \<in> vs_rel v') \<and>
        (inside R st h1 h2 v \<and> (r1, r2) \<in> R \<longrightarrow> d = 0 \<and> inside R st h1 h2 v')))"

lemma compares_callback:
  assumes "compares n R st h1 h2"
  shows "pointer_callback (cmp_pointer (mem_compare n st h1 h2) h1 h2) (enough h1 n) (visits st h1 h2)
    (\<lambda>v. ptr_related (vs_rel v)) (inside R st h1 h2) (ptr_related R)"
proof
  fix v v' v'' x y d
  show "visits st h1 h2 v v" by (rule visits_refl)
  show "visits st h1 h2 v v' \<Longrightarrow> visits st h1 h2 v' v'' \<Longrightarrow> visits st h1 h2 v v''" by (rule visits_trans)
  show "visits st h1 h2 v v' \<Longrightarrow> ptr_related (vs_rel v) \<le> ptr_related (vs_rel v')"
    by (rule ptr_related_mono) (simp add: visits_def)
  let ?m = "mark_pair h1 h2 x y v"
  assume v: "enough h1 n v"
  have "enough h1 n ?m" using v by simp
  then obtain e u where u: "mem_compare n st h1 h2 x y ?m = Some (e, u)"
    "e = 0 \<Longrightarrow> enough h1 n u \<and> visits st h1 h2 ?m u \<and> (x, y) \<in> vs_rel u"
    "inside R st h1 h2 ?m \<and> (x, y) \<in> R \<Longrightarrow> e = 0 \<and> inside R st h1 h2 u"
    using assms unfolding compares_def by blast
  show "\<exists>d v'. cmp_pointer (mem_compare n st h1 h2) h1 h2 x y v = Some (d, v')"
    by (simp add: cmp_pointer_eq u(1) Let_def)
  show "enough h1 n v' \<and> visits st h1 h2 v v' \<and> ptr_related (vs_rel v') x y"
    if "cmp_pointer (mem_compare n st h1 h2) h1 h2 x y v = Some (0, v')"
  proof -
    have t: "vm_pointer_type x = vm_pointer_type y"
      using that by (auto simp: cmp_pointer_eq split: if_splits)
    show ?thesis
    proof (cases "vm_pointer_type x = PT_Heap \<or> vm_pointer_type x = PT_Alloca")
      case True
      then have e: "e = 0" "v' = u" using that t by (simp_all add: cmp_pointer_eq u(1))
      have "enough h1 n u \<and> visits st h1 h2 ?m u \<and> (x, y) \<in> vs_rel u" by (rule u(2) [OF e(1)])
      then have old: "enough h1 n u" "visits st h1 h2 v u" and xy: "(x, y) \<in> vs_rel u" by simp_all
      moreover have "vm_pointer_type x \<noteq> PT_Global \<and> vm_pointer_type x \<noteq> PT_Code"
        using True by (elim disjE) simp_all
      ultimately have "ptr_related (vs_rel u) x y"
        unfolding ptr_related_def by (intro conjI impI t) simp_all
      then show ?thesis unfolding e(2) by (intro conjI old)
    next
      case False
      let ?g = "vm_pointer_type x = PT_Global \<or> vm_pointer_type x = PT_Code"
      note eq = cmp_pointer_other [OF t False, of "mem_compare n st h1 h2" h1 h2 v]
      have m: "v' = ?m" using that unfolding eq by (cases ?g) (simp_all only: if_True if_False option.inject prod.inject)
      have g: "?g \<Longrightarrow> x = y" using that unfolding eq by simp
      have "ptr_related (vs_rel ?m) x y"
        unfolding ptr_related_def using t g False by (intro conjI impI) simp_all
      then show ?thesis unfolding m using v visits_refl by simp
    qed
  qed
  show "d = 0 \<and> inside R st h1 h2 v'"
    if "inside R st h1 h2 v" "ptr_related R x y" "cmp_pointer (mem_compare n st h1 h2) h1 h2 x y v = Some (d, v')"
  proof -
    have t: "vm_pointer_type x = vm_pointer_type y" using that(2) unfolding ptr_related_def by (rule conjunct1)
    show ?thesis
    proof (cases "vm_pointer_type x = PT_Heap \<or> vm_pointer_type x = PT_Alloca")
      case True
      then have "(x, y) \<in> R" using that(2) unfolding ptr_related_def by (elim conjE mp)
      then have "inside R st h1 h2 ?m \<and> (x, y) \<in> R" using that(1) by simp
      then have "e = 0 \<and> inside R st h1 h2 u" by (rule u(3))
      moreover have "d = e \<and> v' = u" using that(3) t True by (simp add: cmp_pointer_eq u(1))
      ultimately show ?thesis by simp
    next
      case False
      note eq = cmp_pointer_other [OF t False, of "mem_compare n st h1 h2" h1 h2 v]
      have "vm_pointer_type x = PT_Global \<or> vm_pointer_type x = PT_Code \<Longrightarrow> x = y"
        using that(2) unfolding ptr_related_def by blast
      then have "d = 0 \<and> v' = ?m"
        using that(3) unfolding eq by (simp split: if_splits)
      then show ?thesis using that(1) by simp
    qed
  qed
qed

lemma heap_compare_decides:
  assumes c: "compares n R st h1 h2" and ok: "sh_ok (st_shadow st)" and sz: "obj_size st b = obj_size st a"
    and v: "enough h1 n v"
  obtains d v' where
    "heap_compare (cmp_pointer (mem_compare n st h1 h2) h1 h2) st a b (obj_size st a) v = Some (d, v')"
    "d = 0 \<Longrightarrow> enough h1 n v' \<and> visits st h1 h2 v v' \<and> object_alike (ptr_related (vs_rel v')) st a b"
    "inside R st h1 h2 v \<Longrightarrow> object_alike (ptr_related R) st a b \<Longrightarrow> d = 0 \<and> inside R st h1 h2 v'"
proof -
  note cb = compares_callback [OF c]
  have "\<exists>d v'. data_compare (cmp_pointer (mem_compare n st h1 h2) h1 h2) st a b (obj_size st a) v = Some (d, v') \<and>
      (d = 0 \<longrightarrow> enough h1 n v' \<and> visits st h1 h2 v v' \<and> object_alike (ptr_related (vs_rel v')) st a b) \<and>
      (inside R st h1 h2 v \<and> object_alike (ptr_related R) st a b \<longrightarrow> d = 0 \<and> inside R st h1 h2 v')"
    using pointer_callback.decides_data [OF cb ok refl sz] v
    unfolding pointer_callback.decides_def [OF cb] by blast
  then show thesis using that sz by (auto simp: heap_compare_def)
qed

lemma mem_compare_visit:
  assumes "vs_one v r1 = None" "vs_two v r2 = None"
  shows "mem_compare (Suc n) st h1 h2 r1 r2 v =
    (let v = add_visit r1 r2 v
     in if valid_id h1 r1 \<noteq> valid_id h2 r2 then Some (of_bool (valid_id h1 r1) - of_bool (valid_id h2 r2), v)
        else if \<not> valid_id h1 r1 then Some (0, v)
        else if obj_size st (ptr2i h1 r1) \<noteq> obj_size st (ptr2i h2 r2)
        then Some (int (obj_size st (ptr2i h1 r1)) - int (obj_size st (ptr2i h2 r2)), v)
        else heap_compare (cmp_pointer (mem_compare n st h1 h2) h1 h2) st (ptr2i h1 r1) (ptr2i h2 r2)
               (obj_size st (ptr2i h1 r1)) v)"
  using assms by (simp add: add_visit_def [symmetric] Let_def)

declare mem_compare.simps(2) [simp del]

lemma enough_add:
  assumes "enough h1 (Suc n) v" "vs_one v r1 = None" "vs_two v r2 = None"
  shows "enough h1 (Suc n) (add_visit r1 r2 v)"
    and "valid_id h1 r1 \<Longrightarrow> enough h1 n (add_visit r1 r2 v)"
proof -
  let ?u = "\<lambda>v. {p. valid_id h1 p \<and> vs_one v p = None}"
  have ok: "visit_ok (add_visit r1 r2 v)" using assms by (simp add: visit_ok_add enough_def)
  have fin: "finite (?u v)" by simp
  have eq: "?u (add_visit r1 r2 v) = ?u v - {r1}" by auto
  have "card (?u v - {r1}) \<le> card (?u v)" by (rule card_mono) auto
  then show "enough h1 (Suc n) (add_visit r1 r2 v)"
    using assms(1) ok unfolding enough_def eq by simp
  assume "valid_id h1 r1"
  then have "card (?u v - {r1}) < card (?u v)" using assms(2) by (intro psubset_card_mono fin) auto
  then show "enough h1 n (add_visit r1 r2 v)" using assms(1) ok unfolding enough_def eq by simp
qed

lemma enough_Suc: "enough h1 n v \<Longrightarrow> enough h1 (Suc n) v"
  by (simp add: enough_def)

lemma visits_add:
  assumes "visit_ok v" "vs_one v r1 = None" "vs_two v r2 = None"
    and "visits st h1 h2 (add_visit r1 r2 v) v'" "node_alike (vs_rel v') st h1 h2 r1 r2"
  shows "visits st h1 h2 v v'" "(r1, r2) \<in> vs_rel v'"
  using assms(4,5) unfolding visits_def vs_rel_add [OF assms(1-3)] by blast+

text \<open>Where one of the two objects has been visited, their numbers decide.\<close>

lemma visited_related:
  assumes "visit_ok v" "inside R st h1 h2 v" "(r1, r2) \<in> R"
  shows "vs_one v r1 = vs_two v r2"
proof -
  have iso: "single_valued R" "single_valued (R\<inverse>)" "vs_rel v \<subseteq> R"
    using assms(2) by (simp_all add: inside_def heap_alike_def)
  have one: "vs_two v r2 = Some m" if m: "vs_one v r1 = Some m" for m
  proof -
    obtain q where q: "vs_two v q = Some m" using assms(1) m unfolding visit_ok_def by blast
    then have "(r1, q) \<in> R" using iso(3) m by (auto simp: vs_rel_def)
    then show ?thesis using q single_valuedD [OF iso(1) assms(3)] by simp
  qed
  have two: "vs_one v r1 = Some m" if m: "vs_two v r2 = Some m" for m
  proof -
    obtain p where p: "vs_one v p = Some m" using assms(1) m unfolding visit_ok_def by blast
    then have "(p, r2) \<in> R" using iso(3) m by (auto simp: vs_rel_def)
    then have "p = r1" using single_valuedD [OF iso(2), of r2 p r1] assms(3) by simp
    then show ?thesis using p by simp
  qed
  show ?thesis using one two by (cases "vs_one v r1"; cases "vs_two v r2") simp_all
qed

lemma compares_step:
  assumes ok: "sh_ok (st_shadow st)" and c: "compares n R st h1 h2"
  shows "compares (Suc n) R st h1 h2"
  unfolding compares_def
proof (intro allI impI)
  fix r1 r2 v assume v: "enough h1 (Suc n) v"
  then have vok: "visit_ok v" by (simp add: enough_def)
  note related = visited_related [OF vok, of R st h1 h2 r1 r2]
  let ?goal = "\<exists>d v'. mem_compare (Suc n) st h1 h2 r1 r2 v = Some (d, v') \<and>
      (d = 0 \<longrightarrow> enough h1 (Suc n) v' \<and> visits st h1 h2 v v' \<and> (r1, r2) \<in> vs_rel v') \<and>
      (inside R st h1 h2 v \<and> (r1, r2) \<in> R \<longrightarrow> d = 0 \<and> inside R st h1 h2 v')"
  show ?goal
  proof (cases "vs_one v r1 = None \<and> vs_two v r2 = None")
    case False
    obtain d where d: "mem_compare (Suc n) st h1 h2 r1 r2 v = Some (d, v)"
      "d = 0 \<longleftrightarrow> vs_one v r1 = vs_two v r2"
      using False by (cases "vs_one v r1"; cases "vs_two v r2") (auto simp: mem_compare.simps(2))
    have "(r1, r2) \<in> vs_rel v" if "d = 0" using that d(2) False by (auto simp: vs_rel_def)
    then show ?thesis using d v related visits_refl by blast
  next
    case True
    then have new: "vs_one v r1 = None" "vs_two v r2 = None" by auto
    let ?v = "add_visit r1 r2 v"
    note eq = mem_compare_visit [OF new, of n st h1 h2]
    note add = enough_add [OF v new]
    note va = visits_add [OF vok new, of st h1 h2]
    have ins: "inside R st h1 h2 ?v" "node_alike R st h1 h2 r1 r2"
      if "inside R st h1 h2 v" "(r1, r2) \<in> R"
      using that unfolding inside_def heap_alike_def vs_rel_add [OF vok new] by blast+
    consider "valid_id h1 r1 \<noteq> valid_id h2 r2" | "\<not> valid_id h1 r1" "\<not> valid_id h2 r2"
      | "valid_id h1 r1" "valid_id h2 r2" "obj_size st (ptr2i h1 r1) \<noteq> obj_size st (ptr2i h2 r2)"
      | "valid_id h1 r1" "valid_id h2 r2" "obj_size st (ptr2i h2 r2) = obj_size st (ptr2i h1 r1)"
      by fastforce
    then show ?thesis
    proof cases
      case 1
      then have "\<not> node_alike R st h1 h2 r1 r2" by (simp add: node_alike_def)
      then show ?thesis using 1 ins(2) by (auto simp: eq Let_def)
    next
      case 2
      have "node_alike (vs_rel ?v) st h1 h2 r1 r2" using 2 by (simp add: node_alike_def)
      then show ?thesis using 2 add(1) va [OF visits_refl] ins(1) by (auto simp: eq Let_def)
    next
      case 3
      then have "\<not> node_alike R st h1 h2 r1 r2" by (simp add: node_alike_def object_alike_def)
      then show ?thesis using 3 ins(2) by (auto simp: eq Let_def)
    next
      case 4
      from heap_compare_decides [OF c ok 4(3) add(2) [OF 4(1)]] obtain d v' where
        d: "heap_compare (cmp_pointer (mem_compare n st h1 h2) h1 h2) st (ptr2i h1 r1) (ptr2i h2 r2)
              (obj_size st (ptr2i h1 r1)) ?v = Some (d, v')"
        "d = 0 \<Longrightarrow> enough h1 n v' \<and> visits st h1 h2 ?v v' \<and>
           object_alike (ptr_related (vs_rel v')) st (ptr2i h1 r1) (ptr2i h2 r2)"
        "inside R st h1 h2 ?v \<Longrightarrow> object_alike (ptr_related R) st (ptr2i h1 r1) (ptr2i h2 r2) \<Longrightarrow>
           d = 0 \<and> inside R st h1 h2 v'"
        by blast
      have res: "mem_compare (Suc n) st h1 h2 r1 r2 v = Some (d, v')" using 4 d(1) by (simp add: eq Let_def)
      have zero: "enough h1 (Suc n) v' \<and> visits st h1 h2 v v' \<and> (r1, r2) \<in> vs_rel v'" if "d = 0"
      proof -
        note d0 = d(2) [OF that]
        have "node_alike (vs_rel v') st h1 h2 r1 r2" using 4 d0 by (simp add: node_alike_def)
        then show ?thesis using d0 va [of v'] enough_Suc by blast
      qed
      have "d = 0 \<and> inside R st h1 h2 v'" if R: "inside R st h1 h2 v" "(r1, r2) \<in> R"
        using d(3) [OF ins(1) [OF R]] ins(2) [OF R] 4 unfolding node_alike_def by blast
      then show ?thesis using res zero by blast
    qed
  qed
qed

lemma compares_all:
  assumes "sh_ok (st_shadow st)"
  shows "compares n R st h1 h2"
proof (induction n)
  case 0
  then show ?case by (simp add: compares_def enough_def)
next
  case (Suc n)
  then show ?case by (rule compares_step [OF assms])
qed

text \<open>So the callback of the recursion keeps its contract at every depth, and so does the one by which
  a snapshot compares objects.\<close>

interpretation heaps: pointer_callback "cmp_pointer (mem_compare n st h1 h2) h1 h2"
  "\<lambda>v. sh_ok (st_shadow st) \<and> enough h1 n v" "visits st h1 h2" "\<lambda>v. ptr_related (vs_rel v)"
  "inside R st h1 h2" "ptr_related R"
  for n :: nat and st :: store and h1 h2 :: heap and R :: "(u32 \<times> u32) set"
proof
  fix v v' v'' :: visit and x y :: u32 and d :: int
  show "visits st h1 h2 v v" by (rule visits_refl)
  show "visits st h1 h2 v v' \<Longrightarrow> visits st h1 h2 v' v'' \<Longrightarrow> visits st h1 h2 v v''" by (rule visits_trans)
  show "visits st h1 h2 v v' \<Longrightarrow> ptr_related (vs_rel v) \<le> ptr_related (vs_rel v')"
    by (rule ptr_related_mono) (simp add: visits_def)
  assume v: "sh_ok (st_shadow st) \<and> enough h1 n v"
  note cb = compares_callback [OF compares_all [OF conjunct1 [OF v], of n R h1 h2]]
  let ?c = "cmp_pointer (mem_compare n st h1 h2) h1 h2 x y v"
  show "\<exists>d v'. ?c = Some (d, v')"
    by (rule pointer_callback.cb_total [OF cb conjunct2 [OF v]])
  show "?c = Some (0, v') \<Longrightarrow>
      (sh_ok (st_shadow st) \<and> enough h1 n v') \<and> visits st h1 h2 v v' \<and> ptr_related (vs_rel v') x y"
    using pointer_callback.cb_zero [OF cb conjunct2 [OF v], of x y v'] v by blast
  show "inside R st h1 h2 v \<Longrightarrow> ptr_related R x y \<Longrightarrow> ?c = Some (d, v') \<Longrightarrow> d = 0 \<and> inside R st h1 h2 v'"
    by (rule pointer_callback.cb_target [OF cb conjunct2 [OF v]])
qed

interpretation dedup: pointer_callback id_difference "\<lambda>_. True" "\<lambda>_ _. True" "\<lambda>_. (=)" "\<lambda>_. True" "(=)"
  by unfold_locales (auto simp: id_difference_def)

lemma objects_match_exact:
  assumes "sh_ok (st_shadow st)"
  shows "objects_match st a b =
    Some (obj_bytes st a = obj_bytes st b \<and> object_alike (=) st a b)"
proof (cases "obj_bytes st a = obj_bytes st b")
  case True
  then have sz: "obj_size st b = obj_size st a" by (simp add: obj_size_def)
  have "\<exists>d s'. data_compare id_difference st a b (obj_size st a) () = Some (d, s') \<and>
      (d = 0 \<longleftrightarrow> object_alike (=) st a b)"
    using dedup.decides_data [OF assms refl sz] unfolding dedup.decides_def by blast
  then obtain d where "data_compare id_difference st a b (obj_size st a) () = Some (d, ())"
    "d = 0 \<longleftrightarrow> object_alike (=) st a b" by auto
  then show ?thesis using True sz by (simp add: objects_match_def)
next
  case False
  then show ?thesis by (simp add: objects_match_def)
qed

section \<open>What the comparison of heaps decides\<close>

lemma visit_start_ok: "visit_ok visit_start" "vs_rel visit_start = {}"
  by (simp_all add: visit_ok_def visit_start_def vs_rel_def)

lemma vs_rel_alike:
  assumes "visit_ok v" "visits st h1 h2 visit_start v"
  shows "heap_alike (vs_rel v) st h1 h2"
proof -
  have "single_valued (vs_rel v)" "single_valued ((vs_rel v)\<inverse>)"
    using assms(1) by (auto simp: single_valued_def vs_rel_def visit_ok_def)
  then show ?thesis using assms(2) by (simp add: heap_alike_def visits_def visit_start_ok)
qed

lemma mem_compare_spec:
  assumes ok: "sh_ok (st_shadow st)" and fuel: "card {p. valid_id h1 p} < fuel"
  shows "\<exists>d v. mem_compare fuel st h1 h2 r1 r2 visit_start = Some (d, v) \<and>
    (d = 0 \<longleftrightarrow> alike st h1 h2 r1 r2)"
proof -
  have start: "enough h1 fuel visit_start"
    using fuel visit_start_ok(1) by (simp add: enough_def visit_start_def)
  have ex: "\<exists>d v'. mem_compare fuel st h1 h2 r1 r2 visit_start = Some (d, v') \<and>
        (d = 0 \<longrightarrow> enough h1 fuel v' \<and> visits st h1 h2 visit_start v' \<and> (r1, r2) \<in> vs_rel v') \<and>
        (inside R st h1 h2 visit_start \<and> (r1, r2) \<in> R \<longrightarrow> d = 0 \<and> inside R st h1 h2 v')" for R
    using compares_all [OF ok, of fuel R h1 h2] start unfolding compares_def by blast
  from ex [of "{}"] obtain d v where d: "mem_compare fuel st h1 h2 r1 r2 visit_start = Some (d, v)"
    "d = 0 \<Longrightarrow> enough h1 fuel v \<and> visits st h1 h2 visit_start v \<and> (r1, r2) \<in> vs_rel v" by blast
  have "alike st h1 h2 r1 r2" if "d = 0"
    using d(2) [OF that] vs_rel_alike [of v st h1 h2] unfolding alike_def enough_def by blast
  moreover have "d = 0" if iso: "alike st h1 h2 r1 r2"
  proof -
    obtain R where R: "heap_alike R st h1 h2" "(r1, r2) \<in> R" using iso unfolding alike_def by blast
    then have "inside R st h1 h2 visit_start" by (simp add: inside_def visit_start_ok)
    then show ?thesis using ex [of R] R(2) d(1) by auto
  qed
  ultimately show ?thesis using d(1) by blast
qed

lemma object_alike_refl: "object_alike (ptr_related Id) st a a"
proof -
  have p: "ptr_related Id x x" for x by (simp add: ptr_related_def)
  then have "word_alike (ptr_related Id) st a a w" for w by (simp add: word_alike_def Let_def)
  moreover have "user_related (ptr_related Id) ltypes m m" for ltypes m
    unfolding user_related_def by (rule list_all2_refl) (simp add: p)
  ultimately show ?thesis by (simp add: object_alike_def)
qed

lemma alike_refl: "alike st h h r r"
proof -
  have "heap_alike Id st h h"
    by (simp add: heap_alike_def node_alike_def object_alike_refl single_valued_Id)
  then show ?thesis unfolding alike_def by blast
qed

lemma equal_fastpath_iff: "equal_fastpath a b \<longleftrightarrow> a = b"
  by (auto simp: equal_fastpath_def list_all2_eq [symmetric])

end
