(* ===== verification/HeapSame.thy ===== *)
theory HeapSame
  imports HeapCompareFacts HeapFacts
begin

unbundle bit_operations_syntax

text \<open>
  Isomorphic heaps: a relation between the objects, one to one, that relates the roots and under which
  objects have the same size, the same bytes, definedness and taint, the same user metadata, and pointers
  and fragments of pointers to related objects. What the comparison of heaps looks at
  (\<open>HeapCompareFacts\<close>) is less; here the two are compared.
\<close>

section \<open>Isomorphic heaps\<close>

text \<open>A byte that is a fragment of a pointer: the object it names and which byte of the identifier it is.\<close>

definition fragment :: "store \<Rightarrow> nat \<Rightarrow> nat \<Rightarrow> (u32 \<times> u8) option" where
  "fragment st i j =
     (if snd (word_kind st i (j div 4))
      then (case pl_pointer_exception (st_shadow st) i (4 * (j div 4)) of
              None \<Rightarrow> None
            | Some e \<Rightarrow> if pe_objid e ! (j mod 4) = 0 then None
                        else Some (pe_objid e ! (j mod 4), pe_index (j mod 4) e))
      else None)"

definition byte_same :: "(u32 \<Rightarrow> u32 \<Rightarrow> bool) \<Rightarrow> store \<Rightarrow> nat \<Rightarrow> nat \<Rightarrow> nat \<Rightarrow> bool" where
  "byte_same P st a b j \<longleftrightarrow>
     (case (fragment st a j, fragment st b j) of
        (None, None) \<Rightarrow> obj_bytes st a ! j = obj_bytes st b ! j
      | (Some f, Some g) \<Rightarrow> P (fst f) (fst g) \<and> snd f = snd g
      | _ \<Rightarrow> False)"

text \<open>The word holds the object identifier of a whole pointer; its bytes may differ as identifiers do.\<close>

definition holds_pointer :: "store \<Rightarrow> nat \<Rightarrow> nat \<Rightarrow> bool" where
  "holds_pointer st i w \<longleftrightarrow> w < obj_size st i div 4 \<and> fst (word_kind st i w)"

definition object_same :: "(u32 \<Rightarrow> u32 \<Rightarrow> bool) \<Rightarrow> store \<Rightarrow> nat \<Rightarrow> nat \<Rightarrow> bool" where
  "object_same P st a b \<longleftrightarrow>
     obj_size st a = obj_size st b \<and>
     (\<forall>j < obj_size st a. dview (st_shadow st) a j = dview (st_shadow st) b j \<and>
        tview (st_shadow st) a j = tview (st_shadow st) b j) \<and>
     (\<forall>w < obj_size st a div 4. word_kind st a w = word_kind st b w \<and>
        (holds_pointer st a w \<longrightarrow> P (the (word_at st a (4 * w))) (the (word_at st b (4 * w))))) \<and>
     (\<forall>j < obj_size st a. \<not> holds_pointer st a (j div 4) \<longrightarrow> byte_same P st a b j) \<and>
     user_related P (st_types st) (sm_view (st_user st) a) (sm_view (st_user st) b)"

definition isomorphic :: "store \<Rightarrow> heap \<Rightarrow> heap \<Rightarrow> u32 \<Rightarrow> u32 \<Rightarrow> bool" where
  "isomorphic st h1 h2 r1 r2 \<longleftrightarrow>
     (\<exists>R. single_valued R \<and> single_valued (R\<inverse>) \<and> (r1, r2) \<in> R \<and>
        (\<forall>p q. (p, q) \<in> R \<longrightarrow> valid_id h1 p = valid_id h2 q \<and>
           (valid_id h1 p \<longrightarrow> object_same (ptr_related R) st (ptr2i h1 p) (ptr2i h2 q))))"

text \<open>
  No object has a fragment of a pointer right after its last word, where the comparison takes it for data;
  and, stronger, no object has a fragment at all, more than one byte after its last word, or a byte that
  is not entirely defined or is tainted.
\<close>

definition whole_fragments :: "store \<Rightarrow> heap \<Rightarrow> bool" where
  "whole_fragments st h \<longleftrightarrow>
     (\<forall>p. valid_id h p \<longrightarrow> obj_size st (ptr2i h p) mod 4 \<noteq> 0 \<longrightarrow>
        fragment st (ptr2i h p) (4 * (obj_size st (ptr2i h p) div 4)) = None)"

definition plain_object :: "store \<Rightarrow> nat \<Rightarrow> bool" where
  "plain_object st i \<longleftrightarrow> obj_size st i mod 4 \<le> 1 \<and>
     (\<forall>j < obj_size st i. dview (st_shadow st) i j = 0xff \<and> \<not> tview (st_shadow st) i j \<and> fragment st i j = None)"

definition plain_heap :: "store \<Rightarrow> heap \<Rightarrow> bool" where
  "plain_heap st h \<longleftrightarrow> (\<forall>p. valid_id h p \<longrightarrow> plain_object st (ptr2i h p))"

section \<open>Bits of words\<close>

lemma bit_mask_byte: "bit (push_bit (8 * i) 0xff :: u32) k \<longleftrightarrow> 8 * i \<le> k \<and> k < 8 * i + 8 \<and> k < 32"
proof -
  have "(0xff :: u32) = mask 8" by (simp add: mask_eq_exp_minus_1)
  then show ?thesis by (simp only: bit_push_bit_iff bit_mask_iff) auto
qed

lemma bit_mask_fold:
  "bit (fold (\<lambda>i m. if P i then m OR push_bit (8 * i) 0xff else m) is m :: u32) k \<longleftrightarrow>
    bit m k \<or> (\<exists>i \<in> set is. P i \<and> 8 * i \<le> k \<and> k < 8 * i + 8 \<and> k < 32)"
proof (induction "is" arbitrary: m)
  case (Cons i "is")
  have "bit (if P i then m OR push_bit (8 * i) 0xff else m) k \<longleftrightarrow>
      bit m k \<or> P i \<and> 8 * i \<le> k \<and> k < 8 * i + 8 \<and> k < 32"
    by (simp add: bit_or_iff bit_mask_byte)
  then show ?case unfolding fold_Cons comp_apply Cons.IH by (simp add: disj_assoc)
qed simp

lemma bit_pe_mask:
  assumes "k < 32"
  shows "bit (pe_mask e) k \<longleftrightarrow> pe_objid e ! (k div 8) \<noteq> 0"
proof -
  have at: "i = k div 8" if "8 * i \<le> k" "k < 8 * i + 8" for i
    using div_nat_eqI [of 8 i k] that by simp
  have here: "k div 8 \<in> set [0..<4]" "8 * (k div 8) \<le> k" "k < 8 * (k div 8) + 8" using assms by simp_all
  have "bit (pe_mask e) k \<longleftrightarrow> (\<exists>i \<in> set [0..<4]. pe_objid e ! i \<noteq> 0 \<and> 8 * i \<le> k \<and> k < 8 * i + 8 \<and> k < 32)"
    using bit_mask_fold [of "\<lambda>i. pe_objid e ! i \<noteq> 0" "[0..<4]" 0 k]
    by (simp only: pe_mask_def bit_0_eq bot_fun_def bot_bool_def simp_thms)
  moreover have "pe_objid e ! (k div 8) \<noteq> 0" if "\<exists>i \<in> set [0..<4]. pe_objid e ! i \<noteq> 0 \<and> 8 * i \<le> k \<and> k < 8 * i + 8 \<and> k < 32"
    using that at by metis
  moreover have "\<exists>i \<in> set [0..<4]. pe_objid e ! i \<noteq> 0 \<and> 8 * i \<le> k \<and> k < 8 * i + 8 \<and> k < 32" if "pe_objid e ! (k div 8) \<noteq> 0"
    using that here assms by (intro bexI [of _ "k div 8"]) simp_all
  ultimately show ?thesis by iprover
qed

lemma bit_word_at:
  assumes "4 * w + 4 \<le> obj_size st i" "k < 32"
  shows "bit (the (word_at st i (4 * w))) k \<longleftrightarrow> bit (obj_bytes st i ! (4 * w + k div 8)) (k mod 8)"
proof -
  have "k div 8 < 4" using assms(2) by simp
  then show ?thesis using assms by (simp add: word_at_def bit_simps obj_size_def)
qed

lemma word_at_bytes:
  assumes "4 * w + 4 \<le> obj_size st a" "4 * w + 4 \<le> obj_size st b"
  shows "the (word_at st a (4 * w)) = the (word_at st b (4 * w)) \<longleftrightarrow>
    (\<forall>i < 4. obj_bytes st a ! (4 * w + i) = obj_bytes st b ! (4 * w + i))" (is "?x = ?y \<longleftrightarrow> _")
proof
  assume eq: "?x = ?y"
  show "\<forall>i < 4. obj_bytes st a ! (4 * w + i) = obj_bytes st b ! (4 * w + i)"
  proof (intro allI impI bit_word_eqI)
    fix i n :: nat assume "i < 4" "n < LENGTH(8)"
    then have "8 * i + n < 32" "(8 * i + n) div 8 = i" "(8 * i + n) mod 8 = n" by simp_all
    then show "bit (obj_bytes st a ! (4 * w + i)) n = bit (obj_bytes st b ! (4 * w + i)) n"
      using bit_word_at [OF assms(1), of "8 * i + n"] bit_word_at [OF assms(2), of "8 * i + n"] eq by simp
  qed
next
  assume eq: "\<forall>i < 4. obj_bytes st a ! (4 * w + i) = obj_bytes st b ! (4 * w + i)"
  show "?x = ?y"
  proof (rule bit_word_eqI)
    fix k assume "k < LENGTH(32)"
    then have "k < 32" "k div 8 < 4" by simp_all
    then show "bit ?x k = bit ?y k" using bit_word_at [OF assms(1)] bit_word_at [OF assms(2)] eq by simp
  qed
qed

text \<open>A word with fragments of pointers has one.\<close>

lemma sh_fragment:
  assumes "sh_ok (st_shadow st)" "4 * w + 4 \<le> obj_size st i"
    and "is_pointer_exception (sh_meta (st_shadow st) i ! w)"
  shows "\<exists>j. 4 * w \<le> j \<and> j < 4 * w + 4 \<and> fragment st i j \<noteq> None"
proof -
  obtain e where e: "pl_pointer_exception (st_shadow st) i (4 * w) = Some e"
    using pointer_exception_Some [OF assms] by blast
  have len: "length (sh_meta (st_shadow st) i) = meta_size (obj_size st i)"
    using assms(1) by (simp add: sh_ok_def obj_size_def obj_bytes_def)
  have "w < length (sh_meta (st_shadow st) i)" using len assms(2) by (simp add: meta_size_eq)
  then have "word_ok (st_shadow st) i w (expand (sh_meta (st_shadow st) i ! w))" using assms(1) by (simp add: sh_ok_def)
  then have "pe_valid e" using assms(3) e by (auto simp: word_ok_def pl_read_ptr_def predicates_expand)
  then obtain k where k: "k < 4" "pe_objid e ! k \<noteq> 0" unfolding pe_valid_def by blast
  have "(4 * w + k) div 4 = w" "(4 * w + k) mod 4 = k" using k(1) by simp_all
  then have "fragment st i (4 * w + k) \<noteq> None"
    using k(2) e assms(3) by (simp add: fragment_def word_kind_def Let_def)
  then show ?thesis using k(1) by (intro exI [of _ "4 * w + k"]) simp
qed

section \<open>Isomorphic heaps are alike\<close>

lemma data_part_same:
  assumes ok: "sh_ok (st_shadow st)" and w: "4 * w + 4 \<le> obj_size st a" "4 * w + 4 \<le> obj_size st b"
    and kind: "snd (word_kind st a w)" "snd (word_kind st b w)"
    and same: "\<And>i. i < 4 \<Longrightarrow> byte_same P st a b (4 * w + i)"
  shows "data_part st a w = data_part st b w"
proof -
  have exc: "is_pointer_exception (sh_meta (st_shadow st) a ! w)" "is_pointer_exception (sh_meta (st_shadow st) b ! w)"
    using kind by (simp_all add: word_kind_def Let_def)
  obtain e e' where e: "pl_pointer_exception (st_shadow st) a (4 * w) = Some e"
    "pl_pointer_exception (st_shadow st) b (4 * w) = Some e'"
    using pointer_exception_Some [OF ok w(1) exc(1)] pointer_exception_Some [OF ok w(2) exc(2)] by blast
  have frag: "fragment st a (4 * w + i) = (if pe_objid e ! i = 0 then None else Some (pe_objid e ! i, pe_index i e))"
    "fragment st b (4 * w + i) = (if pe_objid e' ! i = 0 then None else Some (pe_objid e' ! i, pe_index i e'))"
    if "i < 4" for i
  proof -
    have "(4 * w + i) div 4 = w" "(4 * w + i) mod 4 = i" using that by simp_all
    then show "fragment st a (4 * w + i) = (if pe_objid e ! i = 0 then None else Some (pe_objid e ! i, pe_index i e))"
      "fragment st b (4 * w + i) = (if pe_objid e' ! i = 0 then None else Some (pe_objid e' ! i, pe_index i e'))"
      by (simp_all only: fragment_def kind e option.case if_True)
  qed
  have byte: "(pe_objid e ! i = 0 \<longleftrightarrow> pe_objid e' ! i = 0) \<and>
      (pe_objid e ! i = 0 \<longrightarrow> obj_bytes st a ! (4 * w + i) = obj_bytes st b ! (4 * w + i))" if "i < 4" for i
    using same [OF that] frag [OF that] by (simp add: byte_same_def split: if_splits)
  have "the (word_at st a (4 * w)) AND NOT (pe_mask e) = the (word_at st b (4 * w)) AND NOT (pe_mask e')"
  proof (rule bit_word_eqI)
    fix k assume "k < LENGTH(32)"
    then have k: "k < 32" "k div 8 < 4" by simp_all
    show "bit (the (word_at st a (4 * w)) AND NOT (pe_mask e)) k =
        bit (the (word_at st b (4 * w)) AND NOT (pe_mask e')) k"
      using byte [OF k(2)] k(1)
      by (auto simp: bit_and_iff bit_not_iff bit_pe_mask bit_word_at [OF w(1)] bit_word_at [OF w(2)])
  qed
  then show ?thesis by (simp add: data_part_def e)
qed

lemma word_alike_same:
  assumes ok: "sh_ok (st_shadow st)" and same: "object_same P st a b" and w: "w < obj_size st a div 4"
  shows "word_alike P st a b w"
proof -
  have sz: "obj_size st b = obj_size st a" using same by (simp add: object_same_def)
  have in_a: "4 * w + 4 \<le> obj_size st a" using w by linarith
  have in_b: "4 * w + 4 \<le> obj_size st b" using in_a sz by simp
  have kind: "word_kind st a w = word_kind st b w" using same w by (simp add: object_same_def)
  have ptr: "P (the (word_at st a (4 * w))) (the (word_at st b (4 * w)))" if "fst (word_kind st a w)"
    using same w that by (simp add: object_same_def holds_pointer_def)
  have bytes: "byte_same P st a b (4 * w + i)" if "\<not> fst (word_kind st a w)" "i < 4" for i
  proof -
    have "(4 * w + i) div 4 = w" using that(2) by simp
    then have "\<not> holds_pointer st a ((4 * w + i) div 4)" "4 * w + i < obj_size st a"
      using that in_a by (simp_all add: holds_pointer_def)
    then show ?thesis using same by (simp add: object_same_def)
  qed
  have plain: "the (word_at st a (4 * w)) = the (word_at st b (4 * w))"
    if n: "\<not> fst (word_kind st a w)" "\<not> snd (word_kind st a w)"
  proof -
    have "obj_bytes st a ! (4 * w + i) = obj_bytes st b ! (4 * w + i)" if "i < 4" for i
    proof -
      have "(4 * w + i) div 4 = w" using that by simp
      then have "fragment st a (4 * w + i) = None" "fragment st b (4 * w + i) = None"
        using n(2) kind by (simp_all add: fragment_def)
      then show ?thesis using bytes [OF n(1) that] by (simp add: byte_same_def)
    qed
    then show ?thesis by (simp add: word_at_bytes [OF in_a in_b])
  qed
  have frag: "data_part st a w = data_part st b w" if "\<not> fst (word_kind st a w)" "snd (word_kind st a w)"
    using data_part_same [OF ok in_a in_b that(2) _ bytes [OF that(1)]] that(2) kind by simp
  show ?thesis unfolding word_alike_def Let_def using kind ptr plain frag by simp
qed

lemma object_alike_same:
  assumes ok: "sh_ok (st_shadow st)" and same: "object_same P st a b"
    and whole: "obj_size st a mod 4 \<noteq> 0 \<Longrightarrow> fragment st a (4 * (obj_size st a div 4)) = None"
  shows "object_alike P st a b"
proof -
  let ?j = "4 * (obj_size st a div 4)"
  have "obj_bytes st a ! ?j = obj_bytes st b ! ?j" if "obj_size st a mod 4 \<noteq> 0"
  proof -
    have "?j < obj_size st a" using that by presburger
    moreover have "\<not> holds_pointer st a (?j div 4)" by (simp add: holds_pointer_def)
    ultimately have "byte_same P st a b ?j" using same unfolding object_same_def by blast
    then show ?thesis using whole [OF that] by (simp add: byte_same_def split: option.splits)
  qed
  then show ?thesis
    using same word_alike_same [OF ok same] unfolding object_alike_def object_same_def by blast
qed

lemma isomorphic_alike:
  assumes "sh_ok (st_shadow st)" "whole_fragments st h1" "isomorphic st h1 h2 r1 r2"
  shows "alike st h1 h2 r1 r2"
proof -
  obtain R where R: "single_valued R" "single_valued (R\<inverse>)" "(r1, r2) \<in> R"
    "\<And>p q. (p, q) \<in> R \<Longrightarrow> valid_id h1 p = valid_id h2 q \<and>
       (valid_id h1 p \<longrightarrow> object_same (ptr_related R) st (ptr2i h1 p) (ptr2i h2 q))"
    using assms(3) unfolding isomorphic_def by blast
  have "object_alike (ptr_related R) st (ptr2i h1 p) (ptr2i h2 q)"
    if "valid_id h1 p" "object_same (ptr_related R) st (ptr2i h1 p) (ptr2i h2 q)" for p q
    using object_alike_same [OF assms(1) that(2)] assms(2) that(1) unfolding whole_fragments_def by blast
  then have "heap_alike R st h1 h2" using R unfolding heap_alike_def node_alike_def by blast
  then show ?thesis using R(3) unfolding alike_def by blast
qed

section \<open>What is enough to be alike\<close>

text \<open>Objects without pointers, whose bytes agree up to the first one after the last word.\<close>

lemma object_alike_data:
  assumes sz: "obj_size st a = n" "obj_size st b = n"
    and kinds: "\<forall>w < n div 4. word_kind st a w = (False, False) \<and> word_kind st b w = (False, False)"
    and bytes: "\<forall>j < n. j \<le> 4 * (n div 4) \<longrightarrow> obj_bytes st a ! j = obj_bytes st b ! j"
    and user: "sm_view (st_user st) a = sm_view (st_user st) b"
      "\<forall>e \<in> set (sm_view (st_user st) a). st_types st ! offset_tag (ifrom (fst e)) \<noteq> Meta_Pointers"
  shows "object_alike P st a b"
proof -
  have word: "word_alike P st a b w" if w: "w < n div 4" for w
  proof -
    have "4 * w + 4 \<le> 4 * (n div 4)" "4 * (n div 4) \<le> n" using w by simp_all
    then have fit: "4 * w + 4 \<le> obj_size st a" "4 * w + 4 \<le> obj_size st b"
      and j: "4 * w + i < n \<and> 4 * w + i \<le> 4 * (n div 4)" if "i < 4" for i using sz that by simp_all
    have "the (word_at st a (4 * w)) = the (word_at st b (4 * w))"
      unfolding word_at_bytes [OF fit [of 0, simplified]] using bytes j by blast
    then show ?thesis using kinds w by (simp add: word_alike_def Let_def)
  qed
  have last: "obj_bytes st a ! (4 * (n div 4)) = obj_bytes st b ! (4 * (n div 4))" if "n mod 4 \<noteq> 0"
  proof -
    have "4 * (n div 4) < n" using that mult_div_mod_eq [of 4 n] by linarith
    then show ?thesis using bytes by blast
  qed
  have "user_related P (st_types st) (sm_view (st_user st) a) (sm_view (st_user st) a)"
    unfolding user_related_def list_all2_same using user(2) by simp
  then show ?thesis unfolding object_alike_def using sz word last user(1) by simp
qed

lemma alike_one:
  assumes "valid_id h1 r1" "valid_id h2 r2" "\<And>P. object_alike P st (ptr2i h1 r1) (ptr2i h2 r2)"
  shows "alike st h1 h2 r1 r2"
proof -
  have "heap_alike {(r1, r2)} st h1 h2"
    using assms by (simp add: heap_alike_def node_alike_def single_valued_def)
  then show ?thesis unfolding alike_def by blast
qed

section \<open>Snapshots\<close>

lemma equal_explicit_alike:
  assumes "sh_ok (st_shadow st)" "ids_sorted a" "0 \<notin> snd ` set a" "length a < fuel"
  shows "equal_explicit fuel st root a b = Some (alike st (restored a) (restored b) root root)"
proof (cases "a = b")
  case True
  then show ?thesis by (simp add: equal_explicit_def equal_fastpath_iff alike_refl)
next
  case False
  have h: "heap_ok (restored a)" using assms(2,3) by (simp add: heap_ok_def restored_def)
  have "card {p. valid_id (restored a) p} < fuel"
    using valid_ids_bound [OF h] assms(4) by (simp add: restored_def)
  from mem_compare_spec [OF assms(1) this, of "restored b" root root] show ?thesis
    using False by (auto simp: equal_explicit_def equal_fastpath_iff)
qed

section \<open>Plain heaps that are alike are isomorphic\<close>

lemma object_same_alike:
  assumes ok: "sh_ok (st_shadow st)" and alike: "object_alike P st a b" and plain: "plain_object st a" "plain_object st b"
  shows "object_same P st a b"
proof -
  have sz: "obj_size st a = obj_size st b" using alike by (simp add: object_alike_def)
  have word: "word_alike P st a b w" if "w < obj_size st a div 4" for w using alike that by (simp add: object_alike_def)
  have no_frag: "fragment st a j = None" "fragment st b j = None" if "j < obj_size st a" for j
    using plain that sz by (simp_all add: plain_object_def)
  have bytes: "obj_bytes st a ! j = obj_bytes st b ! j"
    if j: "j < obj_size st a" "\<not> holds_pointer st a (j div 4)" for j
  proof (cases "j div 4 < obj_size st a div 4")
    case True
    let ?w = "j div 4"
    have in_a: "4 * ?w + 4 \<le> obj_size st a" using True by linarith
    have in_b: "4 * ?w + 4 \<le> obj_size st b" using in_a sz by simp
    have kind: "\<not> fst (word_kind st a ?w)" "word_kind st a ?w = word_kind st b ?w"
      using j(2) True word [OF True] by (simp_all add: holds_pointer_def word_alike_def)
    have "the (word_at st a (4 * ?w)) = the (word_at st b (4 * ?w)) \<or> data_part st a ?w = data_part st b ?w \<and> snd (word_kind st a ?w)"
      using word [OF True] kind(1) unfolding word_alike_def Let_def by (auto split: if_splits)
    then show ?thesis
    proof
      assume "the (word_at st a (4 * ?w)) = the (word_at st b (4 * ?w))"
      then have "\<forall>i < 4. obj_bytes st a ! (4 * ?w + i) = obj_bytes st b ! (4 * ?w + i)"
        unfolding word_at_bytes [OF in_a in_b] .
      moreover have "j mod 4 < 4" "4 * ?w + j mod 4 = j" by simp_all
      ultimately show ?thesis by metis
    next
      assume f: "data_part st a ?w = data_part st b ?w \<and> snd (word_kind st a ?w)"
      have exc: "is_pointer_exception (sh_meta (st_shadow st) a ! ?w)"
        using f by (simp add: word_kind_def Let_def)
      then obtain k where "k < 4 * ?w + 4" "fragment st a k \<noteq> None" using sh_fragment [OF ok in_a] by blast
      then show ?thesis using no_frag(1) [of k] in_a by simp
    qed
  next
    case False
    define q r where "q = obj_size st a div 4" and "r = obj_size st a mod 4"
    have n: "obj_size st a = 4 * q + r" "r \<le> 1" using plain(1) unfolding plain_object_def q_def r_def by simp_all
    have "4 * q \<le> j" using False unfolding q_def by linarith
    then have at: "j = 4 * (obj_size st a div 4)" "obj_size st a mod 4 \<noteq> 0"
      using j(1) n unfolding q_def [symmetric] r_def [symmetric] by linarith+
    show ?thesis unfolding at(1) using alike at(2) unfolding object_alike_def by blast
  qed
  have "byte_same P st a b j" if "j < obj_size st a" "\<not> holds_pointer st a (j div 4)" for j
    using bytes [OF that] no_frag [OF that(1)] by (simp add: byte_same_def)
  moreover have "word_kind st a w = word_kind st b w \<and>
      (holds_pointer st a w \<longrightarrow> P (the (word_at st a (4 * w))) (the (word_at st b (4 * w))))" if "w < obj_size st a div 4" for w
    using word [OF that] unfolding word_alike_def Let_def holds_pointer_def by (auto split: if_splits)
  moreover have "dview (st_shadow st) a j = dview (st_shadow st) b j \<and> tview (st_shadow st) a j = tview (st_shadow st) b j"
    if "j < obj_size st a" for j using plain that sz by (simp add: plain_object_def)
  ultimately show ?thesis using alike unfolding object_same_def object_alike_def by blast
qed

lemma alike_isomorphic:
  assumes "sh_ok (st_shadow st)" "plain_heap st h1" "plain_heap st h2" "alike st h1 h2 r1 r2"
  shows "isomorphic st h1 h2 r1 r2"
proof -
  obtain R where R: "heap_alike R st h1 h2" "(r1, r2) \<in> R" using assms(4) unfolding alike_def by blast
  have "object_same (ptr_related R) st (ptr2i h1 p) (ptr2i h2 q)"
    if "valid_id h1 p" "valid_id h2 q" "object_alike (ptr_related R) st (ptr2i h1 p) (ptr2i h2 q)" for p q
    using object_same_alike [OF assms(1) that(3)] assms(2,3) that(1,2) unfolding plain_heap_def by blast
  then show ?thesis using R unfolding isomorphic_def heap_alike_def node_alike_def by blast
qed

lemma plain_whole: "plain_heap st h \<Longrightarrow> whole_fragments st h"
  unfolding whole_fragments_def
proof (intro allI impI)
  fix p assume h: "plain_heap st h" "valid_id h p" "obj_size st (ptr2i h p) mod 4 \<noteq> 0"
  have "4 * (obj_size st (ptr2i h p) div 4) < obj_size st (ptr2i h p)"
    using h(3) mult_div_mod_eq [of 4 "obj_size st (ptr2i h p)"] by linarith
  then show "fragment st (ptr2i h p) (4 * (obj_size st (ptr2i h p) div 4)) = None"
    using h(1,2) unfolding plain_heap_def plain_object_def by blast
qed

text \<open>Where no heap has what the comparison overlooks, it decides isomorphism.\<close>

lemma plain_alike_iff:
  assumes "sh_ok (st_shadow st)" "plain_heap st h1" "plain_heap st h2"
  shows "alike st h1 h2 r1 r2 \<longleftrightarrow> isomorphic st h1 h2 r1 r2"
  using alike_isomorphic [OF assms] isomorphic_alike [OF assms(1) plain_whole [OF assms(2)]] by blast

end
