(* ===== verification/HeapProps.thy ===== *)
theory HeapProps
  imports HeapFacts HeapSame
begin

unbundle bit_operations_syntax

text \<open>
  Properties of the heap: what the comparison of states decides and what it overlooks, which
  identifier a new object gets, and that what is written is read back.
\<close>

section \<open>Examples\<close>

text \<open>All bytes of an object that has no pointers are made defined.\<close>

definition sh_define :: "nat \<Rightarrow> shadow \<Rightarrow> shadow" where
  "sh_define i sh = sh\<lparr>sh_meta := (sh_meta sh)(i := replicate (length (sh_meta sh i)) 0x28)\<rparr>"

lemma expand_defined: "expand 0x28 = 0xF000"
  by code_simp

lemma read_defined:
  "off mod 4 = 0 \<Longrightarrow> dl_read_def sh obj off 0xF000 = Some [0xff, 0xff, 0xff, 0xff]"
  "pl_read_ptr sh obj off 0xF000 = Some pe_null" "\<not> ex_pointer_exception 0xF000"
  by (simp_all add: dl_read_def_def pl_read_ptr_def ex_getters mask_table_def)

lemma less_4_cases: "k < 4 \<Longrightarrow> k = 0 \<or> k = 1 \<or> k = 2 \<or> k = (3 :: nat)"
  by linarith

lemma defined_nth: "k < 4 \<Longrightarrow> [0xff, 0xff, 0xff, 0xff :: u8] ! k = 0xff"
  using less_4_cases [of k] by auto

lemma sh_ok_define:
  assumes "sh_ok sh"
  shows "sh_ok (sh_define i sh)"
proof -
  let ?sh = "sh_define i sh"
  have sel: "sh_pexc ?sh = sh_pexc sh" "sh_dexc ?sh = sh_dexc sh" "sh_mem ?sh = sh_mem sh"
    "sh_meta ?sh = (sh_meta sh)(i := replicate (length (sh_meta sh i)) 0x28)"
    by (simp_all add: sh_define_def)
  have "word_ok ?sh ob w (expand (sh_meta ?sh ob ! w))" if "w < length (sh_meta ?sh ob)" for ob w
  proof (cases "ob = i")
    case True
    then show ?thesis using that by (simp add: sel word_ok_def expand_defined read_defined)
  next
    case False
    then have "word_ok ?sh ob w e = word_ok sh ob w e" for e
      by (intro read_cong(3)) (simp_all add: sel)
    then show ?thesis using assms that False by (simp add: sel sh_ok_def)
  qed
  moreover have "length (sh_meta ?sh ob) = meta_size (length (sh_mem ?sh ob))" for ob
    using assms by (simp add: sh_ok_def sel)
  moreover have "em_sorted (sh_pexc ?sh)" "em_sorted (sh_dexc ?sh)" using assms by (simp_all add: sh_ok_def sel)
  ultimately show ?thesis unfolding sh_ok_def by blast
qed

definition example_store :: store where
  "example_store =
     \<lparr>st_shadow = sh_define 2 (sh_define 1 (sh_make 2 (replicate 8 0) (sh_make 1 (replicate 8 0) sh_init))),
      st_user = sm_empty, st_types = replicate NLayers Meta_Unknown\<rparr>"

definition example_heap :: "nat \<Rightarrow> heap" where
  "example_heap i = \<lparr>hp_exc = [], hp_snap = [(0x10000001, i)]\<rparr>"

lemma example_ok: "sh_ok (st_shadow example_store)"
  by (simp add: example_store_def sh_ok_make sh_ok_init sh_ok_define)

lemma example_heap_items: "length (hp_exc (example_heap i)) = 0" "length (hp_snap (example_heap i)) = 1"
  by (simp_all add: example_heap_def)

lemma example_heap_ok: "i \<noteq> 0 \<Longrightarrow> heap_ok (example_heap i)"
  by (simp add: heap_ok_def example_heap_def ids_sorted_Cons)

section \<open>Comparing heaps\<close>

lemma example_plain: "i \<in> {1, 2} \<Longrightarrow> plain_heap example_store (example_heap i)"
proof -
  assume i: "i \<in> {1, 2}"
  have obj: "p = 0x10000001 \<and> ptr2i (example_heap i) p = i" if "valid_id (example_heap i) p" for p
    using that ptr2i_lookup [OF heap_ok_snap [OF example_heap_ok [of i]], of p] i
    by (auto simp: valid_id_def valid_obj_def example_heap_def found_in_def split: if_splits)
  have "plain_object example_store i"
  proof -
    have "obj_size example_store i = 8" using i by (auto simp: example_store_def obj_size_def obj_bytes_def
        sh_define_def sh_make_def md_materialise_def)
    moreover have "dview (st_shadow example_store) i j = 0xff \<and> \<not> tview (st_shadow example_store) i j \<and>
        fragment example_store i j = None" if "j < 8" for j
    proof -
      have "j div 4 < 2" using that by simp
      then have "sh_meta (st_shadow example_store) i ! (j div 4) = 0x28"
        using i by (auto simp: example_store_def sh_define_def sh_make_def md_materialise_def meta_size_eq)
      then show ?thesis
        by (simp add: dview_def word_def_def tview_def fragment_def word_kind_def Let_def expand_defined
            read_defined defined_nth is_pointer_exception_def ex_getters)
    qed
    ultimately show ?thesis by (simp add: plain_object_def)
  qed
  then show ?thesis using obj by (simp add: plain_heap_def)
qed

text \<open>
  C4. The comparison of two heaps from two roots ends, with as many rounds as there are items in the
  first heap. Its result is 0 exactly when what can be reached is \<open>alike\<close>: matched one to one, with the same
  sizes, kinds of words, data in whole words, first bytes after the last word and user metadata, and with
  pointers to matched objects; nothing else is looked at. The result is 0 for isomorphic heaps, where no
  fragment of a pointer comes right after the last word of an object. For plain heaps, where every byte
  is defined and not tainted, there are no fragments, and at most one byte comes after the last word, it
  is 0 for isomorphic heaps only.
\<close>

theorem mem_compare_exact:
  assumes "sh_ok (st_shadow st)" "heap_ok h1" "length (hp_exc h1) + length (hp_snap h1) < fuel"
  shows "\<exists>d v. mem_compare fuel st h1 h2 r1 r2 visit_start = Some (d, v) \<and>
    (d = 0 \<longleftrightarrow> alike st h1 h2 r1 r2) \<and>
    (whole_fragments st h1 \<and> isomorphic st h1 h2 r1 r2 \<longrightarrow> d = 0) \<and>
    (plain_heap st h1 \<and> plain_heap st h2 \<longrightarrow> (d = 0 \<longleftrightarrow> isomorphic st h1 h2 r1 r2))"
proof -
  have "card {p. valid_id h1 p} < fuel" using valid_ids_bound [OF assms(2)] assms(3) by (rule le_less_trans)
  then obtain d v where "mem_compare fuel st h1 h2 r1 r2 visit_start = Some (d, v)" "d = 0 \<longleftrightarrow> alike st h1 h2 r1 r2"
    using mem_compare_spec [OF assms(1)] by blast
  then show ?thesis using isomorphic_alike [OF assms(1)] plain_alike_iff [OF assms(1)] by blast
qed

theorem mem_compare_exact_witness:
  "map_option fst (mem_compare 2 example_store (example_heap 1) (example_heap 2) 0x10000001 0x10000001 visit_start) =
      Some 0 \<and>
    isomorphic example_store (example_heap 1) (example_heap 2) 0x10000001 0x10000001"
proof
  let ?c = "mem_compare 2 example_store (example_heap 1) (example_heap 2) 0x10000001 0x10000001 visit_start"
  show zero: "map_option fst ?c = Some 0" by code_simp
  have "length (hp_exc (example_heap 1)) + length (hp_snap (example_heap 1)) < 2" by (simp add: example_heap_def)
  from mem_compare_exact [OF example_ok example_heap_ok this, of "example_heap 2" "0x10000001" "0x10000001"]
  show "isomorphic example_store (example_heap 1) (example_heap 2) 0x10000001 0x10000001"
    using zero example_plain by auto
qed

text \<open>
  C12. Two states of the program, given by their snapshots, are taken for the same state exactly
  when what is reachable from the root is \<open>alike\<close>; the test whether the snapshots have the same items
  answers only what the comparison would. So states that are isomorphic are taken for the same, unless
  a fragment of a pointer comes right after the last word of an object, and plain states that are not
  isomorphic are told apart.
\<close>

theorem equal_explicit_exact:
  assumes "sh_ok (st_shadow st)" "ids_sorted a" "0 \<notin> snd ` set a" "length a < fuel"
  shows "\<exists>e. equal_explicit fuel st root a b = Some e \<and>
    (e \<longleftrightarrow> alike st (restored a) (restored b) root root) \<and>
    (whole_fragments st (restored a) \<and> isomorphic st (restored a) (restored b) root root \<longrightarrow> e) \<and>
    (plain_heap st (restored a) \<and> plain_heap st (restored b) \<longrightarrow>
       (e \<longleftrightarrow> isomorphic st (restored a) (restored b) root root))"
proof -
  have "equal_explicit fuel st root a b = Some (alike st (restored a) (restored b) root root)"
    by (rule equal_explicit_alike [OF assms])
  then show ?thesis using isomorphic_alike [OF assms(1)] plain_alike_iff [OF assms(1)] by blast
qed

theorem equal_explicit_exact_witness:
  "equal_explicit 2 example_store 0x10000001 [(0x10000001, 1)] [(0x10000001, 2)] = Some True \<and>
    isomorphic example_store (restored [(0x10000001, 1)]) (restored [(0x10000001, 2)]) 0x10000001 0x10000001"
proof
  show t: "equal_explicit 2 example_store 0x10000001 [(0x10000001, 1)] [(0x10000001, 2)] = Some True" by code_simp
  have r: "restored [(0x10000001, i)] = example_heap i" for i by (simp add: restored_def example_heap_def)
  show "isomorphic example_store (restored [(0x10000001, 1)]) (restored [(0x10000001, 2)]) 0x10000001 0x10000001"
    using equal_explicit_exact [OF example_ok, of "[(0x10000001, 1)]" 2 "0x10000001" "[(0x10000001, 2)]"] t example_plain
    by (simp add: ids_sorted_Cons r)
qed

text \<open>
  C13. What the comparison overlooks: two objects without pointers, of the same size, with the same user
  metadata, whose bytes agree up to the first one after the last word, compare as equal, whatever the
  other bytes are, and whichever bytes are undefined or tainted.
\<close>

theorem compare_overlooks:
  assumes "sh_ok (st_shadow st)" "heap_ok h1" "length (hp_exc h1) + length (hp_snap h1) < fuel"
    and "valid_id h1 r" "valid_id h2 r" "obj_size st (ptr2i h1 r) = n" "obj_size st (ptr2i h2 r) = n"
    and "\<forall>w < n div 4. word_kind st (ptr2i h1 r) w = (False, False) \<and> word_kind st (ptr2i h2 r) w = (False, False)"
    and "\<forall>j < n. j \<le> 4 * (n div 4) \<longrightarrow> obj_bytes st (ptr2i h1 r) ! j = obj_bytes st (ptr2i h2 r) ! j"
    and "sm_view (st_user st) (ptr2i h1 r) = sm_view (st_user st) (ptr2i h2 r)"
    and "\<forall>e \<in> set (sm_view (st_user st) (ptr2i h1 r)). st_types st ! offset_tag (ifrom (fst e)) \<noteq> Meta_Pointers"
  shows "\<exists>v. mem_compare fuel st h1 h2 r r visit_start = Some (0, v)"
proof -
  have "alike st h1 h2 r r"
    by (rule alike_one [OF assms(4,5)]) (rule object_alike_data [OF assms(6-11)])
  moreover have "card {p. valid_id h1 p} < fuel" using valid_ids_bound [OF assms(2)] assms(3) by (rule le_less_trans)
  ultimately show ?thesis using mem_compare_spec [OF assms(1)] by blast
qed

definition overlooked :: store where
  "overlooked =
     \<lparr>st_shadow = sh_define 2 (sh_make 2 [0, 0, 0, 0, 7, 2] (sh_make 1 [0, 0, 0, 0, 7, 1] sh_init)),
      st_user = sm_empty, st_types = replicate NLayers Meta_Unknown\<rparr>"

theorem compare_overlooks_witness:
  "obj_bytes overlooked 1 = [0, 0, 0, 0, 7, 1] \<and> obj_bytes overlooked 2 = [0, 0, 0, 0, 7, 2] \<and>
    dview (st_shadow overlooked) 1 0 = 0 \<and> dview (st_shadow overlooked) 2 0 = 0xff \<and>
    (\<exists>v. mem_compare 2 overlooked (example_heap 1) (example_heap 2) 0x10000001 0x10000001 visit_start = Some (0, v))"
proof (intro conjI)
  show bytes: "obj_bytes overlooked 1 = [0, 0, 0, 0, 7, 1]" "obj_bytes overlooked 2 = [0, 0, 0, 0, 7, 2]" by code_simp+
  show "dview (st_shadow overlooked) 1 0 = 0" "dview (st_shadow overlooked) 2 0 = 0xff" by code_simp+
  have ids: "ptr2i (example_heap 1) 0x10000001 = 1" "ptr2i (example_heap 2) 0x10000001 = 2"
    "valid_id (example_heap 1) 0x10000001" "valid_id (example_heap 2) 0x10000001" by code_simp+
  have kinds: "word_kind overlooked 1 0 = (False, False)" "word_kind overlooked 2 0 = (False, False)" by code_simp+
  have ok: "sh_ok (st_shadow overlooked)" by (simp add: overlooked_def sh_ok_make sh_ok_init sh_ok_define)
  have user: "sm_view (st_user overlooked) i = []" for i
    by (simp add: overlooked_def sm_view_def sm_empty_def snap_range_def)
  have "[0, 0, 0, 0, 7, 1 :: u8] ! j = [0, 0, 0, 0, 7, 2] ! j" if "j < 6" "j \<le> 4 * (6 div 4)" for j
    using less_4_cases [of j] that by (cases "j = 4") auto
  then show "\<exists>v. mem_compare 2 overlooked (example_heap 1) (example_heap 2) 0x10000001 0x10000001 visit_start = Some (0, v)"
    by (intro compare_overlooks [where n = 6] ok example_heap_ok)
      (simp_all add: ids kinds user bytes obj_size_def example_heap_items del: One_nat_def)
qed

section \<open>Objects\<close>

text \<open>
  C14. Making an object ends, as long as the identifiers from the hint on do not run out, with an
  identifier not below the hint that named nothing before. The identifier then names the new
  object, whose bytes are cleared and undefined, and all others name what they did; of all other objects
  the bytes, the metadata and the user metadata stay as they are, as do the snapshot, the
  exceptions and the types of the layers; and the invariants are kept.
\<close>

theorem fresh_object:
  assumes "heap_ok h" "sh_ok (st_shadow st)" "0 < sz" "VM_PL_Code \<le> hint"
    and "unat hint + length (hp_exc h) + length (hp_snap h) < 2 ^ 32"
  shows "\<exists>obj h' st'.
    make_obj i sz hint overwrite h st = Some (\<lparr>l_object = i, l_offset = 0, l_objid = obj\<rparr>, h', st') \<and>
    hint \<le> obj \<and> ptr2i h obj = 0 \<and> ptr2i h' = (ptr2i h)(obj := i) \<and> hp_snap h' = hp_snap h \<and>
    heap_ok h' \<and> sh_ok (st_shadow st') \<and> obj_bytes st' i = replicate sz 0 \<and>
    (\<forall>j < sz. dview (st_shadow st') i j = 0) \<and> kept_but i st st'"
  using assms by (rule make_obj_spec)

theorem fresh_object_witness:
  "\<exists>obj h' st'. make_obj 3 5 0x10000001 False (example_heap 1) example_store =
      Some (\<lparr>l_object = 3, l_offset = 0, l_objid = obj\<rparr>, h', st') \<and>
    0x10000001 \<le> obj \<and> ptr2i (example_heap 1) obj = 0 \<and> obj_bytes st' 3 = replicate 5 0 \<and>
    obj_bytes st' 1 = obj_bytes example_store 1 \<and> sm_view (st_user st') 1 = sm_view (st_user example_store) 1"
  using fresh_object [OF example_heap_ok example_ok, of 1 5 "0x10000001" 3 False]
  by (auto simp: example_heap_def VM_PL_Code_def kept_but_def)

text \<open>
  C15. A value written inside an object is read back with the same bytes and, where no object
  identifier is, the same definedness; no assertion fails, the size of the object stays, and no
  byte outside the access changes, in this or in any other object.
\<close>

theorem object_read_back:
  assumes "sh_ok (st_shadow st)" "sval_ok v" "md_access_ok (sv_size v) (l_offset l)"
    and "l_offset l + sv_size v \<le> obj_size st (l_object l)" "length rb = sv_size v"
  shows "\<exists>st' r. data_write l v rb st = Some st' \<and> data_read l (sv_size v) st' = Some (rb, r) \<and>
    (\<forall>i < sv_size v. rv_def r ! i =
       (if pointer_word v (l_offset l) ((l_offset l + i) div 4) then 0xff else sv_def v ! i)) \<and>
    obj_size st' (l_object l) = obj_size st (l_object l) \<and>
    take (l_offset l) (obj_bytes st' (l_object l)) = take (l_offset l) (obj_bytes st (l_object l)) \<and>
    drop (l_offset l + sv_size v) (obj_bytes st' (l_object l)) =
      drop (l_offset l + sv_size v) (obj_bytes st (l_object l)) \<and>
    (\<forall>o'. o' \<noteq> l_object l \<longrightarrow> obj_bytes st' o' = obj_bytes st o')"
proof -
  let ?sz = "sv_size v" and ?off = "l_offset l" and ?o = "l_object l"
  have in_sh: "?off + ?sz \<le> length (sh_mem (st_shadow st) ?o)"
    using assms(4) by (simp add: obj_size_def obj_bytes_def)
  obtain sh' where sh': "md_write l v (st_shadow st) = Some sh'" "sh_ok sh'" "sh_mem sh' = sh_mem (st_shadow st)"
    "\<And>j. j div 4 \<in> access_words ?off ?sz \<Longrightarrow> dview sh' ?o j = (if pointer_word v ?off (j div 4) then 0xff
         else if ?off \<le> j \<and> j < ?off + ?sz then sv_def v ! (j - ?off) else dview (st_shadow st) ?o j)"
    using md_write_spec [OF assms(1,2,3) in_sh] by (auto simp: only_words_def)
  let ?bs = "overlay ?off rb (obj_bytes st ?o)"
  let ?st = "set_bytes ?o ?bs (st\<lparr>st_shadow := sh'\<rparr>)"
  have w: "data_write l v rb st = Some ?st"
    using assms(4,5) sh' by (simp add: data_write_def obj_bytes_def)
  have fits: "?off + length rb \<le> length (obj_bytes st ?o)" using assms(4,5) by (simp add: obj_size_def)
  have bytes: "obj_bytes ?st o' = (if o' = ?o then ?bs else obj_bytes st o')" for o'
    using sh'(3) by (simp add: obj_bytes_def set_bytes_def)
  have in_sh': "?off + ?sz \<le> length (sh_mem sh' ?o)" using in_sh sh'(3) by simp
  obtain r where r: "md_read l ?sz sh' = Some r" "rv_def r = map (dview sh' ?o) [?off..<?off + ?sz]"
    using md_read_spec [OF sh'(2) assms(3) in_sh'] by blast
  have "md_read l ?sz (st_shadow ?st) = Some r" by (simp add: set_bytes_def md_read_mem r(1))
  then have rd: "data_read l ?sz ?st = Some (rb, r)"
    using assms(4,5) take_drop_overlay [OF fits] length_overlay [OF fits]
    by (simp add: data_read_def obj_size_def bytes)
  have "rv_def r ! i = (if pointer_word v ?off ((?off + i) div 4) then 0xff else sv_def v ! i)"
    if "i < ?sz" for i
    using that sh'(4) [OF access_covers [OF assms(3)], of "?off + i"] by (simp add: r(2))
  moreover have "obj_size ?st ?o = obj_size st ?o"
    using length_overlay [OF fits] by (simp add: obj_size_def bytes)
  moreover have "take ?off (obj_bytes ?st ?o) = take ?off (obj_bytes st ?o)"
    "drop (?off + ?sz) (obj_bytes ?st ?o) = drop (?off + ?sz) (obj_bytes st ?o)"
    unfolding bytes using assms(5) around_overlay [OF fits] by simp_all
  moreover have "obj_bytes ?st o' = obj_bytes st o'" if "o' \<noteq> ?o" for o' using that by (simp add: bytes)
  ultimately show ?thesis using w rd by blast
qed

theorem object_read_back_witness:
  "\<exists>st' r. data_write \<lparr>l_object = 1, l_offset = 0, l_objid = 0x10000001\<rparr> example_ptr [1, 0, 0, 0, 7, 0, 0, 0]
      example_store = Some st' \<and>
    data_read \<lparr>l_object = 1, l_offset = 0, l_objid = 0x10000001\<rparr> 8 st' = Some ([1, 0, 0, 0, 7, 0, 0, 0], r)"
  using object_read_back [OF example_ok, of example_ptr
      "\<lparr>l_object = 1, l_offset = 0, l_objid = 0x10000001\<rparr>" "[1, 0, 0, 0, 7, 0, 0, 0]"]
  by (auto simp: sval_ok_def example_ptr_def md_access_ok_def example_store_def obj_size_def obj_bytes_def
      sh_make_def sh_define_def md_materialise_def)

end
