(* ===== verification/LtlForm.thy ===== *)
theory LtlForm
  imports Main "HOL-Library.List_Lexorder" "HOL-Library.Char_ord"
begin

text \<open>
  Formulas of linear temporal logic (\<^verbatim>\<open>src/divine/ltl/ltl.hpp\<close> and the first part of \<^verbatim>\<open>ltl.cpp\<close>):
  the nodes, the order of the two comparators, printing, the normal form, and the labels of
  the \<^verbatim>\<open>Until\<close> formulas that the translation to automata works with.
\<close>

section \<open>Nodes\<close>

datatype uop = Neg | Global | Future | Next

datatype bop = And | Or | Impl | Equiv | Until | WeakUntil | Release

text \<open>
  A \<^verbatim>\<open>LTLPtr\<close>, with \<open>Null\<close> for \<^verbatim>\<open>nullptr\<close>. The first field of a node is \<^verbatim>\<open>indexesOfUParents()\<close>, the
  indexes of the nodes in \<^verbatim>\<open>UParents\<close>; a binary node also has its \<^verbatim>\<open>untilIndex\<close>. The field \<^verbatim>\<open>id\<close> is
  left out: it is read by the comparators only, to answer \<^verbatim>\<open>false\<close> at once for one and the same node.
\<close>

datatype ltl =
    Null
  | Boolean "nat list" bool
  | Atom "nat list" string
  | Unary "nat list" uop ltl
  | Binary "nat list" bop int ltl ltl

fun uop_priority :: "uop \<Rightarrow> nat" where
  "uop_priority Neg = 10"
| "uop_priority Global = 9"
| "uop_priority Future = 8"
| "uop_priority Next = 7"

fun bop_priority :: "bop \<Rightarrow> nat" where
  "bop_priority And = 6"
| "bop_priority Or = 5"
| "bop_priority Equiv = 4"
| "bop_priority Impl = 3"
| "bop_priority Until = 2"
| "bop_priority WeakUntil = 1"
| "bop_priority Release = 0"

fun priority :: "ltl \<Rightarrow> nat" where
  "priority (Boolean u b) = 21"
| "priority (Atom u s) = 20"
| "priority (Unary u p f) = uop_priority p"
| "priority (Binary u p i l r) = bop_priority p"
| "priority Null = 0"

text \<open>The functions \<^verbatim>\<open>make\<close>.\<close>

definition make_binary :: "bop \<Rightarrow> ltl \<Rightarrow> ltl \<Rightarrow> ltl" where
  "make_binary p l r = Binary [] p (- 1) l r"

definition make_unary :: "uop \<Rightarrow> ltl \<Rightarrow> ltl" where
  "make_unary p f = Unary [] p f"

definition make_bool :: "bool \<Rightarrow> ltl" where
  "make_bool b = Boolean [] b"

definition make_label :: "string \<Rightarrow> ltl" where
  "make_label s =
     (if s = ''true'' \<or> s = ''tt'' \<or> s = ''1'' then make_bool True
      else if s = ''false'' \<or> s = ''ff'' \<or> s = ''0'' then make_bool False
      else Atom [] s)"

lemmas makes = make_binary_def make_unary_def make_bool_def

fun is_complete :: "ltl \<Rightarrow> bool" where
  "is_complete (Unary u p f) = (f \<noteq> Null)"
| "is_complete (Binary u p i l r) = (l \<noteq> Null \<and> r \<noteq> Null)"
| "is_complete (Boolean u b) = True"
| "is_complete (Atom u s) = True"
| "is_complete Null = False"

fun is_unary :: "uop \<Rightarrow> ltl \<Rightarrow> bool" where
  "is_unary p (Unary u q f) = (q = p)"
| "is_unary p f = False"

fun is_binary :: "bop \<Rightarrow> ltl \<Rightarrow> bool" where
  "is_binary p (Binary u q i l r) = (q = p)"
| "is_binary p f = False"

fun is_boolean :: "ltl \<Rightarrow> bool" where
  "is_boolean (Boolean u b) = True"
| "is_boolean f = False"

fun bool_value :: "ltl \<Rightarrow> bool" where
  "bool_value (Boolean u b) = b"
| "bool_value f = False"

fun is_literal :: "ltl \<Rightarrow> bool" where
  "is_literal (Unary u p f) = (p = Neg \<and> is_literal f)"
| "is_literal (Atom u s) = True"
| "is_literal (Boolean u b) = True"
| "is_literal f = False"

fun u_indexes :: "ltl \<Rightarrow> nat list" where
  "u_indexes (Boolean u b) = u"
| "u_indexes (Atom u s) = u"
| "u_indexes (Unary u p f) = u"
| "u_indexes (Binary u p i l r) = u"
| "u_indexes Null = []"

section \<open>Printing\<close>

fun uop_string :: "uop \<Rightarrow> string" where
  "uop_string Neg = ''!''"
| "uop_string Global = ''G''"
| "uop_string Future = ''F''"
| "uop_string Next = ''X''"

text \<open>\<^verbatim>\<open>Binary::string\<close> has no case for \<^verbatim>\<open>WeakUntil\<close>, which takes the default branch.\<close>

fun ltl_string :: "ltl \<Rightarrow> string" where
  "ltl_string Null = ''_''"
| "ltl_string (Boolean u b) = (if b then ''true'' else ''false'')"
| "ltl_string (Atom u s) = s"
| "ltl_string (Unary u p f) = uop_string p @ ltl_string f"
| "ltl_string (Binary u p i l r) =
     (case p of
        And \<Rightarrow> ''( '' @ ltl_string l @ '' & '' @ ltl_string r @ '' )''
      | Or \<Rightarrow> ''( '' @ ltl_string l @ '' | '' @ ltl_string r @ '' )''
      | Impl \<Rightarrow> ''( '' @ ltl_string l @ '' -> '' @ ltl_string r @ '' )''
      | Equiv \<Rightarrow> ''( '' @ ltl_string l @ '' <-> '' @ ltl_string r @ '' )''
      | Until \<Rightarrow> ''( '' @ ltl_string l @ '' U '' @ ltl_string r @ '' )''
      | Release \<Rightarrow> ''( '' @ ltl_string l @ '' R '' @ ltl_string r @ '' )''
      | WeakUntil \<Rightarrow> '''')"

section \<open>The comparators\<close>

text \<open>\<^verbatim>\<open>LTLComparator\<close> compares the indexes of the \<^verbatim>\<open>Until\<close> parents as well, \<^verbatim>\<open>LTLComparator2\<close> does not.\<close>

function (sequential) ord :: "ltl \<Rightarrow> ltl \<Rightarrow> bool" where
  "ord Null g = (g \<noteq> Null)"
| "ord f Null = False"
| "ord (Boolean u b) (Boolean v c) = (if b = c then u < v else b < c)"
| "ord (Atom u s) (Atom v t) = (if s = t then u < v else s < t)"
| "ord (Unary u p f) (Unary v q g) =
     (if uop_priority p < uop_priority q then True
      else if uop_priority q < uop_priority p then False
      else if ord f g then True else if ord g f then False else u < v)"
| "ord (Binary u p i l r) (Binary v q j m s) =
     (if bop_priority p < bop_priority q then True
      else if bop_priority q < bop_priority p then False
      else if ord r s then True else if ord s r then False
      else if ord l m then True else if ord m l then False else u < v)"
| "ord f g = (priority f < priority g)"
  by pat_completeness auto
termination by (relation "measure (\<lambda>(f, g). size f + size g)") auto

function (sequential) ord2 :: "ltl \<Rightarrow> ltl \<Rightarrow> bool" where
  "ord2 Null g = (g \<noteq> Null)"
| "ord2 f Null = False"
| "ord2 (Boolean u b) (Boolean v c) = (b < c)"
| "ord2 (Atom u s) (Atom v t) = (s < t)"
| "ord2 (Unary u p f) (Unary v q g) =
     (if uop_priority p < uop_priority q then True
      else if uop_priority q < uop_priority p then False
      else ord2 f g)"
| "ord2 (Binary u p i l r) (Binary v q j m s) =
     (if bop_priority p < bop_priority q then True
      else if bop_priority q < bop_priority p then False
      else if ord2 r s then True else if ord2 s r then False
      else ord2 l m)"
| "ord2 f g = (priority f < priority g)"
  by pat_completeness auto
termination by (relation "measure (\<lambda>(f, g). size f + size g)") auto

definition equal2 :: "ltl \<Rightarrow> ltl \<Rightarrow> bool" where
  "equal2 f g \<longleftrightarrow> \<not> ord2 f g \<and> \<not> ord2 g f"

definition ltl_equals :: "ltl \<Rightarrow> ltl \<Rightarrow> bool" where
  "ltl_equals f g \<longleftrightarrow> \<not> ord f g \<and> \<not> ord g f"

section \<open>The normal form\<close>

text \<open>
  \<^verbatim>\<open>normalForm( neg )\<close>; a missing operand is the exception \<^verbatim>\<open>invalid_argument\<close>, here \<open>None\<close>. The
  recursion builds formulas that are larger than the argument, so it descends on a weight.
\<close>

fun nf_weight :: "ltl \<Rightarrow> nat" where
  "nf_weight (Unary u p f) = (case p of Neg \<Rightarrow> 1 | Global \<Rightarrow> 4 | Future \<Rightarrow> 1 | Next \<Rightarrow> 2) + nf_weight f"
| "nf_weight (Binary u p i l r) = 1 + nf_weight l + nf_weight r"
| "nf_weight f = 1"

definition lift2 :: "('a \<Rightarrow> 'b \<Rightarrow> 'c) \<Rightarrow> 'a option \<Rightarrow> 'b option \<Rightarrow> 'c option" where
  "lift2 h x y = (case x of None \<Rightarrow> None | Some a \<Rightarrow> (case y of None \<Rightarrow> None | Some b \<Rightarrow> Some (h a b)))"

function normal_form :: "bool \<Rightarrow> ltl \<Rightarrow> ltl option" where
  "normal_form neg Null = None"
| "normal_form neg (Boolean u b) = Some (make_bool (if neg then \<not> b else b))"
| "normal_form neg (Atom u s) = Some (if neg then make_unary Neg (make_label s) else make_label s)"
| "normal_form neg (Unary u p f) =
     (if neg
      then (case p of
              Neg \<Rightarrow> normal_form (\<not> neg) f
            | Future \<Rightarrow> map_option (make_binary Release (make_bool False)) (normal_form True f)
            | Global \<Rightarrow> if f = Null then None
                        else normal_form False (make_unary Future (make_unary Neg f))
            | Next \<Rightarrow> if f = Null then None
                      else map_option (make_unary Next) (normal_form False (make_unary Neg f)))
      else (case p of
              Neg \<Rightarrow> normal_form (\<not> neg) f
            | Future \<Rightarrow> map_option (make_binary Until (make_bool True)) (normal_form False f)
            | Global \<Rightarrow> map_option (make_binary Release (make_bool False)) (normal_form False f)
            | Next \<Rightarrow> map_option (make_unary Next) (normal_form False f)))"
| "normal_form neg (Binary u p i l r) =
     (let lift = (\<lambda>q. lift2 (make_binary q))
      in if neg
      then (case p of
              And \<Rightarrow> lift Or (normal_form neg l) (normal_form neg r)
            | Or \<Rightarrow> lift And (normal_form neg l) (normal_form neg r)
            | Impl \<Rightarrow> lift And (normal_form (\<not> neg) l) (normal_form neg r)
            | Equiv \<Rightarrow> lift Or (lift And (normal_form (\<not> neg) l) (normal_form neg r))
                             (lift And (normal_form neg l) (normal_form (\<not> neg) r))
            | Until \<Rightarrow> lift Release (normal_form neg l) (normal_form neg r)
            | Release \<Rightarrow> lift Until (normal_form neg l) (normal_form neg r)
            | WeakUntil \<Rightarrow> lift Until (normal_form neg r)
                             (lift And (normal_form neg l) (normal_form neg r)))
      else (case p of
              And \<Rightarrow> lift And (normal_form neg l) (normal_form neg r)
            | Or \<Rightarrow> lift Or (normal_form neg l) (normal_form neg r)
            | Impl \<Rightarrow> lift Or (normal_form (\<not> neg) l) (normal_form neg r)
            | Equiv \<Rightarrow> lift Or (lift And (normal_form neg l) (normal_form neg r))
                             (lift And (normal_form (\<not> neg) l) (normal_form (\<not> neg) r))
            | Until \<Rightarrow> lift Until (normal_form neg l) (normal_form neg r)
            | Release \<Rightarrow> lift Release (normal_form neg l) (normal_form neg r)
            | WeakUntil \<Rightarrow> lift Release (normal_form neg r)
                             (lift Or (normal_form neg l) (normal_form neg r))))"
  by pat_completeness auto
termination by (relation "measure (\<lambda>(neg, f). nf_weight f)") (auto simp: make_unary_def)

section \<open>Labels of the Until formulas\<close>

text \<open>
  \<^verbatim>\<open>countAndLabelU( seed )\<close> numbers the \<^verbatim>\<open>Until\<close> nodes in postorder and returns the next free number;
  \<^verbatim>\<open>computeUParents\<close> tells the right operand of each of them the number of its parent. A missing
  operand is a failed assertion.
\<close>

fun count_label :: "nat \<Rightarrow> ltl \<Rightarrow> (ltl \<times> nat) option" where
  "count_label seed Null = None"
| "count_label seed (Boolean u b) = Some (Boolean u b, seed)"
| "count_label seed (Atom u s) = Some (Atom u s, seed)"
| "count_label seed (Unary u p f) =
     (case count_label seed f of None \<Rightarrow> None | Some (f, n) \<Rightarrow> Some (Unary u p f, n))"
| "count_label seed (Binary u p i l r) =
     (case count_label seed l of None \<Rightarrow> None | Some (l, m) \<Rightarrow>
        (case count_label m r of None \<Rightarrow> None | Some (r, n) \<Rightarrow>
           if p \<noteq> Until \<or> i \<noteq> - 1 then Some (Binary u p i l r, n)
           else Some (Binary u p (int n) l r, n + 1)))"

fun push_parent :: "nat \<Rightarrow> ltl \<Rightarrow> ltl" where
  "push_parent i (Boolean u b) = Boolean (u @ [i]) b"
| "push_parent i (Atom u s) = Atom (u @ [i]) s"
| "push_parent i (Unary u p f) = Unary (u @ [i]) p f"
| "push_parent i (Binary u p j l r) = Binary (u @ [i]) p j l r"
| "push_parent i Null = Null"

lemma size_push_parent [simp]: "size (push_parent i f) = size f"
  by (cases f) auto

fun compute_uparents :: "ltl \<Rightarrow> ltl option" where
  "compute_uparents Null = None"
| "compute_uparents (Boolean u b) = Some (Boolean u b)"
| "compute_uparents (Atom u s) = Some (Atom u s)"
| "compute_uparents (Unary u p f) = map_option (Unary u p) (compute_uparents f)"
| "compute_uparents (Binary u p i l r) =
     lift2 (\<lambda>r l. Binary u p i l r)
       (compute_uparents (if p = Until then push_parent (nat i) r else r))
       (compute_uparents l)"

end
