(* ===== verification/LtlFacts.thy ===== *)
theory LtlFacts
  imports LtlForm
begin

text \<open>
  The meaning of formulas over infinite words, and what the operations of \<open>LtlForm\<close> do to it: the
  comparators are strict orders, and the normal form has the meaning it should have.
\<close>

section \<open>Meaning\<close>

text \<open>Position \<open>i\<close> of a word is the set of the propositions that hold there.\<close>

type_synonym letters = "nat \<Rightarrow> string set"

fun holds :: "letters \<Rightarrow> nat \<Rightarrow> ltl \<Rightarrow> bool" where
  "holds w i Null = False"
| "holds w i (Boolean u b) = b"
| "holds w i (Atom u s) = (s \<in> w i)"
| "holds w i (Unary u p f) =
     (case p of Neg \<Rightarrow> \<not> holds w i f
              | Global \<Rightarrow> (\<forall>k \<ge> i. holds w k f)
              | Future \<Rightarrow> (\<exists>k \<ge> i. holds w k f)
              | Next \<Rightarrow> holds w (Suc i) f)"
| "holds w i (Binary u p n l r) =
     (case p of And \<Rightarrow> holds w i l \<and> holds w i r
              | Or \<Rightarrow> holds w i l \<or> holds w i r
              | Impl \<Rightarrow> holds w i l \<longrightarrow> holds w i r
              | Equiv \<Rightarrow> holds w i l \<longleftrightarrow> holds w i r
              | Until \<Rightarrow> (\<exists>k \<ge> i. holds w k r \<and> (\<forall>j. i \<le> j \<and> j < k \<longrightarrow> holds w j l))
              | Release \<Rightarrow> (\<forall>k \<ge> i. holds w k r \<or> (\<exists>j. i \<le> j \<and> j < k \<and> holds w j l))
              | WeakUntil \<Rightarrow> (\<exists>k \<ge> i. holds w k r \<and> (\<forall>j. i \<le> j \<and> j < k \<longrightarrow> holds w j l)) \<or>
                             (\<forall>k \<ge> i. holds w k l))"

text \<open>Formulas without missing operands, and formulas whose labels have a proposition as their meaning.\<close>

fun whole :: "ltl \<Rightarrow> bool" where
  "whole Null = False"
| "whole (Unary u p f) = whole f"
| "whole (Binary u p i l r) = (whole l \<and> whole r)"
| "whole f = True"

definition truth_label :: "string \<Rightarrow> bool" where
  "truth_label s \<longleftrightarrow> s \<in> {''true'', ''tt'', ''1'', ''false'', ''ff'', ''0''}"

fun proper :: "ltl \<Rightarrow> bool" where
  "proper (Atom u s) = (\<not> truth_label s)"
| "proper (Unary u p f) = proper f"
| "proper (Binary u p i l r) = (proper l \<and> proper r)"
| "proper f = True"

text \<open>The normal form: negation at the propositions only, and no other operators than these.\<close>

fun is_atom :: "ltl \<Rightarrow> bool" where
  "is_atom (Atom u s) = True"
| "is_atom f = False"

fun in_nf :: "ltl \<Rightarrow> bool" where
  "in_nf Null = False"
| "in_nf (Boolean u b) = True"
| "in_nf (Atom u s) = True"
| "in_nf (Unary u p f) = (p = Neg \<and> is_atom f \<or> p = Next \<and> in_nf f)"
| "in_nf (Binary u p i l r) = (p \<in> {And, Or, Until, Release} \<and> in_nf l \<and> in_nf r)"

lemma make_label_proper: "\<not> truth_label s \<Longrightarrow> make_label s = Atom [] s"
  by (simp add: make_label_def truth_label_def)

lemma holds_makes [simp]:
  "holds w i (make_bool b) = b"
  "holds w i (make_unary p f) = holds w i (Unary [] p f)"
  "holds w i (make_binary q l r) = holds w i (Binary [] q 0 l r)"
  by (simp_all add: makes)

lemma shape_makes [simp]:
  "in_nf (make_bool b)" "whole (make_bool b)" "proper (make_bool b)"
  "whole (make_unary p f) = whole f" "proper (make_unary p f) = proper f"
  "in_nf (make_unary p f) = (p = Neg \<and> is_atom f \<or> p = Next \<and> in_nf f)"
  "whole (make_binary q l r) = (whole l \<and> whole r)" "proper (make_binary q l r) = (proper l \<and> proper r)"
  "in_nf (make_binary q l r) = (q \<in> {And, Or, Until, Release} \<and> in_nf l \<and> in_nf r)"
  by (simp_all add: makes)

lemma nf_size_makes [simp]:
  "nf_weight (make_unary p f) = nf_weight (Unary [] p f)"
  by (simp add: makes)

section \<open>The duals of the temporal operators\<close>

lemma until_dual:
  "(\<not> (\<exists>k \<ge> i. R k \<and> (\<forall>j. i \<le> j \<and> j < k \<longrightarrow> L j))) \<longleftrightarrow>
   (\<forall>k \<ge> i. \<not> R k \<or> (\<exists>j. i \<le> j \<and> j < k \<and> \<not> L j))"
  by blast

lemma release_dual:
  "(\<not> (\<forall>k \<ge> i. R k \<or> (\<exists>j. i \<le> j \<and> j < k \<and> L j))) \<longleftrightarrow>
   (\<exists>k \<ge> i. \<not> R k \<and> (\<forall>j. i \<le> j \<and> j < k \<longrightarrow> \<not> L j))"
  by blast

lemma weak_until_release:
  fixes L R :: "nat \<Rightarrow> bool"
  shows "(\<exists>k \<ge> i. R k \<and> (\<forall>j. i \<le> j \<and> j < k \<longrightarrow> L j)) \<or> (\<forall>k \<ge> i. L k) \<longleftrightarrow>
    (\<forall>k \<ge> i. (L k \<or> R k) \<or> (\<exists>j. i \<le> j \<and> j < k \<and> R j))" (is "?W \<longleftrightarrow> ?R")
proof
  assume ?W
  then show ?R
  proof (elim disjE exE conjE)
    fix m assume m: "m \<ge> i" "R m" "\<forall>j. i \<le> j \<and> j < m \<longrightarrow> L j"
    have "(L k \<or> R k) \<or> (\<exists>j. i \<le> j \<and> j < k \<and> R j)" if "k \<ge> i" for k
    proof (cases k m rule: linorder_cases)
      case less
      then show ?thesis using m(3) that by blast
    next
      case equal
      then show ?thesis using m(2) by blast
    next
      case greater
      then show ?thesis using m(1,2) by blast
    qed
    then show ?R by blast
  qed blast
next
  assume r: ?R
  show ?W
  proof (rule ccontr)
    assume n: "\<not> ?W"
    then have "\<exists>k. k \<ge> i \<and> \<not> L k" by blast
    then obtain k0 where k0: "k0 \<ge> i" "\<not> L k0" and "\<forall>j < k0. \<not> (j \<ge> i \<and> \<not> L j)"
      using exists_least_iff [of "\<lambda>k. k \<ge> i \<and> \<not> L k"] by blast
    then have least: "\<And>j. i \<le> j \<Longrightarrow> j < k0 \<Longrightarrow> L j" by blast
    have "R k0 \<or> (\<exists>j. i \<le> j \<and> j < k0 \<and> R j)" using r k0 by blast
    then obtain j where j: "i \<le> j" "j \<le> k0" "R j" using k0 by auto
    then have "\<forall>m. i \<le> m \<and> m < j \<longrightarrow> L m" using least by auto
    then show False using n j by blast
  qed
qed

lemma weak_until_dual:
  fixes L R :: "nat \<Rightarrow> bool"
  shows "(\<not> ((\<exists>k \<ge> i. R k \<and> (\<forall>j. i \<le> j \<and> j < k \<longrightarrow> L j)) \<or> (\<forall>k \<ge> i. L k))) \<longleftrightarrow>
    (\<exists>k \<ge> i. (\<not> L k \<and> \<not> R k) \<and> (\<forall>j. i \<le> j \<and> j < k \<longrightarrow> \<not> R j))"
  unfolding weak_until_release by blast

lemma holds_weak_until_neg:
  "(\<not> holds w i (Binary u WeakUntil n l r)) \<longleftrightarrow>
    (\<exists>k \<ge> i. (\<not> holds w k l \<and> \<not> holds w k r) \<and> (\<forall>j. i \<le> j \<and> j < k \<longrightarrow> \<not> holds w j r))"
  by (simp only: holds.simps bop.case weak_until_dual)

section \<open>The normal form keeps the meaning\<close>

lemma normal_form_unary:
  "normal_form neg (Unary u Neg f) = normal_form (\<not> neg) f"
  "normal_form neg (Unary u Future f) =
     map_option (make_binary (if neg then Release else Until) (make_bool (\<not> neg))) (normal_form neg f)"
  "normal_form neg (Unary u Global f) =
     map_option (make_binary (if neg then Until else Release) (make_bool neg)) (normal_form neg f)"
  "normal_form neg (Unary u Next f) = map_option (make_unary Next) (normal_form neg f)"
  by (cases neg; simp add: make_unary_def)+

lemma lift2_Some [simp]: "lift2 h (Some a) (Some b) = Some (h a b)"
  by (simp add: lift2_def)

lemma normal_form_spec:
  assumes "whole f" "proper f"
  shows "\<exists>g. normal_form neg f = Some g \<and> in_nf g \<and> (\<forall>w i. holds w i g = (holds w i f \<noteq> neg))"
  using assms
proof (induction f arbitrary: neg)
  case (Atom u s)
  then show ?case by (auto simp: make_label_proper)
next
  case (Unary u p f)
  obtain g h where g: "normal_form neg f = Some g" "in_nf g" "\<And>w i. holds w i g = (holds w i f \<noteq> neg)"
    and h: "normal_form (\<not> neg) f = Some h" "in_nf h" "\<And>w i. holds w i h = (holds w i f = neg)"
    using Unary.IH [of neg] Unary.IH [of "\<not> neg"] Unary.prems by auto
  show ?case
    using g h by (cases neg; cases p) (simp_all add: normal_form_unary del: normal_form.simps(4))
next
  case (Binary u p n l r)
  obtain a b where a: "normal_form neg l = Some a" "in_nf a" "\<And>w i. holds w i a = (holds w i l \<noteq> neg)"
    and b: "normal_form (\<not> neg) l = Some b" "in_nf b" "\<And>w i. holds w i b = (holds w i l = neg)"
    using Binary.IH(1) [of neg] Binary.IH(1) [of "\<not> neg"] Binary.prems by auto
  obtain c d where c: "normal_form neg r = Some c" "in_nf c" "\<And>w i. holds w i c = (holds w i r \<noteq> neg)"
    and d: "normal_form (\<not> neg) r = Some d" "in_nf d" "\<And>w i. holds w i d = (holds w i r = neg)"
    using Binary.IH(2) [of neg] Binary.IH(2) [of "\<not> neg"] Binary.prems by auto
  note facts = a b c d
  show ?case
  proof (cases neg)
    case True
    have weak: "holds w i (make_binary Until c (make_binary And a c)) =
        (\<not> holds w i (Binary u WeakUntil n l r))" for w i
      unfolding holds_weak_until_neg using facts True by simp
    show ?thesis
    proof (cases "p = WeakUntil")
      case p: True
      then show ?thesis
        using facts weak True by (simp add: Let_def p del: holds_makes holds.simps(5))
    next
      case False
      then show ?thesis
        using facts True by (cases p) (auto simp: Let_def until_dual release_dual)
    qed
  next
    case False
    then show ?thesis
      using facts by (cases p) (auto simp: Let_def weak_until_release)
  qed
qed auto


section \<open>The comparators are strict orders\<close>

fun key :: "ltl \<Rightarrow> ltl" where
  "key (Unary u p f) = Unary u p (key f)"
| "key (Binary u p i l r) = Binary u p (- 1) (key l) (key r)"
| "key f = f"

fun shape :: "ltl \<Rightarrow> ltl" where
  "shape Null = Null"
| "shape (Boolean u b) = Boolean [] b"
| "shape (Atom u s) = Atom [] s"
| "shape (Unary u p f) = Unary [] p (shape f)"
| "shape (Binary u p i l r) = Binary [] p (- 1) (shape l) (shape r)"

lemma uop_priority_inj: "uop_priority p = uop_priority q \<longleftrightarrow> p = q"
  by (cases p; cases q) simp_all

lemma bop_priority_inj: "bop_priority p = bop_priority q \<longleftrightarrow> p = q"
  by (cases p; cases q) simp_all

lemma priority_kinds [simp]:
  "uop_priority p < 20" "uop_priority p < 21" "bop_priority q < 20" "bop_priority q < 21"
  "bop_priority q < uop_priority p" "\<not> 20 < uop_priority p" "\<not> 21 < uop_priority p"
  "\<not> 20 < bop_priority q" "\<not> 21 < bop_priority q" "\<not> uop_priority p < bop_priority q"
  "uop_priority p \<noteq> 20" "uop_priority p \<noteq> 21" "bop_priority q \<noteq> 20" "bop_priority q \<noteq> 21"
  "uop_priority p \<noteq> bop_priority q" "bop_priority q \<noteq> uop_priority p"
  by (cases p; cases q; simp)+

lemma ord2_cases: "if shape f = shape g then \<not> ord2 f g \<and> \<not> ord2 g f else ord2 f g \<noteq> ord2 g f"
proof (induction f g rule: ord2.induct)
  case (1 g)
  then show ?case by (cases g) auto
next
  case (5 u p f v q g)
  then show ?case using uop_priority_inj [of p q] by (auto split: if_splits)
next
  case (6 u p i l r v q j m s)
  then show ?case using bop_priority_inj [of p q] by (auto split: if_splits)
qed auto

lemma equal2_shape: "equal2 f g \<longleftrightarrow> shape f = shape g"
  using ord2_cases [of f g] by (auto simp: equal2_def split: if_splits)

lemma ord_cases: "if key f = key g then \<not> ord f g \<and> \<not> ord g f else ord f g \<noteq> ord g f"
proof (induction f g rule: ord.induct)
  case (1 g)
  then show ?case by (cases g) auto
next
  case (5 u p f v q g)
  then show ?case using uop_priority_inj [of p q] by (auto split: if_splits)
next
  case (6 u p i l r v q j m s)
  then show ?case using bop_priority_inj [of p q] by (auto split: if_splits)
qed auto

lemma ltl_equals_key: "ltl_equals f g \<longleftrightarrow> key f = key g"
  using ord_cases [of f g] by (auto simp: ltl_equals_def split: if_splits)

end
