(* ===== verification/LtlSimplify.thy ===== *)
theory LtlSimplify
  imports LtlFacts
begin

text \<open>
  The simplifier of formulas (\<^verbatim>\<open>LTL::Simplifier\<close> in \<^verbatim>\<open>src/divine/ltl/ltl.cpp\<close>) and the loop of
  \<^verbatim>\<open>ltlToTGBA1\<close> in \<^verbatim>\<open>buchi.hpp\<close> that applies it until nothing changes.
\<close>

section \<open>One pass\<close>

text \<open>The parts of a node that the rewrite rules look at.\<close>

fun sub_exp :: "ltl \<Rightarrow> ltl" where
  "sub_exp (Unary u p f) = f"
| "sub_exp f = Null"

fun left_of :: "ltl \<Rightarrow> ltl" where
  "left_of (Binary u p i l r) = l"
| "left_of f = Null"

fun right_of :: "ltl \<Rightarrow> ltl" where
  "right_of (Binary u p i l r) = r"
| "right_of f = Null"

text \<open>The operand of \<^verbatim>\<open>GF_\<close>.\<close>

definition gf_operand :: "ltl \<Rightarrow> ltl option" where
  "gf_operand f =
     (if is_unary Global f
      then (if is_unary Future (sub_exp f) then Some (sub_exp (sub_exp f)) else None)
      else None)"

lemma sub_exp_size: "size (sub_exp f) \<le> size f"
  by (cases f) auto

lemma left_of_size: "size (left_of f) \<le> size f"
  by (cases f) auto

lemma right_of_size: "size (right_of f) \<le> size f"
  by (cases f) auto

lemma gf_operand_size: "gf_operand f = Some q \<Longrightarrow> size q \<le> size f"
  using order_trans [OF sub_exp_size sub_exp_size] by (auto simp: gf_operand_def split: if_splits)

lemma part_sizes:
  "size (sub_exp f) < Suc (size f + n)" "size (left_of f) < Suc (size f + n)"
  "size (right_of f) < Suc (size f + n)" "size (sub_exp (sub_exp f)) < Suc (size f + n)"
  "size (sub_exp f) < Suc (n + size f)" "size (left_of f) < Suc (n + size f)"
  "size (right_of f) < Suc (n + size f)" "size (sub_exp (sub_exp f)) < Suc (n + size f)"
  using sub_exp_size [of f] left_of_size [of f] right_of_size [of f] sub_exp_size [of "sub_exp f"]
  by linarith+

lemma gf_part_sizes:
  "gf_operand (right_of f) = Some q \<Longrightarrow> size q < Suc (size f)"
  "gf_operand (left_of f) = Some q \<Longrightarrow> size q < Suc (size f)"
  using gf_operand_size [of "right_of f" q] gf_operand_size [of "left_of f" q]
    left_of_size [of f] right_of_size [of f] by linarith+

text \<open>
  \<^verbatim>\<open>makeSimpler\<close> with its flag \<^verbatim>\<open>changed\<close>. The formula that is simplified has no missing operand;
  of \<open>Null\<close> the code would read through a null pointer.
\<close>

function make_simpler :: "bool \<Rightarrow> ltl \<Rightarrow> ltl \<times> bool" where
  "make_simpler ch Null = (Null, ch)"
| "make_simpler ch (Boolean u b) = (Boolean u b, ch)"
| "make_simpler ch (Atom u s) = (Atom u s, ch)"
| "make_simpler ch (Unary u p f) =
     (if is_literal (Unary u p f) then (Unary u p f, ch)
      else if p = Global \<and> is_unary Global f
      then (make_unary Global (fst (make_simpler True (sub_exp f))), True)
      else if p = Global \<and> is_binary Or f \<and> gf_operand (right_of f) \<noteq> None
      then (make_binary Or (make_unary Global (fst (make_simpler True (left_of f))))
              (make_unary Global (make_unary Future
                 (fst (make_simpler ch (the (gf_operand (right_of f))))))), True)
      else if p = Global \<and> is_binary Or f \<and> gf_operand (left_of f) \<noteq> None
      then (make_binary Or (make_unary Global (fst (make_simpler True (right_of f))))
              (make_unary Global (make_unary Future
                 (fst (make_simpler ch (the (gf_operand (left_of f))))))), True)
      else if p = Future \<and> is_unary Global f \<and> is_unary Future (sub_exp f)
      then make_simpler True f
      else if p = Future \<and> is_binary And f \<and> gf_operand (right_of f) \<noteq> None
      then (make_binary And (make_unary Future (fst (make_simpler True (left_of f))))
              (make_unary Global (make_unary Future
                 (fst (make_simpler ch (the (gf_operand (right_of f))))))), True)
      else if p = Future \<and> is_binary And f \<and> gf_operand (left_of f) \<noteq> None
      then (make_binary And (make_unary Future (fst (make_simpler True (right_of f))))
              (make_unary Global (make_unary Future
                 (fst (make_simpler ch (the (gf_operand (left_of f))))))), True)
      else (let (x, ch) = make_simpler ch f in (make_unary p x, ch)))"
| "make_simpler ch (Binary u p i l r) =
     (let both = (let (x, ch) = make_simpler ch l; (y, ch) = make_simpler ch r
                  in (make_binary p x y, ch))
      in case p of
           Until \<Rightarrow> if is_boolean r then (r, True) else both
         | And \<Rightarrow>
             if equal2 r l then make_simpler True r
             else if is_boolean r then (if bool_value r then make_simpler True l else (r, True))
             else if is_boolean l then (if bool_value l then make_simpler True r else (l, True))
             else if is_unary Neg r then (if equal2 l (sub_exp r) then (make_bool False, True) else both)
             else if is_unary Neg l then (if equal2 r (sub_exp l) then (make_bool False, True) else both)
             else if is_binary Release l \<and> is_binary Release r \<and> equal2 (left_of l) (left_of r)
             then (make_binary Release (fst (make_simpler True (left_of l)))
                     (make_binary And (fst (make_simpler True (right_of l)))
                                      (fst (make_simpler True (right_of r)))), True)
             else both
         | Or \<Rightarrow>
             if equal2 r l then make_simpler True r
             else if is_boolean r then (if \<not> bool_value r then make_simpler True l else (r, True))
             else if is_boolean l then (if \<not> bool_value l then make_simpler True r else (l, True))
             else if is_unary Neg r then (if equal2 l (sub_exp r) then (make_bool True, True) else both)
             else if is_unary Neg l then (if equal2 r (sub_exp l) then (make_bool True, True) else both)
             else if is_binary Release l \<and> is_binary Release r
             then (if equal2 (right_of l) (right_of r)
                   then (make_binary Release
                           (make_binary Or (fst (make_simpler True (left_of l)))
                                           (fst (make_simpler True (left_of r))))
                           (fst (make_simpler True (right_of l))), True)
                   else both)
             else if is_unary Global l \<and> is_unary Global r
             then (if is_unary Future (sub_exp l) \<and> is_unary Future (sub_exp r)
                   then (make_unary Global (make_unary Future
                           (make_binary Or (fst (make_simpler True (sub_exp (sub_exp l))))
                                           (fst (make_simpler True (sub_exp (sub_exp r)))))), True)
                   else both)
             else both
         | _ \<Rightarrow> both)"
  by pat_completeness auto
termination
  by (relation "measure (\<lambda>(ch, f). size f)")
    (auto simp: part_sizes part_sizes [where n = 0, simplified] dest: gf_part_sizes)


declare make_simpler.simps(4,5) [simp del]

section \<open>What a pass keeps\<close>

text \<open>A rewriting step may move an operator out of a temporal one, so unary operators weigh double.\<close>

fun simp_weight :: "ltl \<Rightarrow> nat" where
  "simp_weight (Unary u p f) = 2 * simp_weight f + 2"
| "simp_weight (Binary u p i l r) = simp_weight l + simp_weight r + 1"
| "simp_weight f = 1"

definition simp_to :: "ltl \<Rightarrow> ltl \<Rightarrow> bool" where
  "simp_to f g \<longleftrightarrow> (\<forall>w i. holds w i g = holds w i f) \<and> simp_weight g \<le> simp_weight f \<and>
     (whole f \<longrightarrow> whole g) \<and> (proper f \<longrightarrow> proper g)"

definition simp_below :: "ltl \<Rightarrow> ltl \<Rightarrow> bool" where
  "simp_below f g \<longleftrightarrow> simp_to f g \<and> simp_weight g < simp_weight f"

lemma simp_to_refl [simp]: "simp_to f f"
  by (simp add: simp_to_def)

lemma weight_makes [simp]:
  "simp_weight (make_bool b) = 1" "simp_weight (make_unary p f) = 2 * simp_weight f + 2"
  "simp_weight (make_binary q l r) = simp_weight l + simp_weight r + 1"
  by (simp_all add: makes)

lemma shape_of_makes [simp]:
  "shape (make_unary p f) = Unary [] p (shape f)"
  "shape (make_binary q l r) = Binary [] q (- 1) (shape l) (shape r)"
  by (simp_all add: makes)

lemma weight_pos [simp]: "0 < simp_weight f"
  by (induction f) auto

lemma shape_holds: "shape f = shape g \<Longrightarrow> holds w i f = holds w i g"
proof -
  have "holds w i (shape f) = holds w i f" for f w i
    by (induction f arbitrary: i) (auto split: uop.splits bop.splits)
  then show "shape f = shape g \<Longrightarrow> ?thesis" by metis
qed

lemma is_unaryE: "is_unary p f \<Longrightarrow> (\<And>u g. f = Unary u p g \<Longrightarrow> P) \<Longrightarrow> P"
  by (cases f) auto

lemma is_binaryE: "is_binary p f \<Longrightarrow> (\<And>u i l r. f = Binary u p i l r \<Longrightarrow> P) \<Longrightarrow> P"
  by (cases f) auto

lemma is_booleanE: "is_boolean f \<Longrightarrow> (\<And>u b. f = Boolean u b \<Longrightarrow> P) \<Longrightarrow> P"
  by (cases f) auto

lemma gf_operandE:
  "gf_operand f = Some q \<Longrightarrow> (\<And>u v. f = Unary u Global (Unary v Future q) \<Longrightarrow> P) \<Longrightarrow> P"
  by (auto simp: gf_operand_def elim!: is_unaryE split: if_splits)

subsection \<open>The rules\<close>

lemma simp_unary: "simp_to f g \<Longrightarrow> simp_to (Unary u p f) (make_unary p g)"
  by (auto simp: simp_to_def split: uop.splits)

lemma simp_binary:
  "simp_to l x \<Longrightarrow> simp_to r y \<Longrightarrow> simp_to (Binary u p i l r) (make_binary p x y)"
  by (auto simp: simp_to_def split: bop.splits)

lemma simp_belowI:
  assumes "\<And>w i. holds w i g = holds w i f" "simp_weight g < simp_weight f"
    and "whole f \<Longrightarrow> whole g" "proper f \<Longrightarrow> proper g"
  shows "simp_below f g"
  using assms by (simp add: simp_below_def simp_to_def)

lemma simp_toD:
  assumes "simp_to f g"
  shows "holds w i g = holds w i f" "simp_weight g \<le> simp_weight f"
    and "whole f \<Longrightarrow> whole g" "proper f \<Longrightarrow> proper g"
  using assms by (simp_all add: simp_to_def)

lemma globally_twice: "(\<forall>k \<ge> i :: nat. \<forall>m \<ge> k. P m) = (\<forall>k \<ge> i. P k)"
  by (blast intro: order.trans order.refl)

lemma always_or_recurring:
  fixes P Q :: "nat \<Rightarrow> bool"
  shows "(\<forall>k \<ge> i. P k \<or> (\<forall>m \<ge> k. \<exists>n \<ge> m. Q n)) = ((\<forall>k \<ge> i. P k) \<or> (\<forall>m \<ge> i. \<exists>n \<ge> m. Q n))"
proof
  assume a: "\<forall>k \<ge> i. P k \<or> (\<forall>m \<ge> k. \<exists>n \<ge> m. Q n)"
  have "\<exists>n \<ge> m. Q n" if "k \<ge> i" "\<not> P k" "m \<ge> i" for k m
  proof -
    have "\<forall>m \<ge> k. \<exists>n \<ge> m. Q n" using a that by blast
    then have "\<exists>n \<ge> max k m. Q n" using max.cobounded1 by blast
    then show ?thesis by auto
  qed
  then show "(\<forall>k \<ge> i. P k) \<or> (\<forall>m \<ge> i. \<exists>n \<ge> m. Q n)" by blast
next
  assume "(\<forall>k \<ge> i. P k) \<or> (\<forall>m \<ge> i. \<exists>n \<ge> m. Q n)"
  then show "\<forall>k \<ge> i. P k \<or> (\<forall>m \<ge> k. \<exists>n \<ge> m. Q n)" by (meson order.trans)
qed

lemma eventually_and_recurring:
  fixes P Q :: "nat \<Rightarrow> bool"
  shows "(\<exists>k \<ge> i. P k \<and> (\<forall>m \<ge> k. \<exists>n \<ge> m. Q n)) = ((\<exists>k \<ge> i. P k) \<and> (\<forall>m \<ge> i. \<exists>n \<ge> m. Q n))"
proof
  assume "\<exists>k \<ge> i. P k \<and> (\<forall>m \<ge> k. \<exists>n \<ge> m. Q n)"
  then obtain k where k: "k \<ge> i" "P k" "\<forall>m \<ge> k. \<exists>n \<ge> m. Q n" by blast
  have "\<exists>n \<ge> m. Q n" for m
  proof -
    have "\<exists>n \<ge> max k m. Q n" using k(3) max.cobounded1 by blast
    then show ?thesis by auto
  qed
  then show "(\<exists>k \<ge> i. P k) \<and> (\<forall>m \<ge> i. \<exists>n \<ge> m. Q n)" using k by blast
next
  assume "(\<exists>k \<ge> i. P k) \<and> (\<forall>m \<ge> i. \<exists>n \<ge> m. Q n)"
  then show "\<exists>k \<ge> i. P k \<and> (\<forall>m \<ge> k. \<exists>n \<ge> m. Q n)" by (meson order.trans)
qed

lemma recurring_or:
  fixes P Q :: "nat \<Rightarrow> bool"
  shows "((\<forall>m \<ge> i. \<exists>n \<ge> m. P n) \<or> (\<forall>m \<ge> i. \<exists>n \<ge> m. Q n)) = (\<forall>m \<ge> i. \<exists>n \<ge> m. P n \<or> Q n)"
proof
  assume a: "\<forall>m \<ge> i. \<exists>n \<ge> m. P n \<or> Q n"
  have "\<exists>n \<ge> m. Q n" if "k \<ge> i" "\<not> (\<exists>n \<ge> k. P n)" "m \<ge> i" for k m
  proof -
    have "i \<le> max k m" using that by simp
    then have "\<exists>n \<ge> max k m. P n \<or> Q n" using a by blast
    then show ?thesis using that by auto
  qed
  then show "(\<forall>m \<ge> i. \<exists>n \<ge> m. P n) \<or> (\<forall>m \<ge> i. \<exists>n \<ge> m. Q n)" by blast
qed blast

lemma release_or:
  fixes A B C :: "nat \<Rightarrow> bool"
  shows "((\<forall>k \<ge> i. C k \<or> (\<exists>j. i \<le> j \<and> j < k \<and> A j)) \<or> (\<forall>k \<ge> i. C k \<or> (\<exists>j. i \<le> j \<and> j < k \<and> B j))) =
    (\<forall>k \<ge> i. C k \<or> (\<exists>j. i \<le> j \<and> j < k \<and> (A j \<or> B j)))"
proof
  assume a: "\<forall>k \<ge> i. C k \<or> (\<exists>j. i \<le> j \<and> j < k \<and> (A j \<or> B j))"
  show "(\<forall>k \<ge> i. C k \<or> (\<exists>j. i \<le> j \<and> j < k \<and> A j)) \<or> (\<forall>k \<ge> i. C k \<or> (\<exists>j. i \<le> j \<and> j < k \<and> B j))"
  proof (rule ccontr)
    assume "\<not> ?thesis"
    then obtain k m where k: "k \<ge> i" "\<not> C k" "\<forall>j. i \<le> j \<and> j < k \<longrightarrow> \<not> A j"
      and m: "m \<ge> i" "\<not> C m" "\<forall>j. i \<le> j \<and> j < m \<longrightarrow> \<not> B j" by blast
    obtain n where n: "n \<ge> i \<and> \<not> C n" "\<forall>j < n. \<not> (j \<ge> i \<and> \<not> C j)"
      using exists_least_iff [of "\<lambda>k. k \<ge> i \<and> \<not> C k"] k by blast
    then have "n \<le> k" "n \<le> m" using k m by (metis not_le)+
    then have "\<forall>j. i \<le> j \<and> j < n \<longrightarrow> \<not> A j \<and> \<not> B j" using k(3) m(3) by auto
    then show False using a n(1) by blast
  qed
qed blast

lemma simp_globally_twice:
  assumes "simp_to f g"
  shows "simp_below (Unary u Global (Unary v Global f)) (make_unary Global g)"
  using simp_toD [OF assms] by (intro simp_belowI) (simp_all add: globally_twice)

lemma simp_globally_or:
  assumes "simp_to f g" "simp_to q x"
  shows "simp_below (Unary u Global (Binary v Or i f (Unary a Global (Unary b Future q))))
      (make_binary Or (make_unary Global g) (make_unary Global (make_unary Future x)))"
    and "simp_below (Unary u Global (Binary v Or i (Unary a Global (Unary b Future q)) f))
      (make_binary Or (make_unary Global g) (make_unary Global (make_unary Future x)))"
  by (intro simp_belowI; use simp_toD [OF assms(1)] simp_toD [OF assms(2)] in
      \<open>simp add: always_or_recurring disj_commute\<close>)+

lemma simp_future_and:
  assumes "simp_to f g" "simp_to q x"
  shows "simp_below (Unary u Future (Binary v And i f (Unary a Global (Unary b Future q))))
      (make_binary And (make_unary Future g) (make_unary Global (make_unary Future x)))"
    and "simp_below (Unary u Future (Binary v And i (Unary a Global (Unary b Future q)) f))
      (make_binary And (make_unary Future g) (make_unary Global (make_unary Future x)))"
  by (intro simp_belowI; use simp_toD [OF assms(1)] simp_toD [OF assms(2)] in
      \<open>simp add: eventually_and_recurring conj_commute\<close>)+


lemma simp_recurring_or:
  assumes "simp_to f x" "simp_to g y"
  shows "simp_below (Binary u Or i (Unary a Global (Unary b Future f)) (Unary c Global (Unary d Future g)))
      (make_unary Global (make_unary Future (make_binary Or x y)))"
  by (intro simp_belowI; use simp_toD [OF assms(1)] simp_toD [OF assms(2)] in
      \<open>simp add: recurring_or [symmetric]\<close>)

lemma simp_release_or:
  assumes "simp_to f x" "simp_to g y" "simp_to h z" "shape h = shape h'"
  shows "simp_below (Binary u Or i (Binary a Release m f h) (Binary b Release n g h'))
      (make_binary Release (make_binary Or x y) z)"
proof (rule simp_belowI)
  note [simp] = simp_toD [OF assms(1)] simp_toD [OF assms(2)] simp_toD [OF assms(3)]
  show "holds w j (make_binary Release (make_binary Or x y) z) =
      holds w j (Binary u Or i (Binary a Release m f h) (Binary b Release n g h'))" for w j
    using shape_holds [OF assms(4)] by (simp add: release_or)
qed (use simp_toD [OF assms(1)] simp_toD [OF assms(2)] simp_toD [OF assms(3)] in auto)

lemma simp_release_and:
  assumes "simp_to f x" "simp_to g y" "simp_to h z" "shape f = shape f'"
  shows "simp_below (Binary u And i (Binary a Release m f g) (Binary b Release n f' h))
      (make_binary Release x (make_binary And y z))"
proof (rule simp_belowI)
  show "holds w j (make_binary Release x (make_binary And y z)) =
      holds w j (Binary u And i (Binary a Release m f g) (Binary b Release n f' h))" for w j
    using shape_holds [OF assms(4)] simp_toD(1) [OF assms(1)] simp_toD(1) [OF assms(2)]
      simp_toD(1) [OF assms(3)] by (simp, blast)
qed (use simp_toD [OF assms(1)] simp_toD [OF assms(2)] simp_toD [OF assms(3)] in auto)

lemma simp_future_globally_future:
  assumes "simp_to (Unary v Global (Unary a Future f)) g"
  shows "simp_below (Unary u Future (Unary v Global (Unary a Future f))) g"
proof (rule simp_belowI)
  have "(\<exists>k \<ge> i. \<forall>m \<ge> k. \<exists>n \<ge> m. P n) = (\<forall>m \<ge> i. \<exists>n \<ge> m. P n)" for i :: nat and P
    using eventually_and_recurring [of i "\<lambda>_. True" P] by auto
  then show "holds w i g = holds w i (Unary u Future (Unary v Global (Unary a Future f)))" for w i
    using simp_toD(1) [OF assms] by simp
qed (use simp_toD [OF assms] in auto)

lemma simp_drop:
  assumes "simp_to f g" "\<And>w i. holds w i (Binary u p n l r) = holds w i f"
    and "simp_weight f < simp_weight (Binary u p n l r)"
    and "whole (Binary u p n l r) \<Longrightarrow> whole f" "proper (Binary u p n l r) \<Longrightarrow> proper f"
  shows "simp_below (Binary u p n l r) g"
  by (rule simp_belowI) (use simp_toD [OF assms(1)] assms(2-5) in auto)


subsection \<open>The pass\<close>

definition pass_ok :: "bool \<Rightarrow> ltl \<Rightarrow> ltl \<times> bool \<Rightarrow> bool" where
  "pass_ok ch f res \<longleftrightarrow> simp_to f (fst res) \<and> (ch \<longrightarrow> snd res) \<and>
     (snd res \<and> \<not> ch \<longrightarrow> simp_below f (fst res)) \<and> (\<not> snd res \<longrightarrow> shape (fst res) = shape f)"

lemma pass_ok_same [simp]: "pass_ok ch f (f, ch)"
  by (simp add: pass_ok_def)

lemma pass_ok_below: "simp_below f g \<Longrightarrow> pass_ok ch f (g, True)"
  by (simp add: pass_ok_def simp_below_def)

lemma pass_ok_to: "pass_ok ch f (make_simpler ch f) \<Longrightarrow> simp_to f (fst (make_simpler ch f))"
  by (simp add: pass_ok_def)

lemma pass_ok_drop:
  assumes "pass_ok True f res" "simp_below g (fst res)"
  shows "pass_ok ch g res"
  using assms by (simp add: pass_ok_def simp_below_def)

lemma pass_ok_unary:
  assumes "pass_ok ch f res"
  shows "pass_ok ch (Unary u p f) (let (x, ch) = res in (make_unary p x, ch))"
  using assms simp_unary [of f "fst res" u p]
  by (cases res) (auto simp: pass_ok_def simp_below_def)

lemma pass_ok_binary:
  assumes "pass_ok ch l a" "\<And>ch. pass_ok ch r (res ch)"
  shows "pass_ok ch (Binary u p i l r)
    (let (x, ch) = a; (y, ch) = res ch in (make_binary p x y, ch))"
proof -
  obtain x c where a: "a = (x, c)" by fastforce
  obtain y d where r: "res c = (y, d)" by fastforce
  have "simp_to l x" "simp_to r y" "c \<longrightarrow> d" "ch \<longrightarrow> c"
    and "c \<and> \<not> ch \<Longrightarrow> simp_below l x" "d \<and> \<not> c \<Longrightarrow> simp_below r y"
    and "\<not> c \<Longrightarrow> shape x = shape l" "\<not> d \<Longrightarrow> shape y = shape r"
    using assms(1) assms(2) [of c] unfolding pass_ok_def a r by auto
  moreover from this have "simp_to (Binary u p i l r) (make_binary p x y)" by (simp add: simp_binary)
  moreover have "(let (x, ch) = a; (y, ch) = res ch in (make_binary p x y, ch)) = (make_binary p x y, d)"
    by (simp add: a r)
  ultimately show ?thesis
    by (cases c; cases d; cases ch)
      (auto simp: pass_ok_def simp_below_def dest: simp_toD(2) intro: add_less_le_mono add_le_less_mono)
qed

lemma simpler_cases:
  "make_simpler ch (Unary u p f) =
     (if is_literal (Unary u p f) then (Unary u p f, ch)
      else if p = Global \<and> is_unary Global f
      then (make_unary Global (fst (make_simpler True (sub_exp f))), True)
      else if p = Global \<and> is_binary Or f
      then (case gf_operand (right_of f) of
              Some q \<Rightarrow> (make_binary Or (make_unary Global (fst (make_simpler True (left_of f))))
                          (make_unary Global (make_unary Future (fst (make_simpler ch q)))), True)
            | None \<Rightarrow> (case gf_operand (left_of f) of
                Some q \<Rightarrow> (make_binary Or (make_unary Global (fst (make_simpler True (right_of f))))
                            (make_unary Global (make_unary Future (fst (make_simpler ch q)))), True)
              | None \<Rightarrow> (let (x, ch) = make_simpler ch f in (make_unary p x, ch))))
      else if p = Future \<and> is_unary Global f \<and> is_unary Future (sub_exp f) then make_simpler True f
      else if p = Future \<and> is_binary And f
      then (case gf_operand (right_of f) of
              Some q \<Rightarrow> (make_binary And (make_unary Future (fst (make_simpler True (left_of f))))
                          (make_unary Global (make_unary Future (fst (make_simpler ch q)))), True)
            | None \<Rightarrow> (case gf_operand (left_of f) of
                Some q \<Rightarrow> (make_binary And (make_unary Future (fst (make_simpler True (right_of f))))
                            (make_unary Global (make_unary Future (fst (make_simpler ch q)))), True)
              | None \<Rightarrow> (let (x, ch) = make_simpler ch f in (make_unary p x, ch))))
      else (let (x, ch) = make_simpler ch f in (make_unary p x, ch)))"
  by (cases f; cases p) (auto simp: make_simpler.simps(4) split: option.splits)

lemma make_simpler_gf:
  assumes IH: "\<And>c g. size g \<le> size f \<Longrightarrow> pass_ok c g (make_simpler c g)"
    and f: "f = Binary v q i l r" and pq: "p = Global \<and> q = Or \<or> p = Future \<and> q = And"
  shows "pass_ok ch (Unary u p f) (make_simpler ch (Unary u p f))" (is "pass_ok ch ?f ?r")
proof -
  have to: "simp_to g (fst (make_simpler c g))" if "size g \<le> size f" for c g
    using IH [OF that] by (rule pass_ok_to)
  show ?thesis
  proof (cases "gf_operand r")
    case (Some x)
    then obtain a b where "r = Unary a Global (Unary b Future x)" by (rule gf_operandE)
    then show ?thesis using pq f Some
      by (auto simp: simpler_cases pass_ok_below simp_globally_or simp_future_and to)
  next
    case r: None
    show ?thesis
    proof (cases "gf_operand l")
      case (Some x)
      then obtain a b where "l = Unary a Global (Unary b Future x)" by (rule gf_operandE)
      then show ?thesis using pq f Some r
        by (auto simp: simpler_cases pass_ok_below simp_globally_or simp_future_and to)
    next
      case None
      then have "?r = (let (x, ch) = make_simpler ch f in (make_unary p x, ch))"
        using pq f r by (auto simp: simpler_cases)
      then show ?thesis using pass_ok_unary [OF IH [of f ch]] by simp
    qed
  qed
qed

lemma make_simpler_unary:
  assumes IH: "\<And>c g. size g \<le> size f \<Longrightarrow> pass_ok c g (make_simpler c g)"
  shows "pass_ok ch (Unary u p f) (make_simpler ch (Unary u p f))" (is "pass_ok ch ?f ?r")
proof -
  have to: "simp_to g (fst (make_simpler c g))" if "size g \<le> size f" for c g
    using IH [OF that] by (rule pass_ok_to)
  consider (lit) "is_literal ?f"
    | (bin) v q i l r where "f = Binary v q i l r" "p = Global \<and> q = Or \<or> p = Future \<and> q = And"
    | (gg) v x where "p = Global" "f = Unary v Global x" "\<not> is_literal ?f"
    | (fgf) v a q where "p = Future" "f = Unary v Global (Unary a Future q)" "\<not> is_literal ?f"
    | (other) "?r = (let (x, ch) = make_simpler ch f in (make_unary p x, ch))"
  proof (cases "is_literal ?f")
    case False
    show ?thesis
    proof (cases "(p = Global \<and> is_binary Or f) \<or> (p = Future \<and> is_binary And f)")
      case True
      then show ?thesis using that(2) by (auto elim!: is_binaryE)
    next
      case n: False
      show ?thesis
      proof (cases "p = Global \<and> is_unary Global f \<or> p = Future \<and> is_unary Global f \<and> is_unary Future (sub_exp f)")
        case True
        then show ?thesis using that(3,4) False by (auto elim!: is_unaryE)
      next
        case m: False
        have "?r = (let (x, ch) = make_simpler ch f in (make_unary p x, ch))"
        proof -
          have "\<not> (p = Global \<and> is_unary Global f)" "\<not> (p = Global \<and> is_binary Or f)"
            "\<not> (p = Future \<and> is_unary Global f \<and> is_unary Future (sub_exp f))"
            "\<not> (p = Future \<and> is_binary And f)" using n m by blast+
          then show ?thesis using False by (simp only: simpler_cases if_False)
        qed
        then show ?thesis by (rule that(5))
      qed
    qed
  qed (rule that(1))
  then show ?thesis
  proof cases
    case lit
    then show ?thesis by (simp add: simpler_cases)
  next
    case (bin v q i l r)
    then show ?thesis using make_simpler_gf [OF IH] by blast
  next
    case (gg v x)
    then show ?thesis by (simp add: simpler_cases pass_ok_below simp_globally_twice to)
  next
    case (fgf v a q)
    have eq: "?r = make_simpler True f" using fgf by (subst simpler_cases) simp
    have "simp_to (Unary v Global (Unary a Future q)) (fst (make_simpler True f))"
      unfolding fgf(2) [symmetric] by (rule to) simp
    then have "simp_below ?f (fst (make_simpler True f))"
      unfolding fgf(1) by (subst fgf(2), rule simp_future_globally_future)
    with IH [OF order_refl] show ?thesis unfolding eq by (rule pass_ok_drop)
  next
    case other
    then show ?thesis using pass_ok_unary [OF IH [of f ch]] by simp
  qed
qed


lemma pass_ok_if:
  "(c \<Longrightarrow> pass_ok ch f a) \<Longrightarrow> (\<not> c \<Longrightarrow> pass_ok ch f b) \<Longrightarrow> pass_ok ch f (if c then a else b)"
  by simp

lemma holds_until_boolean: "holds w j (Binary u Until i l (Boolean v b)) = b"
proof -
  have "\<exists>k \<ge> j. \<forall>m. j \<le> m \<and> m < k \<longrightarrow> holds w m l" by (rule exI [of _ j]) auto
  then show ?thesis by (cases b) simp_all
qed

lemma equal2_holds: "equal2 f g \<Longrightarrow> holds w i f = holds w i g"
  unfolding equal2_shape by (rule shape_holds)

lemma make_simpler_binary:
  assumes IH: "\<And>c g. size g \<le> size l + size r \<Longrightarrow> pass_ok c g (make_simpler c g)"
  shows "pass_ok ch (Binary u p i l r) (make_simpler ch (Binary u p i l r))" (is "pass_ok ch ?f ?r")
proof -
  define both where "both = (let (x, ch) = make_simpler ch l; (y, ch) = make_simpler ch r
                             in (make_binary p x y, ch))"
  have both: "pass_ok ch ?f both"
    unfolding both_def by (rule pass_ok_binary) (simp_all add: IH)
  have to: "simp_to g (fst (make_simpler c g))" if "size g \<le> size l + size r" for c g
    using IH [OF that] by (rule pass_ok_to)
  have drop_l: "pass_ok ch ?f (make_simpler True l)" if "\<And>w j. holds w j ?f = holds w j l"
    by (rule pass_ok_drop [OF IH]) (auto intro: simp_drop [OF to] simp: that simp del: holds.simps)
  have drop_r: "pass_ok ch ?f (make_simpler True r)" if "\<And>w j. holds w j ?f = holds w j r"
    by (rule pass_ok_drop [OF IH]) (auto intro: simp_drop [OF to] simp: that simp del: holds.simps)
  have const: "pass_ok ch ?f (g, True)" if "\<And>w j. holds w j ?f = holds w j g" "simp_weight g = 1" "whole g" "proper g" for g
    by (rule pass_ok_below, rule simp_belowI) (simp_all add: that del: holds.simps)
  consider (until) "p = Until" | (conj) "p = And" | (disj) "p = Or"
    | (other) "p \<notin> {Until, And, Or}" by auto
  then show ?thesis
  proof cases
    case until
    show ?thesis
    proof (cases "is_boolean r")
      case True
      then obtain v b where "r = Boolean v b" by (rule is_booleanE)
      then have "?r = (r, True)" and "holds w j ?f = holds w j r" for w j
        using until by (simp_all add: make_simpler.simps(5) holds_until_boolean del: holds.simps(5))
      then show ?thesis using \<open>r = Boolean v b\<close> const [of r] by simp
    next
      case False
      then show ?thesis using until both by (simp add: make_simpler.simps(5) both_def)
    qed
  next
    case conj
    show ?thesis
      unfolding conj make_simpler.simps(5) bop.case Let_def
      unfolding both_def [unfolded conj Let_def, symmetric]
    proof (intro pass_ok_if)
      show "pass_ok ch (Binary u And i l r) (make_simpler True r)" if "equal2 r l"
        using drop_r equal2_holds [OF that] by (simp add: conj)
      show "pass_ok ch (Binary u And i l r) (make_simpler True l)" if "is_boolean r" "bool_value r"
        using drop_l that by (auto simp: conj elim!: is_booleanE)
      show "pass_ok ch (Binary u And i l r) (r, True)" if "is_boolean r" "\<not> bool_value r"
        using const [of r] that by (auto simp: conj elim!: is_booleanE)
      show "pass_ok ch (Binary u And i l r) (make_simpler True r)" if "is_boolean l" "bool_value l"
        using drop_r that by (auto simp: conj elim!: is_booleanE)
      show "pass_ok ch (Binary u And i l r) (l, True)" if "is_boolean l" "\<not> bool_value l"
        using const [of l] that by (auto simp: conj elim!: is_booleanE)
      show "pass_ok ch (Binary u And i l r) (make_bool False, True)"
        if "is_unary Neg r" "equal2 l (sub_exp r)"
        using const [of "make_bool False"] equal2_holds [OF that(2)] that(1)
        by (auto simp: conj elim!: is_unaryE)
      show "pass_ok ch (Binary u And i l r) (make_bool False, True)"
        if "is_unary Neg l" "equal2 r (sub_exp l)"
        using const [of "make_bool False"] equal2_holds [OF that(2)] that(1)
        by (auto simp: conj elim!: is_unaryE)
      show "pass_ok ch (Binary u And i l r)
          (make_binary Release (fst (make_simpler True (left_of l)))
            (make_binary And (fst (make_simpler True (right_of l))) (fst (make_simpler True (right_of r)))), True)"
        if "is_binary Release l \<and> is_binary Release r \<and> equal2 (left_of l) (left_of r)"
        using that by (auto simp: equal2_shape intro!: pass_ok_below simp_release_and to elim!: is_binaryE)
    qed (use both conj in simp_all)
  next
    case disj
    show ?thesis
      unfolding disj make_simpler.simps(5) bop.case Let_def
      unfolding both_def [unfolded disj Let_def, symmetric]
    proof (intro pass_ok_if)
      show "pass_ok ch (Binary u Or i l r) (make_simpler True r)" if "equal2 r l"
        using drop_r equal2_holds [OF that] by (simp add: disj)
      show "pass_ok ch (Binary u Or i l r) (make_simpler True l)" if "is_boolean r" "\<not> bool_value r"
        using drop_l that by (auto simp: disj elim!: is_booleanE)
      show "pass_ok ch (Binary u Or i l r) (r, True)" if "is_boolean r" "\<not> \<not> bool_value r"
        using const [of r] that by (auto simp: disj elim!: is_booleanE)
      show "pass_ok ch (Binary u Or i l r) (make_simpler True r)" if "is_boolean l" "\<not> bool_value l"
        using drop_r that by (auto simp: disj elim!: is_booleanE)
      show "pass_ok ch (Binary u Or i l r) (l, True)" if "is_boolean l" "\<not> \<not> bool_value l"
        using const [of l] that by (auto simp: disj elim!: is_booleanE)
      show "pass_ok ch (Binary u Or i l r) (make_bool True, True)"
        if "is_unary Neg r" "equal2 l (sub_exp r)"
        using const [of "make_bool True"] equal2_holds [OF that(2)] that(1)
        by (auto simp: disj elim!: is_unaryE)
      show "pass_ok ch (Binary u Or i l r) (make_bool True, True)"
        if "is_unary Neg l" "equal2 r (sub_exp l)"
        using const [of "make_bool True"] equal2_holds [OF that(2)] that(1)
        by (auto simp: disj elim!: is_unaryE)
      show "pass_ok ch (Binary u Or i l r)
          (make_binary Release (make_binary Or (fst (make_simpler True (left_of l)))
              (fst (make_simpler True (left_of r)))) (fst (make_simpler True (right_of l))), True)"
        if "is_binary Release l \<and> is_binary Release r" "equal2 (right_of l) (right_of r)"
        using that by (auto simp: equal2_shape intro!: pass_ok_below simp_release_or to elim!: is_binaryE)
      show "pass_ok ch (Binary u Or i l r)
          (make_unary Global (make_unary Future
             (make_binary Or (fst (make_simpler True (sub_exp (sub_exp l))))
                             (fst (make_simpler True (sub_exp (sub_exp r)))))), True)"
        if "is_unary Global l \<and> is_unary Global r" "is_unary Future (sub_exp l) \<and> is_unary Future (sub_exp r)"
        using that by (auto intro!: pass_ok_below simp_recurring_or to elim!: is_unaryE)
    qed (use both disj in simp_all)
  next
    case other
    then have "?r = both" by (cases p) (simp_all add: make_simpler.simps(5) both_def)
    then show ?thesis using both by simp
  qed
qed


lemma make_simpler_ok: "pass_ok ch f (make_simpler ch f)"
proof (induction "size f" arbitrary: ch f rule: less_induct)
  case less
  show ?case
  proof (cases f)
    case (Unary u p g)
    then show ?thesis using make_simpler_unary [of g] less by simp
  next
    case (Binary u p i l r)
    then show ?thesis using make_simpler_binary [of l r] less by simp
  qed simp_all
qed

section \<open>The loop\<close>

text \<open>\<^verbatim>\<open>while( simplifier.changed )\<close>: it ends since every pass that changes the formula makes it lighter.\<close>

function simplify_loop :: "ltl \<Rightarrow> ltl" where
  "simplify_loop f = (let (g, changed) = make_simpler False f in if changed then simplify_loop g else g)"
  by pat_completeness auto
termination
proof (relation "measure simp_weight")
  fix f p g c
  assume "p = make_simpler False f" "(g, c) = p" c
  then have "make_simpler False f = (g, True)" by simp
  then show "(g, f) \<in> measure simp_weight"
    using make_simpler_ok [of False f] by (simp add: pass_ok_def simp_below_def)
qed simp

declare simplify_loop.simps [simp del]

lemma simplify_loop_to: "simp_to f (simplify_loop f)"
proof (induction f rule: simplify_loop.induct)
  case (1 f)
  obtain g c where r: "make_simpler False f = (g, c)" by fastforce
  then have "simp_to f g" using make_simpler_ok [of False f] by (simp add: pass_ok_def)
  moreover have "simp_to g (simplify_loop g)" if c using 1 r that by simp
  ultimately show ?case
    by (subst simplify_loop.simps) (auto simp: r simp_to_def)
qed

lemma simplify_loop_stable: "\<exists>g. make_simpler False g = (simplify_loop f, False)"
proof (induction f rule: simplify_loop.induct)
  case (1 f)
  obtain g c where r: "make_simpler False f = (g, c)" by fastforce
  show ?case
  proof (cases c)
    case True
    then show ?thesis using 1 r by (subst simplify_loop.simps) simp
  next
    case False
    then show ?thesis using r by (subst simplify_loop.simps) auto
  qed
qed

end
