(* ===== verification/LtlParse.thy ===== *)
theory LtlParse
  imports LtlForm
begin

text \<open>
  The parser of formulas (\<^verbatim>\<open>src/divine/ltl/ltl.cpp\<close>, from the tokenizers to \<^verbatim>\<open>LTL::parse\<close>). A token is a
  formula, where an operator is a node whose operands are missing, a bracket, or the tokens between
  a pair of brackets.
\<close>

section \<open>Errors and tokens\<close>

text \<open>
  What can go wrong: the exception \<^verbatim>\<open>std::invalid_argument\<close>, a failed \<^verbatim>\<open>ASSERT\<close>, or a list iterator
  that is dereferenced at the end of the list, where C++ defines no result.
\<close>

datatype parse_error = Invalid_argument string | Assertion | Past_the_end

datatype token = Formula ltl | Open | Close | Subtree "token list"

datatype operator = UOp uop | BOp bop

definition operator_node :: "operator \<Rightarrow> ltl" where
  "operator_node x = (case x of UOp p \<Rightarrow> make_unary p Null | BOp p \<Rightarrow> make_binary p Null Null)"

definition operator_order :: "(operator \<times> bool) list" where
  "operator_order =
     [(UOp Neg, False),
      (UOp Global, False), (UOp Future, False), (UOp Next, False),
      (BOp And, False), (BOp Or, False),
      (BOp Equiv, False),
      (BOp Impl, False),
      (BOp Until, True), (BOp WeakUntil, False), (BOp Release, False)]"

definition strings_to_operators :: "(string \<times> operator) list" where
  "strings_to_operators =
     [(''!'', UOp Neg),
      (''G'', UOp Global), (''[]'', UOp Global), (''F'', UOp Future), (''<>'', UOp Future), (''X'', UOp Next),
      (''&&'', BOp And), (''/'' @ [CHR 0x5C], BOp And), ([CHR 0x5C] @ ''/'', BOp Or), (''||'', BOp Or),
      (''='', BOp Equiv), (''<->'', BOp Equiv),
      (''->'', BOp Impl),
      (''U'', BOp Until), (''W'', BOp WeakUntil), (''V'', BOp Release), (''R'', BOp Release)]"

section \<open>The tokenizers\<close>

definition is_label_char :: "char \<Rightarrow> bool" where
  "is_label_char c \<longleftrightarrow> CHR ''a'' \<le> c \<and> c \<le> CHR ''z'' \<or> c = CHR ''_'' \<or> CHR ''0'' \<le> c \<and> c \<le> CHR ''9''"

definition is_rers_char :: "char \<Rightarrow> bool" where
  "is_rers_char c \<longleftrightarrow> CHR ''A'' \<le> c \<and> c \<le> CHR ''Z'' \<or> is_label_char c"

text \<open>
  The proposition at the front and what is left. The tokenizer for RERS takes upper case letters
  too, unless the first one is an operator.
\<close>

definition read_label :: "bool \<Rightarrow> string \<Rightarrow> string \<times> string" where
  "read_label rers s =
     (if rers
      then if s \<noteq> [] \<and> hd s \<in> set ''GFXWUVR'' then ([], s)
           else (takeWhile is_rers_char s, dropWhile is_rers_char s)
      else (takeWhile is_label_char s, dropWhile is_label_char s))"

text \<open>The symbol \<open>c\<close>, with the rest \<open>s\<close> of the text: the tokens for it and the text after it.\<close>

definition symbol :: "char \<Rightarrow> string \<Rightarrow> parse_error + token list \<times> string" where
  "symbol c s =
     (if c = CHR '' '' then Inr ([], s)
      else if c = CHR ''<''
      then if take 2 s = ''->'' then Inr ([Formula (make_binary Equiv Null Null)], drop 2 s)
           else if take 1 s = ''>'' then Inr ([Formula (make_unary Future Null)], drop 1 s)
           else Inl (Invalid_argument ''cannot resolve symbol < unless > or -> follows'')
      else if c = CHR ''('' then Inr ([Open], s)
      else if c = CHR '')'' then Inr ([Close], s)
      else if c = CHR ''&''
      then if s = [] then Inl (Invalid_argument ''symbol missing after &'')
           else Inr ([Formula (make_binary And Null Null)], if hd s = CHR ''&'' then tl s else s)
      else if c = CHR ''|''
      then if s = [] then Inl (Invalid_argument ''symbol missing after |'')
           else Inr ([Formula (make_binary Or Null Null)], if hd s = CHR ''|'' then tl s else s)
      else (case map_of strings_to_operators [c] of
              Some x \<Rightarrow> Inr ([Formula (operator_node x)], s)
            | None \<Rightarrow>
                (case s of
                   [] \<Rightarrow> Inl (Invalid_argument ''some symbol missing at the end'')
                 | d # s \<Rightarrow>
                     (case map_of strings_to_operators [c, d] of
                        Some x \<Rightarrow> Inr ([Formula (operator_node x)], s)
                      | None \<Rightarrow> Inl (Invalid_argument ''invalid LTL formula'')))))"

lemma read_label_length: "read_label rers s = (p, c # t) \<Longrightarrow> length t < length s"
  by (auto simp: read_label_def split: if_splits)
    (metis length_Cons length_dropWhile_le less_Suc_eq_le le_less_trans lessI not_less)+

lemma symbol_length: "symbol c s = Inr (ts, t) \<Longrightarrow> length t \<le> length s"
  by (auto simp: symbol_def split: if_splits option.splits list.splits)

function tokenizer :: "bool \<Rightarrow> string \<Rightarrow> parse_error + token list" where
  "tokenizer rers s =
     (if s = [] then Inr []
      else
        let (p, t) = read_label rers s; now = (if p \<noteq> [] then [Formula (make_label p)] else [])
        in case t of
             [] \<Rightarrow> Inr now
           | c # t \<Rightarrow>
               (case symbol c t of
                  Inl e \<Rightarrow> Inl e
                | Inr (ts, u) \<Rightarrow>
                    (case tokenizer rers u of Inl e \<Rightarrow> Inl e | Inr rest \<Rightarrow> Inr (now @ ts @ rest))))"
  by pat_completeness auto
termination
  by (relation "measure (\<lambda>(rers, s). length s)")
    (auto dest!: symbol_length read_label_length [OF sym])

declare tokenizer.simps [simp del]

section \<open>Brackets\<close>

text \<open>
  \<^verbatim>\<open>brackets\<close>: the tokens up to a closing bracket or the end, with the text between each pair of
  brackets as one token, and what is left from the closing bracket on.
\<close>

function brackets :: "token list \<Rightarrow> parse_error + token list \<times> token list" where
  "brackets [] = Inr ([], [])"
| "brackets (t # ts) =
     (case t of
        Open \<Rightarrow>
          (case brackets ts of
             Inl e \<Rightarrow> Inl e
           | Inr (node, rest) \<Rightarrow>
               if rest = [] then Inl (Invalid_argument ''too many brackets ('')
               else if node = [] then Inl (Invalid_argument ''empty brackets () are not allowed'')
               else (case brackets (tl rest) of
                       Inl e \<Rightarrow> Inl e
                     | Inr (more, end) \<Rightarrow> Inr (Subtree node # more, end)))
      | Close \<Rightarrow> Inr ([], t # ts)
      | _ \<Rightarrow> (case brackets ts of Inl e \<Rightarrow> Inl e | Inr (more, end) \<Rightarrow> Inr (t # more, end)))"
  by pat_completeness auto

termination
proof -
  have len: "length rest \<le> length ts" if "brackets_dom ts" "brackets ts = Inr (node, rest)" for ts node rest
    using that
  proof (induction ts arbitrary: node rest rule: brackets.pinduct)
    case (2 t ts)
    then show ?case
      by (fastforce simp: brackets.psimps split: token.splits sum.splits prod.splits if_splits)
  qed (simp add: brackets.psimps)
  show ?thesis
  proof (relation "measure length", simp_all)
    fix ts :: "token list" and b node rest
    assume "brackets ts = Inr b" "(node, rest) = b" "brackets_dom ts"
    then have "length rest \<le> length ts" using len [of ts node rest] by simp
    then show "length rest - Suc 0 < Suc (length ts)" by linarith
  qed
qed

definition solve_brackets :: "bool \<Rightarrow> string \<Rightarrow> parse_error + token list" where
  "solve_brackets rers s =
     (case tokenizer rers s of
        Inl e \<Rightarrow> Inl e
      | Inr ts \<Rightarrow>
          (case brackets ts of
             Inl e \<Rightarrow> Inl e
           | Inr (tree, rest) \<Rightarrow>
               if rest \<noteq> [] then Inl (Invalid_argument ''too many brackets )'') else Inr tree))"


section \<open>Reduction of a list of formulas\<close>

text \<open>
  \<^verbatim>\<open>reduceUnary\<close>: from the left, every node of the operator without an operand takes the formula
  behind it, if that is complete. The flag says whether anything changed.
\<close>

fun reduce_unary_loop :: "uop \<Rightarrow> ltl list \<Rightarrow> parse_error + ltl list \<times> bool" where
  "reduce_unary_loop p [] = Inr ([], False)"
| "reduce_unary_loop p (x # xs) =
     (if is_unary p x \<and> \<not> is_complete x
      then (case xs of
              [] \<Rightarrow> Inl (Invalid_argument ''LTL formula must not end with a unary operator'')
            | y # ys \<Rightarrow>
                if is_complete y
                then (case reduce_unary_loop p ys of
                        Inl e \<Rightarrow> Inl e | Inr (zs, ch) \<Rightarrow> Inr (make_unary p y # zs, True))
                else (case reduce_unary_loop p xs of
                        Inl e \<Rightarrow> Inl e | Inr (zs, ch) \<Rightarrow> Inr (x # zs, ch)))
      else (case reduce_unary_loop p xs of Inl e \<Rightarrow> Inl e | Inr (zs, ch) \<Rightarrow> Inr (x # zs, ch)))"

definition reduce_unary :: "uop \<Rightarrow> ltl list \<Rightarrow> parse_error + ltl list \<times> bool" where
  "reduce_unary p leaf = (if length leaf < 2 then Inr (leaf, False) else reduce_unary_loop p leaf)"

text \<open>
  \<^verbatim>\<open>reduceBinary\<close>: the iterator is at \<open>x\<close>, \<open>behind\<close> are the nodes it has passed and \<open>ahead\<close> those it
  will reach, both with the nearest first. The flag \<^verbatim>\<open>changed\<close> of the code is never set.
\<close>

definition in_order :: "bool \<Rightarrow> ltl list \<Rightarrow> ltl \<Rightarrow> ltl list \<Rightarrow> ltl list" where
  "in_order reverse behind x ahead =
     (if reverse then rev ahead @ x # behind else rev behind @ x # ahead)"

definition binary_step ::
  "bop \<Rightarrow> bool \<Rightarrow> ltl list \<Rightarrow> ltl \<Rightarrow> ltl list \<Rightarrow> parse_error + ltl list \<times> ltl \<times> ltl list" where
  "binary_step p reverse behind x ahead =
     (let before = (if reverse then ahead else behind); after = (if reverse then behind else ahead)
      in if is_binary p x \<and> \<not> is_complete x
         then if after = []
              then Inl (Invalid_argument ''LTL formula must not end with a binary operator'')
              else if before = []
              then Inl (Invalid_argument ''LTL formula must not begin with a binary operator'')
              else if is_complete (hd before) \<and> is_complete (hd after)
              then Inr (tl behind, make_binary p (hd before) (hd after), tl ahead)
              else Inr (behind, x, ahead)
         else Inr (behind, x, ahead))"

lemma binary_step_length:
  "binary_step p reverse behind x ahead = Inr (behind', x', ahead') \<Longrightarrow>
    length behind' \<le> length behind \<and> length ahead' \<le> length ahead"
  by (auto simp: binary_step_def Let_def split: if_splits)

function reduce_binary_loop ::
  "bop \<Rightarrow> bool \<Rightarrow> ltl list \<Rightarrow> ltl \<Rightarrow> ltl list \<Rightarrow> parse_error + ltl list \<times> bool" where
  "reduce_binary_loop p reverse behind x ahead =
     (if length behind + length ahead + 1 \<le> 2 then Inr (in_order reverse behind x ahead, False)
      else
        let last = (length ahead = 1)
        in case binary_step p reverse behind x ahead of
             Inl e \<Rightarrow> Inl e
           | Inr (behind, x, ahead) \<Rightarrow>
               if last then Inr (in_order reverse behind x ahead, False)
               else (case ahead of
                       [] \<Rightarrow> if length behind + 1 \<le> 2 then Inr (in_order reverse behind x ahead, False)
                             else Inl Past_the_end
                     | y # ys \<Rightarrow> reduce_binary_loop p reverse (x # behind) y ys))"
  by pat_completeness auto
termination
  by (relation "measure (\<lambda>(p, reverse, behind, x, ahead). length ahead)")
    (auto dest!: binary_step_length)

declare reduce_binary_loop.simps [simp del]

definition reduce_binary :: "bop \<Rightarrow> bool \<Rightarrow> ltl list \<Rightarrow> parse_error + ltl list \<times> bool" where
  "reduce_binary p reverse leaf =
     (let leaf' = (if reverse then rev leaf else leaf)
      in if length leaf \<le> 2 then Inr (leaf, False)
         else reduce_binary_loop p reverse [] (hd leaf') (tl leaf'))"

text \<open>One round of the loop in \<^verbatim>\<open>reduce\<close>: the operators in order, up to the first that changes something.\<close>

definition reduce_operator :: "operator \<Rightarrow> bool \<Rightarrow> ltl list \<Rightarrow> parse_error + ltl list \<times> bool" where
  "reduce_operator x reverse leaf =
     (case x of UOp p \<Rightarrow> reduce_unary p leaf | BOp p \<Rightarrow> reduce_binary p reverse leaf)"

fun reduce_round :: "(operator \<times> bool) list \<Rightarrow> ltl list \<Rightarrow> parse_error + ltl list" where
  "reduce_round [] leaf = Inr leaf"
| "reduce_round ((x, reverse) # xs) leaf =
     (case reduce_operator x reverse leaf of
        Inl e \<Rightarrow> Inl e
      | Inr (leaf, changed) \<Rightarrow> if changed then Inr leaf else reduce_round xs leaf)"

lemma reduce_unary_loop_length:
  "reduce_unary_loop p xs = Inr (ys, ch) \<Longrightarrow> length ys \<le> length xs"
proof (induction p xs arbitrary: ys ch rule: reduce_unary_loop.induct)
  case (2 p x xs)
  consider (take) y us where "is_unary p x" "\<not> is_complete x" "xs = y # us" "is_complete y"
    | (keep) zs c where "reduce_unary_loop p xs = Inr (zs, c)" "ys = x # zs"
    using 2(4) by (cases xs) (auto split: if_splits sum.splits)
  then show ?case
  proof cases
    case take
    then obtain zs c where "reduce_unary_loop p us = Inr (zs, c)" "ys = make_unary p y # zs"
      using 2(4) by (auto split: sum.splits)
    then show ?thesis using 2(1) take by fastforce
  next
    case keep
    show ?thesis
    proof (cases "is_unary p x \<and> \<not> is_complete x")
      case True
      then obtain y us where "xs = y # us" using 2(4) by (cases xs) auto
      then show ?thesis using 2(2) [OF True _ _ keep(1)] 2(1) 2(4) True keep
        by (cases "is_complete y") (auto split: sum.splits)
    next
      case False
      then show ?thesis using 2(3) [OF False keep(1)] keep by simp
    qed
  qed
qed simp

lemma length_in_order [simp]: "length (in_order r b x a) = length b + length a + 1"
  by (simp add: in_order_def)

lemma reduce_binary_loop_length:
  "reduce_binary_loop p r b x a = Inr (ys, ch) \<Longrightarrow> length ys \<le> length b + length a + 1"
proof (induction "length a" arbitrary: b x a ys ch rule: less_induct)
  case less
  show ?case
  proof (cases "length b + length a + 1 \<le> 2")
    case True
    then show ?thesis using less.prems by (subst (asm) reduce_binary_loop.simps) auto
  next
    case False
    then obtain b' x' a' where step: "binary_step p r b x a = Inr (b', x', a')"
      using less.prems by (subst (asm) reduce_binary_loop.simps) (auto simp: Let_def split: sum.splits)
    note len = binary_step_length [OF step]
    show ?thesis
    proof (cases a')
      case Nil
      then show ?thesis using less.prems False len
        by (subst (asm) reduce_binary_loop.simps) (auto simp: step Let_def split: if_splits)
    next
      case (Cons y zs)
      then have "length zs < length a" using len by simp
      note IH = less.hyps [OF this, of "x' # b'" y]
      have "reduce_binary_loop p r b x a =
          (if length a = 1 then Inr (in_order r b' x' a', False)
           else reduce_binary_loop p r (x' # b') y zs)"
        using False by (subst reduce_binary_loop.simps) (simp add: step Cons Let_def)
      then show ?thesis using less.prems len Cons IH [of ys ch] by (auto split: if_splits)
    qed
  qed
qed


lemma reduce_operator_length:
  "reduce_operator x r leaf = Inr (leaf', ch) \<Longrightarrow> length leaf' \<le> length leaf"
  using reduce_unary_loop_length [of _ leaf leaf' ch]
    reduce_binary_loop_length [of _ r "[]" "hd (if r then rev leaf else leaf)"
      "tl (if r then rev leaf else leaf)" leaf' ch]
  by (fastforce simp: reduce_operator_def reduce_unary_def reduce_binary_def Let_def
      split: operator.splits if_splits)

lemma reduce_round_length: "reduce_round xs leaf = Inr leaf' \<Longrightarrow> length leaf' \<le> length leaf"
proof (induction xs leaf rule: reduce_round.induct)
  case (2 x r xs leaf)
  then obtain l c where l: "reduce_operator x r leaf = Inr (l, c)" by (auto split: sum.splits)
  note le = reduce_operator_length [OF l]
  show ?case
  proof (cases c)
    case True
    then show ?thesis using 2 l le by simp
  next
    case False
    then have "length leaf' \<le> length l" using 2 l by simp
    then show ?thesis using le by simp
  qed
qed simp

function reduce :: "ltl list \<Rightarrow> parse_error + ltl" where
  "reduce leaf =
     (if length leaf > 1
      then (case reduce_round operator_order leaf of
              Inl e \<Rightarrow> Inl e
            | Inr leaf' \<Rightarrow>
                if length leaf' = length leaf then Inl (Invalid_argument ''Syntax error in LTL formula'')
                else reduce leaf')
      else if leaf = [] then Inl Assertion
      else Inr (hd leaf))"
  by pat_completeness auto
termination
  by (relation "measure length") (auto dest!: reduce_round_length)

declare reduce.simps [simp del]

section \<open>Parsing\<close>

text \<open>\<^verbatim>\<open>collapse\<close>: the tokens in brackets first, from the inside, then the list.\<close>

fun collapse_token :: "token \<Rightarrow> parse_error + ltl"
  and collapse_tokens :: "token list \<Rightarrow> parse_error + ltl list" where
  "collapse_token (Formula f) = Inr f"
| "collapse_token (Subtree ts) =
     (case collapse_tokens ts of Inl e \<Rightarrow> Inl e | Inr leaf \<Rightarrow> reduce leaf)"
| "collapse_token t = Inl Assertion"
| "collapse_tokens [] = Inr []"
| "collapse_tokens (t # ts) =
     (case collapse_token t of
        Inl e \<Rightarrow> Inl e
      | Inr f \<Rightarrow> (case collapse_tokens ts of Inl e \<Rightarrow> Inl e | Inr fs \<Rightarrow> Inr (f # fs)))"

definition collapse :: "token list \<Rightarrow> parse_error + ltl" where
  "collapse ts = collapse_token (Subtree ts)"

definition parse :: "bool \<Rightarrow> string \<Rightarrow> parse_error + ltl" where
  "parse rers s = (case solve_brackets rers s of Inl e \<Rightarrow> Inl e | Inr ts \<Rightarrow> collapse ts)"

end
