(* ===== verification/LtlRoundtrip.thy ===== *)
theory LtlRoundtrip
  imports LtlParse LtlFacts
begin

text \<open>
  What is printed is parsed again as the same formula: the tokenizer, the brackets and the
  reductions, one after the other.
\<close>

section \<open>Formulas that can be printed\<close>

definition label_ok :: "string \<Rightarrow> bool" where
  "label_ok s \<longleftrightarrow> s \<noteq> [] \<and> (\<forall>c \<in> set s. is_label_char c) \<and> \<not> truth_label s"

fun printable :: "ltl \<Rightarrow> bool" where
  "printable Null = False"
| "printable (Boolean u b) = True"
| "printable (Atom u s) = label_ok s"
| "printable (Unary u p f) = printable f"
| "printable (Binary u p i l r) = (p \<noteq> WeakUntil \<and> printable l \<and> printable r)"

section \<open>The tokenizer\<close>

definition prepend :: "'b list \<Rightarrow> 'a + 'b list \<Rightarrow> 'a + 'b list" where
  "prepend ts r = (case r of Inl e \<Rightarrow> Inl e | Inr us \<Rightarrow> Inr (ts @ us))"

lemma prepend_simps [simp]:
  "prepend [] r = r" "prepend ts (prepend us r) = prepend (ts @ us) r" "prepend ts (Inr us) = Inr (ts @ us)"
  by (auto simp: prepend_def split: sum.splits)

definition ends_label :: "string \<Rightarrow> bool" where
  "ends_label s \<longleftrightarrow> s = [] \<or> \<not> is_label_char (hd s)"

lemma tokenizer_symbol:
  assumes "\<not> is_label_char c" "symbol c s = Inr (ts, u)"
  shows "tokenizer False (c # s) = prepend ts (tokenizer False u)"
  using assms by (subst tokenizer.simps) (simp add: read_label_def prepend_def split: sum.split)

lemma tokenizer_label:
  assumes "s \<noteq> []" "\<forall>c \<in> set s. is_label_char c" "ends_label t"
  shows "tokenizer False (s @ t) = prepend [Formula (make_label s)] (tokenizer False t)"
proof -
  have t: "takeWhile is_label_char t = []" "dropWhile is_label_char t = t"
    using assms(3) by (cases t; simp add: ends_label_def)+
  have "read_label False (s @ t) = (s, t)"
    using assms(2) t by (simp add: read_label_def takeWhile_append2 dropWhile_append2)
  then have st: "tokenizer False (s @ t) =
      (case t of [] \<Rightarrow> Inr [Formula (make_label s)]
       | c # v \<Rightarrow> (case symbol c v of Inl e \<Rightarrow> Inl e | Inr (ts, u) \<Rightarrow>
           (case tokenizer False u of Inl e \<Rightarrow> Inl e
            | Inr rest \<Rightarrow> Inr ([Formula (make_label s)] @ ts @ rest))))"
    using assms(1) by (subst tokenizer.simps) (simp add: Let_def)
  have "tokenizer False t =
      (case t of [] \<Rightarrow> Inr []
       | c # v \<Rightarrow> (case symbol c v of Inl e \<Rightarrow> Inl e | Inr (ts, u) \<Rightarrow>
           (case tokenizer False u of Inl e \<Rightarrow> Inl e | Inr rest \<Rightarrow> Inr (ts @ rest))))"
    using t by (subst tokenizer.simps) (simp add: read_label_def split: list.split sum.split prod.split)
  then show ?thesis unfolding st by (auto simp: prepend_def split: list.splits sum.splits)
qed

lemma symbol_values:
  "symbol CHR '' '' s = Inr ([], s)" "symbol CHR ''('' s = Inr ([Open], s)" "symbol CHR '')'' s = Inr ([Close], s)"
  "symbol (hd (uop_string p)) s = Inr ([Formula (make_unary p Null)], s)"
  "symbol CHR ''&'' (CHR '' '' # s) = Inr ([Formula (make_binary And Null Null)], CHR '' '' # s)"
  "symbol CHR ''|'' (CHR '' '' # s) = Inr ([Formula (make_binary Or Null Null)], CHR '' '' # s)"
  "symbol CHR ''-'' (CHR ''>'' # s) = Inr ([Formula (make_binary Impl Null Null)], s)"
  "symbol CHR ''<'' (CHR ''-'' # CHR ''>'' # s) = Inr ([Formula (make_binary Equiv Null Null)], s)"
  "symbol CHR ''U'' s = Inr ([Formula (make_binary Until Null Null)], s)"
  "symbol CHR ''R'' s = Inr ([Formula (make_binary Release Null Null)], s)"
  by (simp_all add: symbol_def strings_to_operators_def operator_node_def)
    (cases p; simp add: symbol_def strings_to_operators_def operator_node_def)

lemma symbol_chars:
  "\<not> is_label_char CHR '' ''" "\<not> is_label_char CHR ''(''" "\<not> is_label_char CHR '')''"
  "\<not> is_label_char CHR ''&''" "\<not> is_label_char CHR ''|''" "\<not> is_label_char CHR ''-''"
  "\<not> is_label_char CHR ''<''" "\<not> is_label_char CHR ''U''" "\<not> is_label_char CHR ''R''"
  "\<not> is_label_char (hd (uop_string p))"
proof -
  have "\<not> is_label_char CHR ''!''" "\<not> is_label_char CHR ''G''" "\<not> is_label_char CHR ''F''"
    "\<not> is_label_char CHR ''X''" by code_simp+
  then show "\<not> is_label_char (hd (uop_string p))" by (cases p) simp_all
qed code_simp+

lemmas tokenizer_symbols =
  tokenizer_symbol [OF symbol_chars(1) symbol_values(1)]
  tokenizer_symbol [OF symbol_chars(2) symbol_values(2)]
  tokenizer_symbol [OF symbol_chars(3) symbol_values(3)]
  tokenizer_symbol [OF symbol_chars(4) symbol_values(5)]
  tokenizer_symbol [OF symbol_chars(5) symbol_values(6)]
  tokenizer_symbol [OF symbol_chars(6) symbol_values(7)]
  tokenizer_symbol [OF symbol_chars(7) symbol_values(8)]
  tokenizer_symbol [OF symbol_chars(8) symbol_values(9)]
  tokenizer_symbol [OF symbol_chars(9) symbol_values(10)]

lemma tokenizer_uop:
  "tokenizer False (uop_string p @ s) = prepend [Formula (make_unary p Null)] (tokenizer False s)"
proof -
  have "uop_string p @ s = hd (uop_string p) # s" by (cases p) simp_all
  then show ?thesis
    using tokenizer_symbol [OF symbol_chars(10) symbol_values(4), of p s] by (simp only:)
qed

definition bop_string :: "bop \<Rightarrow> string" where
  "bop_string p =
     (case p of And \<Rightarrow> '' & '' | Or \<Rightarrow> '' | '' | Impl \<Rightarrow> '' -> '' | Equiv \<Rightarrow> '' <-> '' | Until \<Rightarrow> '' U ''
              | Release \<Rightarrow> '' R '' | WeakUntil \<Rightarrow> '''')"

lemma tokenizer_bop:
  "p \<noteq> WeakUntil \<Longrightarrow>
    tokenizer False (bop_string p @ s) = prepend [Formula (make_binary p Null Null)] (tokenizer False s)"
  by (cases p) (simp_all add: bop_string_def tokenizer_symbols)

lemma ltl_string_binary:
  "p \<noteq> WeakUntil \<Longrightarrow>
    ltl_string (Binary u p i l r) = ''( '' @ ltl_string l @ bop_string p @ ltl_string r @ '' )''"
  by (cases p) (simp_all add: bop_string_def)

fun tokens_of :: "ltl \<Rightarrow> token list" where
  "tokens_of (Unary u p f) = Formula (make_unary p Null) # tokens_of f"
| "tokens_of (Binary u p i l r) =
     Open # tokens_of l @ Formula (make_binary p Null Null) # tokens_of r @ [Close]"
| "tokens_of f = [Formula (shape f)]"

lemma ends_label_bop: "p \<noteq> WeakUntil \<Longrightarrow> ends_label (bop_string p @ s)"
  by (cases p) (simp_all add: bop_string_def ends_label_def symbol_chars)

lemma tokenizer_printed:
  "printable f \<Longrightarrow> ends_label s \<Longrightarrow>
    tokenizer False (ltl_string f @ s) = prepend (tokens_of f) (tokenizer False s)"
proof (induction f arbitrary: s)
  case (Boolean u b)
  have t: "\<forall>c \<in> set ''true''. is_label_char c" "\<forall>c \<in> set ''false''. is_label_char c" by code_simp+
  show ?case
    using tokenizer_label [OF _ t(1) Boolean(2)] tokenizer_label [OF _ t(2) Boolean(2)]
    by (cases b) (simp_all add: make_label_def makes)
next
  case (Atom u l)
  then show ?case
    using tokenizer_label [of l s] by (simp add: label_ok_def make_label_proper)
next
  case (Unary u p f)
  then show ?case by (simp add: tokenizer_uop)
next
  case (Binary u p i l r)
  have "ends_label (CHR '' '' # t)" for t by (simp add: ends_label_def symbol_chars)
  then show ?case
    using Binary ends_label_bop [of p]
    by (simp add: ltl_string_binary tokenizer_symbols tokenizer_bop del: ltl_string.simps(5))
qed simp

section \<open>Brackets\<close>

fun tree_of :: "ltl \<Rightarrow> token list" where
  "tree_of (Unary u p f) = Formula (make_unary p Null) # tree_of f"
| "tree_of (Binary u p i l r) = [Subtree (tree_of l @ Formula (make_binary p Null Null) # tree_of r)]"
| "tree_of f = [Formula (shape f)]"

lemma brackets_formula:
  "brackets (Formula f # ts) =
    (case brackets ts of Inl e \<Rightarrow> Inl e | Inr (more, fin) \<Rightarrow> Inr (Formula f # more, fin))"
  by simp

lemma brackets_tokens:
  "brackets (tokens_of f @ ts) =
    (case brackets ts of Inl e \<Rightarrow> Inl e | Inr (more, fin) \<Rightarrow> Inr (tree_of f @ more, fin))"
proof (induction f arbitrary: ts)
  case (Unary u p f)
  then show ?case by (auto split: sum.splits)
next
  case (Binary u p i l r)
  have "brackets (Close # us) = Inr ([], Close # us)" for us by simp
  then have "brackets (tokens_of l @ Formula (make_binary p Null Null) # tokens_of r @ Close # ts) =
      Inr (tree_of l @ Formula (make_binary p Null Null) # tree_of r, Close # ts)"
    by (simp add: Binary.IH brackets_formula del: brackets.simps)
  then show ?case by (auto simp: Binary.IH split: sum.splits)
qed (auto split: sum.splits)

lemma solve_brackets_printed:
  assumes "printable f"
  shows "solve_brackets False (ltl_string f) = Inr (tree_of f)"
proof -
  have "tokenizer False [] = Inr []" by (simp add: tokenizer.simps)
  then have "tokenizer False (ltl_string f) = Inr (tokens_of f)"
    using tokenizer_printed [OF assms, of "[]"] by (simp add: ends_label_def)
  moreover have "brackets (tokens_of f) = Inr (tree_of f, [])"
    using brackets_tokens [of f "[]"] by simp
  ultimately show ?thesis by (simp add: solve_brackets_def)
qed

section \<open>Reductions\<close>

text \<open>Operators without operands in front of a complete formula, and what they denote.\<close>

definition operand :: "uop list \<Rightarrow> ltl \<Rightarrow> ltl list" where
  "operand ps f = map (\<lambda>p. make_unary p Null) ps @ [f]"

definition denotes :: "uop list \<Rightarrow> ltl \<Rightarrow> ltl" where
  "denotes ps f = foldr make_unary ps f"

lemma is_complete_makes [simp]:
  "is_complete (make_unary p f) = (f \<noteq> Null)" "is_complete (make_binary q l r) = (l \<noteq> Null \<and> r \<noteq> Null)"
  "is_unary p (make_unary p' f) = (p' = p)" "\<not> is_unary p (make_binary q l r)"
  "is_binary q (make_binary q' l r) = (q' = q)" "\<not> is_binary q (make_unary p f)"
  by (simp_all add: makes)

lemma make_not_Null [simp]: "make_unary p f \<noteq> Null" "make_binary q l r \<noteq> Null"
  by (simp_all add: makes)

text \<open>A unary pass over an operand, and over what follows it.\<close>

definition pass_result :: "'e + ltl list \<times> bool \<Rightarrow> ltl list \<Rightarrow> bool \<Rightarrow> 'e + ltl list \<times> bool" where
  "pass_result r xs c = (case r of Inl e \<Rightarrow> Inl e | Inr (us, d) \<Rightarrow> Inr (xs @ us, c \<or> d))"

lemma pass_result_simps [simp]:
  "pass_result (Inr (us, d)) xs c = Inr (xs @ us, c \<or> d)"
  "pass_result (pass_result r xs c) ys d = pass_result r (ys @ xs) (d \<or> c)"
  by (auto simp: pass_result_def split: sum.split)

lemma reduce_unary_keep:
  assumes "\<not> (is_unary p x \<and> \<not> is_complete x) \<or> (\<exists>y ys. xs = y # ys \<and> \<not> is_complete y)"
  shows "reduce_unary_loop p (x # xs) = pass_result (reduce_unary_loop p xs) [x] False"
  using assms by (auto simp: pass_result_def split: sum.split)

lemma reduce_unary_take:
  assumes "is_complete y"
  shows "reduce_unary_loop p (make_unary p Null # y # ys) =
    pass_result (reduce_unary_loop p ys) [make_unary p y] True"
  using assms by (auto simp: pass_result_def split: sum.split)

lemma reduce_unary_operand:
  assumes "is_complete f"
  shows "\<exists>qs g. denotes qs g = denotes ps f \<and> is_complete g \<and> length qs \<le> length ps \<and>
    (ps \<noteq> [] \<and> last ps = p \<longrightarrow> length qs < length ps) \<and>
    (length qs = length ps \<longrightarrow> qs = ps \<and> g = f) \<and>
    (\<forall>ts. reduce_unary_loop p (operand ps f @ ts) =
      pass_result (reduce_unary_loop p ts) (operand qs g) (length qs < length ps))"
proof (induction ps)
  case Nil
  have "\<not> (is_unary p f \<and> \<not> is_complete f)" using assms by simp
  then have "reduce_unary_loop p (f # ts) = pass_result (reduce_unary_loop p ts) [f] False" for ts
    by (intro reduce_unary_keep) simp
  then show ?case using assms
    by (intro exI [of _ "[]"] exI [of _ f]) (simp add: operand_def)
next
  case (Cons q ps)
  show ?case
  proof (cases "q = p \<and> ps = []")
    case True
    then have "reduce_unary_loop p (operand (q # ps) f @ ts) =
        pass_result (reduce_unary_loop p ts) [make_unary p f] True" for ts
      using reduce_unary_take [OF assms] by (simp add: operand_def)
    then show ?thesis using True assms
      by (intro exI [of _ "[]"] exI [of _ "make_unary p f"]) (auto simp: operand_def denotes_def)
  next
    case False
    obtain qs g where qs: "denotes qs g = denotes ps f" "is_complete g" "length qs \<le> length ps"
      "ps \<noteq> [] \<and> last ps = p \<longrightarrow> length qs < length ps" "length qs = length ps \<longrightarrow> qs = ps \<and> g = f"
      "\<And>ts. reduce_unary_loop p (operand ps f @ ts) =
        pass_result (reduce_unary_loop p ts) (operand qs g) (length qs < length ps)"
      using Cons.IH by blast
    have "reduce_unary_loop p (operand (q # ps) f @ ts) =
        pass_result (reduce_unary_loop p (operand ps f @ ts)) [make_unary q Null] False" for ts
    proof -
      have "\<not> (is_unary p (make_unary q Null)) \<or>
          (\<exists>y ys. operand ps f @ ts = y # ys \<and> \<not> is_complete y)"
        using False by (cases ps) (auto simp: operand_def)
      then have "reduce_unary_loop p (make_unary q Null # operand ps f @ ts) =
          pass_result (reduce_unary_loop p (operand ps f @ ts)) [make_unary q Null] False"
        by (intro reduce_unary_keep) blast
      then show ?thesis by (simp add: operand_def del: reduce_unary_loop.simps)
    qed
    then have "reduce_unary_loop p (operand (q # ps) f @ ts) =
        pass_result (reduce_unary_loop p ts) (operand (q # qs) g) (length (q # qs) < length (q # ps))" for ts
      using qs(6) by (simp add: operand_def)
    then show ?thesis using qs False
      by (intro exI [of _ "q # qs"] exI [of _ g]) (auto simp: denotes_def)
  qed
qed

text \<open>The list of an operand alone, or of two operands with a binary operator between them.\<close>

type_synonym second = "(bop \<times> uop list \<times> ltl) option"

fun leaf :: "uop list \<Rightarrow> ltl \<Rightarrow> second \<Rightarrow> ltl list" where
  "leaf ps f None = operand ps f"
| "leaf ps f (Some (q, qs, g)) = operand ps f @ make_binary q Null Null # operand qs g"

fun leaf_value :: "uop list \<Rightarrow> ltl \<Rightarrow> second \<Rightarrow> ltl" where
  "leaf_value ps f None = denotes ps f"
| "leaf_value ps f (Some (q, qs, g)) = make_binary q (denotes ps f) (denotes qs g)"

fun leaf_ops :: "uop list \<Rightarrow> second \<Rightarrow> nat" where
  "leaf_ops ps None = length ps"
| "leaf_ops ps (Some (q, qs, g)) = length ps + length qs"

fun leaf_ok :: "ltl \<Rightarrow> second \<Rightarrow> bool" where
  "leaf_ok f None = is_complete f"
| "leaf_ok f (Some (q, qs, g)) = (is_complete f \<and> is_complete g)"

fun leaf_ready :: "uop \<Rightarrow> uop list \<Rightarrow> second \<Rightarrow> bool" where
  "leaf_ready p ps None = (ps \<noteq> [] \<and> last ps = p)"
| "leaf_ready p ps (Some (q, qs, g)) = (ps \<noteq> [] \<and> last ps = p \<or> qs \<noteq> [] \<and> last qs = p)"

lemma second_cases [case_names None Some]:
  fixes t :: second
  obtains "t = None" | q qs g where "t = Some (q, qs, g)"
  by (cases t) auto

lemma reduce_unary_leaf:
  assumes "leaf_ok f t"
  shows "\<exists>ps' f' t'. leaf_ok f' t' \<and> (t' = None) = (t = None) \<and> leaf_value ps' f' t' = leaf_value ps f t \<and>
    leaf_ops ps' t' \<le> leaf_ops ps t \<and> (leaf_ready p ps t \<longrightarrow> leaf_ops ps' t' < leaf_ops ps t) \<and>
    (leaf_ops ps' t' = leaf_ops ps t \<longrightarrow> ps' = ps \<and> f' = f \<and> t' = t) \<and>
    reduce_unary_loop p (leaf ps f t) = Inr (leaf ps' f' t', leaf_ops ps' t' < leaf_ops ps t)"
proof -
  have "is_complete f" using assms by (cases t rule: second_cases) auto
  then obtain ps' f' where a: "denotes ps' f' = denotes ps f" "is_complete f'" "length ps' \<le> length ps"
      "ps \<noteq> [] \<and> last ps = p \<longrightarrow> length ps' < length ps" "length ps' = length ps \<longrightarrow> ps' = ps \<and> f' = f"
      "\<And>ts. reduce_unary_loop p (operand ps f @ ts) =
        pass_result (reduce_unary_loop p ts) (operand ps' f') (length ps' < length ps)"
    using reduce_unary_operand [of f ps p] by blast
  show ?thesis
  proof (cases t)
    case None
    have "reduce_unary_loop p (leaf ps f t) = Inr (operand ps' f', length ps' < length ps)"
      using a(6) [of "[]"] None by simp
    then show ?thesis using a(1-5) None by (intro exI [of _ ps'] exI [of _ f'] exI [of _ None]) simp
  next
    case (Some x)
    obtain q qs g where t: "t = Some (q, qs, g)" using Some by (cases x) auto
    then have "is_complete g" using assms by simp
    then obtain qs' g' where b: "denotes qs' g' = denotes qs g" "is_complete g'" "length qs' \<le> length qs"
        "qs \<noteq> [] \<and> last qs = p \<longrightarrow> length qs' < length qs" "length qs' = length qs \<longrightarrow> qs' = qs \<and> g' = g"
        "\<And>ts. reduce_unary_loop p (operand qs g @ ts) =
          pass_result (reduce_unary_loop p ts) (operand qs' g') (length qs' < length qs)"
      using reduce_unary_operand [of g qs p] by blast
    have "reduce_unary_loop p (make_binary q Null Null # operand qs g) =
        pass_result (reduce_unary_loop p (operand qs g)) [make_binary q Null Null] False"
      by (rule reduce_unary_keep) simp
    then have "reduce_unary_loop p (leaf ps f t) =
        Inr (leaf ps' f' (Some (q, qs', g')), length ps' < length ps \<or> length qs' < length qs)"
      using a(6) b(6) [of "[]"] t by simp
    moreover have "(length ps' < length ps \<or> length qs' < length qs) =
        (length ps' + length qs' < length ps + length qs)" using a(3) b(3) by auto
    ultimately show ?thesis using a(1-5) b(1-5) t
      by (intro exI [of _ ps'] exI [of _ f'] exI [of _ "Some (q, qs', g')"]) auto
  qed
qed

lemma leaf_length: "length (leaf ps f t) = leaf_ops ps t + (case t of None \<Rightarrow> 1 | Some _ \<Rightarrow> 3)"
  by (cases t rule: second_cases) (auto simp: operand_def)

lemma reduce_round_unary:
  assumes "leaf_ok f t" "\<exists>p \<in> set us. leaf_ready p ps t"
  shows "\<exists>ps' f' t'. leaf_ok f' t' \<and> (t' = None) = (t = None) \<and> leaf_value ps' f' t' = leaf_value ps f t \<and>
    leaf_ops ps' t' < leaf_ops ps t \<and>
    reduce_round (map (\<lambda>p. (UOp p, False)) us @ rest) (leaf ps f t) = Inr (leaf ps' f' t')"
  using assms(2)
proof (induction us)
  case (Cons p us)
  obtain ps' f' t' where r: "leaf_ok f' t'" "(t' = None) = (t = None)" "leaf_value ps' f' t' = leaf_value ps f t"
      "leaf_ops ps' t' \<le> leaf_ops ps t" "leaf_ready p ps t \<longrightarrow> leaf_ops ps' t' < leaf_ops ps t"
      "leaf_ops ps' t' = leaf_ops ps t \<longrightarrow> ps' = ps \<and> f' = f \<and> t' = t"
      "reduce_unary_loop p (leaf ps f t) = Inr (leaf ps' f' t', leaf_ops ps' t' < leaf_ops ps t)"
    using reduce_unary_leaf [OF assms(1)] by blast
  have "\<not> length (leaf ps f t) < 2"
    using Cons.prems by (cases t rule: second_cases) (auto simp: operand_def neq_Nil_conv)
  then have u: "reduce_operator (UOp p) False (leaf ps f t) =
      Inr (leaf ps' f' t', leaf_ops ps' t' < leaf_ops ps t)"
    using r(7) by (simp add: reduce_operator_def reduce_unary_def)
  show ?case
  proof (cases "leaf_ops ps' t' < leaf_ops ps t")
    case True
    then show ?thesis using r(1-3) u
      by (intro exI [of _ ps'] exI [of _ f'] exI [of _ t']) simp
  next
    case False
    then have "\<not> leaf_ready p ps t" "ps' = ps \<and> f' = f \<and> t' = t" using r by auto
    then show ?thesis using Cons False u by simp
  qed
qed simp

lemma reduce_binary_pair:
  assumes "is_complete f" "is_complete g"
  shows "reduce_binary p r [f, make_binary q Null Null, g] =
    Inr (if p = q then [make_binary q f g] else [f, make_binary q Null Null, g], False)"
  using assms by (cases r) (auto simp: reduce_binary_def reduce_binary_loop.simps binary_step_def in_order_def)

lemma reduce_binary_one: "reduce_binary p r [f] = Inr ([f], False)"
  by (simp add: reduce_binary_def)

lemma reduce_single: "reduce [f] = Inr f"
  by (subst reduce.simps) simp

lemma reduce_pair:
  assumes "is_complete f" "is_complete g"
  shows "reduce [f, make_binary q Null Null, g] = Inr (make_binary q f g)"
proof -
  have "reduce_unary p [f, make_binary q Null Null, g] = Inr ([f, make_binary q Null Null, g], False)" for p
    using reduce_unary_leaf [of f "Some (q, [], g)" "[]" p] assms
    by (auto simp: operand_def reduce_unary_def simp del: reduce_unary_loop.simps)
  then have "reduce_round operator_order [f, make_binary q Null Null, g] = Inr [make_binary q f g]"
    using assms
    by (cases q) (simp_all add: operator_order_def reduce_operator_def reduce_binary_pair reduce_binary_one)
  then show ?thesis by (subst reduce.simps) (simp add: reduce_single)
qed

lemma uop_in_order: "p \<in> set [Neg, Global, Future, Next]"
  by (cases p) simp_all

lemma reduce_leaf: "leaf_ok f t \<Longrightarrow> reduce (leaf ps f t) = Inr (leaf_value ps f t)"
proof (induction "leaf_ops ps t" arbitrary: ps f t rule: less_induct)
  case less
  show ?case
  proof (cases "leaf_ops ps t = 0")
    case True
    then show ?thesis using less.prems
      by (cases t rule: second_cases) (auto simp: operand_def denotes_def reduce_single reduce_pair)
  next
    case False
    then have "\<exists>p. leaf_ready p ps t" by (cases t rule: second_cases) auto
    then have "\<exists>p \<in> set [Neg, Global, Future, Next]. leaf_ready p ps t" using uop_in_order by blast
    then obtain ps' f' t' where r: "leaf_ok f' t'" "(t' = None) = (t = None)" "leaf_value ps' f' t' = leaf_value ps f t"
      "leaf_ops ps' t' < leaf_ops ps t"
      "reduce_round operator_order (leaf ps f t) = Inr (leaf ps' f' t')"
      using reduce_round_unary [OF less.prems, of "[Neg, Global, Future, Next]" ps "drop 4 operator_order"]
      by (auto simp: operator_order_def)
    have "length (leaf ps f t) > 1" "length (leaf ps' f' t') \<noteq> length (leaf ps f t)"
      using False r(2,4) by (auto simp: leaf_length split: option.splits)
    then have "reduce (leaf ps f t) = reduce (leaf ps' f' t')"
      using r(5) by (subst reduce.simps) simp
    then show ?thesis using less.hyps [OF r(4,1)] r(3) by simp
  qed
qed

section \<open>The whole parser\<close>

lemma collapse_append:
  "collapse_tokens ts = Inr fs \<Longrightarrow> collapse_tokens us = Inr gs \<Longrightarrow> collapse_tokens (ts @ us) = Inr (fs @ gs)"
  by (induction ts arbitrary: fs) (auto split: sum.splits)

lemma shape_Null [simp]: "shape f = Null \<longleftrightarrow> f = Null"
  by (cases f) simp_all

lemma shape_complete: "printable f \<Longrightarrow> is_complete (shape f)"
  by (cases f) auto

lemma collapse_tree:
  "printable f \<Longrightarrow>
    \<exists>ps g. collapse_tokens (tree_of f) = Inr (operand ps g) \<and> is_complete g \<and> denotes ps g = shape f"
proof (induction f)
  case (Unary u p f)
  then obtain ps g where "collapse_tokens (tree_of f) = Inr (operand ps g)" "is_complete g"
    "denotes ps g = shape f" by auto
  then show ?case
    by (intro exI [of _ "p # ps"] exI [of _ g]) (simp add: operand_def denotes_def makes)
next
  case (Binary u p i l r)
  obtain ps g where l: "collapse_tokens (tree_of l) = Inr (operand ps g)" "is_complete g" "denotes ps g = shape l"
    using Binary by auto
  obtain qs h where r: "collapse_tokens (tree_of r) = Inr (operand qs h)" "is_complete h" "denotes qs h = shape r"
    using Binary by auto
  have "collapse_tokens (Formula (make_binary p Null Null) # tree_of r) =
      Inr (make_binary p Null Null # operand qs h)" using r by simp
  then have "collapse_tokens (tree_of l @ Formula (make_binary p Null Null) # tree_of r) =
      Inr (leaf ps g (Some (p, qs, h)))" using l by (simp add: collapse_append)
  then have "collapse_tokens (tree_of (Binary u p i l r)) = Inr [make_binary p (shape l) (shape r)]"
    using reduce_leaf [of g "Some (p, qs, h)" ps] l r by simp
  then show ?case using shape_complete [OF Binary.prems]
    by (intro exI [of _ "[]"] exI [of _ "shape (Binary u p i l r)"]) (simp add: operand_def denotes_def makes)
next
  case (Boolean u b)
  show ?case
    by (intro exI [of _ "[]"] exI [of _ "Boolean [] b"]) (simp add: operand_def denotes_def)
next
  case (Atom u s)
  show ?case
    by (intro exI [of _ "[]"] exI [of _ "Atom [] s"]) (simp add: operand_def denotes_def)
qed simp

lemma parse_printed:
  assumes "printable f"
  shows "parse False (ltl_string f) = Inr (shape f)"
proof -
  obtain ps g where t: "collapse_tokens (tree_of f) = Inr (operand ps g)" "is_complete g" "denotes ps g = shape f"
    using collapse_tree [OF assms] by blast
  then show ?thesis
    using reduce_leaf [of g None ps] solve_brackets_printed [OF assms]
    by (simp add: parse_def collapse_def)
qed

end
