(* ===== verification/LtlProps.thy ===== *)
theory LtlProps
  imports LtlSimplify LtlRoundtrip
begin

text \<open>
  Properties of formulas: the parser reads what was printed, the simplifier ends and keeps the
  meaning, and the normal form is a normal form with the right meaning.
\<close>

text \<open>
  C34. For a formula without missing operands, the normal form exists, has negation at the
  propositions only and no operators but and, or, until, release and next, and holds at a position
  of a word exactly if the formula does, or exactly if it does not when it was to be negated.
\<close>

theorem normal_form_correct:
  assumes "whole f" "proper f"
  shows "\<exists>g. normal_form neg f = Some g \<and> in_nf g \<and> (\<forall>w i. holds w i g = (holds w i f \<noteq> neg))"
  using normal_form_spec [OF assms] .

definition example_formula :: ltl where
  "example_formula =
     make_binary WeakUntil (make_label ''a'') (make_unary Global (make_label ''b''))"

theorem normal_form_correct_witness:
  "\<exists>g. normal_form True example_formula = Some g \<and> in_nf g \<and>
    (\<forall>w i. holds w i g = (\<not> holds w i example_formula))"
  using normal_form_correct [of example_formula True]
  by (auto simp: example_formula_def make_label_def makes truth_label_def)

text \<open>
  The normal form of a formula with a missing operand is the exception
  \<^verbatim>\<open>std::invalid_argument\<close>, wherever the operand is missing.
\<close>

theorem normal_form_rejects:
  "\<not> whole f \<Longrightarrow> normal_form neg f = None"
proof (induction f arbitrary: neg)
  case (Unary u p f)
  then have "normal_form n f = None" for n by simp
  then show ?case by (cases p) (simp_all only: normal_form_unary option.map)
next
  case (Binary u p n l r)
  then show ?case by (cases p; cases neg) (auto simp: Let_def lift2_def split: option.split)
qed simp_all

theorem normal_form_rejects_witness:
  "normal_form False (make_binary And (make_label ''a'') (make_unary Next Null)) = None"
  using normal_form_rejects [of "make_binary And (make_label ''a'') (make_unary Next Null)" False]
  by simp

text \<open>
  C35. The loop that simplifies a formula until nothing changes ends with a formula that holds at
  exactly the same positions, and that has no missing operands if the formula had none.
\<close>

theorem simplifier_keeps_meaning:
  "holds w i (simplify_loop f) = holds w i f \<and> whole f \<le> whole (simplify_loop f)
    \<and> proper f \<le> proper (simplify_loop f)"
  using simplify_loop_to [of f] by (simp add: simp_to_def)

text \<open>
  C36. Every pass of the simplifier that reports a change returns a formula of a smaller weight, so
  the loop around it ends; a pass that reports none returns the formula it was given, up to the
  labels of its nodes.
\<close>

theorem simplifier_terminates:
  "(snd (make_simpler False f) \<longrightarrow> simp_weight (fst (make_simpler False f)) < simp_weight f) \<and>
   (\<not> snd (make_simpler False f) \<longrightarrow> shape (fst (make_simpler False f)) = shape f)"
  using make_simpler_ok [of False f] by (simp add: pass_ok_def simp_below_def)

theorem simplifier_terminates_witness:
  "simp_weight (fst (make_simpler False (make_unary Global (make_unary Global (make_label ''a''))))) < 10"
  using simplifier_terminates [of "make_unary Global (make_unary Global (make_label ''a''))"]
  by (simp add: makes make_label_def make_simpler.simps(4))

text \<open>
  C37. Parsing the text that a formula prints as gives the formula back, for every formula without
  weak until and without missing operands whose propositions are nonempty words of lower case
  letters, digits and underscores that do not stand for a truth value.
\<close>

theorem parse_print_roundtrip:
  assumes "printable f"
  shows "parse False (ltl_string f) = Inr (shape f)"
  using parse_printed [OF assms] .

theorem parse_print_roundtrip_witness:
  "parse False ''G( a U !b )'' =
    Inr (make_unary Global (make_binary Until (make_label ''a'') (make_unary Neg (make_label ''b''))))"
  using parse_print_roundtrip
    [of "make_unary Global (make_binary Until (make_label ''a'') (make_unary Neg (make_label ''b'')))"]
  by (simp add: makes make_label_def label_ok_def is_label_char_def truth_label_def less_eq_char_def)

end
