(* ===== verification/LtlAutomaton.thy ===== *)
theory LtlAutomaton
  imports LtlSimplify "HOL-Library.Monad_Syntax"
begin

text \<open>
  The translation of formulas to generalised B\"uchi automata whose edges accept
  (\<^verbatim>\<open>src/divine/ltl/buchi.hpp\<close> and \<^verbatim>\<open>buchi.cpp\<close>): the nodes of the tableau, their expansion to states,
  and the automaton that is made of the states.
\<close>

section \<open>Ordered sets and pointers\<close>

text \<open>A \<^verbatim>\<open>std::set\<close> with a comparator is the list of its elements in order.\<close>

fun set_insert :: "('a \<Rightarrow> 'a \<Rightarrow> bool) \<Rightarrow> 'a \<Rightarrow> 'a list \<Rightarrow> 'a list" where
  "set_insert lt x [] = [x]"
| "set_insert lt x (y # ys) =
     (if lt x y then x # y # ys else if lt y x then y # set_insert lt x ys else y # ys)"

definition set_insert_all :: "('a \<Rightarrow> 'a \<Rightarrow> bool) \<Rightarrow> 'a list \<Rightarrow> 'a list \<Rightarrow> 'a list" where
  "set_insert_all lt xs ys = fold (set_insert lt) xs ys"

definition set_count :: "('a \<Rightarrow> 'a \<Rightarrow> bool) \<Rightarrow> 'a \<Rightarrow> 'a list \<Rightarrow> bool" where
  "set_count lt x xs \<longleftrightarrow> (\<exists>y \<in> set xs. \<not> lt x y \<and> \<not> lt y x)"

text \<open>
  A pointer to a node of a formula: its address and the node. The addresses in the formula that is
  translated are the paths from its root; \<open>None\<close> is the address of a node made on the way. Two edge
  labels are the same set to \<^verbatim>\<open>std::set::operator==\<close> if they consist of the same pointers.
\<close>

type_synonym lptr = "bool list option \<times> ltl"

definition fresh :: "ltl \<Rightarrow> lptr" where
  "fresh f = (None, f)"

definition left_ptr :: "lptr \<Rightarrow> lptr" where
  "left_ptr p = (map_option (\<lambda>a. a @ [False]) (fst p), left_of (snd p))"

definition right_ptr :: "lptr \<Rightarrow> lptr" where
  "right_ptr p = (map_option (\<lambda>a. a @ [True]) (fst p), right_of (snd p))"

definition sub_ptr :: "lptr \<Rightarrow> lptr" where
  "sub_ptr p = (map_option (\<lambda>a. a @ [True]) (fst p), sub_exp (snd p))"

definition ptr_less :: "lptr \<Rightarrow> lptr \<Rightarrow> bool" where
  "ptr_less p q = ord (snd p) (snd q)"

definition ptr_less2 :: "lptr \<Rightarrow> lptr \<Rightarrow> bool" where
  "ptr_less2 p q = ord2 (snd p) (snd q)"

section \<open>States and nodes\<close>

record edge =
  e_sources :: "nat list"
  e_label :: "lptr list"
  e_acc :: "bool list"

record state =
  st_id :: nat
  st_edges :: "edge list"
  st_next :: "lptr list"

record node =
  n_id :: nat
  n_incoming :: "nat list"
  n_old :: "lptr list"
  n_todo :: "lptr list"
  n_next :: "lptr list"
  n_untils :: "bool list"
  n_rights :: "bool list"

text \<open>
  \<^verbatim>\<open>resetUntils\<close> and \<^verbatim>\<open>resetRightOfUntils\<close> assign to a variable of the loop \<^verbatim>\<open>for( bool b : untils )\<close>, a
  copy of the element: they change nothing.
\<close>

definition reset_untils :: "node \<Rightarrow> node" where
  "reset_untils n = n\<lparr>n_untils := map (\<lambda>b. let copy = b; copy = False in b) (n_untils n)\<rparr>"

definition reset_rights :: "node \<Rightarrow> node" where
  "reset_rights n = n\<lparr>n_rights := map (\<lambda>b. let copy = b; copy = False in b) (n_rights n)\<rparr>"

lemma reset_id [simp]: "reset_untils n = n" "reset_rights n = n"
  by (simp_all add: reset_untils_def reset_rights_def)

text \<open>The constructor; \<open>u\<close> is \<^verbatim>\<open>uCount\<close> and \<open>i\<close> the number that \<^verbatim>\<open>newNodeId\<close> returns.\<close>

definition fresh_node :: "nat \<Rightarrow> nat \<Rightarrow> node" where
  "fresh_node u i =
     reset_rights (reset_untils
       \<lparr>n_id = i, n_incoming = [], n_old = [], n_todo = [], n_next = [],
        n_untils = replicate u False, n_rights = replicate u False\<rparr>)"

definition acceptance :: "nat \<Rightarrow> node \<Rightarrow> bool list" where
  "acceptance u n = map (\<lambda>i. \<not> n_untils n ! i \<or> n_rights n ! i) [0..<u]"

definition node_label :: "node \<Rightarrow> lptr list" where
  "node_label n = set_insert_all ptr_less2 (n_old n) []"

definition state_of_node :: "nat \<Rightarrow> node \<Rightarrow> state" where
  "state_of_node u n =
     \<lparr>st_id = n_id n,
      st_edges = [\<lparr>e_sources = n_incoming n, e_label = node_label n, e_acc = acceptance u n\<rparr>],
      st_next = n_next n\<rparr>"

fun merge_edges :: "nat list \<Rightarrow> lptr list \<Rightarrow> bool list \<Rightarrow> edge list \<Rightarrow> edge list" where
  "merge_edges inc label acc [] = [\<lparr>e_sources = inc, e_label = label, e_acc = acc\<rparr>]"
| "merge_edges inc label acc (e # es) =
     (if map fst (e_label e) = map fst label \<and> e_acc e = acc
      then e\<lparr>e_sources := set_insert_all (<) inc (e_sources e)\<rparr> # es
      else e # merge_edges inc label acc es)"

definition state_merge :: "nat \<Rightarrow> node \<Rightarrow> state \<Rightarrow> state" where
  "state_merge u n s =
     s\<lparr>st_edges := merge_edges (n_incoming n) (node_label n) (acceptance u n) (st_edges s)\<rparr>"

text \<open>\<^verbatim>\<open>findTwin\<close>: the first state, in the order of the numbers, with the same formulas to come.\<close>

definition same_next :: "node \<Rightarrow> state \<Rightarrow> bool" where
  "same_next n s \<longleftrightarrow>
     length (n_next n) = length (st_next s) \<and>
     list_all2 (\<lambda>p q. ltl_equals (snd p) (snd q)) (n_next n) (st_next s)"

definition find_twin :: "node \<Rightarrow> state list \<Rightarrow> state option" where
  "find_twin n states = find (same_next n) states"

section \<open>The rules\<close>

text \<open>
  \<^verbatim>\<open>inject\<close> and \<^verbatim>\<open>fillSets\<close>, which gives \<^verbatim>\<open>new1\<close>, \<^verbatim>\<open>next1\<close> and \<^verbatim>\<open>new2\<close>. The node may be missing; an operator
  that the normal form does not have is a failed assertion.
\<close>

definition inject :: "node option \<Rightarrow> lptr \<Rightarrow> lptr list \<Rightarrow> lptr list" where
  "inject n f target =
     (case n of
        None \<Rightarrow> set_insert ptr_less f target
      | Some m \<Rightarrow> if \<not> set_count ptr_less f (n_old m) then set_insert ptr_less f target else target)"

definition fill_sets :: "node option \<Rightarrow> lptr \<Rightarrow> (lptr list \<times> lptr list \<times> lptr list) option" where
  "fill_sets n form =
     (let falsum = fresh (make_bool False); phi = left_ptr form; psi = right_ptr form; sub = sub_ptr form
      in case snd form of
           Binary u p i l r \<Rightarrow>
             (case p of
                Until \<Rightarrow> Some (inject n phi [], [form], inject n psi [])
              | Or \<Rightarrow> Some (inject n phi [], [], inject n psi [])
              | And \<Rightarrow> Some (inject n falsum [], [], inject n psi (inject n phi []))
              | Release \<Rightarrow> Some (inject n psi [], [form], inject n psi (inject n phi []))
              | _ \<Rightarrow> None)
         | Unary u p f \<Rightarrow>
             (case p of
                Neg \<Rightarrow> Some (inject n form [], [], inject n falsum [])
              | Global \<Rightarrow> Some (inject n sub [], [form], inject n falsum [])
              | Future \<Rightarrow> Some ([], [form], inject n sub [])
              | Next \<Rightarrow> Some ([], [sub], inject n falsum []))
         | Null \<Rightarrow> None
         | _ \<Rightarrow> Some (inject n form [], [], inject n falsum []))"

text \<open>A conjunction of tests that may fail to have a value, from the left.\<close>

fun all_tests :: "('a \<Rightarrow> bool option) \<Rightarrow> 'a list \<Rightarrow> bool option" where
  "all_tests test [] = Some True"
| "all_tests test (x # xs) =
     (case test x of None \<Rightarrow> None | Some b \<Rightarrow> if b then all_tests test xs else Some False)"

lemma all_tests_cong [fundef_cong]:
  "xs = ys \<Longrightarrow> (\<And>x. x \<in> set ys \<Longrightarrow> f x = g x) \<Longrightarrow> all_tests f xs = all_tests g ys"
proof (induction xs arbitrary: ys)
  case (Cons x xs)
  then show ?case by (cases ys) (auto split: option.split)
qed simp

text \<open>
  \<^verbatim>\<open>isinSI\<close>. For a negation of something else than a proposition or a truth value, which has no
  place in a normal form, the code calls itself with the same formula forever: that is \<open>None\<close>.
\<close>

lemma set_insert_elements: "set (set_insert lt x xs) \<subseteq> insert x (set xs)"
  by (induction xs) auto

lemma fill_sets_smaller:
  assumes "fill_sets None p = Some (new1, next1, new2)" "\<not> is_literal (snd p)" "\<not> is_unary Neg (snd p)"
    and "q \<in> set new1 \<union> set new2"
  shows "size (snd q) < size (snd p)"
proof (cases "snd p")
  case (Unary u p2 f)
  then show ?thesis using assms
    by (cases p2) (auto simp: fill_sets_def Let_def inject_def fresh_def sub_ptr_def make_bool_def)
next
  case (Binary u p2 i l r)
  have "q \<in> {fresh (make_bool False), left_ptr p, right_ptr p}"
    using assms(1,4) Binary set_insert_elements [of ptr_less "right_ptr p" "[left_ptr p]"]
    by (cases p2) (auto simp: fill_sets_def Let_def inject_def split: if_splits)
  then show ?thesis using Binary
    by (auto simp: fresh_def left_ptr_def right_ptr_def make_bool_def)
qed (use assms in \<open>auto simp: fill_sets_def\<close>)

function is_in_si :: "lptr \<Rightarrow> lptr list \<Rightarrow> lptr list \<Rightarrow> bool option" where
  "is_in_si phi A B =
     (if is_literal (snd phi)
      then Some (is_boolean (snd phi) \<and> bool_value (snd phi) \<or> set_count ptr_less phi A)
      else if is_unary Neg (snd phi) then None
      else
        (case fill_sets None phi of
           None \<Rightarrow> None
         | Some (new1, next1, new2) \<Rightarrow>
             (case (if list_all (\<lambda>f. set_count ptr_less f B) next1
                    then all_tests (\<lambda>f. is_in_si f A B) new1 else Some False) of
                None \<Rightarrow> None
              | Some b \<Rightarrow> if b then Some True else all_tests (\<lambda>f. is_in_si f A B) new2)))"
  by pat_completeness auto
termination
  by (relation "measure (\<lambda>(phi, A, B). size (snd phi))") (auto dest: fill_sets_smaller)

declare is_in_si.simps [simp del]

definition contradicts :: "lptr \<Rightarrow> node \<Rightarrow> bool option" where
  "contradicts phi n =
     (case normal_form False (make_unary Neg (snd phi)) of
        None \<Rightarrow> None | Some negation \<Rightarrow> is_in_si (fresh negation) (n_old n) (n_next n))"

definition is_redundant :: "lptr \<Rightarrow> node \<Rightarrow> bool option" where
  "is_redundant phi n =
     (case (if is_binary Until (snd phi) then is_in_si (right_ptr phi) (n_old n) (n_next n) else Some True) of
        None \<Rightarrow> None
      | Some b \<Rightarrow> if \<not> b then Some False else is_in_si phi (n_old n) (n_next n))"

section \<open>The expansion of a node\<close>

text \<open>
  \<^verbatim>\<open>split\<close> makes a copy with a number of its own, to which the second set goes. The state of the
  computation is the number that \<^verbatim>\<open>newNodeId\<close> gives next and the set of the states found so far, in
  the order of their numbers.
\<close>

definition split_node :: "node \<Rightarrow> lptr \<Rightarrow> nat \<Rightarrow> (node \<times> node) option" where
  "split_node n form fresh_id =
     (let n1 = reset_rights n; n2 = reset_untils (n1\<lparr>n_id := fresh_id\<rparr>)
      in case fill_sets (Some n1) form of
           None \<Rightarrow> None
         | Some (new1, next1, new2) \<Rightarrow>
             Some (n1\<lparr>n_todo := set_insert_all ptr_less new1 (n_todo n1),
                      n_next := set_insert_all ptr_less next1 (n_next n1)\<rparr>,
                   n2\<lparr>n_todo := set_insert_all ptr_less new2 (n_todo n2)\<rparr>))"

type_synonym expansion = "nat \<times> state list"

definition state_less :: "state \<Rightarrow> state \<Rightarrow> bool" where
  "state_less s t \<longleftrightarrow> st_id s < st_id t"

text \<open>
  The two assignments to a vector of length \<open>u\<close>; \<open>None\<close> stands for an index out of range.
\<close>

definition mark_rights :: "nat list \<Rightarrow> node \<Rightarrow> node option" where
  "mark_rights is n =
     (if list_all (\<lambda>i. i < length (n_rights n)) is
      then Some (n\<lparr>n_rights := fold (\<lambda>i rights. rights[i := True]) is (n_rights n)\<rparr>) else None)"

definition mark_until :: "lptr \<Rightarrow> node \<Rightarrow> node option" where
  "mark_until f n =
     (case snd f of
        Binary u p i l r \<Rightarrow>
          if p \<noteq> Until then Some n
          else if 0 \<le> i \<and> i < int (length (n_untils n))
          then Some (n\<lparr>n_untils := (n_untils n)[nat i := True]\<rparr>) else None
      | _ \<Rightarrow> Some n)"

definition insert_new :: "lptr \<Rightarrow> node \<Rightarrow> node" where
  "insert_new f n =
     (if set_count ptr_less f (n_old n) then n else n\<lparr>n_todo := set_insert ptr_less f (n_todo n)\<rparr>)"

text \<open>
  \<^verbatim>\<open>Node::expand\<close>. The recursion ends because there are finitely many sets of formulas that a state
  can wait for; the first argument bounds its depth, and \<open>None\<close> means that the bound is too small or
  that an assertion fails.
\<close>

fun expand :: "nat \<Rightarrow> nat \<Rightarrow> node \<Rightarrow> expansion \<Rightarrow> expansion option" where
  "expand 0 u n (c, states) = None"
| "expand (Suc k) u n (c, states) =
     (case n_todo n of
        [] \<Rightarrow>
          (case find_twin n states of
             Some twin \<Rightarrow>
               Some (c, map (\<lambda>s. if st_id s = st_id twin then state_merge u n s else s) states)
           | None \<Rightarrow>
               expand k u
                 ((fresh_node u c)\<lparr>n_incoming := [n_id n],
                                   n_todo := set_insert_all ptr_less (n_next n) []\<rparr>)
                 (Suc c, set_insert state_less (state_of_node u n) states))
      | nf # rest \<Rightarrow>
          do {
            n \<leftarrow> mark_rights (u_indexes (snd nf)) (n\<lparr>n_todo := rest\<rparr>);
            contradiction \<leftarrow> contradicts nf n;
            if contradiction then Some (c, states)
            else do {
              redundant \<leftarrow> is_redundant nf n;
              if redundant then expand k u n (c, states)
              else do {
                n \<leftarrow> mark_until nf n;
                if is_literal (snd nf)
                then if is_boolean (snd nf) \<and> \<not> bool_value (snd nf) then Some (c, states)
                     else expand k u (n\<lparr>n_old := set_insert ptr_less nf (n_old n)\<rparr>) (c, states)
                else if is_binary Until (snd nf) \<or> is_binary Or (snd nf) \<or> is_binary Release (snd nf)
                then do {
                  (n1, n2) \<leftarrow> split_node n nf c;
                  tmp \<leftarrow> expand k u n1 (Suc c, states);
                  expand k u n2 tmp
                }
                else if is_binary And (snd nf)
                then expand k u (insert_new (right_ptr nf) (insert_new (left_ptr nf) n)) (c, states)
                else if is_unary Next (snd nf)
                then expand k u (n\<lparr>n_next := set_insert ptr_less (sub_ptr nf) (n_next n)\<rparr>) (c, states)
                else None
              }
            }
          })"

declare expand.simps [simp del]

text \<open>
  \<^verbatim>\<open>ltlToTGBA1\<close> up to the constructor of the automaton: the number of acceptance sets, the formula
  with its labels, and the states. \<open>c\<close> is the number that \<^verbatim>\<open>newNodeId\<close> gives next.
\<close>

definition labelled_formula :: "bool \<Rightarrow> ltl \<Rightarrow> (ltl \<times> nat) option" where
  "labelled_formula neg f =
     do {
       g \<leftarrow> normal_form neg (simplify_loop f);
       (h, u) \<leftarrow> count_label 0 g;
       h \<leftarrow> compute_uparents h;
       Some (h, u)
     }"

definition tableau :: "nat \<Rightarrow> bool \<Rightarrow> ltl \<Rightarrow> nat \<Rightarrow> (ltl \<times> nat \<times> state list) option" where
  "tableau k neg f c =
     do {
       (g, u) \<leftarrow> labelled_formula neg f;
       (c, states) \<leftarrow> expand k u ((fresh_node u c)\<lparr>n_next := [(Some [], g)]\<rparr>) (Suc c, []);
       Some (g, u, states)
     }"

end
