(* ===== verification/LtlGraph.thy ===== *)
theory LtlGraph
  imports LtlAutomaton
begin

text \<open>
  The automaton that is made of the states of the tableau (\<^verbatim>\<open>TGBA1\<close> in \<^verbatim>\<open>src/divine/ltl/buchi.hpp\<close>), its
  transpose with the outgoing transitions of every state (\<^verbatim>\<open>TGBA2\<close>), the way back, and the search for
  accepting strongly connected components.
\<close>

section \<open>The automaton with incoming edges\<close>

record tgba1 =
  t1_formula :: ltl
  t1_name :: string
  t1_states :: "state list"
  t1_acc_sets :: "edge list list"
  t1_literals :: "lptr list"
  t1_trivial :: "lptr list"

text \<open>The lookup \<^verbatim>\<open>idsMap.at\<close> throws for a number that no state has.\<close>

fun lookup_all :: "(nat \<times> nat) list \<Rightarrow> nat list \<Rightarrow> nat list option" where
  "lookup_all ids [] = Some []"
| "lookup_all ids (s # ss) =
     do { t \<leftarrow> map_of ids s; ts \<leftarrow> lookup_all ids ss; Some (set_insert (<) t ts) }"

definition renumber_edge :: "(nat \<times> nat) list \<Rightarrow> edge \<Rightarrow> edge option" where
  "renumber_edge ids e = map_option (\<lambda>ss. e\<lparr>e_sources := ss\<rparr>) (lookup_all ids (e_sources e))"

fun option_all :: "('a \<Rightarrow> 'b option) \<Rightarrow> 'a list \<Rightarrow> 'b list option" where
  "option_all f [] = Some []"
| "option_all f (x # xs) = do { y \<leftarrow> f x; ys \<leftarrow> option_all f xs; Some (y # ys) }"

definition renumber_state :: "(nat \<times> nat) list \<Rightarrow> state \<Rightarrow> state option" where
  "renumber_state ids s =
     do {
       i \<leftarrow> map_of ids (st_id s);
       es \<leftarrow> option_all (renumber_edge ids) (st_edges s);
       Some (s\<lparr>st_id := i, st_edges := es\<rparr>)
     }"

definition insert_literal :: "lptr list \<Rightarrow> lptr \<Rightarrow> lptr list" where
  "insert_literal found l =
     (if is_boolean (snd l) then found
      else let found = set_insert ptr_less2 l found
           in if is_unary Neg (snd l) then set_insert ptr_less2 (sub_ptr l) found else found)"

definition edge_literals :: "edge \<Rightarrow> lptr list \<Rightarrow> lptr list" where
  "edge_literals e found = foldl insert_literal found (e_label e)"

definition state_literals :: "state \<Rightarrow> lptr list \<Rightarrow> lptr list" where
  "state_literals s found = fold edge_literals (st_edges s) found"

text \<open>
  The constructor; \<open>u\<close> is \<^verbatim>\<open>uCount\<close>. The set \<^verbatim>\<open>_states\<close> is in the order of the numbers, so the sorted
  vector \<^verbatim>\<open>ids\<close> gives every state its position.
\<close>

definition make_tgba1 :: "nat \<Rightarrow> ltl \<Rightarrow> state list \<Rightarrow> tgba1 option" where
  "make_tgba1 u f found =
     (let ids = sort (map st_id found); ids_map = zip ids [0..<length ids]
      in do {
           states \<leftarrow> option_all (renumber_state ids_map) found;
           let edges = concat (map st_edges states);
           let literals = fold state_literals states [];
           Some \<lparr>t1_formula = f, t1_name = ltl_string f, t1_states = states,
                 t1_acc_sets = map (\<lambda>i. [e \<leftarrow> edges. e_acc e ! i]) [0..<u],
                 t1_literals = literals,
                 t1_trivial = [l \<leftarrow> literals. \<not> is_unary Neg (snd l)]\<rparr>
         })"

definition ltl_to_tgba1 :: "nat \<Rightarrow> bool \<Rightarrow> ltl \<Rightarrow> nat \<Rightarrow> tgba1 option" where
  "ltl_to_tgba1 k neg f c =
     do { (g, u, states) \<leftarrow> tableau k neg f c; make_tgba1 u g states }"

text \<open>\<^verbatim>\<open>accSets\<close> lists the acceptance sets of an edge.\<close>

definition acc_indexes :: "bool list \<Rightarrow> nat list" where
  "acc_indexes acc = [i \<leftarrow> [0..<length acc]. acc ! i]"

text \<open>\<^verbatim>\<open>indexOfLiteral\<close>: the position of a literal and whether it is positive, by the texts.\<close>

fun index_from :: "nat \<Rightarrow> string \<Rightarrow> lptr list \<Rightarrow> (bool \<times> nat) option" where
  "index_from i wanted [] = None"
| "index_from i wanted (l # ls) =
     (if ltl_string (snd l) = wanted then Some (True, i)
      else if ''!'' @ ltl_string (snd l) = wanted then Some (False, i)
      else index_from (Suc i) wanted ls)"

definition index_of_literal :: "lptr \<Rightarrow> lptr list \<Rightarrow> (bool \<times> nat) option" where
  "index_of_literal l ls = index_from 0 (ltl_string (snd l)) ls"

section \<open>The automaton with outgoing transitions\<close>

type_synonym index_label = "(bool \<times> nat) list"

record transition =
  tr_target :: nat
  tr_label :: index_label
  tr_acc :: "nat list"

record tgba2 =
  t2_tgba1 :: tgba1
  t2_name :: string
  t2_formula :: ltl
  t2_nstates :: nat
  t2_start :: nat
  t2_nacc :: nat
  t2_literals :: "lptr list"
  t2_trivial :: "lptr list"
  t2_states :: "transition list list"
  t2_acc_scc :: "nat option list"

definition index_less :: "bool \<times> nat \<Rightarrow> bool \<times> nat \<Rightarrow> bool" where
  "index_less a b \<longleftrightarrow> fst a < fst b \<or> fst a = fst b \<and> snd a < snd b"

definition make_transition :: "lptr list \<Rightarrow> nat \<Rightarrow> edge \<Rightarrow> transition option" where
  "make_transition trivial q e =
     map_option
       (\<lambda>label. \<lparr>tr_target = q, tr_label = set_insert_all index_less label [],
                tr_acc = acc_indexes (e_acc e)\<rparr>)
       (option_all (\<lambda>l. index_of_literal l trivial) (e_label e))"

fun add_transition :: "transition \<Rightarrow> nat list \<Rightarrow> transition list list \<Rightarrow> transition list list option" where
  "add_transition t [] table = Some table"
| "add_transition t (s # ss) table =
     (if s < length table then add_transition t ss (table[s := table ! s @ [t]]) else None)"

fun add_edges :: "lptr list \<Rightarrow> nat \<Rightarrow> edge list \<Rightarrow> transition list list \<Rightarrow> transition list list option" where
  "add_edges trivial q [] table = Some table"
| "add_edges trivial q (e # es) table =
     do {
       t \<leftarrow> make_transition trivial q e;
       table \<leftarrow> add_transition t (e_sources e) table;
       add_edges trivial q es table
     }"

fun add_states :: "lptr list \<Rightarrow> state list \<Rightarrow> transition list list \<Rightarrow> transition list list option" where
  "add_states trivial [] table = Some table"
| "add_states trivial (s # ss) table =
     do { table \<leftarrow> add_edges trivial (st_id s) (st_edges s) table; add_states trivial ss table }"

definition out_transitions :: "tgba1 \<Rightarrow> transition list list option" where
  "out_transitions a =
     add_states (t1_trivial a) (t1_states a) (replicate (length (t1_states a)) [])"

text \<open>
  The constructor of \<^verbatim>\<open>TGBA1\<close> from \<^verbatim>\<open>TGBA2\<close>. Its loop reads the indexes of the acceptance sets into a
  variable of type \<^verbatim>\<open>bool\<close>, so every index but 0 becomes 1; \<^verbatim>\<open>acc.at\<close> throws when there is no set 1.
\<close>

fun bool_indexes :: "nat list \<Rightarrow> bool list \<Rightarrow> bool list option" where
  "bool_indexes [] acc = Some acc"
| "bool_indexes (i # is) acc =
     (let index = (if i \<noteq> 0 then 1 else 0)
      in if index < length acc then bool_indexes is (acc[index := True]) else None)"

definition add_edge :: "edge \<Rightarrow> state \<Rightarrow> state" where
  "add_edge e s = s\<lparr>st_edges := st_edges s @ [e]\<rparr>"

fun reverse_transitions :: "nat \<Rightarrow> nat \<Rightarrow> transition list \<Rightarrow> state list \<Rightarrow> state list option" where
  "reverse_transitions n q [] states = Some states"
| "reverse_transitions n q (t # ts) states =
     do {
       acc \<leftarrow> bool_indexes (tr_acc t) (replicate n False);
       if tr_target t < length states
       then reverse_transitions n q ts
              (states[tr_target t :=
                 add_edge \<lparr>e_sources = [q], e_label = [], e_acc = acc\<rparr> (states ! tr_target t)])
       else None
     }"

fun reverse_states :: "nat \<Rightarrow> nat \<Rightarrow> transition list list \<Rightarrow> state list \<Rightarrow> state list option" where
  "reverse_states n q [] states = Some states"
| "reverse_states n q (ts # tss) states =
     do { states \<leftarrow> reverse_transitions n q ts states; reverse_states n (Suc q) tss states }"

definition tgba1_of_tgba2 :: "tgba2 \<Rightarrow> tgba1 option" where
  "tgba1_of_tgba2 a =
     do {
       states \<leftarrow> reverse_states (t2_nacc a) 0 (t2_states a)
         (map (\<lambda>i. \<lparr>st_id = i, st_edges = [], st_next = []\<rparr>) [0..<length (t2_states a)]);
       Some \<lparr>t1_formula = Null, t1_name = t2_name a, t1_states = states, t1_acc_sets = [],
             t1_literals = t2_literals a, t1_trivial = t2_trivial a\<rparr>
     }"

section \<open>Accepting strongly connected components\<close>

text \<open>
  The two searches number the visits in \<^verbatim>\<open>visited\<close> and \<^verbatim>\<open>leaved\<close>. They descend at most as deep as
  there are states; \<open>None\<close> is an index out of range, or a bound that is too small.
\<close>

record search =
  d_visited :: "nat list"
  d_leaved :: "nat list"
  d_counter :: nat
  d_found :: "nat list"

definition enter_state :: "nat \<Rightarrow> search \<Rightarrow> search option" where
  "enter_state q d =
     (if q < length (d_visited d)
      then Some (d\<lparr>d_counter := Suc (d_counter d), d_visited := (d_visited d)[q := Suc (d_counter d)]\<rparr>)
      else None)"

definition leave_state :: "nat \<Rightarrow> search \<Rightarrow> search option" where
  "leave_state q d =
     (if q < length (d_leaved d)
      then Some (d\<lparr>d_counter := Suc (d_counter d), d_leaved := (d_leaved d)[q := Suc (d_counter d)],
                   d_found := q # d_found d\<rparr>)
      else None)"

fun visit_all :: "(nat \<Rightarrow> search \<Rightarrow> search option) \<Rightarrow> nat list \<Rightarrow> search \<Rightarrow> search option" where
  "visit_all descend [] d = Some d"
| "visit_all descend (q # qs) d =
     (if q < length (d_visited d)
      then if d_visited d ! q = 0
           then do { d \<leftarrow> descend q d; visit_all descend qs d }
           else visit_all descend qs d
      else None)"

text \<open>\<^verbatim>\<open>DFSUtil1\<close> follows the edges backwards, \<^verbatim>\<open>DFSUtil2\<close> the transitions forwards.\<close>

fun search_tree :: "(nat \<Rightarrow> nat list) \<Rightarrow> nat \<Rightarrow> nat \<Rightarrow> search \<Rightarrow> search option" where
  "search_tree succs 0 q d = None"
| "search_tree succs (Suc k) q d =
     do {
       d \<leftarrow> enter_state q d;
       d \<leftarrow> visit_all (search_tree succs k) (succs q) d;
       leave_state q d
     }"

definition sources_of :: "tgba1 \<Rightarrow> nat \<Rightarrow> nat list" where
  "sources_of a q = concat (map e_sources (st_edges (t1_states a ! q)))"

definition targets_of :: "transition list list \<Rightarrow> nat \<Rightarrow> nat list" where
  "targets_of table q = map tr_target (table ! q)"

definition dfs_util1 :: "tgba1 \<Rightarrow> nat \<Rightarrow> nat \<Rightarrow> search \<Rightarrow> search option" where
  "dfs_util1 a = search_tree (sources_of a)"

definition dfs_util2 :: "transition list list \<Rightarrow> nat \<Rightarrow> nat \<Rightarrow> search \<Rightarrow> search option" where
  "dfs_util2 table = search_tree (targets_of table)"

definition is_accepting :: "nat \<Rightarrow> transition list list \<Rightarrow> nat list \<Rightarrow> bool" where
  "is_accepting nacc table component =
     (if component = [] then False
      else
        (let colours =
           fold (\<lambda>s colours.
               fold (\<lambda>t colours.
                   if tr_target t \<in> set component then set_insert_all (<) (tr_acc t) colours else colours)
                 (table ! s) colours)
             component []
         in length colours = nacc))"

fun components :: "nat \<Rightarrow> transition list list \<Rightarrow> nat \<Rightarrow> nat list \<Rightarrow> search \<Rightarrow> nat option list
    \<Rightarrow> (nat \<times> nat option list) option" where
  "components nacc table count [] d scc = Some (count, scc)"
| "components nacc table count (q # stack) d scc =
     (if d_visited d ! q = 0
      then do {
        d \<leftarrow> dfs_util2 table (Suc (length table)) q (d\<lparr>d_found := []\<rparr>);
        let component = set_insert_all (<) (d_found d) [];
        if is_accepting nacc table component
        then components nacc table (Suc count) stack d
               (fold (\<lambda>s scc. scc[s := Some (Suc count)]) component scc)
        else components nacc table count stack d scc
      }
      else components nacc table count stack d scc)"

definition fresh_search :: "nat \<Rightarrow> search" where
  "fresh_search n =
     \<lparr>d_visited = replicate n 0, d_leaved = replicate n 0, d_counter = 0, d_found = []\<rparr>"

text \<open>\<^verbatim>\<open>computeAccSCC\<close>: the number of accepting components and the component of every state.\<close>

definition compute_acc_scc :: "tgba1 \<Rightarrow> nat \<Rightarrow> transition list list \<Rightarrow> (nat \<times> nat option list) option" where
  "compute_acc_scc a nacc table =
     do {
       d \<leftarrow> visit_all (dfs_util1 a (Suc (length table))) (map st_id (t1_states a))
              (fresh_search (length table));
       components nacc table 0 (d_found d) (fresh_search (length table))
         (replicate (length table) None)
     }"

definition make_tgba2 :: "tgba1 \<Rightarrow> tgba2 option" where
  "make_tgba2 a =
     do {
       table \<leftarrow> out_transitions a;
       (count, scc) \<leftarrow> compute_acc_scc a (length (t1_acc_sets a)) table;
       Some \<lparr>t2_tgba1 = a, t2_name = ltl_string (t1_formula a), t2_formula = t1_formula a,
             t2_nstates = length (t1_states a), t2_start = 0, t2_nacc = length (t1_acc_sets a),
             t2_literals = t1_literals a, t2_trivial = t1_trivial a, t2_states = table,
             t2_acc_scc = scc\<rparr>
     }"

text \<open>The way from a formula to its automaton in \<^verbatim>\<open>ltlc::run\<close>.\<close>

definition ltl_to_tgba2 :: "nat \<Rightarrow> bool \<Rightarrow> ltl \<Rightarrow> nat \<Rightarrow> tgba2 option" where
  "ltl_to_tgba2 k neg f c = do { a \<leftarrow> ltl_to_tgba1 k neg f c; make_tgba2 a }"

end
