(* ===== verification/LtlSets.thy ===== *)
theory LtlSets
  imports LtlAutomaton
begin

text \<open>
  Facts about the ordered sets of pointers to formulas: the comparator is a strict order on keys,
  a key being a formula without the numbers of its \<^verbatim>\<open>Until\<close> nodes, and a set in order is determined
  by the keys in it.
\<close>

section \<open>The order on keys\<close>

lemma key_idem [simp]: "key (key f) = key f"
  by (induction f) simp_all

lemma key_Null [simp]: "key f = Null \<longleftrightarrow> f = Null" "Null = key f \<longleftrightarrow> f = Null"
  by (cases f; simp)+

lemma ord_key: "ord f g = ord (key f) (key g)"
proof (induction f g rule: ord.induct)
  case (1 g)
  then show ?case by (cases g) simp_all
qed auto

lemma ord_irrefl [simp]: "\<not> ord f f"
  using ord_cases [of f f] by simp

lemma ord_asym: "ord f g \<Longrightarrow> \<not> ord g f"
  using ord_cases [of f g] by (auto split: if_splits)

lemma ord_total: "ord f g \<or> ord g f \<or> key f = key g"
  using ord_cases [of f g] by (auto split: if_splits)

lemma ord_neither: "\<not> ord f g \<Longrightarrow> \<not> ord g f \<Longrightarrow> key f = key g"
  using ord_total [of f g] by blast

lemma ord_key_cong: "key f = key g \<Longrightarrow> ord f h = ord g h" "key f = key g \<Longrightarrow> ord h f = ord h g"
  using ord_key [of f h] ord_key [of g h] ord_key [of h f] ord_key [of h g] by simp_all

lemma ord_via:
  "ord f g \<Longrightarrow> \<not> ord g h \<Longrightarrow> \<not> ord h g \<Longrightarrow> ord f h"
  "\<not> ord f g \<Longrightarrow> \<not> ord g f \<Longrightarrow> ord g h \<Longrightarrow> ord f h"
  "\<not> ord f g \<Longrightarrow> \<not> ord g f \<Longrightarrow> \<not> ord g h \<Longrightarrow> \<not> ord h g \<Longrightarrow> \<not> ord f h \<and> \<not> ord h f"
  by (metis ord_neither ord_key_cong)+

lemma ord_trans: "ord f g \<Longrightarrow> ord g h \<Longrightarrow> ord f h"
proof (induction f arbitrary: g h)
  case Null
  then show ?case by (cases h) (auto elim: ord.elims)
next
  case (Boolean u b)
  then show ?case by (cases g; cases h) (auto split: if_splits)
next
  case (Atom u s)
  then show ?case by (cases g; cases h) (auto split: if_splits)
next
  case (Unary u p f)
  from Unary.prems show ?case
    by (cases g; cases h) (auto split: if_splits simp: uop_priority_inj dest: Unary.IH ord_asym ord_via less_trans)
next
  case (Binary u p i l r)
  from Binary.prems show ?case
    by (cases g; cases h) (auto split: if_splits simp: bop_priority_inj dest: Binary.IH ord_asym ord_via less_trans)
qed

section \<open>Sets in order\<close>

text \<open>A set of pointers is in order if each pointer is before all that follow it; its \<open>keys\<close> say what is in it.\<close>

definition keys :: "lptr list \<Rightarrow> ltl set" where
  "keys xs = (\<lambda>p. key (snd p)) ` set xs"

definition in_order :: "lptr list \<Rightarrow> bool" where
  "in_order xs \<longleftrightarrow> sorted_wrt ptr_less xs"

lemma keys_simps [simp]: "keys [] = {}" "keys (p # xs) = insert (key (snd p)) (keys xs)"
  "keys (xs @ ys) = keys xs \<union> keys ys"
  by (auto simp: keys_def)

lemma keysI: "p \<in> set xs \<Longrightarrow> key (snd p) \<in> keys xs"
  by (simp add: keys_def)

lemma finite_keys [simp]: "finite (keys xs)"
  by (simp add: keys_def)

lemma keys_insert [simp]: "keys (set_insert ptr_less p xs) = insert (key (snd p)) (keys xs)"
  by (induction xs) (auto simp: ptr_less_def dest: ord_neither)

lemma keys_insert_all [simp]: "keys (set_insert_all ptr_less ps xs) = keys ps \<union> keys xs"
  by (induction ps arbitrary: xs) (auto simp: set_insert_all_def)

lemma ord_iff_key: "\<not> ord f g \<and> \<not> ord g f \<longleftrightarrow> key f = key g"
  using ord_cases [of f g] by (auto split: if_splits)

lemma count_keys [simp]: "set_count ptr_less p xs \<longleftrightarrow> key (snd p) \<in> keys xs"
  unfolding set_count_def keys_def ptr_less_def ord_iff_key by blast

lemma insert_elements: "set (set_insert lt x xs) \<subseteq> insert x (set xs)"
  by (induction xs) auto

lemma insert_all_elements: "set (set_insert_all lt ps xs) \<subseteq> set ps \<union> set xs"
  by (induction ps arbitrary: xs) (use insert_elements in \<open>fastforce simp: set_insert_all_def\<close>)+

lemma ptr_less_trans: "ptr_less p q \<Longrightarrow> ptr_less q r \<Longrightarrow> ptr_less p r"
  unfolding ptr_less_def by (rule ord_trans)

lemma in_order_insert [simp]: "in_order xs \<Longrightarrow> in_order (set_insert ptr_less p xs)"
  unfolding in_order_def
proof (induction xs)
  case (Cons x xs)
  have "ptr_less x q" if "ptr_less x p" "q \<in> set (set_insert ptr_less p xs)" for q
    using Cons.prems that insert_elements [of ptr_less p xs] by auto
  moreover have "\<forall>q \<in> set xs. ptr_less p q" if "ptr_less p x"
    using Cons.prems that ptr_less_trans [of p x] by auto
  ultimately show ?case using Cons by auto
qed simp

lemma in_order_insert_all [simp]: "in_order xs \<Longrightarrow> in_order (set_insert_all ptr_less ps xs)"
  by (induction ps arbitrary: xs) (simp_all add: set_insert_all_def)

lemma in_order_simps [simp]: "in_order []" "in_order (p # xs) \<longleftrightarrow> (\<forall>q \<in> set xs. ptr_less p q) \<and> in_order xs"
  by (simp_all add: in_order_def)

lemma in_order_unique:
  "in_order xs \<Longrightarrow> in_order ys \<Longrightarrow> keys xs = keys ys \<Longrightarrow>
    map (\<lambda>p. key (snd p)) xs = map (\<lambda>p. key (snd p)) ys"
proof (induction xs arbitrary: ys)
  case Nil
  then show ?case by (cases ys) auto
next
  case (Cons x xs)
  then obtain y zs where y: "ys = y # zs" by (cases ys) auto
  have fresh: "key (snd p) \<notin> keys ps" if "in_order (p # ps)" for p ps
  proof
    assume "key (snd p) \<in> keys ps"
    then obtain q where "q \<in> set ps" "key (snd p) = key (snd q)" by (auto simp: keys_def)
    then show False using that ord_iff_key [of "snd p" "snd q"] by (simp add: ptr_less_def)
  qed
  have "key (snd x) = key (snd y)"
  proof (rule ccontr)
    assume n: "key (snd x) \<noteq> key (snd y)"
    have e: "insert (key (snd x)) (keys xs) = insert (key (snd y)) (keys zs)"
      using Cons.prems(3) y by simp
    have "key (snd x) \<in> insert (key (snd y)) (keys zs)" unfolding e [symmetric] by simp
    moreover have "key (snd y) \<in> insert (key (snd x)) (keys xs)" unfolding e by simp
    ultimately have "key (snd x) \<in> keys zs" "key (snd y) \<in> keys xs" using n by simp_all
    then obtain p q where "p \<in> set zs" "key (snd x) = key (snd p)"
      and "q \<in> set xs" "key (snd y) = key (snd q)"
      unfolding keys_def image_iff by (elim bexE)
    moreover from this have "ord (snd y) (snd p)" "ord (snd x) (snd q)"
      using Cons.prems(1,2) y by (simp_all add: ptr_less_def)
    ultimately have "ord (snd y) (snd x)" "ord (snd x) (snd y)"
      using ord_key_cong(2) [of "snd x" "snd p" "snd y"] ord_key_cong(2) [of "snd y" "snd q" "snd x"]
      by simp_all
    then show False using ord_asym by blast
  qed
  moreover have "keys xs = keys zs"
    using Cons.prems y calculation fresh [of x xs] fresh [of y zs] by (simp add: insert_ident)
  ultimately show ?case using Cons y by simp
qed

lemma same_next_keys:
  "same_next n s \<longleftrightarrow> map (\<lambda>p. key (snd p)) (n_next n) = map (\<lambda>p. key (snd p)) (st_next s)"
  by (auto simp: same_next_def ltl_equals_key list_all2_conv_all_nth list_eq_iff_nth_eq)

lemma map_key_keys: "map (\<lambda>p. key (snd p)) xs = map (\<lambda>p. key (snd p)) ys \<Longrightarrow> keys xs = keys ys"
  by (metis keys_def image_set)

section \<open>Meaning and labels by keys\<close>

lemma holds_key [simp]: "holds w i (key f) = holds w i f"
  by (induction f arbitrary: i) (simp_all split: uop.split bop.split)

lemma u_indexes_key [simp]: "u_indexes (key f) = u_indexes f"
  by (cases f) simp_all

lemma shape_key [simp]: "shape (key f) = shape f"
  by (induction f) simp_all

lemma size_key [simp]: "size (key f) = size f"
  by (induction f) simp_all

definition all_hold :: "letters \<Rightarrow> nat \<Rightarrow> lptr list \<Rightarrow> bool" where
  "all_hold w i xs \<longleftrightarrow> (\<forall>f \<in> keys xs. holds w i f)"

lemma all_hold_iff: "all_hold w i xs \<longleftrightarrow> (\<forall>p \<in> set xs. holds w i (snd p))"
  by (auto simp: all_hold_def keys_def)

lemma all_hold_simps [simp]:
  "all_hold w i []" "all_hold w i (p # xs) \<longleftrightarrow> holds w i (snd p) \<and> all_hold w i xs"
  "all_hold w i (set_insert ptr_less p xs) \<longleftrightarrow> holds w i (snd p) \<and> all_hold w i xs"
  "all_hold w i (set_insert_all ptr_less ps xs) \<longleftrightarrow> all_hold w i ps \<and> all_hold w i xs"
  by (auto simp: all_hold_def)

end
