(* ===== verification/LtlLabels.thy ===== *)
theory LtlLabels
  imports LtlSets
begin

text \<open>
  The labels of the formula that is translated: every \<^verbatim>\<open>Until\<close> node has a number of its own, and the
  nodes that are told a number are the right operands of the node with that number. A pointer of
  the tableau is the path to a node.
\<close>

section \<open>Numbering in postorder\<close>

fun unlabelled :: "ltl \<Rightarrow> bool" where
  "unlabelled Null = False"
| "unlabelled (Boolean u b) = (u = [])"
| "unlabelled (Atom u s) = (u = [])"
| "unlabelled (Unary u p f) = (u = [] \<and> unlabelled f)"
| "unlabelled (Binary u p i l r) = (u = [] \<and> i = - 1 \<and> unlabelled l \<and> unlabelled r)"

fun labelled :: "nat \<Rightarrow> nat \<Rightarrow> nat list \<Rightarrow> ltl \<Rightarrow> bool" where
  "labelled m n us Null = False"
| "labelled m n us (Boolean u b) = (u = us \<and> m = n)"
| "labelled m n us (Atom u s) = (u = us \<and> m = n)"
| "labelled m n us (Unary u p f) = (u = us \<and> labelled m n [] f)"
| "labelled m n us (Binary u p i l r) =
     (u = us \<and>
      (if p = Until
       then \<exists>k j. n = Suc j \<and> i = int j \<and> labelled m k [] l \<and> labelled k j [j] r
       else \<exists>k. labelled m k [] l \<and> labelled k n [] r))"

lemma unlabelled_makes [simp]:
  "unlabelled (make_bool b)" "unlabelled (make_unary p f) = unlabelled f"
  "unlabelled (make_binary q l r) = (unlabelled l \<and> unlabelled r)" "unlabelled (make_label s)"
  by (simp_all add: makes make_label_def)

lemma lift2_eq_Some: "lift2 h x y = Some z \<longleftrightarrow> (\<exists>a b. x = Some a \<and> y = Some b \<and> z = h a b)"
  by (auto simp: lift2_def split: option.split)

text \<open>The propositions of a formula.\<close>

fun names :: "ltl \<Rightarrow> string set" where
  "names (Atom u s) = {s}"
| "names (Unary u p f) = names f"
| "names (Binary u p i l r) = names l \<union> names r"
| "names f = {}"

lemma names_makes [simp]:
  "names (make_bool b) = {}" "names (make_unary p f) = names f"
  "names (make_binary q l r) = names l \<union> names r" "names (make_label s) \<subseteq> {s}"
  by (simp_all add: makes make_label_def)

lemma normal_form_invariant:
  assumes "\<And>b. P (make_bool b)" "\<And>s. s \<in> N \<Longrightarrow> P (make_label s)" "\<And>p f. P f \<Longrightarrow> P (make_unary p f)"
    and "\<And>q l r. P l \<Longrightarrow> P r \<Longrightarrow> P (make_binary q l r)"
  shows "normal_form neg f = Some g \<Longrightarrow> names f \<subseteq> N \<Longrightarrow> P g"
proof (induction f arbitrary: neg g)
  case (Boolean u b)
  then show ?case using assms(1) by auto
next
  case (Atom u s)
  then show ?case using assms(2,3) by auto
next
  case (Unary u p f)
  then show ?case using assms by (cases p) (auto simp: normal_form_unary simp del: normal_form.simps(4))
next
  case (Binary u p i l r)
  have sub: "names l \<subseteq> N" "names r \<subseteq> N" using Binary.prems(2) by auto
  note parts = Binary.IH(1) [OF _ sub(1)] Binary.IH(2) [OF _ sub(2)] assms(4)
  have "P g" if "lift2 (make_binary q) (normal_form a x) (normal_form b y) = Some g"
    "{x, y} \<subseteq> {l, r}" for q a b x y g
    using that parts by (auto simp: lift2_eq_Some)
  moreover have "P g"
    if "lift2 (make_binary q) (lift2 (make_binary q') (normal_form a l) (normal_form b r))
          (lift2 (make_binary q'') (normal_form c l) (normal_form d r)) = Some g" for q q' q'' a b c d g
    using that parts by (auto simp: lift2_eq_Some)
  moreover have "P g"
    if "lift2 (make_binary q) (normal_form c r) (lift2 (make_binary q') (normal_form a l) (normal_form b r)) = Some g"
    for q q' a b c g
    using that parts by (auto simp: lift2_eq_Some)
  ultimately show ?case using Binary.prems(1) by (cases p; cases neg) (simp_all add: Let_def)
qed auto

lemma proper_make_label [simp]: "proper (make_label s)"
  by (simp add: make_label_def truth_label_def)

lemma normal_form_unlabelled: "normal_form neg f = Some g \<Longrightarrow> unlabelled g"
  by (rule normal_form_invariant [of unlabelled UNIV]) simp_all

lemma normal_form_proper: "normal_form neg f = Some g \<Longrightarrow> proper g"
  by (rule normal_form_invariant [of proper UNIV]) simp_all

lemma normal_form_names: "normal_form neg f = Some g \<Longrightarrow> names g \<subseteq> names f"
  by (rule normal_form_invariant [of "\<lambda>g. names g \<subseteq> names f" "names f"])
    (auto dest: names_makes(4) [THEN subsetD])

subsection \<open>The simplifier adds no propositions\<close>

lemma names_parts: "names (sub_exp f) \<subseteq> names f" "names (left_of f) \<subseteq> names f" "names (right_of f) \<subseteq> names f"
  by (cases f; simp)+

lemma names_if: "(b \<Longrightarrow> names (fst x) \<subseteq> N) \<Longrightarrow> (\<not> b \<Longrightarrow> names (fst y) \<subseteq> N) \<Longrightarrow> names (fst (if b then x else y)) \<subseteq> N"
  by simp

lemma gf_operand_names: "gf_operand f = Some q \<Longrightarrow> names q \<subseteq> names f"
  by (auto elim: gf_operandE)

lemma names_unary:
  assumes IH: "\<And>c h. size h \<le> size g \<Longrightarrow> names (fst (make_simpler c h)) \<subseteq> names h"
  shows "names (fst (make_simpler ch (Unary u p g))) \<subseteq> names g"
proof -
  have to: "names (fst (make_simpler c h)) \<subseteq> names g" if "names h \<subseteq> names g" "size h \<le> size g" for c h
    using subset_trans [OF IH [OF that(2)] that(1)] .
  have parts: "names (fst (make_simpler c g)) \<subseteq> names g" "names (fst (make_simpler c (sub_exp g))) \<subseteq> names g"
    "names (fst (make_simpler c (left_of g))) \<subseteq> names g" "names (fst (make_simpler c (right_of g))) \<subseteq> names g" for c
    by (intro to names_parts sub_exp_size left_of_size right_of_size order_refl)+
  have gf: "names (fst (make_simpler c (the (gf_operand h)))) \<subseteq> names g"
    if h: "gf_operand h \<noteq> None" "names h \<subseteq> names g" "size h \<le> size g" for c h
  proof -
    obtain q where q: "gf_operand h = Some q" using h(1) by blast
    then have "names (fst (make_simpler c q)) \<subseteq> names g"
      using to order_trans [OF gf_operand_size [OF q] h(3)] subset_trans [OF gf_operand_names [OF q] h(2)] by blast
    then show ?thesis using q by simp
  qed
  note gf_parts = gf [OF _ names_parts(2) left_of_size] gf [OF _ names_parts(3) right_of_size]
  show ?thesis
    unfolding make_simpler.simps(4)
    by (intro names_if) (simp_all add: parts gf_parts split_beta)
qed

lemma make_simpler_names: "names (fst (make_simpler ch f)) \<subseteq> names f"
proof (induction "size f" arbitrary: ch f rule: less_induct)
  case less
  show ?case
  proof (cases f)
    case (Unary u p g)
    then show ?thesis using names_unary [of g ch u p] less by simp
  next
    case (Binary u p i l r)
    let ?N = "names l \<union> names r"
    have to: "names (fst (make_simpler c h)) \<subseteq> ?N" if "names h \<subseteq> ?N" "size h \<le> size l + size r" for c h
      using subset_trans [OF less [of h c] that(1)] that(2) Binary by simp
    have part: "names (fst (make_simpler c (part x))) \<subseteq> ?N"
      if "x \<in> {l, r}" "\<And>f. names (part f) \<subseteq> names f" "\<And>f :: ltl. size (part f) \<le> size f" for c x part
    proof (rule to)
      show "names (part x) \<subseteq> ?N" using that(2) [of x] that(1) by blast
      show "size (part x) \<le> size l + size r" using that(3) [of x] that(1) by (elim insertE) simp_all
    qed
    have twice: "names (sub_exp (sub_exp f)) \<subseteq> names f" "size (sub_exp (sub_exp f)) \<le> size f" for f
      by (rule subset_trans [OF names_parts(1) names_parts(1)], rule order_trans [OF sub_exp_size sub_exp_size])
    have parts: "names (fst (make_simpler c x)) \<subseteq> ?N" "names (fst (make_simpler c (left_of x))) \<subseteq> ?N"
      "names (fst (make_simpler c (right_of x))) \<subseteq> ?N"
      "names (fst (make_simpler c (sub_exp (sub_exp x)))) \<subseteq> ?N" if x: "x \<in> {l, r}" for c x
      using part [OF x, of "\<lambda>f. f"] part [OF x names_parts(2) left_of_size]
        part [OF x names_parts(3) right_of_size] part [OF x twice] by simp_all
    define both where "both = (let (x, ch) = make_simpler ch l; (y, ch) = make_simpler ch r in (make_binary p x y, ch))"
    have both: "names (fst both) \<subseteq> ?N"
      unfolding both_def using parts(1) [of l ch] parts(1) [of r "snd (make_simpler ch l)"]
      by (auto split: prod.splits)
    have left: "\<And>c. names (fst (make_simpler c l)) \<subseteq> ?N" "\<And>c. names (fst (make_simpler c (left_of l))) \<subseteq> ?N"
      "\<And>c. names (fst (make_simpler c (right_of l))) \<subseteq> ?N"
      "\<And>c. names (fst (make_simpler c (sub_exp (sub_exp l)))) \<subseteq> ?N"
      using parts [of l] by simp_all
    have right: "\<And>c. names (fst (make_simpler c r)) \<subseteq> ?N" "\<And>c. names (fst (make_simpler c (left_of r))) \<subseteq> ?N"
      "\<And>c. names (fst (make_simpler c (right_of r))) \<subseteq> ?N"
      "\<And>c. names (fst (make_simpler c (sub_exp (sub_exp r)))) \<subseteq> ?N"
      using parts [of r] by simp_all
    have "names (fst (make_simpler ch (Binary u p i l r))) \<subseteq> ?N"
      unfolding make_simpler.simps(5) both_def [symmetric] Let_def [of both]
      by (cases p; simp only: bop.case; (intro names_if)?) (simp_all add: both left right)
    then show ?thesis using Binary by simp
  qed simp_all
qed

lemma simplify_loop_names: "names (simplify_loop f) \<subseteq> names f"
proof (induction f rule: simplify_loop.induct)
  case (1 f)
  obtain g c where r: "make_simpler False f = (g, c)" by fastforce
  then have "names g \<subseteq> names f" using make_simpler_names [of False f] by simp
  moreover have "names (simplify_loop g) \<subseteq> names g" if c using 1 r that by simp
  ultimately show ?case by (subst simplify_loop.simps) (auto simp: r)
qed

lemma names_shape: "names (shape f) = names f"
  by (induction f) simp_all

lemma count_compute:
  assumes "unlabelled g" "us = [] \<or> us = [i]"
  shows "\<exists>h n k. count_label m g = Some (h, n) \<and>
    compute_uparents (if us = [] then h else push_parent i h) = Some k \<and> labelled m n us k \<and> shape k = shape g"
  using assms
proof (induction g arbitrary: m us i)
  case (Unary u p f)
  obtain h n k where "count_label m f = Some (h, n)" "compute_uparents h = Some k" "labelled m n [] k"
    "shape k = shape f"
    using Unary.IH [of "[]" i m] Unary.prems by auto
  then show ?case using Unary.prems by (auto simp: if_distrib)
next
  case (Binary u p j l r)
  obtain h n k where l: "count_label m l = Some (h, n)" "compute_uparents h = Some k" "labelled m n [] k"
    "shape k = shape l"
    using Binary.IH(1) [of "[]" i m] Binary.prems by auto
  show ?case
  proof (cases "p = Until")
    case True
    obtain h' n' where c: "count_label n r = Some (h', n')"
      using Binary.IH(2) [of "[]" i n] Binary.prems by auto
    then obtain k' where "compute_uparents (push_parent n' h') = Some k'" "labelled n n' [n'] k'"
      "shape k' = shape r"
      using Binary.IH(2) [of "[n']" n' n] Binary.prems by auto
    then show ?thesis using Binary.prems l c True by auto
  next
    case False
    obtain h' n' k' where "count_label n r = Some (h', n')" "compute_uparents h' = Some k'"
      "labelled n n' [] k'" "shape k' = shape r"
      using Binary.IH(2) [of "[]" i n] Binary.prems by auto
    then show ?thesis using Binary.prems l False by auto
  qed
qed auto

section \<open>Paths\<close>

fun at_path :: "ltl \<Rightarrow> bool list \<Rightarrow> ltl option" where
  "at_path f [] = Some f"
| "at_path (Unary u p f) (d # a) = (if d then at_path f a else None)"
| "at_path (Binary u p i l r) (d # a) = at_path (if d then r else l) a"
| "at_path f (d # a) = None"

lemma at_path_append: "at_path f (a @ b) = Option.bind (at_path f a) (\<lambda>g. at_path g b)"
  by (induction f a rule: at_path.induct) auto

lemma labelled_le: "labelled m n us f \<Longrightarrow> m \<le> n"
proof (induction f arbitrary: m n us)
  case (Binary u p i l r)
  then show ?case by (fastforce split: if_splits)
qed auto

lemma labelled_top: "labelled m n us f \<Longrightarrow> u_indexes f = us"
  by (cases f) auto

lemma labelled_until:
  "labelled m n us f \<Longrightarrow> at_path f a = Some (Binary v Until i l r) \<Longrightarrow>
    \<exists>j. i = int j \<and> m \<le> j \<and> j < n \<and> u_indexes r = [j]"
proof (induction f arbitrary: m n us a)
  case (Unary u p f)
  then show ?case by (cases a) (auto split: if_splits)
next
  case (Binary u p k x y)
  then show ?case
  proof (cases a)
    case Nil
    then have eq: "p = Until" "k = i" "y = r" using Binary.prems(2) by auto
    then obtain k' j where j: "n = Suc j" "i = int j" "labelled m k' [] x" "labelled k' j [j] r"
      using Binary.prems(1) by auto
    then show ?thesis using labelled_le [OF j(3)] labelled_le [OF j(4)] labelled_top [OF j(4)] by auto
  next
    case (Cons d b)
    show ?thesis
    proof (cases "p = Until")
      case True
      then obtain k' j where "n = Suc j" "labelled m k' [] x" "labelled k' j [j] y" using Binary.prems by auto
      then show ?thesis
        using Binary.IH(1) [of m k' "[]" b] Binary.IH(2) [of k' j "[j]" b] Binary.prems Cons
          labelled_le [of m k' "[]" x] labelled_le [of k' j "[j]" y]
        by (cases d) fastforce+
    next
      case False
      then obtain k' where "labelled m k' [] x" "labelled k' n [] y" using Binary.prems by auto
      then show ?thesis
        using Binary.IH(1) [of m k' "[]" b] Binary.IH(2) [of k' n "[]" b] Binary.prems Cons
          labelled_le [of m k' "[]" x] labelled_le [of k' n "[]" y]
        by (cases d) fastforce+
    qed
  qed
next
  case Null
  then show ?case by simp
next
  case (Boolean u b)
  then show ?case by (cases a) auto
next
  case (Atom u s)
  then show ?case by (cases a) auto
qed

lemma labelled_right:
  assumes "labelled m n us f" "at_path f a = Some g" "j \<in> set (u_indexes g)"
  shows "a = [] \<and> j \<in> set us \<or> (\<exists>b v l. a = b @ [True] \<and> at_path f b = Some (Binary v Until (int j) l g))"
  using assms
proof (induction f arbitrary: m n us a)
  case (Unary u p f)
  show ?case
  proof (cases a)
    case Nil
    then show ?thesis using Unary.prems by auto
  next
    case (Cons d b)
    then have "at_path f b = Some g" "labelled m n [] f" d using Unary.prems by (auto split: if_splits)
    then obtain c v l where "b = c @ [True]" "at_path f c = Some (Binary v Until (int j) l g)"
      using Unary.IH [of m n "[]" b] Unary.prems by auto
    then show ?thesis using Cons \<open>d\<close> by (intro disjI2 exI [of _ "True # c"]) auto
  qed
next
  case (Binary u p i x y)
  show ?case
  proof (cases a)
    case Nil
    then show ?thesis using Binary.prems by auto
  next
    case (Cons d b)
    have prefix: ?thesis if "b = c @ [True]" "at_path (if d then y else x) c = Some (Binary v Until (int j) l g)"
      for c v l
      using that Cons by (intro disjI2 exI [of _ "d # c"]) auto
    obtain k k' us' where x: "labelled m k [] x" and y: "labelled k k' us' y"
      and us': "p = Until \<and> i = int k' \<and> us' = [k'] \<or> us' = []"
      using Binary.prems by (auto split: if_splits)
    show ?thesis
    proof (cases d)
      case True
      then have "b = [] \<and> j \<in> set us' \<or> (\<exists>c v l. b = c @ [True] \<and> at_path y c = Some (Binary v Until (int j) l g))"
        using Binary.IH(2) [OF y, of b] Binary.prems Cons by auto
      then show ?thesis
      proof (elim disjE exE conjE)
        assume "b = []" "j \<in> set us'"
        then show ?thesis
          using us' Cons True Binary.prems by (intro disjI2 exI [of _ "[] :: bool list"]) auto
      qed (use prefix True in auto)
    next
      case False
      then obtain c v l where "b = c @ [True]" "at_path x c = Some (Binary v Until (int j) l g)"
        using Binary.IH(1) [OF x, of b] Binary.prems Cons by auto
      then show ?thesis using prefix False by auto
    qed
  qed
next
  case Null
  then show ?case by simp
next
  case (Boolean u b)
  then show ?case by (cases a) auto
next
  case (Atom u s)
  then show ?case by (cases a) auto
qed

lemma labelled_unique:
  assumes "labelled m n us f" "at_path f a = Some (Binary v Until i l r)"
    and "at_path f b = Some (Binary v' Until i l' r')"
  shows "a = b"
  using assms
proof (induction f arbitrary: m n us a b)
  case (Unary u p f)
  then show ?case by (cases a; cases b) (auto split: if_splits)
next
  case (Binary u p k x y)
  obtain k0 k1 us' where x: "labelled m k0 [] x" and y: "labelled k0 k1 us' y"
    and k: "p = Until \<and> k = int k1 \<and> n = Suc k1 \<or> p \<noteq> Until \<and> n = k1"
    using Binary.prems by (auto split: if_splits)
  have below: "\<exists>j. i = int j \<and> j < k0" if "at_path x c = Some (Binary w Until i ll rr)" for c w ll rr
    using labelled_until [OF x that] by auto
  have above: "\<exists>j. i = int j \<and> k0 \<le> j \<and> j < k1" if "at_path y c = Some (Binary w Until i ll rr)" for c w ll rr
    using labelled_until [OF y that] by auto
  have self: "p = Until \<and> i = int k1" if "Some (Binary u p k x y) = Some (Binary w Until i ll rr)" for w ll rr
    using that k by auto
  note kle = labelled_le [OF y]
  show ?case
  proof (cases a)
    case Nil
    then have "i = int k1" using Binary.prems k by auto
    then have "b = []" using Binary.prems(3) below above kle
      by (cases b) (fastforce split: if_splits)+
    then show ?thesis using Nil by simp
  next
    case (Cons d a')
    show ?thesis
    proof (cases b)
      case Nil
      then have "i = int k1" using Binary.prems k by auto
      then show ?thesis using Binary.prems(2) below above kle Cons by (fastforce split: if_splits)
    next
      case (Cons d' b')
      then show ?thesis
        using Binary.prems \<open>a = d # a'\<close> Binary.IH(1) [OF x, of a' b'] Binary.IH(2) [OF y, of a' b']
          below [of a'] below [of b'] above [of a'] above [of b']
        by (cases d; cases d') fastforce+
    qed
  qed
next
  case Null
  then show ?case by simp
next
  case (Boolean u b')
  then show ?case by (cases a) auto
next
  case (Atom u s)
  then show ?case by (cases a) auto
qed

section \<open>The formula of a tableau and the pointers into it\<close>

definition tableau_formula :: "nat \<Rightarrow> ltl \<Rightarrow> bool" where
  "tableau_formula u g \<longleftrightarrow> labelled 0 u [] g \<and> in_nf g \<and> proper g"

lemma shape_facts:
  "in_nf (shape f) = in_nf f" "proper (shape f) = proper f" "is_atom (shape f) = is_atom f"
proof -
  have a: "is_atom (shape f) = is_atom f" for f by (cases f) simp_all
  show "in_nf (shape f) = in_nf f" "proper (shape f) = proper f" by (induction f) (simp_all add: a)
  show "is_atom (shape f) = is_atom f" by (rule a)
qed

lemma labelled_formula_ok:
  assumes "whole f" "proper f"
  shows "\<exists>g u. labelled_formula neg f = Some (g, u) \<and> tableau_formula u g \<and>
    (\<forall>w i. holds w i g = (holds w i f \<noteq> neg))"
proof -
  have s: "whole (simplify_loop f)" "proper (simplify_loop f)" "\<And>w i. holds w i (simplify_loop f) = holds w i f"
    using simplify_loop_to [of f] assms by (simp_all add: simp_to_def)
  obtain g where g: "normal_form neg (simplify_loop f) = Some g" "in_nf g"
    "\<And>w i. holds w i g = (holds w i f \<noteq> neg)"
    using normal_form_spec [OF s(1,2), of neg] s(3) by auto
  obtain h u k where k: "count_label 0 g = Some (h, u)" "compute_uparents h = Some k"
    "labelled 0 u [] k" "shape k = shape g"
    using count_compute [OF normal_form_unlabelled [OF g(1)], of "[]" 0 0] by auto
  have "labelled_formula neg f = Some (k, u)" using g k by (simp add: labelled_formula_def)
  moreover have "in_nf k" "proper k"
    using g(2) normal_form_proper [OF g(1)] shape_facts [of k] shape_facts [of g] k(4) by auto
  ultimately show ?thesis
    using g(3) k shape_holds [OF k(4)] by (auto simp: tableau_formula_def)
qed

definition pointer_in :: "ltl \<Rightarrow> lptr \<Rightarrow> bool" where
  "pointer_in g p \<longleftrightarrow> (\<exists>a. fst p = Some a \<and> at_path g a = Some (snd p))"

lemma pointer_in_top [simp]: "pointer_in g (Some [], g)"
  by (simp add: pointer_in_def)

lemma pointer_in_parts:
  "pointer_in g p \<Longrightarrow> snd p = Binary u q i l r \<Longrightarrow> pointer_in g (left_ptr p) \<and> pointer_in g (right_ptr p)"
  "pointer_in g p \<Longrightarrow> snd p = Unary u o' f \<Longrightarrow> pointer_in g (sub_ptr p)"
  by (auto simp: pointer_in_def left_ptr_def right_ptr_def sub_ptr_def at_path_append)

lemma snd_parts [simp]:
  "snd (left_ptr p) = left_of (snd p)" "snd (right_ptr p) = right_of (snd p)"
  "snd (sub_ptr p) = sub_exp (snd p)" "snd (fresh f) = f"
  by (simp_all add: left_ptr_def right_ptr_def sub_ptr_def fresh_def)

lemma pointer_in_unique: "pointer_in g p \<Longrightarrow> pointer_in g q \<Longrightarrow> fst p = fst q \<Longrightarrow> p = q"
  by (auto simp: pointer_in_def prod_eq_iff)

lemma at_path_nf: "at_path g a = Some h \<Longrightarrow> in_nf g \<and> proper g \<Longrightarrow> in_nf h \<and> proper h"
proof (induction g a rule: at_path.induct)
  case (2 u p f d a)
  then have "at_path f a = Some h" by (simp split: if_splits)
  moreover have "in_nf f" using 2 by (cases f) auto
  ultimately show ?case using 2 by (auto split: if_splits)
qed (auto split: if_splits)

lemma pointer_in_nf: "tableau_formula u g \<Longrightarrow> pointer_in g p \<Longrightarrow> in_nf (snd p) \<and> proper (snd p)"
  using at_path_nf by (auto simp: tableau_formula_def pointer_in_def)

lemma in_nf_whole: "in_nf f \<Longrightarrow> whole f"
  by (induction f) (auto elim: is_atom.elims)

text \<open>A formula waits for the number of its right operand.\<close>

definition waits_for :: "nat \<Rightarrow> ltl \<Rightarrow> bool" where
  "waits_for j f \<longleftrightarrow> is_binary Until f \<and> j \<in> set (u_indexes (right_of f))"

lemma parts_key [simp]:
  "right_of (key f) = key (right_of f)" "left_of (key f) = key (left_of f)"
  "sub_exp (key f) = key (sub_exp f)"
  "is_binary q (key f) = is_binary q f" "is_unary p (key f) = is_unary p f"
  "is_literal (key f) = is_literal f" "is_boolean (key f) = is_boolean f"
  by (induction f) simp_all

lemma waits_for_key [simp]: "waits_for j (key f) = waits_for j f"
  by (simp add: waits_for_def)

lemma until_index:
  assumes "tableau_formula u g" "pointer_in g p" "snd p = Binary v Until i l r"
  shows "\<exists>j. i = int j \<and> j < u \<and> u_indexes r = [j]"
  using assms labelled_until [of 0 u "[]" g] by (fastforce simp: tableau_formula_def pointer_in_def)

lemma waited_right:
  assumes "tableau_formula u g" "pointer_in g p" "j \<in> set (u_indexes (snd p))"
  shows "j < u \<and> (\<forall>q. pointer_in g q \<longrightarrow> waits_for j (snd q) \<longrightarrow> right_of (snd q) = snd p)"
proof -
  have lab: "labelled 0 u [] g" using assms by (simp add: tableau_formula_def)
  obtain a where "at_path g a = Some (snd p)" using assms by (auto simp: pointer_in_def)
  then obtain b v l where b: "at_path g b = Some (Binary v Until (int j) l (snd p))"
    using labelled_right [OF lab _ assms(3), of a] by auto
  have "right_of (snd q) = snd p" if q: "pointer_in g q" "waits_for j (snd q)" for q
  proof -
    obtain v' i l' r where e: "snd q = Binary v' Until i l' r" "j \<in> set (u_indexes r)"
      using q(2) by (cases "snd q") (auto simp: waits_for_def)
    obtain c where c: "at_path g c = Some (snd q)" using q by (auto simp: pointer_in_def)
    have "i = int j" using until_index [OF assms(1) q(1) e(1)] e(2) by auto
    then have "b = c" using labelled_unique [OF lab b, of c] c e by auto
    then show ?thesis using b c e by simp
  qed
  then show ?thesis using labelled_until [OF lab b] by auto
qed

lemma waits_pointer:
  assumes "pointer_in g p" "waits_for j (snd p)"
  shows "pointer_in g (right_ptr p) \<and> j \<in> set (u_indexes (snd (right_ptr p)))"
proof -
  obtain v i l r where "snd p = Binary v Until i l r"
    using assms(2) by (cases "snd p") (auto simp: waits_for_def)
  then show ?thesis using pointer_in_parts(1) [OF assms(1)] assms(2) by (simp add: waits_for_def)
qed

end
