(* ===== verification/LtlEntails.thy ===== *)
theory LtlEntails
  imports LtlLabels
begin

text \<open>
  What the sets of a node say about a formula: it follows from the formulas still to be done, the
  literals that hold now and the formulas that hold next, by the rules of the tableau. \<^verbatim>\<open>isinSI\<close> decides
  this without formulas to be done.
\<close>

section \<open>Consequences of the sets of a node\<close>

fun ent :: "ltl set \<Rightarrow> ltl set \<Rightarrow> ltl set \<Rightarrow> ltl \<Rightarrow> bool" where
  "ent T L N Null = (Null \<in> T)"
| "ent T L N (Boolean u b) = (Boolean u b \<in> T \<or> b)"
| "ent T L N (Atom u s) = (Atom u s \<in> T \<or> Atom [] s \<in> L)"
| "ent T L N (Unary u p f) =
     (key (Unary u p f) \<in> T \<or>
      (case p of Neg \<Rightarrow> shape (Unary u p f) \<in> L | Next \<Rightarrow> key f \<in> N | _ \<Rightarrow> False))"
| "ent T L N (Binary u p i l r) =
     (key (Binary u p i l r) \<in> T \<or>
      (case p of
         And \<Rightarrow> ent T L N l \<and> ent T L N r
       | Or \<Rightarrow> ent T L N l \<or> ent T L N r
       | Until \<Rightarrow> ent T L N r \<or> ent T L N l \<and> key (Binary u p i l r) \<in> N
       | Release \<Rightarrow> ent T L N r \<and> (ent T L N l \<or> key (Binary u p i l r) \<in> N)
       | _ \<Rightarrow> False))"

lemma ent_key [simp]: "ent T L N (key f) = ent T L N f"
  by (induction f) (simp_all split: uop.split bop.split)

lemma holds_shape [simp]: "holds w i (shape f) = holds w i f"
  by (induction f arbitrary: i) (simp_all split: uop.split bop.split)

lemma ent_todo: "key f \<in> T \<Longrightarrow> ent T L N f"
  by (cases f) simp_all

lemma ent_cut:
  assumes "ent T L N f" "\<And>t. t \<in> T \<Longrightarrow> ent T' L' N' t" "L \<subseteq> L'" "N \<subseteq> N'"
  shows "ent T' L' N' f"
  using assms(1)
proof (induction f)
  case Null
  then show ?case using assms(2) by force
next
  case (Boolean u b)
  then show ?case using assms(2) [of "Boolean u b"] by auto
next
  case (Atom u s)
  then show ?case using assms(2) [of "Atom u s"] assms(3) by auto
next
  case (Unary u p f)
  show ?case
  proof (cases "key (Unary u p f) \<in> T")
    case True
    then show ?thesis using assms(2) [OF True] by (simp only: ent_key)
  next
    case False
    then show ?thesis using Unary assms(3,4) by (auto split: uop.splits)
  qed
next
  case (Binary u p i l r)
  show ?case
  proof (cases "key (Binary u p i l r) \<in> T")
    case True
    then show ?thesis using assms(2) [OF True] by (simp only: ent_key)
  next
    case False
    then show ?thesis using Binary assms(4) by (cases p) auto
  qed
qed

lemma holds_until_step:
  "holds w i (Binary u Until n l r) \<longleftrightarrow> holds w i r \<or> holds w i l \<and> holds w (Suc i) (Binary u Until n l r)"
  (is "?U i \<longleftrightarrow> ?R")
proof
  assume "?U i"
  then obtain k where k: "k \<ge> i" "holds w k r" "\<forall>j. i \<le> j \<and> j < k \<longrightarrow> holds w j l" by auto
  show ?R
  proof (cases "k = i")
    case False
    then have "Suc i \<le> k" "holds w i l" using k by auto
    then show ?thesis using k by auto
  qed (use k in auto)
next
  assume ?R
  then show "?U i"
  proof
    assume r: "holds w i l \<and> holds w (Suc i) (Binary u Until n l r)"
    then obtain k where k: "k \<ge> Suc i" "holds w k r" "\<forall>j. Suc i \<le> j \<and> j < k \<longrightarrow> holds w j l" by auto
    have "holds w j l" if "i \<le> j" "j < k" for j using that r k by (cases "j = i") auto
    then show ?thesis using k by (auto intro!: exI [of _ k])
  qed auto
qed

lemma holds_release_step:
  "holds w i (Binary u Release n l r) \<longleftrightarrow>
    holds w i r \<and> (holds w i l \<or> holds w (Suc i) (Binary u Release n l r))"
proof -
  have "holds w j (Binary u Release n l r) \<longleftrightarrow> \<not> holds w j (Binary u Until n (make_unary Neg l) (make_unary Neg r))"
    for j by auto
  then show ?thesis
    using holds_until_step [of w i u n "make_unary Neg l" "make_unary Neg r"] by auto
qed

lemma ent_holds:
  assumes "ent T L N f" "\<And>t. t \<in> T \<Longrightarrow> holds w i t" "\<And>l. l \<in> L \<Longrightarrow> holds w i l"
    and "\<And>g. g \<in> N \<Longrightarrow> holds w (Suc i) g"
  shows "holds w i f"
  using assms(1)
proof (induction f)
  case Null
  then show ?case using assms(2) by force
next
  case (Boolean u b)
  then show ?case using assms(2) [of "Boolean u b"] by auto
next
  case (Atom u s)
  then show ?case using assms(2) [of "Atom u s"] assms(3) [of "Atom [] s"] by auto
next
  case (Unary u p f)
  show ?case
  proof (cases "key (Unary u p f) \<in> T")
    case True
    then show ?thesis using assms(2) [OF True] by (simp only: holds_key)
  next
    case False
    have "holds w i (Unary u p f)" if "shape (Unary u p f) \<in> L"
      using assms(3) [OF that] by (simp only: holds_shape)
    then show ?thesis
      using False Unary assms(4) [of "key f"] by (cases p) auto
  qed
next
  case (Binary u p i' l r)
  show ?case
  proof (cases "key (Binary u p i' l r) \<in> T")
    case True
    then show ?thesis using assms(2) [OF True] by (simp only: holds_key)
  next
    case False
    have n: "holds w (Suc i) (Binary u p i' l r)" if "key (Binary u p i' l r) \<in> N"
      using assms(4) [OF that] by (simp only: holds_key)
    show ?thesis
    proof (cases p)
      case Until
      then show ?thesis
        using False Binary n holds_until_step [of w i u i' l r] by (auto simp del: holds.simps(5))
    next
      case Release
      then show ?thesis
        using False Binary n holds_release_step [of w i u i' l r] by (auto simp del: holds.simps(5))
    qed (use False Binary in auto)
  qed
qed

section \<open>The test for consequences\<close>

definition literals_only :: "lptr list \<Rightarrow> bool" where
  "literals_only xs \<longleftrightarrow> (\<forall>f \<in> keys xs. is_literal f \<and> \<not> is_boolean f)"

definition sure :: "lptr list \<Rightarrow> lptr list \<Rightarrow> ltl \<Rightarrow> bool" where
  "sure A B f \<longleftrightarrow> ent {} (shape ` keys A) (keys B) f"

text \<open>The test of a formula has a value, and a formula that passes is a consequence.\<close>

definition tested :: "lptr list \<Rightarrow> lptr list \<Rightarrow> lptr \<Rightarrow> bool" where
  "tested A B p \<longleftrightarrow> (\<exists>b. is_in_si p A B = Some b \<and> (b \<longrightarrow> sure A B (snd p)))"

lemma all_tests_tested:
  assumes "\<forall>q \<in> set xs. tested A B q"
  shows "\<exists>b. all_tests (\<lambda>q. is_in_si q A B) xs = Some b \<and> (b \<longrightarrow> (\<forall>f \<in> keys xs. sure A B f))"
  using assms
proof (induction xs)
  case (Cons q xs)
  then show ?case by (auto simp: tested_def sure_def)
qed (simp add: exI [of _ True])

lemma is_literal_nf: "in_nf f \<Longrightarrow> is_literal f \<longleftrightarrow> is_unary Neg f \<or> is_atom f \<or> is_boolean f"
  by (cases f) (auto elim: is_atom.elims)

lemma tested_literal:
  assumes "in_nf (snd p)" "is_literal (snd p)" "literals_only A"
  shows "tested A B p"
proof -
  have v: "is_in_si p A B = Some (is_boolean (snd p) \<and> bool_value (snd p) \<or> key (snd p) \<in> keys A)"
    using assms(2) by (subst is_in_si.simps) simp
  have "sure A B (snd p)" if "key (snd p) \<in> keys A"
  proof -
    have s: "shape (snd p) \<in> shape ` keys A" using imageI [OF that, of shape] by simp
    have "\<not> is_boolean (snd p)" using that assms(3) unfolding literals_only_def
      by (metis parts_key(7))
    then show ?thesis using s assms(2) unfolding sure_def by (cases "snd p") auto
  qed
  moreover have "sure A B (snd p)" if "is_boolean (snd p) \<and> bool_value (snd p)"
    using that unfolding sure_def by (cases "snd p") auto
  ultimately show ?thesis using v by (auto simp: tested_def)
qed

lemma is_in_si_rule:
  assumes "\<not> is_literal (snd p)" "\<not> is_unary Neg (snd p)" "fill_sets None p = Some (new1, next1, new2)"
  shows "is_in_si p A B =
    (case (if list_all (\<lambda>f. key (snd f) \<in> keys B) next1
           then all_tests (\<lambda>f. is_in_si f A B) new1 else Some False) of
       None \<Rightarrow> None
     | Some b \<Rightarrow> if b then Some True else all_tests (\<lambda>f. is_in_si f A B) new2)"
  using assms by (subst is_in_si.simps) simp

lemma fill_sets_keys:
  assumes "in_nf (snd p)" "\<not> is_literal (snd p)"
  shows "\<exists>new1 next1 new2. fill_sets None p = Some (new1, next1, new2) \<and>
    (\<forall>q \<in> set new1 \<union> set new2. in_nf (snd q) \<and> size (snd q) < size (snd p)) \<and>
    ((\<forall>f \<in> keys new1. sure A B f) \<and> keys next1 \<subseteq> keys B \<longrightarrow> sure A B (snd p)) \<and>
    ((\<forall>f \<in> keys new2. sure A B f) \<longrightarrow> sure A B (snd p))"
proof (cases "snd p")
  case (Unary u o1 f)
  then have "o1 = Next" using assms is_literal_nf [of "snd p"] by auto
  then show ?thesis using Unary assms
    by (auto simp: fill_sets_def inject_def sure_def make_bool_def)
next
  case (Binary u o1 i l r)
  have e: "set (set_insert ptr_less (right_ptr p) [left_ptr p]) \<subseteq> {right_ptr p, left_ptr p}"
    using insert_elements [of ptr_less "right_ptr p" "[left_ptr p]"] by simp
  have "o1 \<in> {And, Or, Until, Release}" using Binary assms by simp
  then show ?thesis
  proof (elim insertE emptyE)
    assume "o1 = And"
    then show ?thesis using Binary assms e
      by (auto simp: fill_sets_def inject_def sure_def make_bool_def Let_def simp del: set_insert.simps(2))
  next
    assume "o1 = Or"
    then show ?thesis using Binary assms
      by (auto simp: fill_sets_def inject_def sure_def)
  next
    assume "o1 = Until"
    then show ?thesis using Binary assms
      by (auto simp: fill_sets_def inject_def sure_def)
  next
    assume "o1 = Release"
    then show ?thesis using Binary assms e
      by (auto simp: fill_sets_def inject_def sure_def Let_def simp del: set_insert.simps(2))
  qed
qed (use assms in auto)

lemma tested_nf: "in_nf (snd p) \<Longrightarrow> literals_only A \<Longrightarrow> tested A B p"
proof (induction "size (snd p)" arbitrary: p rule: less_induct)
  case less
  show ?case
  proof (cases "is_literal (snd p)")
    case True
    then show ?thesis using less.prems tested_literal by blast
  next
    case False
    obtain new1 next1 new2 where f: "fill_sets None p = Some (new1, next1, new2)"
      and el: "\<forall>q \<in> set new1 \<union> set new2. in_nf (snd q) \<and> size (snd q) < size (snd p)"
      and r1: "(\<forall>f \<in> keys new1. sure A B f) \<and> keys next1 \<subseteq> keys B \<longrightarrow> sure A B (snd p)"
      and r2: "(\<forall>f \<in> keys new2. sure A B f) \<longrightarrow> sure A B (snd p)"
      using fill_sets_keys [OF less.prems(1) False] by blast
    have neg: "\<not> is_unary Neg (snd p)" using False less.prems(1) is_literal_nf by blast
    obtain b1 where b1: "all_tests (\<lambda>q. is_in_si q A B) new1 = Some b1" "b1 \<longrightarrow> (\<forall>f \<in> keys new1. sure A B f)"
      using all_tests_tested [of new1 A B] el less by auto
    obtain b2 where b2: "all_tests (\<lambda>q. is_in_si q A B) new2 = Some b2" "b2 \<longrightarrow> (\<forall>f \<in> keys new2. sure A B f)"
      using all_tests_tested [of new2 A B] el less by auto
    have n: "list_all (\<lambda>f. key (snd f) \<in> keys B) next1 \<longleftrightarrow> keys next1 \<subseteq> keys B"
      by (auto simp: list_all_iff keys_def)
    show ?thesis
      unfolding tested_def is_in_si_rule [OF False neg f] n using b1 b2 r1 r2 by auto
  qed
qed

end
