(* ===== verification/LtlExpand.thy ===== *)
theory LtlExpand
  imports LtlEntails
begin

text \<open>
  One step of the expansion: what becomes of a node when the first formula to be done is taken out.
  Every proof about \<^verbatim>\<open>Node::expand\<close> goes through the cases of \<open>expand_cases\<close>.
\<close>

section \<open>Well-formed nodes\<close>

definition node_ok :: "ltl \<Rightarrow> nat \<Rightarrow> node \<Rightarrow> bool" where
  "node_ok g u n \<longleftrightarrow>
     (\<forall>p \<in> set (n_old n) \<union> set (n_todo n) \<union> set (n_next n). pointer_in g p) \<and>
     literals_only (n_old n) \<and> in_order (n_next n) \<and>
     length (n_untils n) = u \<and> length (n_rights n) = u \<and>
     (\<forall>f \<in> keys (n_old n). \<forall>j \<in> set (u_indexes f). n_rights n ! j)"

text \<open>What is to be done, by size: it gets less with every rule.\<close>

definition cost :: "ltl \<Rightarrow> nat" where
  "cost f = Suc (2 * size f)"

definition work :: "lptr list \<Rightarrow> nat" where
  "work xs = sum_list (map (\<lambda>p. cost (snd p)) xs)"

lemma work_simps [simp]: "work [] = 0" "work (p # xs) = cost (snd p) + work xs"
  by (simp_all add: work_def)

lemma work_insert: "work (set_insert lt p xs) \<le> cost (snd p) + work xs"
  by (induction xs) auto

lemma work_insert_all: "work (set_insert_all lt ps xs) \<le> work ps + work xs"
proof (induction ps arbitrary: xs)
  case (Cons p ps)
  show ?case
    using work_insert [of lt p xs] Cons.IH [of "set_insert lt p xs"] by (simp add: set_insert_all_def)
qed (simp add: set_insert_all_def)

lemma contradicts_ok:
  assumes "in_nf (snd p)" "proper (snd p)" "literals_only (n_old n)"
  shows "\<exists>b. contradicts p n = Some b \<and>
    (b \<longrightarrow> (\<forall>w i. all_hold w i (n_old n) \<longrightarrow> all_hold w (Suc i) (n_next n) \<longrightarrow> \<not> holds w i (snd p)))"
proof -
  obtain h where h: "normal_form False (make_unary Neg (snd p)) = Some h" "in_nf h"
    "\<And>w i. holds w i h = (\<not> holds w i (snd p))"
    using normal_form_spec [of "make_unary Neg (snd p)" False] assms(1,2) in_nf_whole by auto
  have t: "tested (n_old n) (n_next n) (fresh h)" using h(2) assms(3) by (intro tested_nf) simp_all
  have "\<not> holds w i (snd p)"
    if "sure (n_old n) (n_next n) h" "all_hold w i (n_old n)" "all_hold w (Suc i) (n_next n)" for w i
  proof -
    have "holds w i h"
      by (rule ent_holds [OF that(1) [unfolded sure_def]]) (use that(2,3) in \<open>auto simp: all_hold_def\<close>)
    then show ?thesis using h(3) by simp
  qed
  then show ?thesis using t h(1) by (auto simp: tested_def contradicts_def)
qed

lemma redundant_ok:
  assumes "in_nf (snd p)" "literals_only (n_old n)"
  shows "\<exists>b. is_redundant p n = Some b \<and>
    (b \<longrightarrow> sure (n_old n) (n_next n) (snd p) \<and>
          (is_binary Until (snd p) \<longrightarrow> sure (n_old n) (n_next n) (right_of (snd p))))"
proof -
  have "tested (n_old n) (n_next n) p" using assms by (rule tested_nf)
  moreover have "tested (n_old n) (n_next n) (right_ptr p)" if "is_binary Until (snd p)"
    using that assms by (intro tested_nf) (auto elim: is_binary.elims)
  ultimately show ?thesis
    by (cases "is_binary Until (snd p)") (auto simp: is_redundant_def tested_def split: option.split)
qed

section \<open>Marks\<close>

lemma mark_rights_Some:
  assumes "\<forall>j \<in> set is. j < length (n_rights n)"
  shows "mark_rights is n = Some (n\<lparr>n_rights := fold (\<lambda>i rights. rights[i := True]) is (n_rights n)\<rparr>)"
  using assms by (auto simp: mark_rights_def list_all_iff)

lemma length_fold_mark [simp]: "length (fold (\<lambda>i rights. rights[i := True]) is xs) = length xs"
  by (induction "is" arbitrary: xs) simp_all

lemma nth_fold_mark: "j < length xs \<Longrightarrow> fold (\<lambda>i rights. rights[i := True]) is xs ! j = (xs ! j \<or> j \<in> set is)"
proof (induction "is" arbitrary: xs)
  case (Cons i "is")
  then show ?case by (cases "i = j") auto
qed simp

section \<open>Successors of a node\<close>

text \<open>
  The node \<open>n'\<close> that is left when the formula \<open>f\<close> has been taken from \<open>n\<close>, with \<open>rest\<close> still to be
  done: \<open>X\<close> is what has to be done as well, \<open>Y\<close> what has to hold next, \<open>Z\<close> what holds now, and \<open>M\<close>
  says whether the node is marked for the \<^verbatim>\<open>Until\<close> formula \<open>f\<close>.
\<close>

definition succeeds ::
    "ltl \<Rightarrow> nat \<Rightarrow> node \<Rightarrow> lptr \<Rightarrow> lptr list \<Rightarrow> bool \<Rightarrow> ltl set \<Rightarrow> ltl set \<Rightarrow> ltl set \<Rightarrow> node \<Rightarrow> bool" where
  "succeeds g u n p rest M X Y Z n' \<longleftrightarrow>
     node_ok g u n' \<and> n_incoming n' = n_incoming n \<and> keys (n_old n') = keys (n_old n) \<union> Z \<and>
     keys rest \<subseteq> keys (n_todo n') \<and> X \<subseteq> keys (n_todo n') \<union> keys (n_old n) \<and>
     keys (n_todo n') \<subseteq> keys rest \<union> X \<and>
     keys (n_next n') = keys (n_next n) \<union> Y \<and>
     (\<forall>j < u. n_rights n' ! j = (n_rights n ! j \<or> j \<in> set (u_indexes (snd p)))) \<and>
     (\<forall>j < u. n_untils n' ! j = (n_untils n ! j \<or> M \<and> waits_for j (snd p))) \<and>
     work (n_todo n') < work (n_todo n)"

text \<open>The formula follows from what a successor has to do.\<close>

definition sound_for :: "node \<Rightarrow> ltl \<Rightarrow> ltl set \<Rightarrow> ltl set \<Rightarrow> ltl set \<Rightarrow> bool" where
  "sound_for n f X Y Z \<longleftrightarrow>
     (\<forall>T L N. shape ` (keys (n_old n) \<union> Z) \<subseteq> L \<longrightarrow> keys (n_next n) \<union> Y \<subseteq> N \<longrightarrow>
        (\<forall>x \<in> X. ent T L N x) \<longrightarrow> ent T L N f)"

text \<open>What has to be done for the formula to hold.\<close>

definition needs :: "letters \<Rightarrow> nat \<Rightarrow> ltl set \<Rightarrow> ltl set \<Rightarrow> ltl set \<Rightarrow> bool" where
  "needs w i X Y Z \<longleftrightarrow>
     (\<forall>x \<in> X. holds w i x) \<and> (\<forall>y \<in> Y. holds w (Suc i) y) \<and> (\<forall>z \<in> Z. holds w i z)"

definition popped :: "node \<Rightarrow> lptr \<Rightarrow> lptr list \<Rightarrow> node" where
  "popped n p rest =
     n\<lparr>n_todo := rest, n_rights := fold (\<lambda>i rights. rights[i := True]) (u_indexes (snd p)) (n_rights n)\<rparr>"

lemma popped_simps [simp]:
  "n_id (popped n p rest) = n_id n" "n_incoming (popped n p rest) = n_incoming n"
  "n_old (popped n p rest) = n_old n" "n_todo (popped n p rest) = rest"
  "n_next (popped n p rest) = n_next n" "n_untils (popped n p rest) = n_untils n"
  by (simp_all add: popped_def)

text \<open>A node whose first formula to be done is \<open>p\<close>.\<close>

definition pops :: "ltl \<Rightarrow> nat \<Rightarrow> node \<Rightarrow> lptr \<Rightarrow> lptr list \<Rightarrow> bool" where
  "pops g u n p rest \<longleftrightarrow> tableau_formula u g \<and> node_ok g u n \<and> n_todo n = p # rest"

lemma pops_first:
  assumes "pops g u n p rest"
  shows "pointer_in g p" "in_nf (snd p)" "proper (snd p)" "\<forall>q \<in> set rest. pointer_in g q"
    "literals_only (n_old n)"
  using assms pointer_in_nf [of u g p] by (auto simp: node_ok_def pops_def)

lemma rights_popped:
  assumes "pops g u n p rest" "j < u"
  shows "n_rights (popped n p rest) ! j = (n_rights n ! j \<or> j \<in> set (u_indexes (snd p)))"
  using assms by (simp add: popped_def pops_def node_ok_def nth_fold_mark)

lemma index_bound: "pops g u n p rest \<Longrightarrow> pointer_in g q \<Longrightarrow> j \<in> set (u_indexes (snd q)) \<Longrightarrow> j < u"
  using waited_right unfolding pops_def by blast

lemma node_ok_popped:
  assumes "pops g u n p rest"
  shows "node_ok g u (popped n p rest)"
proof -
  have "n_rights (popped n p rest) ! j" if f: "f \<in> keys (n_old n)" and j: "j \<in> set (u_indexes f)" for f j
  proof -
    obtain q where "q \<in> set (n_old n)" "f = key (snd q)" using f unfolding keys_def by blast
    then have "j < u" using index_bound [OF assms, of q j] j assms
      by (auto simp: pops_def node_ok_def)
    then show ?thesis using f j assms rights_popped [OF assms] by (auto simp: pops_def node_ok_def)
  qed
  then show ?thesis using assms by (auto simp: pops_def node_ok_def popped_def)
qed

lemma mark_popped:
  assumes "pops g u n p rest"
  shows "mark_rights (u_indexes (snd p)) (n\<lparr>n_todo := rest\<rparr>) = Some (popped n p rest)"
  using assms index_bound [OF assms pops_first(1) [OF assms]]
  by (auto simp: popped_def pops_def node_ok_def mark_rights_Some)

lemma mark_until_ok:
  assumes "pops g u n p rest"
  shows "\<exists>m. mark_until p (popped n p rest) = Some m \<and> m = (popped n p rest)\<lparr>n_untils := n_untils m\<rparr> \<and>
    length (n_untils m) = u \<and>
    (\<forall>j < u. n_untils m ! j = (n_untils n ! j \<or> waits_for j (snd p)))"
proof (cases "is_binary Until (snd p)")
  case True
  then obtain v i l r where b: "snd p = Binary v Until i l r" by (cases "snd p") auto
  then obtain j where j: "i = int j" "j < u" "u_indexes r = [j]"
    using until_index [OF _ pops_first(1) [OF assms] b] assms by (auto simp: pops_def)
  have "length (n_untils n) = u" using assms by (simp add: pops_def node_ok_def)
  then show ?thesis using b j
    by (auto simp: mark_until_def waits_for_def nth_list_update)
next
  case False
  then show ?thesis using assms
    by (auto simp: mark_until_def waits_for_def pops_def node_ok_def split: ltl.split)
qed

section \<open>The rules\<close>

lemma inject_facts:
  "keys (inject (Some m) p xs) \<subseteq> insert (key (snd p)) (keys xs)"
  "keys xs \<subseteq> keys (inject (Some m) p xs)"
  "key (snd p) \<in> keys (inject (Some m) p xs) \<union> keys (n_old m)"
  "set (inject (Some m) p xs) \<subseteq> insert p (set xs)"
  "work (inject (Some m) p xs) \<le> cost (snd p) + work xs"
  using insert_elements [of ptr_less p xs] work_insert [of ptr_less p xs] by (auto simp: inject_def)

lemma succeedsI:
  assumes "pops g u n p rest" "n_incoming n' = n_incoming n" "n_rights n' = n_rights (popped n p rest)"
    and "length (n_untils n') = u" "\<forall>j < u. n_untils n' ! j = (n_untils n ! j \<or> M \<and> waits_for j (snd p))"
    and "\<forall>q \<in> set (n_old n') \<union> set (n_todo n') \<union> set (n_next n'). pointer_in g q"
    and "literals_only (n_old n')" "in_order (n_next n')"
    and "keys (n_old n') = keys (n_old n) \<union> Z" "Z \<subseteq> {key (snd p)}"
    and "keys rest \<subseteq> keys (n_todo n')" "X \<subseteq> keys (n_todo n') \<union> keys (n_old n)"
    and "keys (n_todo n') \<subseteq> keys rest \<union> X" "keys (n_next n') = keys (n_next n) \<union> Y"
    and "work (n_todo n') < cost (snd p) + work rest"
  shows "succeeds g u n p rest M X Y Z n'"
proof -
  have marked: "n_rights n' ! j" if f: "f \<in> keys (n_old n')" and j: "j \<in> set (u_indexes f)" for f j
  proof (cases "f \<in> keys (n_old n)")
    case True
    then show ?thesis using j assms(3) node_ok_popped [OF assms(1)] by (auto simp: node_ok_def)
  next
    case False
    then have "f = key (snd p)" using assms(9,10) f by auto
    then show ?thesis
      using j assms(3) rights_popped [OF assms(1)] index_bound [OF assms(1) pops_first(1) [OF assms(1)]]
      by auto
  qed
  have "length (n_rights n') = u" using assms(3) node_ok_popped [OF assms(1)] by (simp add: node_ok_def)
  then have "node_ok g u n'" using assms marked by (simp add: node_ok_def)
  then show ?thesis
    using assms rights_popped [OF assms(1)]
    by (auto simp: succeeds_def pops_def)
qed

text \<open>A redundant formula, and a literal.\<close>

lemma skip_rule:
  assumes "pops g u n p rest" "sure (n_old n) (n_next n) (snd p)"
  shows "succeeds g u n p rest False {} {} {} (popped n p rest)" "sound_for n (snd p) {} {} {}"
proof -
  show "succeeds g u n p rest False {} {} {} (popped n p rest)"
    using assms node_ok_popped [OF assms(1)] by (intro succeedsI) (auto simp: node_ok_def cost_def)
  show "sound_for n (snd p) {} {} {}"
    using assms(2) unfolding sound_for_def sure_def by (auto intro: ent_cut)
qed

lemma literal_rule:
  assumes p: "pops g u n p rest" "is_literal (snd p)" "\<not> is_boolean (snd p)"
  shows "succeeds g u n p rest False {} {} {key (snd p)}
      ((popped n p rest)\<lparr>n_old := set_insert ptr_less p (n_old n)\<rparr>)"
    "sound_for n (snd p) {} {} {key (snd p)}"
proof -
  show "succeeds g u n p rest False {} {} {key (snd p)}
      ((popped n p rest)\<lparr>n_old := set_insert ptr_less p (n_old n)\<rparr>)"
    using assms node_ok_popped [OF p(1)] pops_first [OF p(1)] insert_elements [of ptr_less p "n_old n"]
    by (intro succeedsI) (auto simp: node_ok_def cost_def literals_only_def popped_def)
  show "sound_for n (snd p) {} {} {key (snd p)}"
    using p(2,3) unfolding sound_for_def by (cases "snd p") auto
qed

lemma and_rule:
  assumes p: "pops g u n p rest" "snd p = Binary v And i l r"
  shows "succeeds g u n p rest False {key l, key r} {} {}
      (insert_new (right_ptr p) (insert_new (left_ptr p) (popped n p rest)))"
    "sound_for n (snd p) {key l, key r} {} {}"
proof -
  have both: "set (set_insert ptr_less (right_ptr p) (set_insert ptr_less (left_ptr p) rest))
      \<subseteq> {left_ptr p, right_ptr p} \<union> set rest"
    using insert_elements [of ptr_less "left_ptr p" rest]
      insert_elements [of ptr_less "right_ptr p" "set_insert ptr_less (left_ptr p) rest"] by blast
  show "succeeds g u n p rest False {key l, key r} {} {}
      (insert_new (right_ptr p) (insert_new (left_ptr p) (popped n p rest)))"
    using assms both node_ok_popped [OF p(1)] pointer_in_parts(1) [OF pops_first(1) [OF p(1)] p(2)]
      insert_elements [of ptr_less "left_ptr p" rest]
      insert_elements [of ptr_less "right_ptr p" rest]
      work_insert [of ptr_less "left_ptr p" rest] work_insert [of ptr_less "right_ptr p" rest]
      work_insert [of ptr_less "right_ptr p" "set_insert ptr_less (left_ptr p) rest"]
    by (intro succeedsI) (auto simp: node_ok_def cost_def insert_new_def popped_def)
  show "sound_for n (snd p) {key l, key r} {} {}"
    using p(2) unfolding sound_for_def by auto
qed

lemma next_rule:
  assumes p: "pops g u n p rest" "snd p = Unary v Next f"
  shows "succeeds g u n p rest False {} {key f} {}
      ((popped n p rest)\<lparr>n_next := set_insert ptr_less (sub_ptr p) (n_next n)\<rparr>)"
    "sound_for n (snd p) {} {key f} {}"
proof -
  show "succeeds g u n p rest False {} {key f} {}
      ((popped n p rest)\<lparr>n_next := set_insert ptr_less (sub_ptr p) (n_next n)\<rparr>)"
    using assms node_ok_popped [OF p(1)] pointer_in_parts(2) [OF pops_first(1) [OF p(1)] p(2)]
      insert_elements [of ptr_less "sub_ptr p" "n_next n"]
    by (intro succeedsI) (auto simp: node_ok_def cost_def popped_def)
  show "sound_for n (snd p) {} {key f} {}"
    using p(2) unfolding sound_for_def by auto
qed

text \<open>The two halves of a node that is split.\<close>

definition first_half :: "node \<Rightarrow> lptr list \<Rightarrow> lptr list \<Rightarrow> node" where
  "first_half m new1 next1 =
     m\<lparr>n_todo := set_insert_all ptr_less new1 (n_todo m),
       n_next := set_insert_all ptr_less next1 (n_next m)\<rparr>"

definition second_half :: "node \<Rightarrow> nat \<Rightarrow> lptr list \<Rightarrow> node" where
  "second_half m c new2 = m\<lparr>n_id := c, n_todo := set_insert_all ptr_less new2 (n_todo m)\<rparr>"

lemma split_node_halves:
  "fill_sets (Some m) p = Some (new1, next1, new2) \<Longrightarrow>
    split_node m p c = Some (first_half m new1 next1, second_half m c new2)"
  by (simp add: split_node_def first_half_def second_half_def Let_def)

lemma half_succeeds:
  assumes p: "pops g u n p rest"
    and m: "m = (popped n p rest)\<lparr>n_untils := n_untils m\<rparr>" "length (n_untils m) = u"
      "\<forall>j < u. n_untils m ! j = (n_untils n ! j \<or> waits_for j (snd p))"
    and new: "\<forall>q \<in> set new. pointer_in g q" "\<forall>q \<in> set nxt. pointer_in g q"
      "work new < cost (snd p)" "X \<subseteq> keys new \<union> keys (n_old n)" "keys new \<subseteq> X" "Y = keys nxt"
  shows "succeeds g u n p rest True X Y {} (first_half m new nxt)"
    "nxt = [] \<Longrightarrow> succeeds g u n p rest True X {} {} (second_half m c new)"
proof -
  have f: "n_incoming m = n_incoming n" "n_rights m = n_rights (popped n p rest)" "n_old m = n_old n"
    "n_todo m = rest" "n_next m = n_next n"
    by (subst m(1), simp)+
  note facts = assms f node_ok_popped [OF p] pops_first [OF p]
    insert_all_elements [of ptr_less new rest] insert_all_elements [of ptr_less nxt "n_next n"]
    work_insert_all [of ptr_less new rest]
  show "succeeds g u n p rest True X Y {} (first_half m new nxt)"
    using facts by (intro succeedsI) (auto simp: node_ok_def first_half_def)
  show "succeeds g u n p rest True X {} {} (second_half m c new)" if "nxt = []"
    using facts that by (intro succeedsI) (auto simp: node_ok_def second_half_def)
qed

text \<open>
  The formulas that split a node: the second half is the one to take if the formula is an \<^verbatim>\<open>Until\<close>
  whose right operand holds, otherwise the first half takes the formula to the next position.
\<close>

definition split_choice :: "ltl \<Rightarrow> ltl set \<Rightarrow> ltl set \<Rightarrow> ltl set \<Rightarrow> bool" where
  "split_choice f X1 Y1 X2 \<longleftrightarrow>
     (\<forall>w i. holds w i f \<longrightarrow>
        needs w i X2 {} {} \<and> (is_binary Until f \<longrightarrow> key (right_of f) \<in> X2) \<or>
        needs w i X1 Y1 {} \<and> (is_binary Until f \<longrightarrow> key f \<in> Y1 \<and> \<not> holds w i (right_of f)))"

definition split_into ::
    "ltl \<Rightarrow> node \<Rightarrow> node \<Rightarrow> lptr \<Rightarrow> lptr list \<Rightarrow> lptr list \<Rightarrow> lptr list \<Rightarrow> ltl set \<Rightarrow> ltl set \<Rightarrow> bool" where
  "split_into g n m p new1 next1 new2 X1 X2 \<longleftrightarrow>
     fill_sets (Some m) p = Some (new1, next1, new2) \<and>
     (\<forall>q \<in> set new1 \<union> set next1 \<union> set new2. pointer_in g q) \<and>
     work new1 < cost (snd p) \<and> work new2 < cost (snd p) \<and>
     X1 \<subseteq> keys new1 \<union> keys (n_old n) \<and> keys new1 \<subseteq> X1 \<and>
     X2 \<subseteq> keys new2 \<union> keys (n_old n) \<and> keys new2 \<subseteq> X2 \<and>
     sound_for n (snd p) X1 (keys next1) {} \<and> sound_for n (snd p) X2 {} {} \<and>
     split_choice (snd p) X1 (keys next1) X2"

lemma split_sets:
  assumes p: "pops g u n p rest" and f: "is_binary Until (snd p) \<or> is_binary Or (snd p) \<or> is_binary Release (snd p)"
    and m: "n_old m = n_old n"
  shows "\<exists>new1 next1 new2 X1 X2. split_into g n m p new1 next1 new2 X1 X2"
proof -
  obtain v q i l r where b: "snd p = Binary v q i l r" using f by (cases "snd p") auto
  let ?l = "left_ptr p" and ?r = "right_ptr p"
  have ptrs: "pointer_in g p" "pointer_in g ?l" "pointer_in g ?r"
    using pointer_in_parts(1) [OF _ b] pops_first(1) [OF p] by blast+
  note one = inject_facts [where m = m and p = "?l" and xs = "[]"] inject_facts [where m = m and p = "?r" and xs = "[]"]
  note two = inject_facts [where m = m and p = "?l" and xs = "[]"] inject_facts [where m = m and p = "?r" and xs = "inject (Some m) ?l []"]
  have bounds: "\<forall>q \<in> set (inject (Some m) ?l []). pointer_in g q"
    "\<forall>q \<in> set (inject (Some m) ?r []). pointer_in g q" "pointer_in g p"
    "key l \<in> keys (inject (Some m) ?l []) \<union> keys (n_old n)" "keys (inject (Some m) ?l []) \<subseteq> {key l}"
    "key r \<in> keys (inject (Some m) ?r []) \<union> keys (n_old n)" "keys (inject (Some m) ?r []) \<subseteq> {key r}"
    "work (inject (Some m) ?l []) < cost (snd p)" "work (inject (Some m) ?r []) < cost (snd p)"
    using one ptrs b m by (auto simp: cost_def)
  have both: "\<forall>q \<in> set (inject (Some m) ?r (inject (Some m) ?l [])). pointer_in g q"
    "keys (inject (Some m) ?r (inject (Some m) ?l [])) \<subseteq> {key l, key r}"
    "key l \<in> keys (inject (Some m) ?r (inject (Some m) ?l [])) \<union> keys (n_old n)"
    "key r \<in> keys (inject (Some m) ?r (inject (Some m) ?l [])) \<union> keys (n_old n)"
    "work (inject (Some m) ?r (inject (Some m) ?l [])) < cost (snd p)"
    subgoal
    proof -
      have "set (inject (Some m) ?r (inject (Some m) ?l [])) \<subseteq> insert ?r (set (inject (Some m) ?l []))"
        "set (inject (Some m) ?l []) \<subseteq> {?l}" using two by simp_all
      then show ?thesis using ptrs by blast
    qed
    using two b m by (auto simp: cost_def)
  consider "q = Until" | "q = Or" | "q = Release" using f b by auto
  then show ?thesis
  proof cases
    case 1
    have "split_choice (snd p) {key l} (keys [p]) {key r}"
      unfolding split_choice_def
    proof (intro allI impI)
      fix w k
      assume "holds w k (snd p)"
      then have "holds w k r \<or> holds w k l \<and> holds w (Suc k) (snd p)"
        using holds_until_step [of w k v i l r] unfolding b 1 by simp
      then show "needs w k {key r} {} {} \<and> (is_binary Until (snd p) \<longrightarrow> key (right_of (snd p)) \<in> {key r}) \<or>
          needs w k {key l} (keys [p]) {} \<and>
          (is_binary Until (snd p) \<longrightarrow> key (snd p) \<in> keys [p] \<and> \<not> holds w k (right_of (snd p)))"
        using b by (cases "holds w k r") (simp_all add: needs_def del: key.simps(2) holds.simps(5))
    qed
    moreover have "fill_sets (Some m) p = Some (inject (Some m) ?l [], [p], inject (Some m) ?r [])"
      using b 1 by (simp add: fill_sets_def)
    moreover have "sound_for n (snd p) {key l} (keys [p]) {}" "sound_for n (snd p) {key r} {} {}"
      using b 1 unfolding sound_for_def by simp_all
    ultimately have "split_into g n m p (inject (Some m) ?l []) [p] (inject (Some m) ?r []) {key l} {key r}"
      using bounds unfolding split_into_def by (simp add: ball_Un)
    then show ?thesis by blast
  next
    case 2
    have "split_choice (snd p) {key l} (keys []) {key r}"
      unfolding split_choice_def needs_def b 2 by auto
    moreover have "fill_sets (Some m) p = Some (inject (Some m) ?l [], [], inject (Some m) ?r [])"
      using b 2 by (simp add: fill_sets_def)
    moreover have "sound_for n (snd p) {key l} (keys []) {}" "sound_for n (snd p) {key r} {} {}"
      using b 2 unfolding sound_for_def by simp_all
    ultimately have "split_into g n m p (inject (Some m) ?l []) [] (inject (Some m) ?r []) {key l} {key r}"
      using bounds unfolding split_into_def by (simp add: ball_Un)
    then show ?thesis by blast
  next
    case 3
    have "split_choice (snd p) {key r} (keys [p]) {key l, key r}"
      unfolding split_choice_def
    proof (intro allI impI)
      fix w k
      assume "holds w k (snd p)"
      then have "holds w k r \<and> (holds w k l \<or> holds w (Suc k) (snd p))"
        using holds_release_step [of w k v i l r] unfolding b 3 by simp
      then show "needs w k {key l, key r} {} {} \<and>
            (is_binary Until (snd p) \<longrightarrow> key (right_of (snd p)) \<in> {key l, key r}) \<or>
          needs w k {key r} (keys [p]) {} \<and>
          (is_binary Until (snd p) \<longrightarrow> key (snd p) \<in> keys [p] \<and> \<not> holds w k (right_of (snd p)))"
        using b 3 by (cases "holds w k l") (simp_all add: needs_def del: key.simps(2) holds.simps(5))
    qed
    moreover have "fill_sets (Some m) p =
        Some (inject (Some m) ?r [], [p], inject (Some m) ?r (inject (Some m) ?l []))"
      using b 3 by (simp add: fill_sets_def Let_def)
    moreover have "sound_for n (snd p) {key r} (keys [p]) {}" "sound_for n (snd p) {key l, key r} {} {}"
      using b 3 unfolding sound_for_def by simp_all
    ultimately have "split_into g n m p (inject (Some m) ?r []) [p]
        (inject (Some m) ?r (inject (Some m) ?l [])) {key r} {key l, key r}"
      using bounds both unfolding split_into_def by (simp add: ball_Un)
    then show ?thesis by blast
  qed
qed

section \<open>One step of the expansion\<close>

definition step_drops :: "nat \<Rightarrow> node \<Rightarrow> ltl \<Rightarrow> nat \<Rightarrow> bool" where
  "step_drops u n f c \<longleftrightarrow>
     (\<forall>k S. expand (Suc k) u n (c, S) = Some (c, S)) \<and>
     (\<forall>w i. all_hold w i (n_old n) \<longrightarrow> all_hold w (Suc i) (n_next n) \<longrightarrow> \<not> holds w i f)"

definition step_goes :: "ltl \<Rightarrow> nat \<Rightarrow> node \<Rightarrow> lptr \<Rightarrow> lptr list \<Rightarrow> nat \<Rightarrow> node \<Rightarrow> ltl set \<Rightarrow> ltl set \<Rightarrow> ltl set \<Rightarrow> bool" where
  "step_goes g u n p rest c n' X Y Z \<longleftrightarrow>
     succeeds g u n p rest False X Y Z n' \<and> n_id n' = n_id n \<and> sound_for n (snd p) X Y Z \<and>
     (\<forall>w i. holds w i (snd p) \<longrightarrow> needs w i X Y Z) \<and>
     (is_binary Until (snd p) \<longrightarrow> sure (n_old n) (n_next n) (right_of (snd p))) \<and>
     (\<forall>k S. expand (Suc k) u n (c, S) = expand k u n' (c, S))"

definition step_splits ::
    "ltl \<Rightarrow> nat \<Rightarrow> node \<Rightarrow> lptr \<Rightarrow> lptr list \<Rightarrow> nat \<Rightarrow> node \<Rightarrow> node \<Rightarrow> ltl set \<Rightarrow> ltl set \<Rightarrow> ltl set \<Rightarrow> bool" where
  "step_splits g u n p rest c n1 n2 X1 Y1 X2 \<longleftrightarrow>
     succeeds g u n p rest True X1 Y1 {} n1 \<and> succeeds g u n p rest True X2 {} {} n2 \<and>
     n_id n1 = n_id n \<and> n_id n2 = c \<and>
     sound_for n (snd p) X1 Y1 {} \<and> sound_for n (snd p) X2 {} {} \<and>
     split_choice (snd p) X1 Y1 X2 \<and>
     (\<forall>k S. expand (Suc k) u n (c, S) =
        (case expand k u n1 (Suc c, S) of None \<Rightarrow> None | Some tmp \<Rightarrow> expand k u n2 tmp))"

lemma expand_pop:
  assumes p: "pops g u n p rest"
  shows "expand (Suc k) u n (c, S) =
    do {
      contradiction \<leftarrow> contradicts p (popped n p rest);
      if contradiction then Some (c, S)
      else do {
        redundant \<leftarrow> is_redundant p (popped n p rest);
        if redundant then expand k u (popped n p rest) (c, S)
        else do {
          n \<leftarrow> mark_until p (popped n p rest);
          if is_literal (snd p)
          then if is_boolean (snd p) \<and> \<not> bool_value (snd p) then Some (c, S)
               else expand k u (n\<lparr>n_old := set_insert ptr_less p (n_old n)\<rparr>) (c, S)
          else if is_binary Until (snd p) \<or> is_binary Or (snd p) \<or> is_binary Release (snd p)
          then do {
            (n1, n2) \<leftarrow> split_node n p c;
            tmp \<leftarrow> expand k u n1 (Suc c, S);
            expand k u n2 tmp
          }
          else if is_binary And (snd p)
          then expand k u (insert_new (right_ptr p) (insert_new (left_ptr p) n)) (c, S)
          else if is_unary Next (snd p)
          then expand k u (n\<lparr>n_next := set_insert ptr_less (sub_ptr p) (n_next n)\<rparr>) (c, S)
          else None
        }
      }
    }"
proof -
  have "n_todo n = p # rest" using p by (simp add: pops_def)
  then show ?thesis by (simp add: expand.simps(2) mark_popped [OF p])
qed

lemma mark_until_other: "\<not> is_binary Until (snd p) \<Longrightarrow> mark_until p m = Some m"
  by (cases "snd p") (auto simp: mark_until_def)

lemma expand_steps:
  assumes p: "pops g u n p rest"
  shows "step_drops u n (snd p) c \<or> (\<exists>n' X Y Z. step_goes g u n p rest c n' X Y Z) \<or>
    (\<exists>n1 n2 X1 Y1 X2. step_splits g u n p rest c n1 n2 X1 Y1 X2)"
proof -
  let ?m = "popped n p rest"
  note first = pops_first [OF p]
  obtain b where b: "contradicts p ?m = Some b"
    "b \<longrightarrow> (\<forall>w i. all_hold w i (n_old n) \<longrightarrow> all_hold w (Suc i) (n_next n) \<longrightarrow> \<not> holds w i (snd p))"
    using contradicts_ok [OF first(2,3), of ?m] first(5) by auto
  obtain r where r: "is_redundant p ?m = Some r" "r \<longrightarrow> sure (n_old n) (n_next n) (snd p) \<and>
      (is_binary Until (snd p) \<longrightarrow> sure (n_old n) (n_next n) (right_of (snd p)))"
    using redundant_ok [OF first(2), of ?m] first(5) by auto
  obtain m where m: "mark_until p ?m = Some m" "m = ?m\<lparr>n_untils := n_untils m\<rparr>" "length (n_untils m) = u"
    "\<forall>j < u. n_untils m ! j = (n_untils n ! j \<or> waits_for j (snd p))"
    using mark_until_ok [OF p] by blast
  note eq = expand_pop [OF p] b(1) r(1) m(1)
  show ?thesis
  proof (cases b)
    case True
    then have "step_drops u n (snd p) c" using b(2) unfolding step_drops_def by (simp add: eq)
    then show ?thesis by blast
  next
    case nb: False
    show ?thesis
    proof (cases r)
      case True
      then have "step_goes g u n p rest c ?m {} {} {}"
        using nb r(2) skip_rule [OF p] unfolding step_goes_def by (simp add: eq needs_def)
      then show ?thesis by blast
    next
      case nr: False
      note eq = eq nb nr
      have same: "m = ?m" if "\<not> is_binary Until (snd p)" using mark_until_other [OF that, of ?m] m(1) by simp
      consider (falsum) "is_literal (snd p)" "is_boolean (snd p)" "\<not> bool_value (snd p)"
        | (verum) "is_boolean (snd p)" "bool_value (snd p)"
        | (literal) "is_literal (snd p)" "\<not> is_boolean (snd p)"
        | (split) "is_binary Until (snd p) \<or> is_binary Or (snd p) \<or> is_binary Release (snd p)"
        | (both) v i l r where "snd p = Binary v And i l r"
        | (later) v f where "snd p = Unary v Next f"
        using first(2) is_literal_nf [OF first(2)] by (cases "snd p") auto
      then show ?thesis
      proof cases
        case falsum
        then have "\<not> holds w i (snd p)" for w i by (cases "snd p") auto
        then have "step_drops u n (snd p) c" using falsum unfolding step_drops_def by (simp add: eq)
        then show ?thesis by blast
      next
        case verum
        then have "is_in_si p (n_old ?m) (n_next ?m) = Some True"
          by (cases "snd p"; subst is_in_si.simps; auto)
        moreover have "\<not> is_binary Until (snd p)" using verum by (cases "snd p") auto
        ultimately have "is_redundant p ?m = Some True" by (simp add: is_redundant_def)
        then show ?thesis using r(1) nr by simp
      next
        case literal
        then have "\<not> is_binary Until (snd p)" by (cases "snd p") auto
        then have "step_goes g u n p rest c (?m\<lparr>n_old := set_insert ptr_less p (n_old n)\<rparr>) {} {} {key (snd p)}"
          using literal literal_rule [OF p literal] same unfolding step_goes_def by (simp add: eq needs_def)
        then show ?thesis by blast
      next
        case split
        then have other: "\<not> is_literal (snd p)" by (cases "snd p") auto
        have old: "n_old m = n_old n" by (subst m(2)) simp
        obtain new1 next1 new2 X1 X2 where s: "split_into g n m p new1 next1 new2 X1 X2"
          using split_sets [OF p split old] by blast
        then have halves: "split_node m p d = Some (first_half m new1 next1, second_half m d new2)" for d
          unfolding split_into_def by (intro split_node_halves) simp
        have h1: "succeeds g u n p rest True X1 (keys next1) {} (first_half m new1 next1)"
          using s unfolding split_into_def by (intro half_succeeds(1) [OF p m(2,3,4)]) auto
        have h2: "succeeds g u n p rest True X2 {} {} (second_half m c new2)"
          using s unfolding split_into_def
          by (intro half_succeeds(2) [OF p m(2,3,4), where nxt = "[]" and Y = "{}"]) auto
        have ids: "n_id (first_half m new1 next1) = n_id n" "n_id (second_half m c new2) = c"
          by (subst m(2), simp add: first_half_def) (simp add: second_half_def)
        have "step_splits g u n p rest c (first_half m new1 next1) (second_half m c new2) X1 (keys next1) X2"
          using s split other h1 h2 ids unfolding step_splits_def split_into_def
          by (simp add: eq halves Option.bind_def split: option.split)
        then show ?thesis by blast
      next
        case both
        then have "step_goes g u n p rest c
            (insert_new (right_ptr p) (insert_new (left_ptr p) ?m)) {key l, key r} {} {}"
          using and_rule [OF p both] same unfolding step_goes_def
          by (auto simp: eq needs_def insert_new_def)
        then show ?thesis by blast
      next
        case later
        then have "step_goes g u n p rest c (?m\<lparr>n_next := set_insert ptr_less (sub_ptr p) (n_next n)\<rparr>)
            {} {key f} {}"
          using next_rule [OF p later] same unfolding step_goes_def by (simp add: eq needs_def)
        then show ?thesis by blast
      qed
    qed
  qed
qed

end
