(* ===== verification/LtlTableau.thy ===== *)
theory LtlTableau
  imports LtlExpand
begin

text \<open>
  The expansion as a relation between a node with the states found so far and the states found in
  the end, and what it does to the states: they stay well formed, no state and no edge is lost, and
  no number is given twice.
\<close>

section \<open>The expansion as a relation\<close>

definition merge_into :: "nat \<Rightarrow> node \<Rightarrow> state \<Rightarrow> state list \<Rightarrow> state list" where
  "merge_into u n twin S = map (\<lambda>s. if st_id s = st_id twin then state_merge u n s else s) S"

definition next_node :: "nat \<Rightarrow> node \<Rightarrow> nat \<Rightarrow> node" where
  "next_node u n c =
     (fresh_node u c)\<lparr>n_incoming := [n_id n], n_todo := set_insert_all ptr_less (n_next n) []\<rparr>"

lemma next_node_simps [simp]:
  "n_id (next_node u n c) = c" "n_incoming (next_node u n c) = [n_id n]" "n_old (next_node u n c) = []"
  "n_next (next_node u n c) = []" "keys (n_todo (next_node u n c)) = keys (n_next n)"
  "n_untils (next_node u n c) = replicate u False" "n_rights (next_node u n c) = replicate u False"
  by (simp_all add: next_node_def fresh_node_def)

inductive expands :: "ltl \<Rightarrow> nat \<Rightarrow> node \<Rightarrow> nat \<Rightarrow> state list \<Rightarrow> nat \<Rightarrow> state list \<Rightarrow> bool" for g u where
  twin: "node_ok g u n \<Longrightarrow> n_todo n = [] \<Longrightarrow> find_twin n S = Some t \<Longrightarrow>
    expands g u n c S c (merge_into u n t S)"
| fresh: "node_ok g u n \<Longrightarrow> n_todo n = [] \<Longrightarrow> find_twin n S = None \<Longrightarrow>
    expands g u (next_node u n c) (Suc c) (set_insert state_less (state_of_node u n) S) c' S' \<Longrightarrow>
    expands g u n c S c' S'"
| drop: "pops g u n p rest \<Longrightarrow> step_drops u n (snd p) c \<Longrightarrow> expands g u n c S c S"
| goes: "pops g u n p rest \<Longrightarrow> step_goes g u n p rest c n' X Y Z \<Longrightarrow> expands g u n' c S c' S' \<Longrightarrow>
    expands g u n c S c' S'"
| splits: "pops g u n p rest \<Longrightarrow> step_splits g u n p rest c n1 n2 X1 Y1 X2 \<Longrightarrow>
    expands g u n1 (Suc c) S c1 S1 \<Longrightarrow> expands g u n2 c1 S1 c' S' \<Longrightarrow> expands g u n c S c' S'"

lemma node_ok_next:
  assumes "node_ok g u n"
  shows "node_ok g u (next_node u n c)"
  using assms insert_all_elements [of ptr_less "n_next n" "[]"]
  by (auto simp: node_ok_def literals_only_def) (auto simp: next_node_def)

lemma expand_done:
  assumes "n_todo n = []"
  shows "expand (Suc k) u n (c, S) =
    (case find_twin n S of
       Some t \<Rightarrow> Some (c, merge_into u n t S)
     | None \<Rightarrow> expand k u (next_node u n c) (Suc c, set_insert state_less (state_of_node u n) S))"
  using assms by (simp add: expand.simps(2) next_node_def merge_into_def split: option.split)

lemma step_nodes:
  "step_goes g u n p rest c n' X Y Z \<Longrightarrow> node_ok g u n'"
  "step_splits g u n p rest c n1 n2 X1 Y1 X2 \<Longrightarrow> node_ok g u n1 \<and> node_ok g u n2"
  by (simp_all add: step_goes_def step_splits_def succeeds_def)

lemma expand_expands:
  assumes "tableau_formula u g"
  shows "node_ok g u n \<Longrightarrow> expand k u n (c, S) = Some (c', S') \<Longrightarrow> expands g u n c S c' S'"
proof (induction k arbitrary: n c S c' S')
  case 0
  then show ?case by (simp add: expand.simps)
next
  case (Suc k)
  show ?case
  proof (cases "n_todo n")
    case Nil
    show ?thesis
    proof (cases "find_twin n S")
      case None
      then have "expand k u (next_node u n c) (Suc c, set_insert state_less (state_of_node u n) S) = Some (c', S')"
        using Suc.prems(2) by (simp add: expand_done [OF Nil])
      then show ?thesis using expands.fresh [OF _ Nil None] Suc.IH [OF node_ok_next] Suc.prems(1) by blast
    next
      case (Some t)
      then have "c' = c" "S' = merge_into u n t S" using Suc.prems(2) by (simp_all add: expand_done [OF Nil])
      then show ?thesis using expands.twin [OF _ Nil Some] Suc.prems(1) by blast
    qed
  next
    case (Cons p rest)
    then have p: "pops g u n p rest" using assms Suc.prems(1) by (simp add: pops_def)
    from expand_steps [OF p, of c] show ?thesis
    proof (elim disjE exE)
      assume d: "step_drops u n (snd p) c"
      then have "c' = c" "S' = S" using Suc.prems(2) by (simp_all add: step_drops_def)
      then show ?thesis using expands.drop [OF p d] by blast
    next
      fix n' X Y Z assume s: "step_goes g u n p rest c n' X Y Z"
      then have "expand k u n' (c, S) = Some (c', S')" using Suc.prems(2) by (simp add: step_goes_def)
      then show ?thesis using expands.goes [OF p s] Suc.IH step_nodes(1) [OF s] by blast
    next
      fix n1 n2 X1 Y1 X2 assume s: "step_splits g u n p rest c n1 n2 X1 Y1 X2"
      then obtain c1 S1 where "expand k u n1 (Suc c, S) = Some (c1, S1)"
        "expand k u n2 (c1, S1) = Some (c', S')"
        using Suc.prems(2) by (auto simp: step_splits_def split: option.splits)
      then show ?thesis using expands.splits [OF p s] Suc.IH step_nodes(2) [OF s] by blast
    qed
  qed
qed

section \<open>Edges and states\<close>

lemma set_insert_nat [simp]: "set (set_insert (<) (x :: nat) xs) = insert x (set xs)"
  by (induction xs) auto

lemma set_insert_all_nat [simp]: "set (set_insert_all (<) (xs :: nat list) ys) = set xs \<union> set ys"
  by (induction xs arbitrary: ys) (auto simp: set_insert_all_def)

lemma merge_edges_elem:
  "e' \<in> set (merge_edges inc l a es) \<Longrightarrow>
    e' \<in> set es \<or>
    (map fst (e_label e') = map fst l \<and> e_acc e' = a \<and>
      (e_label e' = l \<or> (\<exists>e \<in> set es. e_label e = e_label e')) \<and>
      (\<forall>s \<in> set (e_sources e'). s \<in> set inc \<or>
         (\<exists>e \<in> set es. s \<in> set (e_sources e) \<and> e_label e = e_label e' \<and> e_acc e = a)))"
  by (induction es) (auto split: if_splits)

lemma merge_edges_keep:
  "e \<in> set es \<Longrightarrow> \<exists>e' \<in> set (merge_edges inc l a es).
    set (e_sources e) \<subseteq> set (e_sources e') \<and> e_label e' = e_label e \<and> e_acc e' = e_acc e"
  by (induction es) (auto split: if_splits)

lemma merge_edges_new:
  "\<exists>e' \<in> set (merge_edges inc l a es).
    set inc \<subseteq> set (e_sources e') \<and> map fst (e_label e') = map fst l \<and> e_acc e' = a"
  by (induction es) auto

lemma labels_same:
  assumes "map fst l = map fst l'" "\<forall>p \<in> set l. pointer_in g p" "\<forall>p \<in> set l'. pointer_in g p"
  shows "l = l'"
  using assms
proof (induction l arbitrary: l')
  case (Cons p l)
  then obtain q k where q: "l' = q # k" by (cases l') auto
  then have "p = q" "l = k" using Cons pointer_in_unique [of g p q] by auto
  then show ?case using q by simp
qed simp

definition ids :: "state list \<Rightarrow> nat set" where
  "ids S = st_id ` set S"

definition edge_ok :: "ltl \<Rightarrow> nat \<Rightarrow> nat set \<Rightarrow> edge \<Rightarrow> bool" where
  "edge_ok g u sources e \<longleftrightarrow>
     set (e_sources e) \<subseteq> sources \<and> length (e_acc e) = u \<and>
     (\<forall>p \<in> set (e_label e). pointer_in g p \<and> is_literal (snd p) \<and> \<not> is_boolean (snd p))"

definition state_ok :: "ltl \<Rightarrow> nat \<Rightarrow> nat \<Rightarrow> nat set \<Rightarrow> state \<Rightarrow> bool" where
  "state_ok g u c sources q \<longleftrightarrow>
     st_id q < c \<and> (\<forall>p \<in> set (st_next q). pointer_in g p) \<and> in_order (st_next q) \<and>
     (\<forall>e \<in> set (st_edges q). edge_ok g u sources e)"

definition states_ok :: "ltl \<Rightarrow> nat \<Rightarrow> nat \<Rightarrow> state list \<Rightarrow> bool" where
  "states_ok g u c S \<longleftrightarrow> distinct (map st_id S) \<and> (\<forall>q \<in> set S. state_ok g u c (ids S) q)"

definition fits :: "node \<Rightarrow> nat \<Rightarrow> state list \<Rightarrow> bool" where
  "fits n c S \<longleftrightarrow> n_id n < c \<and> n_id n \<notin> ids S \<and> set (n_incoming n) \<subseteq> ids S"

text \<open>No state and no edge is lost.\<close>

definition edge_kept :: "edge \<Rightarrow> edge \<Rightarrow> bool" where
  "edge_kept e e' \<longleftrightarrow>
     set (e_sources e) \<subseteq> set (e_sources e') \<and> e_label e' = e_label e \<and> e_acc e' = e_acc e"

definition state_kept :: "state \<Rightarrow> state \<Rightarrow> bool" where
  "state_kept q q' \<longleftrightarrow> st_id q' = st_id q \<and> st_next q' = st_next q \<and>
     (\<forall>e \<in> set (st_edges q). \<exists>e' \<in> set (st_edges q'). edge_kept e e')"

definition grow :: "state list \<Rightarrow> state list \<Rightarrow> bool" where
  "grow S S' \<longleftrightarrow> (\<forall>q \<in> set S. \<exists>q' \<in> set S'. state_kept q q')"

lemma state_kept_refl [simp]: "state_kept q q"
  by (auto simp: state_kept_def edge_kept_def)

lemma edge_kept_trans: "edge_kept e f \<Longrightarrow> edge_kept f h \<Longrightarrow> edge_kept e h"
  by (auto simp: edge_kept_def)

lemma state_kept_trans: "state_kept q r \<Longrightarrow> state_kept r t \<Longrightarrow> state_kept q t"
  unfolding state_kept_def by (metis edge_kept_trans)

lemma grow_refl [simp]: "grow S S"
  unfolding grow_def using state_kept_refl by blast

lemma grow_trans: "grow S S' \<Longrightarrow> grow S' S'' \<Longrightarrow> grow S S''"
  unfolding grow_def by (meson state_kept_trans)

lemma grow_ids:
  assumes "grow S S'"
  shows "ids S \<subseteq> ids S'"
proof
  fix i assume "i \<in> ids S"
  then obtain q where "q \<in> set S" "i = st_id q" by (auto simp: ids_def)
  then obtain q' where "q' \<in> set S'" "st_id q' = i"
    using assms by (auto simp: grow_def state_kept_def)
  then show "i \<in> ids S'" by (auto simp: ids_def)
qed

lemma insert_state:
  assumes "st_id q \<notin> ids S"
  shows "set (set_insert state_less q S) = insert q (set S)"
    and "distinct (map st_id S) \<Longrightarrow> distinct (map st_id (set_insert state_less q S))"
proof -
  show s: "set (set_insert state_less q S) = insert q (set S)"
    using assms by (induction S) (auto simp: ids_def state_less_def)
  have "st_id ` set (set_insert state_less q S) = insert (st_id q) (st_id ` set S)"
    if "st_id q \<notin> ids S" for S
    using that by (induction S) (auto simp: ids_def state_less_def)
  then show "distinct (map st_id S) \<Longrightarrow> distinct (map st_id (set_insert state_less q S))"
    using assms by (induction S) (auto simp: ids_def state_less_def)
qed

lemma state_of_node_simps [simp]:
  "st_id (state_of_node u n) = n_id n" "st_next (state_of_node u n) = n_next n"
  "st_edges (state_of_node u n) =
     [\<lparr>e_sources = n_incoming n, e_label = node_label n, e_acc = acceptance u n\<rparr>]"
  by (simp_all add: state_of_node_def)

lemma state_merge_simps [simp]:
  "st_id (state_merge u n q) = st_id q" "st_next (state_merge u n q) = st_next q"
  "st_edges (state_merge u n q) =
     merge_edges (n_incoming n) (node_label n) (acceptance u n) (st_edges q)"
  by (simp_all add: state_merge_def)

lemma merge_into_ids [simp]: "map st_id (merge_into u n t S) = map st_id S" "ids (merge_into u n t S) = ids S"
  by (induction S) (auto simp: merge_into_def ids_def)

lemma shapes_insert2: "(\<lambda>p. shape (snd p)) ` set (set_insert ptr_less2 p xs) = insert (shape (snd p)) ((\<lambda>p. shape (snd p)) ` set xs)"
proof (induction xs)
  case (Cons x xs)
  then show ?case
    using ord2_cases [of "snd p" "snd x"] by (auto simp: ptr_less2_def split: if_splits)
qed simp

lemma shapes_insert_all2:
  "(\<lambda>p. shape (snd p)) ` set (set_insert_all ptr_less2 ps xs) =
    (\<lambda>p. shape (snd p)) ` set ps \<union> (\<lambda>p. shape (snd p)) ` set xs"
  by (induction ps arbitrary: xs) (auto simp: set_insert_all_def shapes_insert2)

lemma shape_keys: "shape ` keys xs = (\<lambda>p. shape (snd p)) ` set xs"
  by (auto simp: keys_def image_image)

lemma node_label_shapes: "(\<lambda>p. shape (snd p)) ` set (node_label n) = shape ` keys (n_old n)"
  by (simp add: node_label_def shapes_insert_all2 shape_keys)

lemma node_label_elements: "set (node_label n) \<subseteq> set (n_old n)"
  using insert_all_elements [of ptr_less2 "n_old n" "[]"] by (simp add: node_label_def)

section \<open>States stay well formed\<close>

lemma state_ok_mono: "state_ok g u c A q \<Longrightarrow> c \<le> c' \<Longrightarrow> A \<subseteq> B \<Longrightarrow> state_ok g u c' B q"
  unfolding state_ok_def edge_ok_def by (meson order_trans less_le_trans)

lemma node_label_ok:
  assumes "node_ok g u n"
  shows "\<forall>p \<in> set (node_label n). pointer_in g p \<and> is_literal (snd p) \<and> \<not> is_boolean (snd p)"
proof
  fix p assume "p \<in> set (node_label n)"
  then have "p \<in> set (n_old n)" using node_label_elements by blast
  then show "pointer_in g p \<and> is_literal (snd p) \<and> \<not> is_boolean (snd p)"
    using assms keysI [of p "n_old n"] unfolding node_ok_def literals_only_def
    by (metis UnI1 parts_key(6,7))
qed

lemma length_acceptance [simp]: "length (acceptance u n) = u"
  by (simp add: acceptance_def)

lemma states_ok_insert:
  assumes "states_ok g u c S" "fits n c S" "node_ok g u n"
  shows "states_ok g u (Suc c) (set_insert state_less (state_of_node u n) S)"
proof -
  let ?q = "state_of_node u n"
  have new: "st_id ?q \<notin> ids S" using assms(2) by (simp add: fits_def)
  have i: "ids (set_insert state_less ?q S) = insert (n_id n) (ids S)"
    using insert_state(1) [OF new] by (simp add: ids_def)
  have "state_ok g u (Suc c) (insert (n_id n) (ids S)) ?q"
    using assms node_label_ok [OF assms(3)]
    by (auto simp: state_ok_def edge_ok_def fits_def node_ok_def)
  then show ?thesis
    using assms(1) insert_state [OF new] i state_ok_mono [of g u c "ids S" _ "Suc c" "insert (n_id n) (ids S)"]
    by (auto simp: states_ok_def)
qed

lemma states_ok_merge:
  assumes "states_ok g u c S" "fits n c S" "node_ok g u n"
  shows "states_ok g u c (merge_into u n t S)"
proof -
  have "state_ok g u c (ids S) (state_merge u n q)" if "state_ok g u c (ids S) q" for q
  proof -
    have old: "edge_ok g u (ids S) e" if "e \<in> set (st_edges q)" for e
      using that \<open>state_ok g u c (ids S) q\<close> by (simp add: state_ok_def)
    have "edge_ok g u (ids S) e" if e: "e \<in> set (st_edges (state_merge u n q))" for e
    proof (cases "e \<in> set (st_edges q)")
      case False
      then have acc: "e_acc e = acceptance u n"
        and lab: "e_label e = node_label n \<or> (\<exists>f \<in> set (st_edges q). e_label f = e_label e)"
        and src: "\<forall>s \<in> set (e_sources e). s \<in> set (n_incoming n) \<or> (\<exists>f \<in> set (st_edges q). s \<in> set (e_sources f))"
        using merge_edges_elem [OF e [unfolded state_merge_simps]] by blast+
      have "set (e_sources e) \<subseteq> ids S"
        using src old assms(2) unfolding edge_ok_def fits_def by blast
      moreover have "\<forall>p \<in> set (e_label e). pointer_in g p \<and> is_literal (snd p) \<and> \<not> is_boolean (snd p)"
        using lab old node_label_ok [OF assms(3)] unfolding edge_ok_def by metis
      ultimately show ?thesis using acc by (simp add: edge_ok_def)
    qed (use old in blast)
    then show ?thesis using that by (simp add: state_ok_def)
  qed
  then have "\<forall>q \<in> set (merge_into u n t S). state_ok g u c (ids S) q"
    using assms(1) unfolding states_ok_def merge_into_def by auto
  then show ?thesis using assms(1) by (simp add: states_ok_def)
qed

lemma kept_merge: "state_kept q (state_merge u n q)"
  using merge_edges_keep [of _ "st_edges q"] by (auto simp: state_kept_def edge_kept_def)

lemma grow_merge: "grow S (merge_into u n t S)"
  unfolding grow_def
proof
  fix q assume "q \<in> set S"
  then have "(if st_id q = st_id t then state_merge u n q else q) \<in> set (merge_into u n t S)"
    by (simp add: merge_into_def)
  then show "\<exists>q' \<in> set (merge_into u n t S). state_kept q q'"
    using kept_merge [of q u n] state_kept_refl by (metis (full_types))
qed

lemma grow_insert: "st_id q \<notin> ids S \<Longrightarrow> grow S (set_insert state_less q S)"
  using insert_state(1) [of q S] state_kept_refl unfolding grow_def by blast

lemma fits_next: "fits n c S \<Longrightarrow> states_ok g u c S \<Longrightarrow>
    fits (next_node u n c) (Suc c) (set_insert state_less (state_of_node u n) S)"
  using insert_state(1) [of "state_of_node u n" S]
  by (auto simp: fits_def states_ok_def state_ok_def ids_def)

lemma fits_mono: "fits n c S \<Longrightarrow> grow S S' \<Longrightarrow> c \<le> c' \<Longrightarrow> n_id n \<notin> ids S' \<Longrightarrow> fits n c' S'"
  using grow_ids [of S S'] by (auto simp: fits_def)

lemma fits_goes: "step_goes g u n p rest c n' X Y Z \<Longrightarrow> fits n c S \<Longrightarrow> fits n' c S"
  by (simp add: step_goes_def succeeds_def fits_def)

lemma states_ok_Suc: "states_ok g u c S \<Longrightarrow> states_ok g u (Suc c) S"
  using state_ok_mono [of g u c "ids S" _ "Suc c" "ids S"] by (auto simp: states_ok_def)

lemma fits_splits:
  assumes "step_splits g u n p rest c n1 n2 X1 Y1 X2" "fits n c S" "states_ok g u c S"
  shows "fits n1 (Suc c) S" "fits n2 (Suc c) S"
  using assms by (auto simp: step_splits_def succeeds_def fits_def states_ok_def state_ok_def ids_def)

definition found_in :: "nat \<Rightarrow> state list \<Rightarrow> nat \<Rightarrow> state list \<Rightarrow> nat \<Rightarrow> bool" where
  "found_in c S c' S' i \<longleftrightarrow> c \<le> c' \<and> grow S S' \<and> ids S' \<subseteq> insert i (ids S \<union> {c..<c'})"

lemma fits_second:
  assumes "step_splits g u n p rest c n1 n2 X1 Y1 X2" "states_ok g u c S" "fits n c S"
    and "found_in (Suc c) S c1 S1 (n_id n)"
  shows "fits n2 c1 S1"
proof -
  have "c \<notin> ids S" "n_id n \<noteq> c" using assms(2,3)
    by (auto simp: fits_def states_ok_def state_ok_def ids_def)
  then have "c \<notin> ids S1" using assms(4) by (auto simp: found_in_def)
  then show ?thesis
    using fits_mono [OF fits_splits(2) [OF assms(1,3,2)], of S1 c1] assms(1,4)
    by (simp add: found_in_def step_splits_def)
qed

lemma expands_ok:
  "expands g u n c S c' S' \<Longrightarrow> states_ok g u c S \<Longrightarrow> fits n c S \<Longrightarrow>
    states_ok g u c' S' \<and> found_in c S c' S' (n_id n)"
proof (induction rule: expands.induct)
  case (twin n S t c)
  then show ?case using states_ok_merge grow_merge by (auto simp: found_in_def)
next
  case (fresh n S c c' S')
  let ?S = "set_insert state_less (state_of_node u n) S"
  have new: "st_id (state_of_node u n) \<notin> ids S" using fresh.prems(2) by (simp add: fits_def)
  have i: "ids ?S = insert (n_id n) (ids S)" using insert_state(1) [OF new] by (simp add: ids_def)
  have "states_ok g u c' S' \<and> found_in (Suc c) ?S c' S' c"
    using fresh.IH states_ok_insert [OF fresh.prems fresh.hyps(1)] fits_next [OF fresh.prems(2,1)] by simp
  moreover have "grow S ?S" using grow_insert [OF new] .
  ultimately show ?case using i grow_trans [of S ?S S'] by (auto simp: found_in_def)
next
  case (drop n p rest c S)
  then show ?case by (auto simp: found_in_def)
next
  case (goes n p rest c n' X Y Z S c' S')
  then show ?case using fits_goes [OF goes.hyps(2)] by (simp add: step_goes_def)
next
  case (splits n p rest c n1 n2 X1 Y1 X2 S c1 S1 c' S')
  note f = fits_splits [OF splits.hyps(2) splits.prems(2,1)]
  have i: "n_id n1 = n_id n" "n_id n2 = c" using splits.hyps(2) by (simp_all add: step_splits_def)
  have one: "states_ok g u c1 S1" "found_in (Suc c) S c1 S1 (n_id n)"
    using splits.IH(1) [OF states_ok_Suc [OF splits.prems(1)] f(1)] i by simp_all
  have "fits n2 c1 S1" using fits_second [OF splits.hyps(2) splits.prems one(2)] .
  then have two: "states_ok g u c' S'" "found_in c1 S1 c' S' c"
    using splits.IH(2) [OF one(1)] i by simp_all
  have "ids S' \<subseteq> insert (n_id n) (ids S \<union> {c..<c'})"
  proof -
    have "ids S1 \<subseteq> insert (n_id n) (ids S \<union> {c..<c'})" "{c1..<c'} \<subseteq> {c..<c'}" "c \<in> {c..<c'}"
      using one(2) two(2) by (fastforce simp: found_in_def)+
    then show ?thesis using two(2) unfolding found_in_def by blast
  qed
  then show ?case
    using two one(2) grow_trans [of S S1 S'] by (simp add: found_in_def)
qed

lemma same_state:
  assumes "states_ok g u c S'" "grow S S'" "q \<in> set S" "q' \<in> set S'" "st_id q' = st_id q"
  shows "st_next q' = st_next q"
proof -
  obtain r where r: "r \<in> set S'" "state_kept q r" using assms(2,3) by (auto simp: grow_def)
  have "r = q'"
    using assms(1,4,5) r by (auto simp: states_ok_def state_kept_def distinct_map inj_on_def)
  then show ?thesis using r(2) by (simp add: state_kept_def)
qed

end
