(* ===== verification/LtlComplete.thy ===== *)
theory LtlComplete
  imports LtlTableau
begin

text \<open>
  The tableau has enough edges: where the formulas that a state waits for hold, an edge leads to a
  state whose formulas hold at the next position, and an edge that is not in an acceptance set leaves
  an \<^verbatim>\<open>Until\<close> formula to the next state whose right operand does not hold yet.
\<close>

definition steps_to :: "nat \<Rightarrow> letters \<Rightarrow> nat \<Rightarrow> nat \<Rightarrow> edge \<Rightarrow> state \<Rightarrow> bool" where
  "steps_to u w i s e q \<longleftrightarrow>
     e \<in> set (st_edges q) \<and> s \<in> set (e_sources e) \<and> (\<forall>p \<in> set (e_label e). holds w i (snd p)) \<and>
     all_hold w (Suc i) (st_next q) \<and>
     (\<forall>j < u. e_acc e ! j \<or> (\<exists>f \<in> keys (st_next q). waits_for j f \<and> \<not> holds w i (right_of f)))"

definition can_step :: "nat \<Rightarrow> letters \<Rightarrow> nat \<Rightarrow> nat \<Rightarrow> state list \<Rightarrow> bool" where
  "can_step u w i s S \<longleftrightarrow> (\<exists>q \<in> set S. \<exists>e. steps_to u w i s e q)"

definition complete :: "nat \<Rightarrow> state list \<Rightarrow> state \<Rightarrow> bool" where
  "complete u S q \<longleftrightarrow> (\<forall>w i. all_hold w i (st_next q) \<longrightarrow> can_step u w i (st_id q) S)"

text \<open>Where a node is marked for an \<^verbatim>\<open>Until\<close> formula, its right operand holds, or the formula is left over.\<close>

definition marks_ok :: "nat \<Rightarrow> letters \<Rightarrow> nat \<Rightarrow> node \<Rightarrow> bool" where
  "marks_ok u w i n \<longleftrightarrow>
     (\<forall>j < u. n_untils n ! j \<longrightarrow> n_rights n ! j \<or> (\<exists>f \<in> keys (n_todo n). j \<in> set (u_indexes f)) \<or>
        (\<exists>f \<in> keys (n_next n). waits_for j f \<and> \<not> holds w i (right_of f)))"

definition node_holds :: "nat \<Rightarrow> letters \<Rightarrow> nat \<Rightarrow> node \<Rightarrow> bool" where
  "node_holds u w i n \<longleftrightarrow>
     all_hold w i (n_old n) \<and> all_hold w i (n_todo n) \<and> all_hold w (Suc i) (n_next n) \<and> marks_ok u w i n"

lemma can_step_grow:
  assumes "can_step u w i s S" "grow S S'"
  shows "can_step u w i s S'"
proof -
  obtain q e where q: "q \<in> set S" "steps_to u w i s e q" using assms(1) by (auto simp: can_step_def)
  then obtain q' where q': "q' \<in> set S'" "state_kept q q'" using assms(2) by (auto simp: grow_def)
  then obtain e' where "e' \<in> set (st_edges q')" "edge_kept e e'"
    using q(2) by (auto simp: state_kept_def steps_to_def)
  then have "steps_to u w i s e' q'"
    using q(2) q'(2) by (auto simp: steps_to_def state_kept_def edge_kept_def)
  then show ?thesis using q'(1) by (auto simp: can_step_def)
qed

lemma complete_grow:
  assumes "states_ok g u c S'" "grow S S'" "\<forall>q \<in> set S. st_id q \<in> A \<or> complete u S q"
    and "q' \<in> set S'" "st_id q' \<in> ids S"
  shows "st_id q' \<in> A \<or> complete u S' q'"
proof -
  obtain q where q: "q \<in> set S" "st_id q' = st_id q" using assms(5) by (auto simp: ids_def)
  have "st_next q' = st_next q" using same_state [OF assms(1,2) q(1) assms(4) q(2)] .
  then show ?thesis
    using assms(3) q can_step_grow [OF _ assms(2)] unfolding complete_def by metis
qed

text \<open>The edge that is made of a node when nothing is left to be done.\<close>

lemma label_holds:
  assumes "all_hold w i (n_old n)" "p \<in> set (node_label n)"
  shows "holds w i (snd p)"
  using assms node_label_elements by (auto simp: all_hold_iff)

lemma finished_marks:
  assumes "node_holds u w i n" "n_todo n = []" "j < u"
  shows "acceptance u n ! j \<or> (\<exists>f \<in> keys (n_next n). waits_for j f \<and> \<not> holds w i (right_of f))"
  using assms by (auto simp: node_holds_def marks_ok_def acceptance_def)

lemma twin_step:
  assumes "states_ok g u c S" "fits n c S" "node_ok g u n" "n_todo n = []" "find_twin n S = Some t"
    and "node_holds u w i n" "s \<in> set (n_incoming n)"
  shows "can_step u w i s (merge_into u n t S)"
proof -
  let ?q = "state_merge u n t"
  have t: "t \<in> set S" "same_next n t" using assms(5) by (auto simp: find_twin_def find_Some_iff)
  then have q: "?q \<in> set (merge_into u n t S)" by (auto simp: merge_into_def)
  have k: "keys (n_next n) = keys (st_next t)"    using map_key_keys [OF t(2) [unfolded same_next_keys]] .
  obtain e where e: "e \<in> set (st_edges ?q)" "set (n_incoming n) \<subseteq> set (e_sources e)"
    "map fst (e_label e) = map fst (node_label n)" "e_acc e = acceptance u n"
    using merge_edges_new [of "n_incoming n" "node_label n" "acceptance u n" "st_edges t"] by auto
  have "\<forall>p \<in> set (e_label e). pointer_in g p"
    using states_ok_merge [OF assms(1,2,3), of t] q e(1) by (auto simp: states_ok_def state_ok_def edge_ok_def)
  then have "e_label e = node_label n" using labels_same [OF e(3)] node_label_ok [OF assms(3)] by blast
  moreover have "all_hold w (Suc i) (st_next ?q)"
    using assms(6) by (simp add: node_holds_def all_hold_def k)
  moreover have "e_acc e ! j \<or> (\<exists>f \<in> keys (st_next ?q). waits_for j f \<and> \<not> holds w i (right_of f))"
    if "j < u" for j
    using finished_marks [OF assms(6,4) that] by (simp add: e(4) k)
  moreover have "\<forall>p \<in> set (node_label n). holds w i (snd p)"
    using assms(6) label_holds [of w i n] by (auto simp: node_holds_def)
  ultimately have "steps_to u w i s e ?q"
    using e(1,2) assms(7) unfolding steps_to_def by auto
  then show ?thesis using q unfolding can_step_def by blast
qed

lemma fresh_step:
  assumes "n_todo n = []" "node_holds u w i n" "s \<in> set (n_incoming n)"
    and "state_of_node u n \<in> set S"
  shows "can_step u w i s S"
proof -
  have "steps_to u w i s \<lparr>e_sources = n_incoming n, e_label = node_label n, e_acc = acceptance u n\<rparr>
      (state_of_node u n)"
    using assms finished_marks [OF assms(2,1)] label_holds unfolding steps_to_def
    by (auto simp: node_holds_def)
  then show ?thesis using assms(4) by (auto simp: can_step_def)
qed

text \<open>A node that holds has a successor that holds.\<close>

lemma todo_holds:
  assumes "pops g u n p rest" "all_hold w i (n_todo n)"
  shows "holds w i (snd p)" "all_hold w i rest"
  using assms by (simp_all add: pops_def)

lemma succeeds_holds:
  assumes n: "pops g u n p rest" "succeeds g u n p rest M X Y Z n'" "node_holds u w i n" "needs w i X Y Z"
    and new: "\<And>j. M \<Longrightarrow> j < u \<Longrightarrow> waits_for j (snd p) \<Longrightarrow>
      key (right_of (snd p)) \<in> X \<or> key (snd p) \<in> Y \<and> \<not> holds w i (right_of (snd p))"
  shows "node_holds u w i n'"
proof -
  note s = n(2) [unfolded succeeds_def]
  have sets: "all_hold w i (n_old n')" "all_hold w i (n_todo n')" "all_hold w (Suc i) (n_next n')"
    using n(3,4) s todo_holds(2) [OF n(1)] unfolding node_holds_def needs_def all_hold_def by blast+
  have marked: "n_rights n' ! j" if "f \<in> keys (n_old n)" "j \<in> set (u_indexes f)" for f j
    using s that by (auto simp: node_ok_def)
  have "marks_ok u w i n'"
    unfolding marks_ok_def
  proof (intro allI impI)
    fix j assume j: "j < u" "n_untils n' ! j"
    let ?goal = "n_rights n' ! j \<or> (\<exists>f \<in> keys (n_todo n'). j \<in> set (u_indexes f)) \<or>
        (\<exists>f \<in> keys (n_next n'). waits_for j f \<and> \<not> holds w i (right_of f))"
    consider "n_untils n ! j" | "M" "waits_for j (snd p)" using j s by blast
    then show ?goal
    proof cases
      case 1
      then consider "n_rights n ! j" | f where "f \<in> keys (n_todo n)" "j \<in> set (u_indexes f)"
        | f where "f \<in> keys (n_next n)" "waits_for j f" "\<not> holds w i (right_of f)"
        using n(3) j(1) unfolding node_holds_def marks_ok_def by blast
      then show ?thesis
      proof cases
        case 2
        then have "f = key (snd p) \<or> f \<in> keys rest" using n(1) by (auto simp: pops_def)
        then show ?thesis using 2(2) s j(1) by auto
      qed (use s j(1) in blast)+
    next
      case 2
      from new [OF 2(1) j(1) 2(2)] show ?thesis
      proof
        assume x: "key (right_of (snd p)) \<in> X"
        have "j \<in> set (u_indexes (key (right_of (snd p))))" using 2(2) by (simp add: waits_for_def)
        then show ?thesis using x s marked by blast
      next
        assume "key (snd p) \<in> Y \<and> \<not> holds w i (right_of (snd p))"
        moreover have "waits_for j (key (snd p))" using 2(2) by simp
        ultimately show ?thesis using s by (metis UnI2 holds_key parts_key(1))
      qed
    qed
  qed
  then show ?thesis using sets by (simp add: node_holds_def)
qed

lemma next_node_holds:
  "all_hold w i (n_next n) \<Longrightarrow> node_holds u w i (next_node u n c)"
  by (simp add: node_holds_def marks_ok_def all_hold_def)

lemma splits_holds:
  assumes "pops g u n p rest" "step_splits g u n p rest c n1 n2 X1 Y1 X2" "node_holds u w i n"
  shows "node_holds u w i n1 \<or> node_holds u w i n2"
proof -
  note s = assms(2) [unfolded step_splits_def]
  have "holds w i (snd p)" using todo_holds(1) [OF assms(1)] assms(3) by (simp add: node_holds_def)
  then have "needs w i X2 {} {} \<and> (is_binary Until (snd p) \<longrightarrow> key (right_of (snd p)) \<in> X2) \<or>
      needs w i X1 Y1 {} \<and> (is_binary Until (snd p) \<longrightarrow> key (snd p) \<in> Y1 \<and> \<not> holds w i (right_of (snd p)))"
    using s unfolding split_choice_def by blast
  then show ?thesis
  proof
    assume "needs w i X2 {} {} \<and> (is_binary Until (snd p) \<longrightarrow> key (right_of (snd p)) \<in> X2)"
    then have "node_holds u w i n2"
      using s by (intro succeeds_holds [OF assms(1) _ assms(3), of True X2 "{}" "{}"]) (auto simp: waits_for_def)
    then show ?thesis ..
  next
    assume "needs w i X1 Y1 {} \<and>
      (is_binary Until (snd p) \<longrightarrow> key (snd p) \<in> Y1 \<and> \<not> holds w i (right_of (snd p)))"
    then have "node_holds u w i n1"
      using s by (intro succeeds_holds [OF assms(1) _ assms(3), of True X1 Y1 "{}"]) (auto simp: waits_for_def)
    then show ?thesis ..
  qed
qed

definition enough :: "nat \<Rightarrow> node \<Rightarrow> state list \<Rightarrow> state list \<Rightarrow> bool" where
  "enough u n S S' \<longleftrightarrow>
     (\<forall>w i s. s \<in> set (n_incoming n) \<longrightarrow> node_holds u w i n \<longrightarrow> can_step u w i s S') \<and>
     (\<forall>q \<in> set S'. st_id q \<in> ids S \<or> complete u S' q)"

lemma in_ids: "q \<in> set S \<Longrightarrow> st_id q \<in> ids S"
  by (simp add: ids_def)

lemma expands_complete:
  "expands g u n c S c' S' \<Longrightarrow> states_ok g u c S \<Longrightarrow> fits n c S \<Longrightarrow> enough u n S S'"
proof (induction rule: expands.induct)
  case (twin n S t c)
  then show ?case
    using twin_step [OF twin.prems twin.hyps] in_ids [of _ "merge_into u n t S"] by (simp add: enough_def)
next
  case (fresh n S c c' S')
  let ?S = "set_insert state_less (state_of_node u n) S"
  have new: "st_id (state_of_node u n) \<notin> ids S" using fresh.prems(2) by (simp add: fits_def)
  have ok: "states_ok g u (Suc c) ?S" and fits: "fits (next_node u n c) (Suc c) ?S"
    using states_ok_insert [OF fresh.prems fresh.hyps(1)] fits_next [OF fresh.prems(2,1)] by blast+
  have res: "states_ok g u c' S'" "grow ?S S'"
    using expands_ok [OF fresh.hyps(4) ok fits] by (simp_all add: found_in_def)
  have q0: "state_of_node u n \<in> set ?S" using insert_state(1) [OF new] by simp
  have IH: "enough u (next_node u n c) ?S S'" using fresh.IH [OF ok fits] .
  have "can_step u w i s S'" if "s \<in> set (n_incoming n)" "node_holds u w i n" for w i s
    using can_step_grow [OF fresh_step [OF fresh.hyps(2) that(2,1) q0] res(2)] .
  moreover have "st_id q \<in> ids S \<or> complete u S' q" if q: "q \<in> set S'" for q
  proof (cases "st_id q = n_id n")
    case True
    then have "st_next q = n_next n" using same_state [OF res q0 q] by simp
    then have "complete u S' q"
      using IH next_node_holds [of _ _ n u c] True unfolding enough_def complete_def by simp
    then show ?thesis ..
  next
    case False
    then show ?thesis using IH q insert_state(1) [OF new] by (auto simp: enough_def ids_def)
  qed
  ultimately show ?case by (simp add: enough_def)
next
  case (drop n p rest c S)
  then show ?case
    using todo_holds(1) [OF drop.hyps(1)] in_ids unfolding enough_def step_drops_def node_holds_def by blast
next
  case (goes n p rest c n' X Y Z S c' S')
  note s = goes.hyps(2) [unfolded step_goes_def]
  have "node_holds u w i n'" if "node_holds u w i n" for w i
    using s todo_holds(1) [OF goes.hyps(1)] that
    by (intro succeeds_holds [OF goes.hyps(1) _ that, of False X Y Z]) (auto simp: node_holds_def)
  moreover have "n_incoming n' = n_incoming n" using s by (simp add: succeeds_def)
  ultimately show ?case
    using goes.IH [OF goes.prems(1) fits_goes [OF goes.hyps(2) goes.prems(2)]] by (simp add: enough_def)
next
  case (splits n p rest c n1 n2 X1 Y1 X2 S c1 S1 c' S')
  note f = fits_splits [OF splits.hyps(2) splits.prems(2,1)]
  have i: "n_id n1 = n_id n" "n_id n2 = c" "n_incoming n1 = n_incoming n" "n_incoming n2 = n_incoming n"
    using splits.hyps(2) by (simp_all add: step_splits_def succeeds_def)
  have one: "states_ok g u c1 S1" "found_in (Suc c) S c1 S1 (n_id n)"
    using expands_ok [OF splits.hyps(3) states_ok_Suc [OF splits.prems(1)] f(1)] i by simp_all
  have fits2: "fits n2 c1 S1" using fits_second [OF splits.hyps(2) splits.prems one(2)] .
  have two: "states_ok g u c' S'" "grow S1 S'"
    using expands_ok [OF splits.hyps(4) one(1) fits2] by (simp_all add: found_in_def)
  have e1: "enough u n1 S S1" using splits.IH(1) [OF states_ok_Suc [OF splits.prems(1)] f(1)] .
  have e2: "enough u n2 S1 S'" using splits.IH(2) [OF one(1) fits2] .
  have "can_step u w i s S'" if "s \<in> set (n_incoming n)" "node_holds u w i n" for w i s
    using splits_holds [OF splits.hyps(1,2) that(2)] e1 e2 that(1) i can_step_grow [OF _ two(2)]
    unfolding enough_def by metis
  moreover have "st_id q \<in> ids S \<or> complete u S' q" if "q \<in> set S'" for q
    using complete_grow [OF two, where A = "ids S" and q' = q] e1 e2 that unfolding enough_def by blast
  ultimately show ?case by (simp add: enough_def)
qed

end
