(* ===== verification/LtlSound.thy ===== *)
theory LtlSound
  imports LtlTableau
begin

text \<open>
  The edges of the tableau are sound: along an edge, what the source waits for follows from the label
  and from what the target waits for, and an edge of the acceptance set of an \<^verbatim>\<open>Until\<close> formula that the
  source waits for has its right operand.
\<close>

definition label_shapes :: "lptr list \<Rightarrow> ltl set" where
  "label_shapes label = (\<lambda>p. shape (snd p)) ` set label"

definition edge_sound :: "nat \<Rightarrow> ltl set \<Rightarrow> ltl set \<Rightarrow> bool list \<Rightarrow> ltl \<Rightarrow> bool" where
  "edge_sound u L N acc f \<longleftrightarrow>
     ent {} L N f \<and> (\<forall>j < u. waits_for j f \<longrightarrow> acc ! j \<longrightarrow> ent {} L N (right_of f))"

definition states_sound :: "nat \<Rightarrow> state list \<Rightarrow> bool" where
  "states_sound u S \<longleftrightarrow>
     (\<forall>q' \<in> set S. \<forall>e \<in> set (st_edges q'). \<forall>q \<in> set S. st_id q \<in> set (e_sources e) \<longrightarrow>
        (\<forall>f \<in> keys (st_next q). edge_sound u (label_shapes (e_label e)) (keys (st_next q')) (e_acc e) f))"

definition node_ent :: "node \<Rightarrow> ltl \<Rightarrow> bool" where
  "node_ent n f \<longleftrightarrow> ent (keys (n_todo n)) (shape ` keys (n_old n)) (keys (n_next n)) f"

definition rights_sound :: "ltl \<Rightarrow> nat \<Rightarrow> node \<Rightarrow> bool" where
  "rights_sound g u n \<longleftrightarrow>
     (\<forall>j < u. n_rights n ! j \<longrightarrow> (\<forall>p. pointer_in g p \<longrightarrow> j \<in> set (u_indexes (snd p)) \<longrightarrow> node_ent n (snd p)))"

definition covers :: "nat \<Rightarrow> node \<Rightarrow> ltl \<Rightarrow> bool" where
  "covers u n f \<longleftrightarrow>
     node_ent n f \<and>
     (\<forall>j < u. waits_for j f \<longrightarrow> f \<in> keys (n_todo n) \<or> n_untils n ! j \<or> node_ent n (right_of f))"

definition node_sound :: "nat \<Rightarrow> node \<Rightarrow> state list \<Rightarrow> bool" where
  "node_sound u n S \<longleftrightarrow>
     (\<forall>q \<in> set S. st_id q \<in> set (n_incoming n) \<longrightarrow> (\<forall>f \<in> keys (st_next q). covers u n f))"

section \<open>A step keeps what follows from a node\<close>

lemma node_ent_key [simp]: "node_ent n (key f) = node_ent n f"
  by (simp add: node_ent_def)

lemma ent_in_keys: "t \<in> keys xs \<Longrightarrow> ent (keys xs) L N t"
proof (rule ent_todo)
  assume t: "t \<in> keys xs"
  then have "key t = t" unfolding keys_def by force
  then show "key t \<in> keys xs" using t by simp
qed

lemma old_literal:
  assumes "literals_only (n_old n)" "x \<in> keys (n_old n)" "shape ` keys (n_old n) \<subseteq> L"
  shows "ent T L N x"
proof -
  have "shape x \<in> L" "is_literal x" "\<not> is_boolean x"
    using assms by (auto simp: literals_only_def)
  then show ?thesis by (cases x) auto
qed

lemma waited_same:
  assumes "tableau_formula u g" "pointer_in g p" "pointer_in g q"
    and "j \<in> set (u_indexes (snd p))" "j \<in> set (u_indexes (snd q))"
  shows "snd p = snd q"
proof -
  have lab: "labelled 0 u [] g" using assms(1) by (simp add: tableau_formula_def)
  obtain a where a: "at_path g a = Some (snd p)" using assms(2) by (auto simp: pointer_in_def)
  then obtain b v l where b: "at_path g b = Some (Binary v Until (int j) l (snd p))"
    using labelled_right [OF lab a assms(4)] by auto
  let ?r = "(Some b, Binary v Until (int j) l (snd p))"
  have "pointer_in g ?r" "waits_for j (snd ?r)" using b assms(4) by (simp_all add: pointer_in_def waits_for_def)
  then show ?thesis using waited_right [OF assms(1,3,5)] by force
qed

lemma succeeds_ent:
  assumes p: "pops g u n p rest" and s: "succeeds g u n p rest M X Y Z n'" and f: "sound_for n (snd p) X Y Z"
  shows "node_ent n' (snd p)" and "node_ent n h \<Longrightarrow> node_ent n' h"
proof -
  note s' = s [unfolded succeeds_def]
  let ?T = "keys (n_todo n')" and ?L = "shape ` keys (n_old n')" and ?N = "keys (n_next n')"
  have x: "ent ?T ?L ?N x" if "x \<in> X" for x
  proof (cases "x \<in> ?T")
    case True
    then show ?thesis by (rule ent_in_keys)
  next
    case False
    then have "x \<in> keys (n_old n)" using s' that by blast
    moreover have "shape ` keys (n_old n) \<subseteq> ?L" using s' by auto
    ultimately show ?thesis using old_literal [OF pops_first(5) [OF p]] by blast
  qed
  have "shape ` (keys (n_old n) \<union> Z) \<subseteq> ?L" "keys (n_next n) \<union> Y \<subseteq> ?N" using s' by auto
  then have first: "ent ?T ?L ?N (snd p)" using f x unfolding sound_for_def by blast
  then show "node_ent n' (snd p)" by (simp add: node_ent_def)
  have t: "ent ?T ?L ?N t" if "t \<in> keys (n_todo n)" for t
  proof (cases "t = key (snd p)")
    case True
    then show ?thesis using first by simp
  next
    case False
    then have "t \<in> keys rest" using that p by (auto simp: pops_def)
    then have "t \<in> ?T" using s' by blast
    then show ?thesis by (rule ent_in_keys)
  qed
  have "shape ` keys (n_old n) \<subseteq> ?L" "keys (n_next n) \<subseteq> ?N" using s' by auto
  then show "node_ent n h \<Longrightarrow> node_ent n' h"
    unfolding node_ent_def using ent_cut [of "keys (n_todo n)" _ _ h ?T ?L ?N] t by blast
qed

lemma succeeds_rights:
  assumes p: "pops g u n p rest" and s: "succeeds g u n p rest M X Y Z n'" and f: "sound_for n (snd p) X Y Z"
    and r: "rights_sound g u n"
  shows "rights_sound g u n'"
  unfolding rights_sound_def
proof (intro allI impI)
  fix j q assume j: "j < u" "n_rights n' ! j" and q: "pointer_in g q" "j \<in> set (u_indexes (snd q))"
  have "n_rights n ! j \<or> j \<in> set (u_indexes (snd p))" using s j by (simp add: succeeds_def)
  then show "node_ent n' (snd q)"
  proof
    assume "n_rights n ! j"
    then have "node_ent n (snd q)" using r j(1) q unfolding rights_sound_def by blast
    then show ?thesis by (rule succeeds_ent(2) [OF p s f])
  next
    assume "j \<in> set (u_indexes (snd p))"
    then have "snd q = snd p"
      using waited_same [of u g q p j] q pops_first(1) [OF p] p by (simp add: pops_def)
    then show ?thesis using succeeds_ent(1) [OF p s f] by simp
  qed
qed

lemma sure_node_ent: "sure (n_old n) (n_next n) f \<Longrightarrow> node_ent n f"
  unfolding sure_def node_ent_def by (rule ent_cut) auto

lemma succeeds_covers:
  assumes p: "pops g u n p rest" and s: "succeeds g u n p rest M X Y Z n'" and f: "sound_for n (snd p) X Y Z"
    and r: "M \<or> (is_binary Until (snd p) \<longrightarrow> sure (n_old n) (n_next n) (right_of (snd p)))"
    and c: "covers u n h"
  shows "covers u n' h"
proof -
  note keep = succeeds_ent(2) [OF p s f]
  have "h \<in> keys (n_todo n') \<or> n_untils n' ! j \<or> node_ent n' (right_of h)" if j: "j < u" "waits_for j h" for j
  proof -
    consider "h \<in> keys (n_todo n)" | "n_untils n ! j" | "node_ent n (right_of h)"
      using c j by (auto simp: covers_def)
    then show ?thesis
    proof cases
      case 1
      then consider "h \<in> keys rest" | "h = key (snd p)" using p by (auto simp: pops_def)
      then show ?thesis
      proof cases
        case 1
        then show ?thesis using s by (auto simp: succeeds_def)
      next
        case 2
        then have w: "waits_for j (snd p)" using j(2) by simp
        then have u: "is_binary Until (snd p)" by (simp add: waits_for_def)
        show ?thesis
        proof (cases M)
          case True
          then show ?thesis using s j(1) w by (simp add: succeeds_def)
        next
          case False
          then have "node_ent n (right_of (snd p))" using r u sure_node_ent by blast
          then show ?thesis using keep 2 by simp
        qed
      qed
    qed (use s j(1) keep in \<open>simp_all add: succeeds_def\<close>)
  qed
  then show ?thesis using c keep by (simp add: covers_def)
qed

section \<open>Finished nodes\<close>

lemma finished_sound:
  assumes form: "tableau_formula u g" and n: "node_ok g u n" "n_todo n = []" "rights_sound g u n"
    and q: "covers u n (key (snd p))" "pointer_in g p"
  shows "edge_sound u (label_shapes (node_label n)) (keys (n_next n)) (acceptance u n) (key (snd p))"
proof -
  have l: "label_shapes (node_label n) = shape ` keys (n_old n)"
    by (simp add: label_shapes_def node_label_shapes)
  have e: "ent {} (shape ` keys (n_old n)) (keys (n_next n)) f" if "node_ent n f" for f
    using that n(2) by (simp add: node_ent_def)
  have "ent {} (shape ` keys (n_old n)) (keys (n_next n)) (right_of (snd p))"
    if j: "j < u" "waits_for j (snd p)" "acceptance u n ! j" for j
  proof -
    have "pointer_in g (right_ptr p)" "j \<in> set (u_indexes (snd (right_ptr p)))"
      using waits_pointer [OF q(2) j(2)] by blast+
    then have r: "n_rights n ! j \<Longrightarrow> node_ent n (right_of (snd p))"
      using n(3) j(1) unfolding rights_sound_def by (metis snd_parts(2))
    have "n_untils n ! j \<or> node_ent n (right_of (snd p))"
      using q(1) j n(2) by (simp add: covers_def)
    moreover have "\<not> n_untils n ! j \<or> n_rights n ! j" using j by (simp add: acceptance_def)
    ultimately show ?thesis using r e by blast
  qed
  then show ?thesis using e q(1) by (simp add: edge_sound_def l covers_def)
qed

lemma node_edge_sound:
  assumes "tableau_formula u g" "states_ok g u c S" "node_ok g u n" "n_todo n = []" "rights_sound g u n"
    and "node_sound u n S" "q \<in> set S" "st_id q \<in> set (n_incoming n)" "f \<in> keys (st_next q)"
  shows "edge_sound u (label_shapes (node_label n)) (keys (n_next n)) (acceptance u n) f"
proof -
  obtain p where p: "p \<in> set (st_next q)" "f = key (snd p)" using assms(9) by (auto simp: keys_def)
  have "pointer_in g p" using assms(2,7) p(1) by (simp add: states_ok_def state_ok_def)
  moreover have "covers u n f" using assms(6-9) by (auto simp: node_sound_def)
  ultimately show ?thesis using finished_sound [OF assms(1,3,4,5), of p] p(2) by simp
qed

lemma node_sound_goes:
  assumes "pops g u n p rest" "succeeds g u n p rest M X Y Z n'" "sound_for n (snd p) X Y Z"
    and "M \<or> (is_binary Until (snd p) \<longrightarrow> sure (n_old n) (n_next n) (right_of (snd p)))"
    and "node_sound u n S"
  shows "node_sound u n' S"
proof -
  have "n_incoming n' = n_incoming n" using assms(2) by (simp add: succeeds_def)
  then show ?thesis using assms(5) succeeds_covers [OF assms(1-4)] by (auto simp: node_sound_def)
qed

lemma node_sound_grow:
  assumes "node_sound u n S" "grow S S'" "states_ok g u c S'" "set (n_incoming n) \<subseteq> ids S"
  shows "node_sound u n S'"
  unfolding node_sound_def
proof (intro ballI impI)
  fix q' f assume q': "q' \<in> set S'" "st_id q' \<in> set (n_incoming n)" "f \<in> keys (st_next q')"
  then obtain q where q: "q \<in> set S" "st_id q' = st_id q" using assms(4) by (auto simp: ids_def)
  have "st_next q' = st_next q" using same_state [OF assms(3,2) q(1) q'(1) q(2)] .
  then show "covers u n f" using assms(1) q q' by (auto simp: node_sound_def)
qed

lemma next_node_sound:
  assumes "states_ok g u c S" "fits n c S"
  shows "node_sound u (next_node u n c) (set_insert state_less (state_of_node u n) S)"
    and "rights_sound g u (next_node u n c)"
proof -
  have new: "st_id (state_of_node u n) \<notin> ids S" using assms(2) by (simp add: fits_def)
  have "covers u (next_node u n c) f" if "f \<in> keys (n_next n)" for f
    using ent_in_keys [OF that, of "{}" "{}"] that by (simp add: covers_def node_ent_def)
  then show "node_sound u (next_node u n c) (set_insert state_less (state_of_node u n) S)"
  proof -
    have "q = state_of_node u n"
      if "q \<in> set (set_insert state_less (state_of_node u n) S)" "st_id q = n_id n" for q
    proof -
      have "q \<in> set S \<Longrightarrow> n_id n \<in> ids S" using that(2) unfolding ids_def by force
      then show ?thesis using that(1) new insert_state(1) [OF new] by auto
    qed
    then have "st_next q = n_next n"
      if "q \<in> set (set_insert state_less (state_of_node u n) S)" "st_id q = n_id n" for q
      using that by force
    then show ?thesis using \<open>\<And>f. f \<in> keys (n_next n) \<Longrightarrow> covers u (next_node u n c) f\<close>
      by (simp add: node_sound_def)
  qed
  show "rights_sound g u (next_node u n c)" by (simp add: rights_sound_def)
qed

lemma states_sound_insert:
  assumes "tableau_formula u g" "states_ok g u c S" "fits n c S" "node_ok g u n" "n_todo n = []"
    and "rights_sound g u n" "node_sound u n S" "states_sound u S"
  shows "states_sound u (set_insert state_less (state_of_node u n) S)"
  unfolding states_sound_def
proof (intro ballI impI)
  let ?q = "state_of_node u n"
  have new: "st_id ?q \<notin> ids S" using assms(3) by (simp add: fits_def)
  note set = insert_state(1) [OF new]
  fix q' e q f
  assume q': "q' \<in> set (set_insert state_less ?q S)" "e \<in> set (st_edges q')"
    and q: "q \<in> set (set_insert state_less ?q S)" "st_id q \<in> set (e_sources e)" "f \<in> keys (st_next q)"
  have src: "set (e_sources e) \<subseteq> ids S"
  proof (cases "q' = ?q")
    case True
    then show ?thesis using q'(2) assms(3) by (simp add: fits_def)
  next
    case False
    then show ?thesis using q' set assms(2) by (auto simp: states_ok_def state_ok_def edge_ok_def)
  qed
  then have qS: "q \<in> set S" using q set new by auto
  show "edge_sound u (label_shapes (e_label e)) (keys (st_next q')) (e_acc e) f"
  proof (cases "q' = ?q")
    case True
    then have e: "e = \<lparr>e_sources = n_incoming n, e_label = node_label n, e_acc = acceptance u n\<rparr>"
      using q'(2) by simp
    then show ?thesis
      using node_edge_sound [OF assms(1,2,4,5,6,7) qS _ q(3)] q(2) True by simp
  next
    case False
    then have "q' \<in> set S" using q'(1) set by simp
    then show ?thesis using assms(8) q' qS q(2,3) by (auto simp: states_sound_def)
  qed
qed

lemma states_sound_merge:
  assumes "tableau_formula u g" "states_ok g u c S" "fits n c S" "node_ok g u n" "n_todo n = []"
    and "rights_sound g u n" "node_sound u n S" "states_sound u S" "find_twin n S = Some t"
  shows "states_sound u (merge_into u n t S)"
  unfolding states_sound_def
proof (intro ballI impI)
  have t: "t \<in> set S" "same_next n t" using assms(9) by (auto simp: find_twin_def find_Some_iff)
  have k: "keys (n_next n) = keys (st_next t)" using map_key_keys [OF t(2) [unfolded same_next_keys]] .
  fix q' e q f
  assume q': "q' \<in> set (merge_into u n t S)" "e \<in> set (st_edges q')"
    and q: "q \<in> set (merge_into u n t S)" "st_id q \<in> set (e_sources e)" "f \<in> keys (st_next q)"
  obtain r where r: "r \<in> set S" "st_id q = st_id r" "st_next q = st_next r"
    using q(1) by (auto simp: merge_into_def split: if_splits)
  obtain r' where r': "r' \<in> set S" "q' = (if st_id r' = st_id t then state_merge u n r' else r')"
    using q'(1) by (auto simp: merge_into_def)
  have n': "st_next q' = st_next r'" using r'(2) by simp
  have old: "edge_sound u (label_shapes (e_label e')) (keys (st_next r')) (e_acc e') f"
    if "e' \<in> set (st_edges r')" "st_id q \<in> set (e_sources e')" for e'
    using assms(8) that r r'(1) q(3) unfolding states_sound_def by metis
  show "edge_sound u (label_shapes (e_label e)) (keys (st_next q')) (e_acc e) f"
  proof (cases "e \<in> set (st_edges r')")
    case True
    then show ?thesis using old q(2) n' by simp
  next
    case False
    then have same: "st_id r' = st_id t" and e: "e \<in> set (merge_edges (n_incoming n) (node_label n) (acceptance u n) (st_edges r'))"
      using q'(2) r'(2) by (auto split: if_splits)
    have "r' = t" using same r'(1) t(1) assms(2) by (auto simp: states_ok_def distinct_map inj_on_def)
    then have el: "map fst (e_label e) = map fst (node_label n) \<and> e_acc e = acceptance u n \<and>
        (\<forall>s \<in> set (e_sources e). s \<in> set (n_incoming n) \<or>
         (\<exists>f \<in> set (st_edges r'). s \<in> set (e_sources f) \<and> e_label f = e_label e \<and> e_acc f = acceptance u n))"
      using merge_edges_elem [OF e] False by simp
    then have m: "map fst (e_label e) = map fst (node_label n)" "e_acc e = acceptance u n"
      and s: "st_id q \<in> set (n_incoming n) \<or>
         (\<exists>f \<in> set (st_edges r'). st_id q \<in> set (e_sources f) \<and> e_label f = e_label e \<and> e_acc f = acceptance u n)"
      using q(2) by simp_all
    have "\<forall>p \<in> set (e_label e). pointer_in g p"
      using states_ok_merge [OF assms(2,3,4), of t] q' by (auto simp: states_ok_def state_ok_def edge_ok_def)
    then have l: "e_label e = node_label n" using labels_same [OF m(1)] node_label_ok [OF assms(4)] by blast
    from s show ?thesis
    proof
      assume "st_id q \<in> set (n_incoming n)"
      then show ?thesis
        using node_edge_sound [OF assms(1,2,4,5,6,7) r(1), of f] r q(3) l m(2) k n' \<open>r' = t\<close> by simp
    next
      assume "\<exists>f \<in> set (st_edges r'). st_id q \<in> set (e_sources f) \<and> e_label f = e_label e \<and>
        e_acc f = acceptance u n"
      then obtain h where h: "h \<in> set (st_edges r')" "st_id q \<in> set (e_sources h)"
        "e_label h = e_label e" "e_acc h = e_acc e" using m(2) by auto
      then show ?thesis using old [OF h(1,2)] n' by simp
    qed
  qed
qed

lemma expands_sound:
  "expands g u n c S c' S' \<Longrightarrow> tableau_formula u g \<Longrightarrow> states_ok g u c S \<Longrightarrow> fits n c S \<Longrightarrow>
    rights_sound g u n \<Longrightarrow> node_sound u n S \<Longrightarrow> states_sound u S \<Longrightarrow> states_sound u S'"
proof (induction rule: expands.induct)
  case (twin n S t c)
  then show ?case using states_sound_merge by blast
next
  case (fresh n S c c' S')
  note fits = fits_next [OF fresh.prems(3,2)]
  show ?case
    using fresh.IH [OF fresh.prems(1) states_ok_insert [OF fresh.prems(2,3) fresh.hyps(1)] fits
        next_node_sound(2,1) [OF fresh.prems(2,3)]
        states_sound_insert [OF fresh.prems(1,2,3) fresh.hyps(1,2) fresh.prems(4,5,6)]] .
next
  case (drop n p rest c S)
  then show ?case by blast
next
  case (goes n p rest c n' X Y Z S c' S')
  note s = goes.hyps(2) [unfolded step_goes_def]
  have "rights_sound g u n'" using s succeeds_rights [OF goes.hyps(1)] goes.prems(4) by blast
  moreover have "node_sound u n' S" using s node_sound_goes [OF goes.hyps(1)] goes.prems(5) by blast
  ultimately show ?case
    using goes.IH goes.prems fits_goes [OF goes.hyps(2)] by blast
next
  case (splits n p rest c n1 n2 X1 Y1 X2 S c1 S1 c' S')
  note s = splits.hyps(2) [unfolded step_splits_def]
  note f = fits_splits [OF splits.hyps(2) splits.prems(3,2)]
  note ok = states_ok_Suc [OF splits.prems(2)]
  have i: "n_id n1 = n_id n" "n_incoming n2 = n_incoming n" using s by (simp_all add: succeeds_def)
  have one: "states_ok g u c1 S1" "found_in (Suc c) S c1 S1 (n_id n)"
    using expands_ok [OF splits.hyps(3) ok f(1)] i by simp_all
  have fits2: "fits n2 c1 S1" using fits_second [OF splits.hyps(2) splits.prems(2,3) one(2)] .
  have r: "rights_sound g u n1" "rights_sound g u n2"
    using s succeeds_rights [OF splits.hyps(1)] splits.prems(4) by blast+
  have n: "node_sound u n1 S" "node_sound u n2 S"
    using s node_sound_goes [OF splits.hyps(1)] splits.prems(5) by blast+
  have "states_sound u S1" using splits.IH(1) [OF splits.prems(1) ok f(1) r(1) n(1) splits.prems(6)] .
  moreover have "node_sound u n2 S1"
    using node_sound_grow [OF n(2) _ one(1)] one(2) splits.prems(3) i by (simp add: found_in_def fits_def)
  ultimately show ?case using splits.IH(2) [OF splits.prems(1) one(1) fits2 r(2)] by blast
qed

end
