(* ===== verification/LtlLanguage.thy ===== *)
theory LtlLanguage
  imports LtlComplete LtlSound
begin

text \<open>
  The language of the tableau: the words it accepts by a run that takes edges of every acceptance
  set again and again are the words of the formula.
\<close>

definition run_over :: "nat \<Rightarrow> state list \<Rightarrow> letters \<Rightarrow> (nat \<Rightarrow> state) \<Rightarrow> (nat \<Rightarrow> edge) \<Rightarrow> bool" where
  "run_over c S w r es \<longleftrightarrow>
     st_id (r 0) = c \<and>
     (\<forall>i. r i \<in> set S \<and> es i \<in> set (st_edges (r (Suc i))) \<and> st_id (r i) \<in> set (e_sources (es i)) \<and>
        (\<forall>p \<in> set (e_label (es i)). holds w i (snd p)))"

definition accepting_run :: "nat \<Rightarrow> (nat \<Rightarrow> edge) \<Rightarrow> bool" where
  "accepting_run u es \<longleftrightarrow> (\<forall>j < u. \<forall>i. \<exists>k \<ge> i. e_acc (es k) ! j)"

definition accepts :: "nat \<Rightarrow> nat \<Rightarrow> state list \<Rightarrow> letters \<Rightarrow> bool" where
  "accepts u c S w \<longleftrightarrow> (\<exists>r es. run_over c S w r es \<and> accepting_run u es)"

text \<open>What the expansion of the first node gives.\<close>

definition tableau_ok :: "ltl \<Rightarrow> nat \<Rightarrow> nat \<Rightarrow> state list \<Rightarrow> bool" where
  "tableau_ok g u c S \<longleftrightarrow>
     tableau_formula u g \<and> (\<exists>c'. states_ok g u c' S) \<and> states_sound u S \<and> (\<forall>q \<in> set S. complete u S q) \<and>
     (\<exists>q \<in> set S. st_id q = c \<and> st_next q = [(Some [], g)])"

definition first_node :: "nat \<Rightarrow> nat \<Rightarrow> ltl \<Rightarrow> node" where
  "first_node u c g = (fresh_node u c)\<lparr>n_next := [(Some [], g)]\<rparr>"

lemma first_node_ok: "node_ok g u (first_node u c g)"
  by (simp add: first_node_def fresh_node_def node_ok_def literals_only_def)

lemma first_node_simps [simp]:
  "n_id (first_node u c g) = c" "n_incoming (first_node u c g) = []" "n_todo (first_node u c g) = []"
  "n_next (first_node u c g) = [(Some [], g)]" "n_rights (first_node u c g) = replicate u False"
  by (simp_all add: first_node_def fresh_node_def)

lemma no_states [simp]: "states_ok g u c []" "states_sound u []" "find_twin n [] = None" "ids [] = {}"
  by (simp_all add: states_ok_def states_sound_def find_twin_def ids_def)

lemma expands_first:
  assumes form: "tableau_formula u g" and e: "expands g u (first_node u c g) (Suc c) [] c' S"
  shows "tableau_ok g u c S"
proof -
  let ?n = "first_node u c g"
  have fits: "fits ?n (Suc c) []" by (simp add: fits_def)
  have ok: "states_ok g u c' S" using expands_ok [OF e no_states(1) fits] by simp
  have "enough u ?n [] S" using expands_complete [OF e no_states(1) fits] .
  then have comp: "\<forall>q \<in> set S. complete u S q" by (simp add: enough_def)
  have sound: "states_sound u S"
    using expands_sound [OF e form no_states(1) fits] by (simp add: rights_sound_def node_sound_def)
  have "\<exists>q \<in> set S. st_id q = c \<and> st_next q = [(Some [], g)]"
    using e
  proof (cases rule: expands.cases)
    case fresh
    have s: "states_ok g u (Suc (Suc c)) (set_insert state_less (state_of_node u ?n) [])"
      "fits (next_node u ?n (Suc c)) (Suc (Suc c)) (set_insert state_less (state_of_node u ?n) [])"
      using states_ok_insert [OF no_states(1) fits first_node_ok] fits_next [OF fits no_states(1)] by blast+
    have "grow (set_insert state_less (state_of_node u ?n) []) S"
      using expands_ok [OF fresh(4) s] by (simp add: found_in_def)
    then show ?thesis by (auto simp: grow_def state_kept_def)
  qed (simp_all add: pops_def)
  then show ?thesis using form ok comp sound by (auto simp: tableau_ok_def)
qed

section \<open>Every word of the formula is accepted\<close>

lemma waited_keys:
  assumes form: "tableau_formula u g" and ok: "states_ok g u c S" and q: "q \<in> set S" "q' \<in> set S"
    and f: "f \<in> keys (st_next q)" "waits_for j f" and f': "f' \<in> keys (st_next q')" "waits_for j f'"
  shows "holds w i (right_of f) = holds w i (right_of f')" "j < u"
proof -
  obtain p where p: "p \<in> set (st_next q)" "f = key (snd p)" using f(1) unfolding keys_def by blast
  obtain p' where p': "p' \<in> set (st_next q')" "f' = key (snd p')" using f'(1) unfolding keys_def by blast
  have ptr: "pointer_in g p" "pointer_in g p'" using ok q p(1) p'(1) by (auto simp: states_ok_def state_ok_def)
  have w: "waits_for j (snd p)" "waits_for j (snd p')" using f(2) f'(2) p(2) p'(2) by simp_all
  have r: "pointer_in g (right_ptr p)" "pointer_in g (right_ptr p')"
    and j: "j \<in> set (u_indexes (snd (right_ptr p)))" "j \<in> set (u_indexes (snd (right_ptr p')))"
    using w ptr waits_pointer by blast+
  have "right_of (snd p) = right_of (snd p')" using waited_same [OF form r j] by simp
  then show "holds w i (right_of f) = holds w i (right_of f')" using p(2) p'(2) by simp
  show "j < u" using waited_right [OF form r(1) j(1)] by blast
qed

lemma choose_run:
  assumes t: "tableau_ok g u c S" and h: "holds w 0 g"
  shows "\<exists>r es. run_over c S w r es \<and> (\<forall>i. all_hold w i (st_next (r i))) \<and>
    (\<forall>i. steps_to u w i (st_id (r i)) (es i) (r (Suc i)))"
proof -
  define P where "P i x \<longleftrightarrow> fst x \<in> set S \<and> all_hold w i (st_next (fst x)) \<and> (i = 0 \<longrightarrow> st_id (fst x) = c)"
    for i and x :: "state \<times> edge"
  define Q where "Q i x y \<longleftrightarrow> steps_to u w i (st_id (fst x)) (snd y) (fst y)" for i and x y :: "state \<times> edge"
  have "\<exists>f. \<forall>i. P i (f i) \<and> Q i (f i) (f (Suc i))"
  proof (rule dependent_nat_choice)
    obtain q where "q \<in> set S" "st_id q = c" "st_next q = [(Some [], g)]"
      using t by (auto simp: tableau_ok_def)
    then show "\<exists>x. P 0 x" using h by (intro exI [of _ "(q, undefined)"]) (simp add: P_def)
  next
    fix x i assume x: "P i x"
    then have "complete u S (fst x)" using t by (auto simp: tableau_ok_def P_def)
    then obtain q e where "q \<in> set S" "steps_to u w i (st_id (fst x)) e q"
      using x unfolding complete_def can_step_def P_def by blast
    then show "\<exists>y. P (Suc i) y \<and> Q i x y"
      by (intro exI [of _ "(q, e)"]) (auto simp: P_def Q_def steps_to_def)
  qed
  then obtain f where f: "\<And>i. P i (f i)" "\<And>i. Q i (f i) (f (Suc i))" by blast
  have s: "steps_to u w i (st_id (fst (f i))) (snd (f (Suc i))) (fst (f (Suc i)))" for i
    using f(2) [of i] by (simp add: Q_def)
  have "run_over c S w (fst \<circ> f) (\<lambda>i. snd (f (Suc i)))"
    using f(1) s unfolding run_over_def P_def steps_to_def by (auto simp: P_def)
  then show ?thesis using f(1) s
    by (intro exI [of _ "fst \<circ> f"] exI [of _ "\<lambda>i. snd (f (Suc i))"]) (auto simp: P_def)
qed

lemma holds_accepts:
  assumes t: "tableau_ok g u c S" and h: "holds w 0 g"
  shows "accepts u c S w"
proof -
  obtain r es where r: "run_over c S w r es" "\<And>i. all_hold w i (st_next (r i))"
    "\<And>i. steps_to u w i (st_id (r i)) (es i) (r (Suc i))"
    using choose_run [OF t h] by blast
  obtain c' where ok: "states_ok g u c' S" and form: "tableau_formula u g" using t by (auto simp: tableau_ok_def)
  have in_S: "r i \<in> set S" for i using r(1) by (simp add: run_over_def)
  have "\<exists>k \<ge> i. e_acc (es k) ! j" if j: "j < u" for i j
  proof (rule ccontr)
    assume n: "\<not> (\<exists>k \<ge> i. e_acc (es k) ! j)"
    have wait: "\<exists>f \<in> keys (st_next (r (Suc k))). waits_for j f \<and> \<not> holds w k (right_of f)" if "k \<ge> i" for k
      using r(3) [of k] n j that unfolding steps_to_def by blast
    obtain f where f: "f \<in> keys (st_next (r (Suc i)))" "waits_for j f" using wait [of i] by auto
    have "holds w (Suc i) f" using r(2) [of "Suc i"] f(1) by (simp add: all_hold_def)
    then obtain m where m: "m \<ge> Suc i" "holds w m (right_of f)"
      using f(2) by (cases f) (auto simp: waits_for_def)
    obtain f' where f': "f' \<in> keys (st_next (r (Suc m)))" "waits_for j f'" "\<not> holds w m (right_of f')"
      using wait [of m] m(1) by auto
    show False using waited_keys(1) [OF form ok in_S in_S f f'(1,2)] m(2) f'(3) by blast
  qed
  then have "accepting_run u es" by (simp add: accepting_run_def)
  then show ?thesis using r(1) unfolding accepts_def by blast
qed

section \<open>Every word that is accepted is a word of the formula\<close>

definition now :: "(nat \<Rightarrow> state) \<Rightarrow> (nat \<Rightarrow> edge) \<Rightarrow> nat \<Rightarrow> ltl \<Rightarrow> bool" where
  "now r es i f \<longleftrightarrow> ent {} (label_shapes (e_label (es i))) (keys (st_next (r (Suc i)))) f"

definition later :: "(nat \<Rightarrow> state) \<Rightarrow> nat \<Rightarrow> ltl \<Rightarrow> bool" where
  "later r i f \<longleftrightarrow> key f \<in> keys (st_next (r i))"

lemma now_cases:
  "now r es i (Binary u Until n l x) \<longleftrightarrow>
    now r es i x \<or> now r es i l \<and> later r (Suc i) (Binary u Until n l x)"
  "now r es i (Binary u Release n l x) \<longleftrightarrow>
    now r es i x \<and> (now r es i l \<or> later r (Suc i) (Binary u Release n l x))"
  "now r es i (Unary u Next f) \<longleftrightarrow> later r (Suc i) f"
  "now r es i (Unary u Neg f) \<longleftrightarrow> shape (Unary u Neg f) \<in> label_shapes (e_label (es i))"
  "now r es i (Atom u s) \<longleftrightarrow> Atom [] s \<in> label_shapes (e_label (es i))"
  by (simp_all add: now_def later_def)

lemma later_now:
  assumes run: "run_over c S w r es" and s: "states_sound u S" and l: "later r i f"
  shows "now r es i f" "j < u \<Longrightarrow> waits_for j f \<Longrightarrow> e_acc (es i) ! j \<Longrightarrow> now r es i (right_of f)"
proof -
  have "edge_sound u (label_shapes (e_label (es i))) (keys (st_next (r (Suc i)))) (e_acc (es i)) (key f)"
    using run s l unfolding run_over_def states_sound_def later_def by metis
  then show "now r es i f" "j < u \<Longrightarrow> waits_for j f \<Longrightarrow> e_acc (es i) ! j \<Longrightarrow> now r es i (right_of f)"
    by (simp_all add: edge_sound_def now_def)
qed

lemma until_reached:
  assumes t: "tableau_ok g u c S" and run: "run_over c S w r es" and acc: "accepting_run u es"
    and n: "now r es i (Binary v Until k l x)"
  shows "\<exists>m \<ge> i. now r es m x \<and> (\<forall>j. i \<le> j \<and> j < m \<longrightarrow> now r es j l)"
proof (rule ccontr)
  let ?U = "Binary v Until k l x"
  assume never: "\<not> ?thesis"
  have s: "states_sound u S" and form: "tableau_formula u g" and ok: "\<exists>c'. states_ok g u c' S"
    using t by (auto simp: tableau_ok_def)
  have all: "now r es (i + m) ?U \<and> (\<forall>j. i \<le> j \<and> j < i + m \<longrightarrow> now r es j l)" for m
  proof (induction m)
    case (Suc m)
    have "\<not> now r es (i + m) x" using never Suc by force
    then have "now r es (i + m) l" "later r (Suc (i + m)) ?U" using Suc now_cases(1) by blast+
    then show ?case using Suc later_now(1) [OF run s] by (auto simp: less_Suc_eq)
  qed (use n in auto)
  have notx: "\<not> now r es (i + m) x" for m using never all [of m] by force
  then have lat: "later r (Suc (i + m)) ?U" for m using all [of m] now_cases(1) by blast
  obtain p where p: "p \<in> set (st_next (r (Suc i)))" "key ?U = key (snd p)"
    using lat [of 0] unfolding later_def keys_def by auto
  have ptr: "pointer_in g p"
    using ok run p(1) unfolding run_over_def states_ok_def state_ok_def by blast
  obtain v' k' l' x' where b: "snd p = Binary v' Until k' l' x'" using p(2) by (cases "snd p") auto
  then obtain j where j: "j < u" "u_indexes x' = [j]" using until_index [OF form ptr b] by blast
  have "waits_for j (key ?U)" using p(2) b j(2) by (simp add: waits_for_def)
  then have w: "waits_for j ?U" by (simp only: waits_for_key)
  obtain m where m: "m \<ge> Suc i" "e_acc (es m) ! j" using acc j(1) by (auto simp: accepting_run_def)
  then obtain m' where "m = Suc (i + m')" by (metis add_Suc le_Suc_ex)
  then have "now r es m x" using later_now(2) [OF run s lat j(1) w] m(2) by simp
  then show False using notx [of "Suc m'"] \<open>m = Suc (i + m')\<close> by simp
qed

lemma release_kept:
  assumes run: "run_over c S w r es" and s: "states_sound u S"
    and n: "now r es i (Binary v Release k l x)"
  shows "now r es (i + m) x \<or> (\<exists>j. i \<le> j \<and> j < i + m \<and> now r es j l)"
proof -
  have "now r es (i + m) (Binary v Release k l x) \<or> (\<exists>j. i \<le> j \<and> j < i + m \<and> now r es j l)"
  proof (induction m)
    case (Suc m)
    then show ?case
    proof
      assume "now r es (i + m) (Binary v Release k l x)"
      then have "now r es (i + m) l \<or> later r (Suc (i + m)) (Binary v Release k l x)"
        using now_cases(2) by blast
      then show ?case
      proof
        assume "now r es (i + m) l"
        then show ?case by (intro disjI2 exI [of _ "i + m"]) auto
      qed (use later_now(1) [OF run s] in auto)
    qed (auto intro: less_SucI)
  qed (use n in simp)
  then show ?thesis using now_cases(2) by blast
qed

lemma now_holds:
  assumes t: "tableau_ok g u c S" and run: "run_over c S w r es" and acc: "accepting_run u es"
  shows "now r es i f \<Longrightarrow> holds w i f"
proof (induction f arbitrary: i)
  case Null
  then show ?case by (simp add: now_def)
next
  case (Boolean v b)
  then show ?case by (simp add: now_def)
next
  case (Atom v s)
  then obtain p where "p \<in> set (e_label (es i))" "shape (snd p) = shape (Atom v s)"
    by (auto simp: now_cases label_shapes_def)
  then show ?case using run shape_holds [of "snd p" "Atom v s"] by (auto simp: run_over_def)
next
  case (Unary v p f)
  have s: "states_sound u S" using t by (simp add: tableau_ok_def)
  show ?case
  proof (cases p)
    case Neg
    then obtain q where "q \<in> set (e_label (es i))" "shape (snd q) = shape (Unary v Neg f)"
      using Unary.prems by (auto simp: now_cases label_shapes_def)
    then show ?thesis using run shape_holds [of "snd q" "Unary v Neg f"] Neg by (auto simp: run_over_def)
  next
    case Next
    then show ?thesis
      using Unary later_now(1) [OF run s] by (simp add: now_cases)
  qed (use Unary.prems in \<open>simp_all add: now_def\<close>)
next
  case (Binary v p k l x)
  have s: "states_sound u S" using t by (simp add: tableau_ok_def)
  show ?case
  proof (cases p)
    case Until
    then obtain m where "m \<ge> i" "now r es m x" "\<forall>j. i \<le> j \<and> j < m \<longrightarrow> now r es j l"
      using until_reached [OF t run acc, of i v k l x] Binary.prems by auto
    then have "m \<ge> i" "holds w m x" "\<forall>j. i \<le> j \<and> j < m \<longrightarrow> holds w j l" using Binary.IH by blast+
    then show ?thesis using Until by auto
  next
    case Release
    have "holds w m x \<or> (\<exists>j. i \<le> j \<and> j < m \<and> holds w j l)" if "m \<ge> i" for m
      using release_kept [OF run s, of i v k l x "m - i"] Binary Release that by auto
    then show ?thesis using Release by simp
  qed (use Binary in \<open>auto simp: now_def\<close>)
qed

lemma accepts_holds:
  assumes t: "tableau_ok g u c S" and a: "accepts u c S w"
  shows "holds w 0 g"
proof -
  obtain r es where run: "run_over c S w r es" and acc: "accepting_run u es"
    using a unfolding accepts_def by blast
  obtain q where q: "q \<in> set S" "st_id q = c" "st_next q = [(Some [], g)]" and s: "states_sound u S"
    and ok: "\<exists>c'. states_ok g u c' S"
    using t by (auto simp: tableau_ok_def)
  have "r 0 = q"
    using run q(1,2) ok by (auto simp: run_over_def states_ok_def distinct_map inj_on_def)
  then have "later r 0 g" using q(3) by (simp add: later_def)
  then show ?thesis using now_holds [OF t run acc later_now(1) [OF run s]] by blast
qed

lemma tableau_language:
  assumes "whole f" "proper f" "tableau k neg f c = Some (g, u, S)"
  shows "tableau_ok g u c S \<and> (accepts u c S w \<longleftrightarrow> holds w 0 f \<noteq> neg)"
proof -
  obtain g' u' where l: "labelled_formula neg f = Some (g', u')" "tableau_formula u' g'"
    and meaning: "\<forall>w i. holds w i g' = (holds w i f \<noteq> neg)"
    using labelled_formula_ok [OF assms(1,2), of neg] by (elim exE conjE)
  obtain c' where e: "expand k u' (first_node u' c g') (Suc c, []) = Some (c', S)" "g = g'" "u = u'"
    using assms(3) l(1) by (auto simp: tableau_def first_node_def split: bind_splits)
  have t: "tableau_ok g u c S"
    using expands_first [OF l(2) expand_expands [OF l(2) first_node_ok e(1)]] e(2,3) by simp
  have "accepts u c S w \<longleftrightarrow> holds w 0 g" using accepts_holds [OF t] holds_accepts [OF t] by blast
  moreover have "holds w 0 g = (holds w 0 f \<noteq> neg)" using meaning e(2) by simp
  ultimately show ?thesis using t by simp
qed

end
