(* ===== verification/LtlTerminates.thy ===== *)
theory LtlTerminates
  imports LtlLanguage
begin

text \<open>
  The expansion ends: a node that starts a new state waits for a set of formulas that no other state
  waits for, there are finitely many such sets, and the formulas to be done get smaller.
\<close>

definition subkeys :: "ltl \<Rightarrow> ltl set" where
  "subkeys g = {key h |h. \<exists>a. at_path g a = Some h}"

definition unused :: "ltl \<Rightarrow> state list \<Rightarrow> nat" where
  "unused g S = card (Pow (subkeys g) - (\<lambda>q. keys (st_next q)) ` set S)"

fun node_set :: "ltl \<Rightarrow> ltl set" where
  "node_set (Unary u p f) = insert (Unary u p f) (node_set f)"
| "node_set (Binary u p i l r) = insert (Binary u p i l r) (node_set l \<union> node_set r)"
| "node_set f = {f}"

lemma at_path_node: "at_path g a = Some h \<Longrightarrow> h \<in> node_set g"
proof (induction g a rule: at_path.induct)
  case (1 f)
  then show ?case by (cases f) auto
qed (auto split: if_splits)

lemma finite_node_set [simp]: "finite (node_set g)"
  by (induction g) auto

lemma card_node_set: "card (node_set g) \<le> 2 * size g + 1"
proof (induction g)
  case (Unary u p f)
  then have "card (insert (Unary u p f) (node_set f)) \<le> Suc (Suc (2 * size f))"
    using card_insert_le_m1 [of "2 * size f + 2" "node_set f"] by simp
  then show ?case by simp
next
  case (Binary u p i l r)
  then have "card (node_set l \<union> node_set r) \<le> 2 * size l + 1 + (2 * size r + 1)"
    using card_Un_le [of "node_set l" "node_set r"] by linarith
  then have "card (insert (Binary u p i l r) (node_set l \<union> node_set r)) \<le> 2 * size l + 2 * size r + 3"
    using card_insert_le_m1 [of "2 * size l + 2 * size r + 3" "node_set l \<union> node_set r"] by simp
  then show ?case by simp
qed auto

lemma subkeys_nodes: "subkeys g \<subseteq> key ` node_set g"
  unfolding subkeys_def using at_path_node by blast

lemma finite_subkeys [simp]: "finite (subkeys g)"
  using subkeys_nodes by (rule finite_subset) simp

lemma card_subkeys: "card (subkeys g) \<le> 2 * size g + 1"
  using card_mono [OF _ subkeys_nodes [of g]] card_image_le [of "node_set g" key] card_node_set [of g]
  by simp

lemma pointer_subkeys: "pointer_in g p \<Longrightarrow> key (snd p) \<in> subkeys g"
  by (auto simp: pointer_in_def subkeys_def)

lemma keys_subkeys: "\<forall>p \<in> set xs. pointer_in g p \<Longrightarrow> keys xs \<subseteq> subkeys g"
  unfolding keys_def using pointer_subkeys by (auto simp del: split_paired_All)

lemma unused_grow:
  assumes "grow S S'"
  shows "unused g S' \<le> unused g S"
proof -
  have "(\<lambda>q. keys (st_next q)) ` set S \<subseteq> (\<lambda>q. keys (st_next q)) ` set S'"
  proof
    fix K assume "K \<in> (\<lambda>q. keys (st_next q)) ` set S"
    then obtain q where q: "q \<in> set S" "K = keys (st_next q)" by blast
    then obtain q' where "q' \<in> set S'" "state_kept q q'" using assms by (auto simp: grow_def)
    then show "K \<in> (\<lambda>q. keys (st_next q)) ` set S'"
      using q(2) by (intro image_eqI [of _ _ q']) (simp_all add: state_kept_def)
  qed
  then show ?thesis unfolding unused_def by (intro card_mono) auto
qed

lemma next_new:
  assumes "node_ok g u n" "states_ok g u c S" "find_twin n S = None" "q \<in> set S"
  shows "keys (st_next q) \<noteq> keys (n_next n)"
proof
  assume e: "keys (st_next q) = keys (n_next n)"
  have "in_order (st_next q)" "in_order (n_next n)"
    using assms by (auto simp: node_ok_def states_ok_def state_ok_def)
  then have "same_next n q" using in_order_unique [of "st_next q" "n_next n"] e
    unfolding same_next_keys by metis
  then show False using assms(3,4) by (auto simp: find_twin_def find_None_iff)
qed

lemma unused_insert:
  assumes "node_ok g u n" "states_ok g u c S" "find_twin n S = None" "n_id n \<notin> ids S"
  shows "unused g (set_insert state_less (state_of_node u n) S) < unused g S"
proof -
  let ?K = "keys (n_next n)" and ?I = "(\<lambda>q. keys (st_next q)) ` set S"
  have "keys (st_next q) \<noteq> ?K" if "q \<in> set S" for q
    using next_new [OF assms(1-3) that] .
  then have new: "?K \<notin> ?I" by auto
  have "?K \<subseteq> subkeys g" using assms(1) pointer_subkeys by (auto simp: node_ok_def keys_def)
  then have "?K \<in> Pow (subkeys g) - ?I" using new by simp
  moreover have "(\<lambda>q. keys (st_next q)) ` set (set_insert state_less (state_of_node u n) S) = insert ?K ?I"
    using insert_state(1) [of "state_of_node u n" S] assms(4) by simp
  ultimately show ?thesis unfolding unused_def
    by (intro psubset_card_mono) auto
qed

lemma expands_total:
  assumes form: "tableau_formula u g"
  shows "unused g S = a \<Longrightarrow> work (n_todo n) = b \<Longrightarrow> node_ok g u n \<Longrightarrow> states_ok g u c S \<Longrightarrow> fits n c S \<Longrightarrow>
    \<exists>c' S'. expands g u n c S c' S'"
proof (induction a arbitrary: b n c S rule: less_induct)
  case (less a)
  note outer = less.IH
  from less.prems show ?case
  proof (induction b arbitrary: n c S rule: less_induct)
    case (less b)
    note inner = less.IH
    have IH: "\<exists>c' S'. expands g u m d T c' S'"
      if "unused g T \<le> unused g S" "work (n_todo m) < work (n_todo n)" "node_ok g u m" "states_ok g u d T"
        "fits m d T" for m d T
      using inner [OF _ _ _ that(3-5)] outer [OF _ _ _ that(3-5)] that(1,2) less.prems(1,2)
      by (metis le_neq_implies_less)
    show ?case
    proof (cases "n_todo n")
      case Nil
      show ?thesis
      proof (cases "find_twin n S")
        case None
        let ?S = "set_insert state_less (state_of_node u n) S"
        have "unused g ?S < a"
          using unused_insert [OF less.prems(3,4) None] less.prems(1,5) by (simp add: fits_def)
        then obtain c' S' where "expands g u (next_node u n c) (Suc c) ?S c' S'"
          using outer [OF _ _ _ node_ok_next [OF less.prems(3)] states_ok_insert [OF less.prems(4,5,3)]
              fits_next [OF less.prems(5,4)]] by blast
        then show ?thesis using expands.fresh [OF less.prems(3) Nil None] by blast
      next
        case (Some t)
        then show ?thesis using expands.twin [OF less.prems(3) Nil] by blast
      qed
    next
      case (Cons p rest)
      then have p: "pops g u n p rest" using form less.prems(3) by (simp add: pops_def)
      from expand_steps [OF p, of c] show ?thesis
      proof (elim disjE exE)
        assume "step_drops u n (snd p) c"
        then show ?thesis using expands.drop [OF p] by blast
      next
        fix n' X Y Z assume s: "step_goes g u n p rest c n' X Y Z"
        then have "work (n_todo n') < work (n_todo n)" by (simp add: step_goes_def succeeds_def)
        then obtain c' S' where "expands g u n' c S c' S'"
          using IH [OF order_refl _ step_nodes(1) [OF s] less.prems(4) fits_goes [OF s less.prems(5)]] by blast
        then show ?thesis using expands.goes [OF p s] by blast
      next
        fix n1 n2 X1 Y1 X2 assume s: "step_splits g u n p rest c n1 n2 X1 Y1 X2"
        then have w: "work (n_todo n1) < work (n_todo n)" "work (n_todo n2) < work (n_todo n)"
          and i: "n_id n1 = n_id n" by (simp_all add: step_splits_def succeeds_def)
        note ok = step_nodes(2) [OF s] and f = fits_splits [OF s less.prems(5,4)]
        obtain c1 S1 where e1: "expands g u n1 (Suc c) S c1 S1"
          using IH [OF order_refl w(1) _ states_ok_Suc [OF less.prems(4)] f(1)] ok by blast
        have one: "states_ok g u c1 S1" "found_in (Suc c) S c1 S1 (n_id n)"
          using expands_ok [OF e1 states_ok_Suc [OF less.prems(4)] f(1)] i by simp_all
        have "unused g S1 \<le> unused g S" using one(2) unused_grow by (simp add: found_in_def)
        then obtain c' S' where "expands g u n2 c1 S1 c' S'"
          using IH [OF _ w(2) _ one(1) fits_second [OF s less.prems(4,5) one(2)]] ok by blast
        then show ?thesis using expands.splits [OF p s e1] by blast
      qed
    qed
  qed
qed

lemma expands_expand:
  "expands g u n c S c' S' \<Longrightarrow> \<exists>b. \<forall>k \<ge> b. expand k u n (c, S) = Some (c', S')"
proof (induction rule: expands.induct)
  case (twin n S t c)
  have "expand k u n (c, S) = Some (c, merge_into u n t S)" if "k \<ge> 1" for k
    using that twin by (cases k) (simp_all add: expand_done)
  then show ?case by blast
next
  case (fresh n S c c' S')
  then obtain b where b: "\<forall>k \<ge> b. expand k u (next_node u n c)
      (Suc c, set_insert state_less (state_of_node u n) S) = Some (c', S')" by blast
  have "expand k u n (c, S) = Some (c', S')" if "k \<ge> Suc b" for k
    using that b fresh.hyps by (cases k) (simp_all add: expand_done)
  then show ?case by blast
next
  case (drop n p rest c S)
  have "expand k u n (c, S) = Some (c, S)" if "k \<ge> 1" for k
    using that drop by (cases k) (simp_all add: step_drops_def)
  then show ?case by blast
next
  case (goes n p rest c n' X Y Z S c' S')
  then obtain b where b: "\<forall>k \<ge> b. expand k u n' (c, S) = Some (c', S')" by blast
  have "expand k u n (c, S) = Some (c', S')" if "k \<ge> Suc b" for k
    using that b goes.hyps by (cases k) (simp_all add: step_goes_def)
  then show ?case by blast
next
  case (splits n p rest c n1 n2 X1 Y1 X2 S c1 S1 c' S')
  then obtain b1 b2 where b: "\<forall>k \<ge> b1. expand k u n1 (Suc c, S) = Some (c1, S1)"
    "\<forall>k \<ge> b2. expand k u n2 (c1, S1) = Some (c', S')" by blast
  have "expand k u n (c, S) = Some (c', S')" if "k \<ge> Suc (max b1 b2)" for k
    using that b splits.hyps by (cases k) (simp_all add: step_splits_def)
  then show ?case by blast
qed

lemma tableau_total:
  assumes "whole f" "proper f"
  shows "\<exists>b g u S. \<forall>k \<ge> b. tableau k neg f c = Some (g, u, S)"
proof -
  obtain g u where l: "labelled_formula neg f = Some (g, u)" "tableau_formula u g"
    using labelled_formula_ok [OF assms, of neg] by (elim exE conjE)
  have "fits (first_node u c g) (Suc c) []" by (simp add: fits_def)
  then obtain c' S where "expands g u (first_node u c g) (Suc c) [] c' S"
    using expands_total [OF l(2) refl refl first_node_ok no_states(1)] by blast
  then obtain b where "\<forall>k \<ge> b. expand k u (first_node u c g) (Suc c, []) = Some (c', S)"
    using expands_expand by blast
  then have "\<forall>k \<ge> b. tableau k neg f c = Some (g, u, S)"
    using l(1) by (simp add: tableau_def first_node_def)
  then show ?thesis by blast
qed

section \<open>The number of states\<close>

definition distinct_next :: "state list \<Rightarrow> bool" where
  "distinct_next S \<longleftrightarrow> inj_on (\<lambda>q. keys (st_next q)) (set S)"

lemma expands_distinct_next:
  "expands g u n c S c' S' \<Longrightarrow> states_ok g u c S \<Longrightarrow> fits n c S \<Longrightarrow> distinct_next S \<Longrightarrow> distinct_next S'"
proof (induction rule: expands.induct)
  case (twin n S t c)
  have e: "set (merge_into u n t S) = (\<lambda>s. if st_id s = st_id t then state_merge u n s else s) ` set S"
    unfolding merge_into_def by (rule set_map)
  have "inj_on ((\<lambda>q. keys (st_next q)) \<circ> (\<lambda>s. if st_id s = st_id t then state_merge u n s else s)) (set S)"
    using twin.prems(3) unfolding distinct_next_def inj_on_def by auto
  then show ?case unfolding distinct_next_def e by (rule inj_on_imageI)
next
  case (fresh n S c c' S')
  let ?S = "set_insert state_less (state_of_node u n) S"
  have new: "st_id (state_of_node u n) \<notin> ids S" using fresh.prems(2) by (simp add: fits_def)
  have "distinct_next ?S"
    using fresh.prems(3) insert_state(1) [OF new] next_new [OF fresh.hyps(1) fresh.prems(1) fresh.hyps(3)]
    unfolding distinct_next_def by (auto simp: inj_on_insert)
  then show ?case
    using fresh.IH states_ok_insert [OF fresh.prems(1,2) fresh.hyps(1)] fits_next [OF fresh.prems(2,1)]
    by blast
next
  case (goes n p rest c n' X Y Z S c' S')
  then show ?case using fits_goes by blast
next
  case (splits n p rest c n1 n2 X1 Y1 X2 S c1 S1 c' S')
  note f = fits_splits [OF splits.hyps(2) splits.prems(2,1)]
  note ok = states_ok_Suc [OF splits.prems(1)]
  have i: "n_id n1 = n_id n" using splits.hyps(2) by (simp add: step_splits_def)
  have one: "states_ok g u c1 S1" "found_in (Suc c) S c1 S1 (n_id n)"
    using expands_ok [OF splits.hyps(3) ok f(1)] i by simp_all
  show ?case
    using splits.IH(2) [OF one(1) fits_second [OF splits.hyps(2) splits.prems(1,2) one(2)]]
      splits.IH(1) [OF ok f(1) splits.prems(3)] by blast
qed

lemma tableau_size:
  assumes "whole f" "proper f" "tableau k neg f c = Some (g, u, S)"
  shows "length S \<le> 2 ^ (2 * size g + 1)"
proof -
  obtain g' u' where l: "labelled_formula neg f = Some (g', u')" "tableau_formula u' g'"
    using labelled_formula_ok [OF assms(1,2), of neg] by (elim exE conjE)
  obtain c' where e: "expand k u' (first_node u' c g') (Suc c, []) = Some (c', S)" "g = g'" "u = u'"
    using assms(3) l(1) by (auto simp: tableau_def first_node_def split: bind_splits)
  have x: "expands g u (first_node u c g) (Suc c) [] c' S"
    using expand_expands [OF l(2) first_node_ok e(1)] e(2,3) by simp
  have fits: "fits (first_node u c g) (Suc c) []" by (simp add: fits_def)
  have ok: "states_ok g u c' S" using expands_ok [OF x no_states(1) fits] by simp
  have d: "distinct_next S"
    using expands_distinct_next [OF x no_states(1) fits] by (simp add: distinct_next_def)
  have "length S = card (set S)"
    using ok by (simp add: states_ok_def distinct_map distinct_card)
  also have "\<dots> = card ((\<lambda>q. keys (st_next q)) ` set S)"
    using d by (simp add: distinct_next_def card_image)
  also have "\<dots> \<le> card (Pow (subkeys g))"
  proof (rule card_mono)
    show "(\<lambda>q. keys (st_next q)) ` set S \<subseteq> Pow (subkeys g)"
      using ok keys_subkeys unfolding states_ok_def state_ok_def by blast
  qed simp
  also have "\<dots> \<le> 2 ^ (2 * size g + 1)"
    using power_increasing [OF card_subkeys [of g], of "2 :: nat"] by (simp add: card_Pow)
  finally show ?thesis .
qed

end
