(* ===== verification/LtlGraphFacts.thy ===== *)
theory LtlGraphFacts
  imports LtlGraph LtlTerminates
begin

text \<open>
  The automata that are made of the tableau: numbering the states from 0 and turning the edges around
  keeps the language.
\<close>

section \<open>The states are in the order of their numbers\<close>

lemma sorted_insert_state:
  "sorted (map st_id S) \<Longrightarrow> sorted (map st_id (set_insert state_less q S))"
proof (induction S)
  case (Cons s S)
  have "st_id s \<le> st_id x" if "st_id s \<le> st_id q" "x \<in> set (set_insert state_less q S)" for x
    using insert_elements [of state_less q S] Cons.prems that by auto
  then show ?case using Cons
    by (cases "state_less q s"; cases "state_less s q") (auto simp: state_less_def [of q s] state_less_def [of s q])
qed simp

lemma expands_sorted: "expands g u n c S c' S' \<Longrightarrow> sorted (map st_id S) \<Longrightarrow> sorted (map st_id S')"
  by (induction rule: expands.induct) (simp_all add: sorted_insert_state)

definition numbered :: "nat \<Rightarrow> state list \<Rightarrow> bool" where
  "numbered c S \<longleftrightarrow> sorted (map st_id S) \<and> (\<forall>q \<in> set S. c \<le> st_id q)"

lemma tableau_numbered:
  assumes "whole f" "proper f" "tableau k neg f c = Some (g, u, S)"
  shows "numbered c S"
proof -
  obtain g' u' where l: "labelled_formula neg f = Some (g', u')" "tableau_formula u' g'"
    using labelled_formula_ok [OF assms(1,2), of neg] by (elim exE conjE)
  obtain c' where e: "expand k u' (first_node u' c g') (Suc c, []) = Some (c', S)"
    using assms(3) l(1) by (auto simp: tableau_def first_node_def split: bind_splits)
  have x: "expands g' u' (first_node u' c g') (Suc c) [] c' S"
    using expand_expands [OF l(2) first_node_ok e(1)] .
  have "fits (first_node u' c g') (Suc c) []" by (simp add: fits_def)
  then have "ids S \<subseteq> insert c {Suc c..<c'}"
    using expands_ok [OF x no_states(1)] by (simp add: found_in_def)
  then have "\<forall>q \<in> set S. c \<le> st_id q" unfolding ids_def by force
  then show ?thesis using expands_sorted [OF x] by (simp add: numbered_def)
qed

section \<open>New numbers\<close>

lemma option_all_Some: "option_all f xs = Some ys \<longleftrightarrow> list_all2 (\<lambda>x y. f x = Some y) xs ys"
proof (induction xs arbitrary: ys)
  case (Cons x xs)
  show ?case by (auto simp: list_all2_Cons1 Cons.IH [symmetric] split: bind_splits)
qed auto

lemma option_all_set:
  assumes "option_all f xs = Some ys"
  shows "set ys = {y. \<exists>x \<in> set xs. f x = Some y}"
proof -
  have "list_all2 (\<lambda>x y. f x = Some y) xs ys" using assms by (simp add: option_all_Some)
  then show ?thesis by (induction rule: list_all2_induct) auto
qed

lemma option_all_exists: "(\<forall>x \<in> set xs. \<exists>y. f x = Some y) \<Longrightarrow> \<exists>ys. option_all f xs = Some ys"
  by (induction xs) auto

lemma lookup_all_set:
  "lookup_all m ss = Some ts \<Longrightarrow> set ts = {t. \<exists>s \<in> set ss. map_of m s = Some t}"
  by (induction ss arbitrary: ts) (auto split: bind_splits)

lemma lookup_all_exists: "(\<forall>s \<in> set ss. \<exists>t. map_of m s = Some t) \<Longrightarrow> \<exists>ts. lookup_all m ss = Some ts"
  by (induction ss) auto

definition id_map :: "state list \<Rightarrow> (nat \<times> nat) list" where
  "id_map S = zip (map st_id S) [0..<length S]"

lemma id_map_lookup:
  assumes "distinct (map st_id S)"
  shows "map_of (id_map S) s = Some i \<longleftrightarrow> i < length S \<and> st_id (S ! i) = s"
  using assms map_of_zip_nth [of "map st_id S" "[0..<length S]" i]
  by (auto simp: id_map_def map_of_zip_nth dest!: map_of_SomeD simp: in_set_zip)

definition renumbered :: "state list \<Rightarrow> edge \<Rightarrow> edge \<Rightarrow> bool" where
  "renumbered S e e' \<longleftrightarrow>
     e_label e' = e_label e \<and> e_acc e' = e_acc e \<and>
     set (e_sources e') = {i. i < length S \<and> st_id (S ! i) \<in> set (e_sources e)}"

definition same_states :: "state list \<Rightarrow> state list \<Rightarrow> bool" where
  "same_states S T \<longleftrightarrow>
     length T = length S \<and>
     (\<forall>i < length S. st_id (T ! i) = i \<and> list_all2 (renumbered S) (st_edges (S ! i)) (st_edges (T ! i)))"

lemma renumber_edge_Some:
  assumes "distinct (map st_id S)" "renumber_edge (id_map S) e = Some e'"
  shows "renumbered S e e'"
proof -
  obtain ts where ts: "lookup_all (id_map S) (e_sources e) = Some ts" "e' = e\<lparr>e_sources := ts\<rparr>"
    using assms(2) by (auto simp: renumber_edge_def)
  have "set ts = {i. i < length S \<and> st_id (S ! i) \<in> set (e_sources e)}"
    using lookup_all_set [OF ts(1)] id_map_lookup [OF assms(1)] by auto
  then show ?thesis using ts(2) by (simp add: renumbered_def)
qed

lemma renumber_edge_exists:
  assumes "distinct (map st_id S)" "set (e_sources e) \<subseteq> ids S"
  shows "\<exists>e'. renumber_edge (id_map S) e = Some e'"
proof -
  have "\<exists>t. map_of (id_map S) s = Some t" if s: "s \<in> set (e_sources e)" for s
  proof -
    obtain q where "q \<in> set S" "st_id q = s" using assms(2) s by (auto simp: ids_def)
    then obtain i where "i < length S" "st_id (S ! i) = s" by (auto simp: in_set_conv_nth)
    then show ?thesis using id_map_lookup [OF assms(1)] by blast
  qed
  then show ?thesis using lookup_all_exists [of "e_sources e" "id_map S"] by (auto simp: renumber_edge_def)
qed

lemma sort_ids: "sorted (map st_id S) \<Longrightarrow> zip (sort (map st_id S)) [0..<length (sort (map st_id S))] = id_map S"
  by (simp add: id_map_def sorted_sort_id)

lemma make_tgba1_states:
  assumes "states_ok g u c' S" "numbered c S" "make_tgba1 u f S = Some a"
  shows "same_states S (t1_states a)"
proof -
  have d: "distinct (map st_id S)" using assms(1) by (simp add: states_ok_def)
  have "option_all (renumber_state (id_map S)) S = Some (t1_states a)"
    using assms(2,3) sort_ids [of S]
    by (auto simp: make_tgba1_def Let_def numbered_def split: bind_splits)
  then have all: "list_all2 (\<lambda>q q'. renumber_state (id_map S) q = Some q') S (t1_states a)"
    by (simp add: option_all_Some)
  have "st_id (t1_states a ! i) = i \<and> list_all2 (renumbered S) (st_edges (S ! i)) (st_edges (t1_states a ! i))"
    if i: "i < length S" for i
  proof -
    have "renumber_state (id_map S) (S ! i) = Some (t1_states a ! i)"      using list_all2_nthD [OF all i] .
    moreover have "map_of (id_map S) (st_id (S ! i)) = Some i" using id_map_lookup [OF d] i by blast
    ultimately obtain es where es: "option_all (renumber_edge (id_map S)) (st_edges (S ! i)) = Some es"
      "t1_states a ! i = (S ! i)\<lparr>st_id := i, st_edges := es\<rparr>"
      by (auto simp: renumber_state_def split: bind_splits)
    have "list_all2 (renumbered S) (st_edges (S ! i)) es"
      using es(1) renumber_edge_Some [OF d] by (auto simp: option_all_Some elim: list_all2_mono)
    then show ?thesis using es(2) by simp
  qed
  then show ?thesis using all by (auto simp: same_states_def dest: list_all2_lengthD)
qed

lemma make_tgba1_exists:
  assumes "states_ok g u c' S" "numbered c S"
  shows "\<exists>a. make_tgba1 u f S = Some a"
proof -
  have d: "distinct (map st_id S)" using assms(1) by (simp add: states_ok_def)
  have "\<exists>q'. renumber_state (id_map S) q = Some q'" if q: "q \<in> set S" for q
  proof -
    obtain i where i: "i < length S" "S ! i = q" using q by (auto simp: in_set_conv_nth)
    then have "map_of (id_map S) (st_id q) = Some i" using id_map_lookup [OF d] by blast
    moreover have "\<forall>e \<in> set (st_edges q). \<exists>e'. renumber_edge (id_map S) e = Some e'"
      using renumber_edge_exists [OF d] assms(1) q by (auto simp: states_ok_def state_ok_def edge_ok_def)
    then obtain es where "option_all (renumber_edge (id_map S)) (st_edges q) = Some es"
      using option_all_exists [of "st_edges q" "renumber_edge (id_map S)"] by blast
    ultimately show ?thesis by (simp add: renumber_state_def)
  qed
  then obtain T where "option_all (renumber_state (id_map S)) S = Some T"
    using option_all_exists [of S "renumber_state (id_map S)"] by blast
  then show ?thesis using assms(2) sort_ids [of S] by (auto simp: make_tgba1_def Let_def numbered_def)
qed

section \<open>Turning the edges around\<close>

definition table_adds :: "(nat \<Rightarrow> transition set) \<Rightarrow> transition list list \<Rightarrow> transition list list \<Rightarrow> bool" where
  "table_adds new table table' \<longleftrightarrow>
     length table' = length table \<and> (\<forall>s < length table. set (table' ! s) = set (table ! s) \<union> new s)"

lemma table_adds_trans:
  "table_adds A x y \<Longrightarrow> table_adds B y z \<Longrightarrow> table_adds (\<lambda>s. A s \<union> B s) x z"
  by (auto simp: table_adds_def)

lemma table_adds_cong: "table_adds A x y \<Longrightarrow> (\<And>s. A s = B s) \<Longrightarrow> table_adds B x y"
  by (simp add: table_adds_def)

lemma add_transition_adds:
  "add_transition t ss table = Some table' \<Longrightarrow> table_adds (\<lambda>s. if s \<in> set ss then {t} else {}) table table'"
proof (induction ss arbitrary: table)
  case (Cons r ss)
  then have r: "r < length table" and IH: "table_adds (\<lambda>s. if s \<in> set ss then {t} else {})
      (table[r := table ! r @ [t]]) table'" by (auto split: if_splits)
  have "table_adds (\<lambda>s. if s = r then {t} else {}) table (table[r := table ! r @ [t]])"
    using r by (auto simp: table_adds_def nth_list_update)
  from table_adds_trans [OF this IH] show ?case by (rule table_adds_cong) auto
qed (simp add: table_adds_def)

lemma add_transition_exists:
  "(\<forall>s \<in> set ss. s < length table) \<Longrightarrow> \<exists>table'. add_transition t ss table = Some table'"
  by (induction ss arbitrary: table) auto

definition edge_transitions :: "lptr list \<Rightarrow> nat \<Rightarrow> edge list \<Rightarrow> nat \<Rightarrow> transition set" where
  "edge_transitions trivial q es s =
     {t. \<exists>e \<in> set es. s \<in> set (e_sources e) \<and> make_transition trivial q e = Some t}"

lemma add_edges_adds:
  "add_edges trivial q es table = Some table' \<Longrightarrow> table_adds (edge_transitions trivial q es) table table'"
proof (induction es arbitrary: table)
  case (Cons e es)
  then obtain t table1 where t: "make_transition trivial q e = Some t"
    and a: "add_transition t (e_sources e) table = Some table1"
    and b: "add_edges trivial q es table1 = Some table'" by (auto split: bind_splits)
  from table_adds_trans [OF add_transition_adds [OF a] Cons.IH [OF b]] show ?case
    by (rule table_adds_cong) (use t in \<open>auto simp: edge_transitions_def\<close>)
qed (simp add: table_adds_def edge_transitions_def)

definition edges_fine :: "lptr list \<Rightarrow> nat \<Rightarrow> edge list \<Rightarrow> bool" where
  "edges_fine trivial n es \<longleftrightarrow>
     (\<forall>e \<in> set es. (\<forall>s \<in> set (e_sources e). s < n) \<and> (\<forall>q. make_transition trivial q e \<noteq> None))"

lemma add_edges_exists:
  "edges_fine trivial (length table) es \<Longrightarrow> \<exists>table'. add_edges trivial q es table = Some table'"
proof (induction es arbitrary: table)
  case (Cons e es)
  obtain t where t: "make_transition trivial q e = Some t"    using Cons.prems unfolding edges_fine_def by (meson list.set_intros(1) not_Some_eq)
  obtain table1 where a: "add_transition t (e_sources e) table = Some table1"
    using add_transition_exists [of "e_sources e" table t] Cons.prems by (auto simp: edges_fine_def)
  have "length table1 = length table" using add_transition_adds [OF a] by (simp add: table_adds_def)
  moreover have "edges_fine trivial (length table) es" using Cons.prems by (simp add: edges_fine_def)
  ultimately obtain table2 where "add_edges trivial q es table1 = Some table2"
    using Cons.IH [of table1] by auto
  then show ?case using t a by simp
qed simp

lemma add_states_adds:
  "add_states trivial T table = Some table' \<Longrightarrow>
    table_adds (\<lambda>s. {t. \<exists>q \<in> set T. t \<in> edge_transitions trivial (st_id q) (st_edges q) s}) table table'"
proof (induction T arbitrary: table)
  case (Cons q T)
  then obtain table1 where a: "add_edges trivial (st_id q) (st_edges q) table = Some table1"
    and b: "add_states trivial T table1 = Some table'" by (auto split: bind_splits)
  from table_adds_trans [OF add_edges_adds [OF a] Cons.IH [OF b]] show ?case
    by (rule table_adds_cong) auto
qed (simp add: table_adds_def)

lemma add_states_exists:
  "(\<forall>q \<in> set T. edges_fine trivial (length table) (st_edges q)) \<Longrightarrow> \<exists>table'. add_states trivial T table = Some table'"
proof (induction T arbitrary: table)
  case (Cons q T)
  then obtain table1 where a: "add_edges trivial (st_id q) (st_edges q) table = Some table1"
    using add_edges_exists [of trivial table "st_edges q" "st_id q"] by auto
  have "length table1 = length table" using add_edges_adds [OF a] by (simp add: table_adds_def)
  then show ?case using Cons a by simp
qed simp

lemma out_transitions_set:
  assumes "out_transitions a = Some table"
  shows "length table = length (t1_states a)"
    and "s < length table \<Longrightarrow> set (table ! s) =
      {t. \<exists>q \<in> set (t1_states a). t \<in> edge_transitions (t1_trivial a) (st_id q) (st_edges q) s}"
  using add_states_adds [OF assms [unfolded out_transitions_def]] by (simp_all add: table_adds_def)

section \<open>Literals by number\<close>

lemma index_from_Some:
  "index_from i wanted ls = Some (b, k) \<Longrightarrow> i \<le> k \<and> k < i + length ls \<and>
    (if b then ltl_string (snd (ls ! (k - i))) = wanted else ''!'' @ ltl_string (snd (ls ! (k - i))) = wanted)"
proof (induction i wanted ls arbitrary: b k rule: index_from.induct)
  case (2 i wanted l ls)
  show ?case
  proof (cases "ltl_string (snd l) = wanted \<or> ''!'' @ ltl_string (snd l) = wanted")
    case True
    then show ?thesis using 2(2) by (auto split: if_splits)
  next
    case False
    then have "index_from (Suc i) wanted ls = Some (b, k)" using 2(2) by (simp split: if_splits)
    then have IH: "Suc i \<le> k" "k < Suc i + length ls"
      "if b then ltl_string (snd (ls ! (k - Suc i))) = wanted
       else ''!'' @ ltl_string (snd (ls ! (k - Suc i))) = wanted"
      using 2(1) False by auto
    have "(l # ls) ! (k - i) = ls ! (k - Suc i)" using IH(1) by (simp add: nth_Cons' Suc_diff_Suc)
    then show ?thesis using IH by (cases b) simp_all
  qed
qed simp

lemma index_from_found:
  "\<exists>l \<in> set ls. ltl_string (snd l) = wanted \<or> ''!'' @ ltl_string (snd l) = wanted \<Longrightarrow>
    \<exists>b k. index_from i wanted ls = Some (b, k)"
  by (induction ls arbitrary: i) auto

definition plain_atoms :: "ltl \<Rightarrow> bool" where
  "plain_atoms g \<longleftrightarrow> (\<forall>v s. Atom v s \<in> node_set g \<longrightarrow> take 1 s \<noteq> ''!'')"

text \<open>A literal on an edge, and one whose text is not the negation of another.\<close>

definition edge_literal :: "ltl \<Rightarrow> lptr \<Rightarrow> bool" where
  "edge_literal g l \<longleftrightarrow> pointer_in g l \<and> is_literal (snd l) \<and> \<not> is_boolean (snd l)"

definition plain_literal :: "lptr \<Rightarrow> bool" where
  "plain_literal l \<longleftrightarrow>
     (\<exists>v s. take 1 s \<noteq> ''!'' \<and> (snd l = Atom v s \<or> (\<exists>u. snd l = Unary u Neg (Atom v s))))"

lemma edge_literal_plain:
  assumes "tableau_formula u g" "plain_atoms g" "edge_literal g l"
  shows "plain_literal l" and "is_unary Neg (snd l) \<Longrightarrow> edge_literal g (sub_ptr l)"
proof -
  have nf: "in_nf (snd l)" and ptr: "pointer_in g l" and lit: "is_literal (snd l)" "\<not> is_boolean (snd l)"
    using assms pointer_in_nf by (auto simp: edge_literal_def)
  have plain: "take 1 s \<noteq> ''!''" if "pointer_in g p" "snd p = Atom v s" for p v s
    using assms(2) that at_path_node by (fastforce simp: plain_atoms_def pointer_in_def)
  consider v s where "snd l = Atom v s" | u v s where "snd l = Unary u Neg (Atom v s)"
    using nf lit by (cases "snd l") (auto elim: is_atom.elims)
  note cases = this
  show "plain_literal l"
    using cases
  proof cases
    case 1
    then show ?thesis using plain [OF ptr] by (auto simp: plain_literal_def)
  next
    case 2
    then show ?thesis using plain [of "sub_ptr l"] pointer_in_parts(2) [OF ptr] by (auto simp: plain_literal_def)
  qed
  show "edge_literal g (sub_ptr l)" if "is_unary Neg (snd l)"
    using cases
  proof cases
    case 1
    then show ?thesis using that by simp
  next
    case 2
    then show ?thesis using pointer_in_parts(2) [OF ptr] by (simp add: edge_literal_def)
  qed
qed

lemma index_meaning:
  assumes "plain_literal l" "\<forall>t \<in> set ts. plain_literal t \<and> \<not> is_unary Neg (snd t)"
    and "index_of_literal l ts = Some (b, k)"
  shows "k < length ts \<and> holds w i (snd l) = (holds w i (snd (ts ! k)) = b)"
proof -
  have k: "k < length ts" and s: "if b then ltl_string (snd (ts ! k)) = ltl_string (snd l)
      else ''!'' @ ltl_string (snd (ts ! k)) = ltl_string (snd l)"
    using index_from_Some [OF assms(3) [unfolded index_of_literal_def]] by (auto split: if_splits)
  have "plain_literal (ts ! k)" "\<not> is_unary Neg (snd (ts ! k))" using assms(2) k by simp_all
  then obtain v x where t: "snd (ts ! k) = Atom v x" "take 1 x \<noteq> ''!''" by (auto simp: plain_literal_def)
  show ?thesis using assms(1) s t k by (cases b) (auto simp: plain_literal_def)
qed

lemma set_insert_index [simp]: "set (set_insert index_less x xs) = insert x (set xs)"
proof (induction xs)
  case (Cons y xs)
  have "index_less x y \<or> index_less y x \<or> x = y"
    by (cases x; cases y) (auto simp: index_less_def)
  then show ?case using Cons by auto
qed simp

lemma set_insert_all_index [simp]: "set (set_insert_all index_less xs ys) = set xs \<union> set ys"
  by (induction xs arbitrary: ys) (auto simp: set_insert_all_def)

lemma transition_meaning:
  assumes "make_transition ts q e = Some t" "\<forall>l \<in> set (e_label e). plain_literal l"
    and "\<forall>l \<in> set ts. plain_literal l \<and> \<not> is_unary Neg (snd l)"
  shows "tr_target t = q" "j \<in> set (tr_acc t) \<longleftrightarrow> j < length (e_acc e) \<and> e_acc e ! j"
    and "(\<forall>(b, k) \<in> set (tr_label t). k < length ts \<and> holds w i (snd (ts ! k)) = b) \<longleftrightarrow>
      (\<forall>l \<in> set (e_label e). holds w i (snd l))"
proof -
  obtain label where l: "option_all (\<lambda>l. index_of_literal l ts) (e_label e) = Some label"
    and t: "tr_target t = q" "tr_label t = set_insert_all index_less label []" "tr_acc t = acc_indexes (e_acc e)"
    using assms(1) by (auto simp: make_transition_def)
  show "tr_target t = q" by (rule t)
  show "j \<in> set (tr_acc t) \<longleftrightarrow> j < length (e_acc e) \<and> e_acc e ! j" by (auto simp: t acc_indexes_def)
  have some: "\<exists>x. index_of_literal y ts = Some x" if "y \<in> set (e_label e)" for y
    using l that by (induction "e_label e" arbitrary: label rule: list.induct; simp add: option_all_Some)
      (auto simp: list_all2_conv_all_nth in_set_conv_nth)
  have s: "set label = {x. \<exists>l \<in> set (e_label e). index_of_literal l ts = Some x}" using option_all_set [OF l] .
  show "(\<forall>(b, k) \<in> set (tr_label t). k < length ts \<and> holds w i (snd (ts ! k)) = b) \<longleftrightarrow>
      (\<forall>l \<in> set (e_label e). holds w i (snd l))" (is "?L \<longleftrightarrow> ?R")
  proof
    assume L: ?L
    show ?R
    proof
      fix y assume y: "y \<in> set (e_label e)"
      obtain b k where bk: "index_of_literal y ts = Some (b, k)" using some [OF y] by force
      then have "(b, k) \<in> set (tr_label t)" using s y by (auto simp: t)
      then show "holds w i (snd y)"
        using L index_meaning [OF _ assms(3) bk] assms(2) y by auto
    qed
  next
    assume R: ?R
    show ?L
    proof (intro ballI, clarify)
      fix b k assume "(b, k) \<in> set (tr_label t)"
      then obtain y where y: "y \<in> set (e_label e)" "index_of_literal y ts = Some (b, k)"
        using s by (auto simp: t)
      then show "k < length ts \<and> holds w i (snd (ts ! k)) = b"
        using index_meaning [OF _ assms(3) y(2)] assms(2) R by auto
    qed
  qed
qed

section \<open>The literals of the automaton\<close>

lemma state_literals_foldl: "state_literals q found = foldl insert_literal found (concat (map e_label (st_edges q)))"
proof -
  have "fold edge_literals es found = foldl insert_literal found (concat (map e_label es))" for es
    by (induction es arbitrary: found) (simp_all add: edge_literals_def)
  then show ?thesis by (simp add: state_literals_def)
qed

definition all_labels :: "state list \<Rightarrow> lptr list" where
  "all_labels T = concat (map (\<lambda>q. concat (map e_label (st_edges q))) T)"

lemma literals_foldl: "fold state_literals T found = foldl insert_literal found (all_labels T)"
  by (induction T arbitrary: found) (simp_all add: state_literals_foldl all_labels_def)

lemma label_shapes_insert2 [simp]:
  "label_shapes (set_insert ptr_less2 p xs) = insert (shape (snd p)) (label_shapes xs)"
  by (simp add: label_shapes_def shapes_insert2)

lemma insert_literal_shapes:
  "label_shapes (insert_literal found l) =
    (if is_boolean (snd l) then label_shapes found
     else insert (shape (snd l)) (if is_unary Neg (snd l) then insert (shape (sub_exp (snd l))) (label_shapes found)
                                  else label_shapes found))"
  by (auto simp: insert_literal_def Let_def)

lemma foldl_literal_shapes:
  "label_shapes found \<subseteq> label_shapes (foldl insert_literal found ls) \<and>
   (\<forall>l \<in> set ls. \<not> is_boolean (snd l) \<longrightarrow>
      shape (snd l) \<in> label_shapes (foldl insert_literal found ls) \<and>
      (is_unary Neg (snd l) \<longrightarrow> shape (sub_exp (snd l)) \<in> label_shapes (foldl insert_literal found ls)))"
proof (induction ls arbitrary: found)
  case (Cons l ls)
  have "label_shapes found \<subseteq> label_shapes (insert_literal found l)"
    "\<not> is_boolean (snd l) \<Longrightarrow> shape (snd l) \<in> label_shapes (insert_literal found l) \<and>
       (is_unary Neg (snd l) \<longrightarrow> shape (sub_exp (snd l)) \<in> label_shapes (insert_literal found l))"
    by (auto simp: insert_literal_shapes)
  then show ?case using Cons.IH [of "insert_literal found l"] by fastforce
qed simp

lemma foldl_literal_elements:
  assumes "\<forall>l \<in> set ls. P l \<and> (is_unary Neg (snd l) \<longrightarrow> P (sub_ptr l))" "\<forall>l \<in> set found. P l"
  shows "\<forall>l \<in> set (foldl insert_literal found ls). P l"
  using assms
proof (induction ls arbitrary: found)
  case (Cons l ls)
  have one: "\<forall>x \<in> set (set_insert ptr_less2 p xs). P x" if "P p" "\<forall>x \<in> set xs. P x" for p xs
    using insert_elements [of ptr_less2 p xs] that by blast
  have "P l" "is_unary Neg (snd l) \<Longrightarrow> P (sub_ptr l)" "\<forall>x \<in> set found. P x" using Cons.prems by simp_all
  note parts = this
  have two: "\<forall>x \<in> set (set_insert ptr_less2 l found). P x" using parts(1,3) by (rule one)
  have "\<forall>x \<in> set (insert_literal found l). P x"
  proof (cases "is_boolean (snd l)")
    case True
    then have "insert_literal found l = found" by (simp add: insert_literal_def)
    then show ?thesis using parts(3) by (simp only:)
  next
    case False
    show ?thesis
    proof (cases "is_unary Neg (snd l)")
      case True
      then have "insert_literal found l = set_insert ptr_less2 (sub_ptr l) (set_insert ptr_less2 l found)"
        using False by (simp add: insert_literal_def)
      then show ?thesis using one [OF parts(2) [OF True] two] by (simp only:)
    next
      case neg: False
      then have "insert_literal found l = set_insert ptr_less2 l found"
        using False by (simp add: insert_literal_def)
      then show ?thesis using two by (simp only:)
    qed
  qed
  then have "\<forall>x \<in> set (foldl insert_literal (insert_literal found l) ls). P x"
    using Cons.prems(1) by (intro Cons.IH) simp_all
  then show ?case by (simp only: foldl_Cons)
qed simp

lemma list_all2_elem:
  "list_all2 P xs ys \<Longrightarrow> x \<in> set xs \<Longrightarrow> \<exists>y \<in> set ys. P x y"
  "list_all2 P xs ys \<Longrightarrow> y \<in> set ys \<Longrightarrow> \<exists>x \<in> set xs. P x y"
  by (induction rule: list_all2_induct) auto

lemma all_labels_literals:
  assumes "states_ok g u c' S" "same_states S T"
  shows "\<forall>l \<in> set (all_labels T). edge_literal g l"
proof
  fix l assume "l \<in> set (all_labels T)"
  then obtain q e where q: "q \<in> set T" "e \<in> set (st_edges q)" "l \<in> set (e_label e)"
    by (auto simp: all_labels_def)
  then obtain i where i: "i < length S" "T ! i = q" using assms(2) by (auto simp: same_states_def in_set_conv_nth)
  then have "list_all2 (renumbered S) (st_edges (S ! i)) (st_edges q)" using assms(2) by (auto simp: same_states_def)
  from list_all2_elem(2) [OF this q(2)] obtain e0
    where e0: "e0 \<in> set (st_edges (S ! i))" "renumbered S e0 e" by blast
  then have "l \<in> set (e_label e0)" using q(3) by (simp add: renumbered_def)
  then show "edge_literal g l"
    using assms(1) i(1) e0(1) nth_mem [OF i(1)]
    unfolding states_ok_def state_ok_def edge_ok_def edge_literal_def by blast
qed

lemma trivial_plain:
  assumes "tableau_formula u g" "plain_atoms g" "states_ok g u c' S" "numbered c S" "make_tgba1 u f S = Some a"
  shows "\<forall>l \<in> set (t1_trivial a). plain_literal l \<and> \<not> is_unary Neg (snd l)"
proof -
  have t: "t1_trivial a = filter (\<lambda>l. \<not> is_unary Neg (snd l)) (foldl insert_literal [] (all_labels (t1_states a)))"
    using assms(5) by (auto simp: make_tgba1_def Let_def literals_foldl split: bind_splits)
  have "\<forall>l \<in> set (all_labels (t1_states a)). plain_literal l \<and> (is_unary Neg (snd l) \<longrightarrow> plain_literal (sub_ptr l))"
    using all_labels_literals [OF assms(3) make_tgba1_states [OF assms(3-5)]] edge_literal_plain [OF assms(1,2)] by blast
  then have "\<forall>l \<in> set (foldl insert_literal [] (all_labels (t1_states a))). plain_literal l"
    by (intro foldl_literal_elements) simp_all
  then show ?thesis by (simp add: t)
qed

lemma shape_string: "ltl_string (shape f) = ltl_string f"
  by (induction f) (simp_all split: bop.split)

lemma literal_found:
  assumes "states_ok g u c' S" "numbered c S" "make_tgba1 u f S = Some a" "tableau_formula u g"
    and "l \<in> set (all_labels (t1_states a))"
  shows "\<exists>x. index_of_literal l (t1_trivial a) = Some x"
proof -
  let ?ls = "foldl insert_literal [] (all_labels (t1_states a))"
  have t: "t1_trivial a = filter (\<lambda>l. \<not> is_unary Neg (snd l)) ?ls"
    using assms(3) by (auto simp: make_tgba1_def Let_def literals_foldl split: bind_splits)
  have l: "edge_literal g l" using all_labels_literals [OF assms(1) make_tgba1_states [OF assms(1-3)]] assms(5) by blast
  then have s: "shape (snd l) \<in> label_shapes ?ls"
    "is_unary Neg (snd l) \<Longrightarrow> shape (sub_exp (snd l)) \<in> label_shapes ?ls"
    using foldl_literal_shapes [of "[]" "all_labels (t1_states a)"] assms(5) by (auto simp: edge_literal_def)
  have neg: "is_unary Neg x \<longleftrightarrow> is_unary Neg (shape x)" for x by (cases x) simp_all
  have "\<exists>t \<in> set (t1_trivial a). ltl_string (snd t) = ltl_string (snd l) \<or> ''!'' @ ltl_string (snd t) = ltl_string (snd l)"
  proof (cases "is_unary Neg (snd l)")
    case True
    then obtain v x where x: "snd l = Unary v Neg x" by (cases "snd l") auto
    obtain t where t': "t \<in> set ?ls" "shape x = shape (snd t)" using s(2) True x by (auto simp: label_shapes_def)
    have "is_atom x" using l x pointer_in_nf [OF assms(4), of l] by (auto simp: edge_literal_def)
    then have "\<not> is_unary Neg (snd t)" using t'(2) neg [of "snd t"] neg [of x] by (cases x) auto
    moreover have "ltl_string (snd t) = ltl_string x" using t'(2) shape_string by metis
    ultimately show ?thesis using t t'(1) x by (intro bexI [of _ t]) simp_all
  next
    case False
    obtain t where t': "t \<in> set ?ls" "shape (snd l) = shape (snd t)" using s(1) by (auto simp: label_shapes_def)
    then have "\<not> is_unary Neg (snd t)" using False neg by metis
    moreover have "ltl_string (snd t) = ltl_string (snd l)" using t'(2) shape_string by metis
    ultimately show ?thesis using t t'(1) by (intro bexI [of _ t]) simp_all
  qed
  then show ?thesis using index_from_found unfolding index_of_literal_def by fastforce
qed

section \<open>The language of the automaton with outgoing transitions\<close>

definition out_run ::
    "nat \<Rightarrow> transition list list \<Rightarrow> lptr list \<Rightarrow> letters \<Rightarrow> (nat \<Rightarrow> nat) \<Rightarrow> (nat \<Rightarrow> transition) \<Rightarrow> bool" where
  "out_run start table ts w p tr \<longleftrightarrow>
     p 0 = start \<and>
     (\<forall>i. p i < length table \<and> tr i \<in> set (table ! p i) \<and> tr_target (tr i) = p (Suc i) \<and>
        (\<forall>(b, k) \<in> set (tr_label (tr i)). k < length ts \<and> holds w i (snd (ts ! k)) = b))"

definition accepts2 :: "tgba2 \<Rightarrow> letters \<Rightarrow> bool" where
  "accepts2 a w \<longleftrightarrow>
     (\<exists>p tr. out_run (t2_start a) (t2_states a) (t2_trivial a) w p tr \<and>
        (\<forall>j < t2_nacc a. \<forall>i. \<exists>k \<ge> i. j \<in> set (tr_acc (tr k))))"

text \<open>All that is known of the automata that are made of a tableau.\<close>

definition made_of :: "ltl \<Rightarrow> nat \<Rightarrow> nat \<Rightarrow> state list \<Rightarrow> tgba1 \<Rightarrow> bool" where
  "made_of g u c S a \<longleftrightarrow>
     tableau_formula u g \<and> plain_atoms g \<and> (\<exists>c'. states_ok g u c' S) \<and> numbered c S \<and> c \<in> ids S \<and>
     make_tgba1 u g S = Some a"

lemma make_transition_cong:
  "e_label e = e_label e' \<Longrightarrow> e_acc e = e_acc e' \<Longrightarrow> make_transition ts q e = make_transition ts q e'"
  by (simp add: make_transition_def)

lemma table_steps:
  assumes m: "made_of g u c S a" and t: "out_transitions a = Some table"
  shows "length table = length S"
    and "s < length S \<Longrightarrow> t \<in> set (table ! s) \<longleftrightarrow>
      (\<exists>q < length S. \<exists>e \<in> set (st_edges (S ! q)). st_id (S ! s) \<in> set (e_sources e) \<and>
         make_transition (t1_trivial a) q e = Some t)"
proof -
  have same: "same_states S (t1_states a)" using m make_tgba1_states by (auto simp: made_of_def)
  then have len: "length (t1_states a) = length S" by (simp add: same_states_def)
  show tl: "length table = length S" using out_transitions_set(1) [OF t] len by simp
  assume s: "s < length S"
  show "t \<in> set (table ! s) \<longleftrightarrow>
      (\<exists>q < length S. \<exists>e \<in> set (st_edges (S ! q)). st_id (S ! s) \<in> set (e_sources e) \<and>
         make_transition (t1_trivial a) q e = Some t)" (is "?L \<longleftrightarrow> ?R")
  proof
    assume ?L
    then obtain q' e' where q': "q' \<in> set (t1_states a)" "e' \<in> set (st_edges q')" "s \<in> set (e_sources e')"
      "make_transition (t1_trivial a) (st_id q') e' = Some t"
      using out_transitions_set(2) [OF t] s tl by (auto simp: edge_transitions_def)
    obtain q where q: "q < length S" "t1_states a ! q = q'" using q'(1) len by (auto simp: in_set_conv_nth)
    have "st_id q' = q" "list_all2 (renumbered S) (st_edges (S ! q)) (st_edges q')"
      using same q by (auto simp: same_states_def)
    moreover obtain e where e: "e \<in> set (st_edges (S ! q))" "renumbered S e e'"
      using list_all2_elem(2) [OF calculation(2) q'(2)] by blast
    moreover have "st_id (S ! s) \<in> set (e_sources e)" using e(2) q'(3) by (simp add: renumbered_def)
    moreover have "make_transition (t1_trivial a) q e = Some t"
      using q'(4) calculation(1) e(2) make_transition_cong [of e e'] by (simp add: renumbered_def)
    ultimately show ?R using q(1) by blast
  next
    assume ?R
    then obtain q e where q: "q < length S" "e \<in> set (st_edges (S ! q))" "st_id (S ! s) \<in> set (e_sources e)"
      "make_transition (t1_trivial a) q e = Some t" by blast
    have id: "st_id (t1_states a ! q) = q" and l: "list_all2 (renumbered S) (st_edges (S ! q)) (st_edges (t1_states a ! q))"
      using same q(1) by (auto simp: same_states_def)
    obtain e' where e': "e' \<in> set (st_edges (t1_states a ! q))" "renumbered S e e'"
      using list_all2_elem(1) [OF l q(2)] by blast
    have "s \<in> set (e_sources e')" using e'(2) q(3) s by (simp add: renumbered_def)
    moreover have "make_transition (t1_trivial a) q e' = Some t"
      using q(4) e'(2) make_transition_cong [of e e'] by (simp add: renumbered_def)
    moreover have "t1_states a ! q \<in> set (t1_states a)" using q(1) len by simp
    ultimately have "t \<in> edge_transitions (t1_trivial a) (st_id (t1_states a ! q)) (st_edges (t1_states a ! q)) s"
      using e'(1) id by (auto simp: edge_transitions_def)
    then show ?L using out_transitions_set(2) [OF t] s tl \<open>t1_states a ! q \<in> set (t1_states a)\<close> by auto
  qed
qed

lemma made_of_facts:
  assumes "made_of g u c S a"
  shows "distinct (map st_id S)" "\<forall>l \<in> set (t1_trivial a). plain_literal l \<and> \<not> is_unary Neg (snd l)"
    and "length (t1_acc_sets a) = u" "0 < length S" "st_id (S ! 0) = c"
proof -
  obtain c' where ok: "states_ok g u c' S" using assms by (auto simp: made_of_def)
  show d: "distinct (map st_id S)" using ok by (simp add: states_ok_def)
  show "\<forall>l \<in> set (t1_trivial a). plain_literal l \<and> \<not> is_unary Neg (snd l)"
    using trivial_plain [OF _ _ ok] assms by (auto simp: made_of_def)
  show "length (t1_acc_sets a) = u"
    using assms by (auto simp: made_of_def make_tgba1_def Let_def split: bind_splits)
  have c: "c \<in> st_id ` set S" "sorted (map st_id S)" "\<forall>q \<in> set S. c \<le> st_id q"
    using assms by (simp_all add: made_of_def ids_def numbered_def)
  then show pos: "0 < length S" by auto
  have "st_id (S ! 0) \<le> st_id q" if "q \<in> set S" for q
    using c(2) that sorted_nth_mono [of "map st_id S" 0] pos by (auto simp: in_set_conv_nth)
  then show "st_id (S ! 0) = c" using c(1,3) pos by (metis imageE le_antisym nth_mem)
qed

lemma in_all_labels:
  assumes "q \<in> set T" "e \<in> set (st_edges q)" "l \<in> set (e_label e)"
  shows "l \<in> set (all_labels T)"
  using assms by (force simp: all_labels_def)

lemma make_transition_target: "make_transition ts q e = Some t \<Longrightarrow> tr_target t = q"
  by (auto simp: make_transition_def split: bind_splits)

lemma made_edge:
  assumes "made_of g u c S a" "q < length S" "e \<in> set (st_edges (S ! q))"
  shows "\<exists>t. make_transition (t1_trivial a) q e = Some t" "\<forall>l \<in> set (e_label e). plain_literal l"
    and "length (e_acc e) = u"
proof -
  obtain c' where ok: "states_ok g u c' S" using assms(1) by (auto simp: made_of_def)
  have q: "S ! q \<in> set S" using assms(2) by simp
  have lits: "\<forall>l \<in> set (e_label e). edge_literal g l" and "length (e_acc e) = u"
    using ok q assms(3) unfolding states_ok_def state_ok_def edge_ok_def edge_literal_def by blast+
  then show "\<forall>l \<in> set (e_label e). plain_literal l" "length (e_acc e) = u"
    using edge_literal_plain(1) assms(1) by (auto simp: made_of_def)
  have same: "same_states S (t1_states a)" using assms(1) make_tgba1_states by (auto simp: made_of_def)
  then have l: "list_all2 (renumbered S) (st_edges (S ! q)) (st_edges (t1_states a ! q))"
    and q': "t1_states a ! q \<in> set (t1_states a)" using assms(2) by (auto simp: same_states_def)
  obtain e' where e': "e' \<in> set (st_edges (t1_states a ! q))" "renumbered S e e'"
    using list_all2_elem(1) [OF l assms(3)] by blast
  obtain c'' where made: "numbered c'' S" "make_tgba1 u g S = Some a" "tableau_formula u g"
    using assms(1) by (auto simp: made_of_def)
  have "\<forall>l \<in> set (e_label e). \<exists>x. index_of_literal l (t1_trivial a) = Some x"
  proof
    fix y assume "y \<in> set (e_label e)"
    then have "y \<in> set (e_label e')" using e'(2) by (simp add: renumbered_def)
    then have "y \<in> set (all_labels (t1_states a))"
      by (rule in_all_labels [OF q' e'(1)])
    then show "\<exists>x. index_of_literal y (t1_trivial a) = Some x"
      by (rule literal_found [OF ok made(1,2,3)])
  qed
  then show "\<exists>t. make_transition (t1_trivial a) q e = Some t"
    using option_all_exists [of "e_label e" "\<lambda>l. index_of_literal l (t1_trivial a)"]
    by (auto simp: make_transition_def)
qed

lemma out_transitions_exists:
  assumes "made_of g u c S a"
  shows "\<exists>table. out_transitions a = Some table"
proof -
  have same: "same_states S (t1_states a)" using assms make_tgba1_states by (auto simp: made_of_def)
  have "edges_fine (t1_trivial a) (length (t1_states a)) (st_edges q)" if state: "q \<in> set (t1_states a)" for q
    unfolding edges_fine_def
  proof
    fix e' assume e': "e' \<in> set (st_edges q)"
    obtain i where i: "i < length S" "t1_states a ! i = q"
      using state same unfolding same_states_def in_set_conv_nth by (elim exE conjE) simp
    then have l: "list_all2 (renumbered S) (st_edges (S ! i)) (st_edges q)"
      using same by (auto simp: same_states_def)
    obtain e where e: "e \<in> set (st_edges (S ! i))" "renumbered S e e'"
      using list_all2_elem(2) [OF l e'] by blast
    obtain t where "make_transition (t1_trivial a) i e = Some t" using made_edge(1) [OF assms i(1) e(1)] by blast
    then have "make_transition (t1_trivial a) r e' \<noteq> None" for r
      using e(2) by (auto simp: make_transition_def renumbered_def)
    then show "(\<forall>s \<in> set (e_sources e'). s < length (t1_states a)) \<and>
        (\<forall>r. make_transition (t1_trivial a) r e' \<noteq> None)"
      using e(2) same by (auto simp: renumbered_def same_states_def)
  qed
  then show ?thesis using add_states_exists by (auto simp: out_transitions_def)
qed

lemma accepts_table:
  assumes m: "made_of g u c S a" and t: "out_transitions a = Some table" and acc: "accepts u c S w"
  shows "\<exists>p tr. out_run 0 table (t1_trivial a) w p tr \<and> (\<forall>j < u. \<forall>i. \<exists>k \<ge> i. j \<in> set (tr_acc (tr k)))"
proof -
  obtain r es where run: "run_over c S w r es" and ar: "accepting_run u es"
    using acc by (auto simp: accepts_def)
  note facts = made_of_facts [OF m]
  have "\<exists>k. k < length S \<and> S ! k = r i" for i using run by (auto simp: run_over_def in_set_conv_nth)
  then obtain p where p: "\<And>i. p i < length S" "\<And>i. S ! p i = r i" by metis
  have e: "es i \<in> set (st_edges (S ! p (Suc i)))" "st_id (S ! p i) \<in> set (e_sources (es i))" for i
    using run p by (auto simp: run_over_def)
  obtain tr where tr: "\<And>i. make_transition (t1_trivial a) (p (Suc i)) (es i) = Some (tr i)"
    using made_edge(1) [OF m p(1) e(1)] by metis
  note mean = transition_meaning [OF tr made_edge(2) [OF m p(1) e(1)] facts(2)]
  have "map st_id S ! p 0 = map st_id S ! 0"
    using p [of 0] facts(4,5) run by (simp add: run_over_def)
  then have "p 0 = 0"
    using nth_eq_iff_index_eq [OF facts(1), of "p 0" 0] p(1) facts(4) by simp
  moreover have "tr i \<in> set (table ! p i)" for i
    using table_steps(2) [OF m t p(1)] p(1) e tr by blast
  moreover have "\<forall>(b, k) \<in> set (tr_label (tr i)). k < length (t1_trivial a) \<and> holds w i (snd (t1_trivial a ! k)) = b" for i
    using mean(3) [of i w i] run by (simp add: run_over_def)
  ultimately have "out_run 0 table (t1_trivial a) w p tr"
    using p(1) mean(1) table_steps(1) [OF m t] by (simp add: out_run_def)
  moreover have "j \<in> set (tr_acc (tr k))" if "j < u" "e_acc (es k) ! j" for j k
    using mean(2) [of j k] made_edge(3) [OF m p(1) e(1) [of k]] that by simp
  ultimately show ?thesis using ar by (meson accepting_run_def)
qed

lemma table_accepts:
  assumes m: "made_of g u c S a" and t: "out_transitions a = Some table"
    and run: "out_run 0 table (t1_trivial a) w p tr" and acc: "\<forall>j < u. \<forall>i. \<exists>k \<ge> i. j \<in> set (tr_acc (tr k))"
  shows "accepts u c S w"
proof -
  note facts = made_of_facts [OF m]
  have p: "p i < length S" for i using run table_steps(1) [OF m t] by (simp add: out_run_def)
  have "\<exists>e. e \<in> set (st_edges (S ! p (Suc i))) \<and> st_id (S ! p i) \<in> set (e_sources e) \<and>
      make_transition (t1_trivial a) (p (Suc i)) e = Some (tr i)" for i
  proof -
    have "tr i \<in> set (table ! p i)" "tr_target (tr i) = p (Suc i)" using run by (simp_all add: out_run_def)
    moreover obtain q e where q: "q < length S" "e \<in> set (st_edges (S ! q))" "st_id (S ! p i) \<in> set (e_sources e)"
      "make_transition (t1_trivial a) q e = Some (tr i)"
      using calculation(1) table_steps(2) [OF m t p] by blast
    moreover have "tr_target (tr i) = q" by (rule make_transition_target [OF q(4)])
    ultimately show ?thesis by auto
  qed
  then obtain es where e: "\<And>i. es i \<in> set (st_edges (S ! p (Suc i)))"
    "\<And>i. st_id (S ! p i) \<in> set (e_sources (es i))"
    "\<And>i. make_transition (t1_trivial a) (p (Suc i)) (es i) = Some (tr i)" by metis
  note mean = transition_meaning [OF e(3) made_edge(2) [OF m p e(1)] facts(2)]
  have "\<forall>l \<in> set (e_label (es i)). holds w i (snd l)" for i
    using mean(3) [of i w i] run by (simp add: out_run_def)
  then have "run_over c S w (\<lambda>i. S ! p i) es"
    using e p facts(5) run by (simp add: run_over_def out_run_def)
  moreover have "accepting_run u es"
    unfolding accepting_run_def
  proof (intro allI impI)
    fix j i assume "j < u"
    then obtain k where "k \<ge> i" "j \<in> set (tr_acc (tr k))" using acc by blast
    then show "\<exists>k \<ge> i. e_acc (es k) ! j" using mean(2) by blast
  qed
  ultimately show ?thesis unfolding accepts_def by blast
qed

lemma made_of_tableau:
  assumes "whole f" "proper f" "tableau k neg f c = Some (g, u, S)" "plain_atoms g" "make_tgba1 u g S = Some a"
  shows "made_of g u c S a"
proof -
  have t: "tableau_ok g u c S" using tableau_language [OF assms(1-3)] by blast
  then have "c \<in> ids S" by (auto simp: tableau_ok_def ids_def)
  then show ?thesis
    using t assms(4,5) tableau_numbered [OF assms(1-3)] by (simp add: made_of_def tableau_ok_def)
qed

lemma tgba2_language:
  assumes "whole f" "proper f" "tableau k neg f c = Some (g, u, S)" "plain_atoms g"
    and "make_tgba1 u g S = Some a" "make_tgba2 a = Some b"
  shows "accepts2 b w \<longleftrightarrow> holds w 0 f \<noteq> neg"
proof -
  have m: "made_of g u c S a" using made_of_tableau [OF assms(1-5)] .
  have t: "out_transitions a = Some (t2_states b)" "t2_start b = 0" "t2_trivial b = t1_trivial a"
    "t2_nacc b = u"
    using assms(6) made_of_facts(3) [OF m] by (auto simp: make_tgba2_def split: bind_splits)
  have "accepts2 b w \<longleftrightarrow> accepts u c S w"
    using accepts_table [OF m t(1)] table_accepts [OF m t(1)] unfolding accepts2_def t(2-4) by blast
  then show ?thesis using tableau_language [OF assms(1-3)] by simp
qed

end
