(* ===== verification/LtlSearch.thy ===== *)
theory LtlSearch
  imports LtlGraphFacts
begin

text \<open>
  The two searches of \<^verbatim>\<open>computeAccSCC\<close>: they return with the bound that the model gives them, and
  together they find the strongly connected components (the algorithm of Kosaraju and Sharir).
\<close>

section \<open>Paths\<close>

definition steps_in :: "(nat \<Rightarrow> nat list) \<Rightarrow> nat set \<Rightarrow> (nat \<times> nat) set" where
  "steps_in succs W = {(x, y). x \<in> W \<and> y \<in> W \<and> y \<in> set (succs x)}"

definition leads :: "(nat \<Rightarrow> nat list) \<Rightarrow> nat set \<Rightarrow> nat \<Rightarrow> nat \<Rightarrow> bool" where
  "leads succs W x y \<longleftrightarrow> (x, y) \<in> (steps_in succs W)\<^sup>*"

lemma leads_refl [simp, intro]: "leads succs W x x"
  by (simp add: leads_def)

lemma leads_trans: "leads succs W x y \<Longrightarrow> leads succs W y z \<Longrightarrow> leads succs W x z"
  by (simp add: leads_def)

lemma leads_step: "x \<in> W \<Longrightarrow> y \<in> W \<Longrightarrow> y \<in> set (succs x) \<Longrightarrow> leads succs W x y"
  by (auto simp: leads_def steps_in_def)

lemma leads_mono: "leads succs W x y \<Longrightarrow> W \<subseteq> X \<Longrightarrow> leads succs X x y"
  unfolding leads_def by (rule rtrancl_mono [THEN subsetD]) (auto simp: steps_in_def)

lemma leads_mirror:
  assumes "\<And>x y. x \<in> W \<Longrightarrow> y \<in> W \<Longrightarrow> y \<in> set (succs x) \<longleftrightarrow> x \<in> set (preds y)"
  shows "leads succs W x y \<longleftrightarrow> leads preds W y x"
proof -
  have "steps_in preds W = (steps_in succs W)\<inverse>" using assms by (auto simp: steps_in_def)
  then show ?thesis by (simp add: leads_def rtrancl_converse)
qed

lemma leads_starts: "leads succs W x y \<Longrightarrow> y \<in> W \<Longrightarrow> x \<in> W"
  unfolding leads_def by (erule converse_rtranclE) (auto simp: steps_in_def)

text \<open>A set that only leads to \<open>V\<close> is not left by a path that avoids the rest of \<open>V\<close>.\<close>

definition closed_in :: "(nat \<Rightarrow> nat list) \<Rightarrow> nat set \<Rightarrow> nat set \<Rightarrow> bool" where
  "closed_in succs X V \<longleftrightarrow> (\<forall>x \<in> X. set (succs x) \<subseteq> V)"

lemma closed_leads:
  assumes "leads succs W x y" "closed_in succs X V" "x \<in> X" "V \<inter> W \<subseteq> X"
  shows "y \<in> X"
  using assms(1) unfolding leads_def
proof (induction rule: rtrancl_induct)
  case base
  then show ?case using assms(3) .
next
  case (step y z)
  then show ?case using assms(2,4) by (auto simp: closed_in_def steps_in_def)
qed

text \<open>The order in which the states are left.\<close>

fun good_order :: "(nat \<Rightarrow> nat list) \<Rightarrow> nat list \<Rightarrow> bool" where
  "good_order succs [] \<longleftrightarrow> True"
| "good_order succs (r # L) \<longleftrightarrow>
     good_order succs L \<and> (\<forall>x \<in> set L. leads succs (set (r # L)) x r \<longrightarrow> leads succs (set (r # L)) r x)"

section \<open>One search\<close>

definition seen :: "search \<Rightarrow> nat set" where
  "seen d = {q. q < length (d_visited d) \<and> d_visited d ! q \<noteq> 0}"

definition search_ok :: "(nat \<Rightarrow> nat list) \<Rightarrow> nat \<Rightarrow> search \<Rightarrow> bool" where
  "search_ok succs n d \<longleftrightarrow>
     length (d_visited d) = n \<and> length (d_leaved d) = n \<and> distinct (d_found d) \<and>
     set (d_found d) \<subseteq> seen d \<and> closed_in succs (set (d_found d)) (seen d) \<and> good_order succs (d_found d)"

text \<open>The search goes from \<open>d\<close> to \<open>d'\<close>, starts at the states \<open>qs\<close> and leaves the states \<open>T\<close>.\<close>

definition searches :: "(nat \<Rightarrow> nat list) \<Rightarrow> nat set \<Rightarrow> search \<Rightarrow> nat list \<Rightarrow> search \<Rightarrow> bool" where
  "searches succs qs d T d' \<longleftrightarrow>
     d_found d' = T @ d_found d \<and> seen d' = seen d \<union> set T \<and> set T \<inter> seen d = {} \<and>
     (\<forall>t \<in> set T. \<exists>q \<in> qs. leads succs (set T) q t)"

definition inside :: "(nat \<Rightarrow> nat list) \<Rightarrow> nat \<Rightarrow> bool" where
  "inside succs n \<longleftrightarrow> (\<forall>q < n. \<forall>s \<in> set (succs q). s < n)"

definition unseen :: "nat \<Rightarrow> search \<Rightarrow> nat" where
  "unseen n d = card ({..<n} - seen d)"

lemma searches_refl [simp]: "searches succs qs d [] d"
  by (simp add: searches_def)

lemma searches_more: "searches succs qs d T d' \<Longrightarrow> qs \<subseteq> qs' \<Longrightarrow> searches succs qs' d T d'"
  by (fastforce simp: searches_def)

lemma searches_trans:
  assumes "searches succs qs d T d'" "searches succs qs d' T' d''"
  shows "searches succs qs d (T' @ T) d''"
proof -
  have "\<exists>q \<in> qs. leads succs (set (T' @ T)) q t" if t: "t \<in> set (T' @ T)" for t
  proof -
    have "(\<exists>q \<in> qs. leads succs (set T') q t) \<or> (\<exists>q \<in> qs. leads succs (set T) q t)"
      using assms t unfolding searches_def by (metis Un_iff set_append)
    then show ?thesis using leads_mono [of succs _ _ t "set (T' @ T)"] by fastforce
  qed
  then show ?thesis using assms by (auto simp: searches_def)
qed

lemma searches_unseen: "searches succs qs d T d' \<Longrightarrow> unseen n d' \<le> unseen n d"
  unfolding unseen_def by (rule card_mono) (auto simp: searches_def)

lemma enter_state_ok:
  assumes "search_ok succs n d" "q < n" "q \<notin> seen d"
  obtains d' where "enter_state q d = Some d'" "search_ok succs n d'" "seen d' = insert q (seen d)"
    "d_found d' = d_found d" "unseen n d = Suc (unseen n d')"
proof -
  let ?d = "d\<lparr>d_counter := Suc (d_counter d), d_visited := (d_visited d)[q := Suc (d_counter d)]\<rparr>"
  have e: "enter_state q d = Some ?d" using assms by (simp add: enter_state_def search_ok_def)
  have s: "seen ?d = insert q (seen d)"
    using assms by (auto simp: seen_def search_ok_def nth_list_update)
  have ok: "search_ok succs n ?d"
    using assms(1) unfolding search_ok_def s by (auto simp: closed_in_def)
  have "{..<n} - seen d = insert q ({..<n} - seen ?d)" using assms(2,3) s by auto
  then have "unseen n d = Suc (unseen n ?d)"
    unfolding unseen_def by (metis Diff_iff card_insert_disjoint finite_Diff finite_lessThan insertI1 s)
  then show ?thesis using that e ok s by simp
qed

lemma leave_state_ok:
  assumes ok: "search_ok succs n d" and d1: "seen d1 = insert q (seen d)" "d_found d1 = d_found d"
    and ok2: "search_ok succs n d2" and s: "searches succs (set (succs q)) d1 T d2"
    and q: "q < n" "q \<notin> seen d" "set (succs q) \<subseteq> seen d2"
  obtains d' where "leave_state q d2 = Some d'" "search_ok succs n d'" "searches succs {q} d (q # T) d'"
proof -
  let ?d = "d2\<lparr>d_counter := Suc (d_counter d2), d_leaved := (d_leaved d2)[q := Suc (d_counter d2)],
      d_found := q # d_found d2\<rparr>"
  have e: "leave_state q d2 = Some ?d" using ok2 q by (simp add: leave_state_def search_ok_def)
  have seen2: "seen d2 = insert q (seen d \<union> set T)" and found: "d_found d2 = T @ d_found d"
    and T: "set T \<inter> insert q (seen d) = {}"
    using s d1 by (auto simp: searches_def)
  have seen': "seen ?d = seen d2" by (simp add: seen_def)
  have new: "q \<notin> set (d_found d2)" using T q(2) found ok by (auto simp: search_ok_def)
  have reach: "leads succs (set (q # T)) q t" if t: "t \<in> set (q # T)" for t
  proof (cases "t = q")
    case False
    then have "t \<in> set T" using t by simp
    then obtain p where p: "p \<in> set (succs q)" "leads succs (set T) p t"
      using s by (auto simp: searches_def)
    have "p \<in> set T" by (rule leads_starts [OF p(2) \<open>t \<in> set T\<close>])
    then have "leads succs (set (q # T)) q p" using p(1) by (intro leads_step) simp_all
    moreover have "leads succs (set (q # T)) p t" using leads_mono [OF p(2)] by auto
    ultimately show ?thesis by (rule leads_trans)
  qed simp
  have order: "leads succs (set (q # d_found d2)) q x"
    if x: "x \<in> set (d_found d2)" and l: "leads succs (set (q # d_found d2)) x q" for x
  proof (cases "x \<in> set T")
    case True
    then have "leads succs (set (q # T)) q x" using reach by simp
    then show ?thesis by (rule leads_mono) (auto simp: found)
  next
    case False
    then have x: "x \<in> set (d_found d)" using x found by simp
    have "q \<in> set (d_found d)"
    proof (rule closed_leads [OF l _ x])
      show "closed_in succs (set (d_found d)) (seen d)" using ok by (simp add: search_ok_def)
      show "seen d \<inter> set (q # d_found d2) \<subseteq> set (d_found d)" using T q(2) found by auto
    qed
    then show ?thesis using q(2) ok by (auto simp: search_ok_def)
  qed
  have "search_ok succs n ?d"
    using ok2 new order q(3) seen2 unfolding search_ok_def seen'
    by (auto simp: closed_in_def)
  moreover have "searches succs {q} d (q # T) ?d"
    using reach T q(2) seen2 found unfolding searches_def seen' by auto
  ultimately show ?thesis using that e by blast
qed

lemma visit_all_ok:
  assumes descend: "\<And>q d. search_ok succs n d \<Longrightarrow> q < n \<Longrightarrow> q \<notin> seen d \<Longrightarrow> unseen n d \<le> k \<Longrightarrow>
      \<exists>d' T. descend q d = Some d' \<and> search_ok succs n d' \<and> searches succs {q} d T d' \<and> q \<in> set T"
    and "search_ok succs n d" "\<forall>q \<in> set qs. q < n" "unseen n d \<le> k"
  shows "\<exists>d' T. visit_all descend qs d = Some d' \<and> search_ok succs n d' \<and> searches succs (set qs) d T d' \<and>
    set qs \<subseteq> seen d'"
  using assms(2-)
proof (induction qs arbitrary: d)
  case Nil
  then show ?case by (intro exI [of _ d] exI [of _ "[]"]) simp
next
  case (Cons q qs)
  have q: "q < n" "\<forall>q \<in> set qs. q < n" and len: "length (d_visited d) = n"
    using Cons.prems by (simp_all add: search_ok_def)
  show ?case
  proof (cases "q \<in> seen d")
    case True
    obtain d' T where d': "visit_all descend qs d = Some d'" "search_ok succs n d'"
      "searches succs (set qs) d T d'" "set qs \<subseteq> seen d'"
      using Cons.IH [OF Cons.prems(1) q(2) Cons.prems(3)] by blast
    have v: "visit_all descend (q # qs) d = Some d'" using True d'(1) q(1) len by (simp add: seen_def)
    have "searches succs (set (q # qs)) d T d'" by (rule searches_more [OF d'(3)]) auto
    moreover have "set (q # qs) \<subseteq> seen d'" using d'(3,4) True by (auto simp: searches_def)
    ultimately show ?thesis using v d'(2) by blast
  next
    case False
    obtain d1 T1 where d1: "descend q d = Some d1" "search_ok succs n d1" "searches succs {q} d T1 d1" "q \<in> set T1"
      using descend [OF Cons.prems(1) q(1) False Cons.prems(3)] by blast
    have "unseen n d1 \<le> k" using searches_unseen [OF d1(3), of n] Cons.prems(3) by simp
    then obtain d' T where d': "visit_all descend qs d1 = Some d'" "search_ok succs n d'"
      "searches succs (set qs) d1 T d'" "set qs \<subseteq> seen d'"
      using Cons.IH [OF d1(2) q(2)] by blast
    have v: "visit_all descend (q # qs) d = Some d'" using False d1(1) d'(1) q(1) len by (simp add: seen_def)
    have "searches succs (set (q # qs)) d (T @ T1) d'"
      by (rule searches_trans [OF searches_more [OF d1(3)] searches_more [OF d'(3)]]) auto
    moreover have "set (q # qs) \<subseteq> seen d'" using d'(3,4) d1(3,4) by (auto simp: searches_def)
    ultimately show ?thesis using v d'(2) by blast
  qed
qed

lemma search_tree_ok:
  assumes "inside succs n"
  shows "search_ok succs n d \<Longrightarrow> q < n \<Longrightarrow> q \<notin> seen d \<Longrightarrow> unseen n d \<le> k \<Longrightarrow>
    \<exists>d' T. search_tree succs k q d = Some d' \<and> search_ok succs n d' \<and> searches succs {q} d T d' \<and> q \<in> set T"
proof (induction k arbitrary: q d)
  case 0
  then have "{..<n} - seen d = {}" by (simp add: unseen_def)
  then show ?case using 0(2,3) by auto
next
  case (Suc k)
  obtain d1 where d1: "enter_state q d = Some d1" "search_ok succs n d1" "seen d1 = insert q (seen d)"
    "d_found d1 = d_found d" "unseen n d = Suc (unseen n d1)"
    using enter_state_ok [OF Suc.prems(1-3)] .
  have less: "\<forall>s \<in> set (succs q). s < n" using assms Suc.prems(2) by (simp add: inside_def)
  have few: "unseen n d1 \<le> k" using d1(5) Suc.prems(4) by simp
  obtain d2 T where d2: "visit_all (search_tree succs k) (succs q) d1 = Some d2" "search_ok succs n d2"
    "searches succs (set (succs q)) d1 T d2" "set (succs q) \<subseteq> seen d2"
    using visit_all_ok [OF Suc.IH d1(2) less few] by blast
  obtain d' where d': "leave_state q d2 = Some d'" "search_ok succs n d'" "searches succs {q} d (q # T) d'"
    using leave_state_ok [OF Suc.prems(1) d1(3,4) d2(2,3) Suc.prems(2,3) d2(4)] .
  have "search_tree succs (Suc k) q d = Some d'" using d1(1) d2(1) d'(1) by simp
  then show ?case using d'(2,3) by (intro exI [of _ d'] exI [of _ "q # T"]) simp
qed

section \<open>Sets of numbers\<close>

lemma nat_set_insert [simp]: "set (set_insert (<) x xs) = insert x (set xs)" for x :: nat
  by (induction xs) auto

lemma nat_set_insert_all [simp]: "set (set_insert_all (<) xs ys) = set xs \<union> set ys" for xs :: "nat list"
  by (induction xs arbitrary: ys) (simp_all add: set_insert_all_def)

lemma nat_sorted_insert: "sorted_wrt (<) xs \<Longrightarrow> sorted_wrt (<) (set_insert (<) x xs)" for x :: nat
  by (induction xs) auto

lemma nat_sorted_insert_all: "sorted_wrt (<) ys \<Longrightarrow> sorted_wrt (<) (set_insert_all (<) xs ys)"
  for xs :: "nat list"
  by (induction xs arbitrary: ys) (simp_all add: set_insert_all_def nat_sorted_insert)

definition colour_step :: "nat set \<Rightarrow> transition \<Rightarrow> nat list \<Rightarrow> nat list" where
  "colour_step C t colours = (if tr_target t \<in> C then set_insert_all (<) (tr_acc t) colours else colours)"

definition colours_of :: "nat set \<Rightarrow> transition list \<Rightarrow> nat set" where
  "colours_of C ts = {j. \<exists>t \<in> set ts. tr_target t \<in> C \<and> j \<in> set (tr_acc t)}"

lemma colour_steps:
  "set (fold (colour_step C) ts colours) = set colours \<union> colours_of C ts"
  "sorted_wrt (<) colours \<Longrightarrow> sorted_wrt (<) (fold (colour_step C) ts colours)"
  by (induction ts arbitrary: colours) (auto simp: colour_step_def colours_of_def nat_sorted_insert_all)

lemma colour_all_steps:
  "set (fold (\<lambda>s. fold (colour_step C) (table ! s)) ss colours) = set colours \<union> (\<Union>s \<in> set ss. colours_of C (table ! s))"
  "sorted_wrt (<) colours \<Longrightarrow> sorted_wrt (<) (fold (\<lambda>s. fold (colour_step C) (table ! s)) ss colours)"
  by (induction ss arbitrary: colours) (simp_all add: colour_steps Un_assoc)

lemma is_accepting_colours:
  assumes "component \<noteq> []"
    and less: "\<And>s t j. s \<in> set component \<Longrightarrow> t \<in> set (table ! s) \<Longrightarrow> j \<in> set (tr_acc t) \<Longrightarrow> j < nacc"
  shows "is_accepting nacc table component \<longleftrightarrow>
    (\<forall>j < nacc. \<exists>s \<in> set component. j \<in> colours_of (set component) (table ! s))"
proof -
  let ?cs = "fold (\<lambda>s. fold (colour_step (set component)) (table ! s)) component []"
  have i: "is_accepting nacc table component \<longleftrightarrow> length ?cs = nacc"
    using assms(1) by (simp add: is_accepting_def Let_def colour_step_def [abs_def])
  have s: "set ?cs = (\<Union>s \<in> set component. colours_of (set component) (table ! s))"
    using colour_all_steps(1) [of "set component" table component "[]"] by simp
  have "distinct ?cs" using colour_all_steps(2) [of "[]" "set component" table component]
    by (simp add: strict_sorted_iff)
  then have l: "length ?cs = card (set ?cs)" by (simp add: distinct_card)
  have sub: "set ?cs \<subseteq> {..<nacc}" using less unfolding s colours_of_def by blast
  have "length ?cs = nacc \<longleftrightarrow> set ?cs = {..<nacc}"
    using card_subset_eq [OF finite_lessThan sub] l by fastforce
  also have "\<dots> \<longleftrightarrow> (\<forall>j < nacc. j \<in> set ?cs)" using sub by auto
  finally show ?thesis using i s by blast
qed

lemma number_states_length [simp]: "length (fold (\<lambda>s scc. scc[s := Some v]) ss scc) = length scc"
  by (induction ss arbitrary: scc) simp_all

lemma number_states:
  "x < length scc \<Longrightarrow> fold (\<lambda>s scc. scc[s := Some v]) ss scc ! x = (if x \<in> set ss then Some v else scc ! x)"
  by (induction ss arbitrary: scc) (auto simp: nth_list_update)

section \<open>The components\<close>

definition mutual :: "transition list list \<Rightarrow> nat \<Rightarrow> nat \<Rightarrow> bool" where
  "mutual table x y \<longleftrightarrow>
     leads (targets_of table) {..<length table} x y \<and> leads (targets_of table) {..<length table} y x"

definition accepting_scc :: "nat \<Rightarrow> transition list list \<Rightarrow> nat \<Rightarrow> bool" where
  "accepting_scc nacc table x \<longleftrightarrow>
     (\<forall>j < nacc. \<exists>s < length table. mutual table x s \<and>
        (\<exists>t \<in> set (table ! s). mutual table x (tr_target t) \<and> j \<in> set (tr_acc t)))"

lemma mutual_refl [simp]: "mutual table x x"
  by (simp add: mutual_def)

lemma mutual_sym: "mutual table x y \<Longrightarrow> mutual table y x"
  by (simp add: mutual_def)

lemma mutual_trans: "mutual table x y \<Longrightarrow> mutual table y z \<Longrightarrow> mutual table x z"
  unfolding mutual_def using leads_trans by blast

lemma accepting_scc_mutual: "mutual table x y \<Longrightarrow> accepting_scc nacc table x \<longleftrightarrow> accepting_scc nacc table y"
  unfolding accepting_scc_def using mutual_sym mutual_trans by metis

definition table_ok :: "nat \<Rightarrow> transition list list \<Rightarrow> bool" where
  "table_ok nacc table \<longleftrightarrow>
     (\<forall>s < length table. \<forall>t \<in> set (table ! s). tr_target t < length table \<and> (\<forall>j \<in> set (tr_acc t). j < nacc))"

lemma table_inside: "table_ok nacc table \<Longrightarrow> inside (targets_of table) (length table)"
  by (auto simp: table_ok_def inside_def targets_of_def)

lemma seen_less: "search_ok succs n d \<Longrightarrow> q \<in> seen d \<Longrightarrow> q < n"
  by (simp add: search_ok_def seen_def)

text \<open>
  One component: the first state that is not seen, in the order in which the search against the
  transitions left them, reaches its component and nothing else that is not seen.
\<close>

definition mirrored :: "(nat \<Rightarrow> nat list) \<Rightarrow> (nat \<Rightarrow> nat list) \<Rightarrow> nat \<Rightarrow> bool" where
  "mirrored succs preds n \<longleftrightarrow> (\<forall>x < n. \<forall>y < n. y \<in> set (succs x) \<longleftrightarrow> x \<in> set (preds y))"

lemma component_found:
  assumes table: "table_ok nacc table" "length table = n" and mir: "mirrored (targets_of table) preds n"
    and good: "good_order preds (q # R)" and all: "{..<n} \<subseteq> seen d \<union> set (q # R)"
    and rest: "set (q # R) \<subseteq> {..<n}"
    and closed: "closed_in (targets_of table) (seen d) (seen d)"
    and q: "q < n" "q \<notin> seen d" and found: "d_found d = []"
    and s: "searches (targets_of table) {q} d T d'" "search_ok (targets_of table) n d'" "q \<in> set T"
  shows "set T = {x. x < n \<and> mutual table q x}" and "closed_in (targets_of table) (seen d') (seen d')"
proof -
  let ?G = "targets_of table"
  have T: "d_found d' = T" "seen d' = seen d \<union> set T" "set T \<inter> seen d = {}"
    "\<forall>t \<in> set T. leads ?G (set T) q t"
    using s(1) found by (auto simp: searches_def)
  have less: "t < n" if "t \<in> set T" for t using seen_less [OF s(2)] that T(2) by blast
  show closed': "closed_in ?G (seen d') (seen d')"
    using closed s(2) unfolding T(2) search_ok_def T(1) by (auto simp: closed_in_def)
  show "set T = {x. x < n \<and> mutual table q x}"
  proof (intro equalityI subsetI)
    fix t assume t: "t \<in> set T"
    have sub: "set T \<subseteq> set (q # R)" using all T(3) less by blast
    have "y \<in> set (?G x) \<longleftrightarrow> x \<in> set (preds y)" if "x \<in> set (q # R)" "y \<in> set (q # R)" for x y
      using mir rest that unfolding mirrored_def by blast
    then have turn: "leads ?G (set (q # R)) x y \<longleftrightarrow> leads preds (set (q # R)) y x" for x y
      by (rule leads_mirror)
    have there: "leads ?G (set (q # R)) q t" using leads_mono [OF _ sub] T(4) t by blast
    then have up: "leads preds (set (q # R)) t q" using turn by blast
    have "leads preds (set (q # R)) q t"
    proof (cases "t = q")
      case False
      then have "t \<in> set R" using sub t by auto
      then show ?thesis using good up by simp
    qed simp
    then have down: "leads ?G (set (q # R)) t q" using turn by blast
    show "t \<in> {x. x < n \<and> mutual table q x}"
      using leads_mono [OF there rest] leads_mono [OF down rest] less [OF t] table(2) by (simp add: mutual_def)
  next
    fix x assume x: "x \<in> {x. x < n \<and> mutual table q x}"
    then have "leads ?G {..<n} q x" "leads ?G {..<n} x q" using table(2) by (simp_all add: mutual_def)
    then have "x \<in> seen d'"
      using closed_leads [OF _ closed', of "{..<n}" q x] s(3) T(2) by blast
    moreover have "x \<notin> seen d"
      using closed_leads [OF \<open>leads ?G {..<n} x q\<close> closed] q(2) by blast
    ultimately show "x \<in> set T" using T(2) by blast
  qed
qed

text \<open>The states that are seen have the number of their component, if it is accepting.\<close>

definition numbers_ok :: "nat \<Rightarrow> transition list list \<Rightarrow> nat set \<Rightarrow> nat \<Rightarrow> nat option list \<Rightarrow> bool" where
  "numbers_ok nacc table V count scc \<longleftrightarrow>
     length scc = length table \<and>
     (\<forall>x < length table. \<forall>i. scc ! x = Some i \<longrightarrow> 0 < i \<and> i \<le> count \<and> x \<in> V) \<and>
     (\<forall>x \<in> V. scc ! x \<noteq> None \<longleftrightarrow> accepting_scc nacc table x) \<and>
     (\<forall>x \<in> V. \<forall>y \<in> V. scc ! x \<noteq> None \<longrightarrow> (scc ! x = scc ! y \<longleftrightarrow> mutual table x y))"

lemma is_accepting_component:
  assumes "table_ok nacc table" "set C = {x. x < length table \<and> mutual table q x}" "q < length table"
  shows "is_accepting nacc table C \<longleftrightarrow> accepting_scc nacc table q"
proof -
  have "q \<in> set C" using assms(2,3) by simp
  then have "C \<noteq> []" by auto
  moreover have "j < nacc" if "s \<in> set C" "t \<in> set (table ! s)" "j \<in> set (tr_acc t)" for s t j
    using that assms(1,2) by (auto simp: table_ok_def)
  ultimately have "is_accepting nacc table C \<longleftrightarrow>
      (\<forall>j < nacc. \<exists>s \<in> set C. j \<in> colours_of (set C) (table ! s))"
    by (rule is_accepting_colours)
  moreover have "tr_target t \<in> set C \<longleftrightarrow> mutual table q (tr_target t)"
    if "s \<in> set C" "t \<in> set (table ! s)" for s t
    using that assms(1,2) by (auto simp: table_ok_def)
  ultimately show ?thesis using assms(2) unfolding accepting_scc_def colours_of_def by fastforce
qed

lemma numbers_add:
  assumes ok: "numbers_ok nacc table V count scc" and table: "table_ok nacc table" and q: "q < length table"
    and C: "set C = {x. x < length table \<and> mutual table q x}" "set C \<inter> V = {}" "V \<subseteq> {..<length table}"
  shows "accepting_scc nacc table q \<Longrightarrow>
      numbers_ok nacc table (V \<union> set C) (Suc count) (fold (\<lambda>s scc. scc[s := Some (Suc count)]) C scc)"
    and "\<not> accepting_scc nacc table q \<Longrightarrow> numbers_ok nacc table (V \<union> set C) count scc"
proof -
  have len: "length scc = length table" and old: "\<And>x i. x < length table \<Longrightarrow> scc ! x = Some i \<Longrightarrow> 0 < i \<and> i \<le> count \<and> x \<in> V"
    and acc: "\<And>x. x \<in> V \<Longrightarrow> scc ! x \<noteq> None \<longleftrightarrow> accepting_scc nacc table x"
    and same: "\<And>x y. x \<in> V \<Longrightarrow> y \<in> V \<Longrightarrow> scc ! x \<noteq> None \<Longrightarrow> scc ! x = scc ! y \<longleftrightarrow> mutual table x y"
    using ok by (auto simp: numbers_ok_def)
  have in_C: "accepting_scc nacc table x \<longleftrightarrow> accepting_scc nacc table q" "x < length table"
      "mutual table x y \<longleftrightarrow> y \<in> set C"
    if "x \<in> set C" "y < length table" for x y
    using that C(1) accepting_scc_mutual mutual_sym mutual_trans by blast+
  have less: "x < length table" if "x \<in> V \<union> set C" for x using that C by blast
  show "numbers_ok nacc table (V \<union> set C) count scc" if no: "\<not> accepting_scc nacc table q"
  proof -
    have none: "scc ! x = None" if "x \<in> set C" for x
      using old [of x] in_C(2) [OF that q] that C(2) by (cases "scc ! x") auto
    have "scc ! x \<noteq> None \<longleftrightarrow> accepting_scc nacc table x" if "x \<in> V \<union> set C" for x
      using that acc [of x] in_C(1) [OF _ q, of x] none [of x] no by (cases "x \<in> V") auto
    moreover have "scc ! x = scc ! y \<longleftrightarrow> mutual table x y"
      if "x \<in> V \<union> set C" "y \<in> V \<union> set C" "scc ! x \<noteq> None" for x y
    proof -
      have x: "x \<notin> set C" using none [of x] that(3) by auto
      then have "x \<in> V" using that(1) by simp
      show ?thesis
      proof (cases "y \<in> V")
        case True
        then show ?thesis using same [OF \<open>x \<in> V\<close> True that(3)] by simp
      next
        case False
        then have y: "y \<in> set C" using that(2) by blast
        have "\<not> mutual table x y" using in_C(3) [OF y less [OF that(1)]] x mutual_sym by blast
        then show ?thesis using none [OF y] that(3) by simp
      qed
    qed
    ultimately show ?thesis using len old unfolding numbers_ok_def by blast
  qed
  show "numbers_ok nacc table (V \<union> set C) (Suc count) (fold (\<lambda>s scc. scc[s := Some (Suc count)]) C scc)"
    if yes: "accepting_scc nacc table q"
  proof -
    let ?scc = "fold (\<lambda>s scc. scc[s := Some (Suc count)]) C scc"
    have new: "?scc ! x = Some (Suc count)" if "x \<in> set C" for x
      using that in_C(2) [OF that q] len by (simp add: number_states)
    have kept: "?scc ! x = scc ! x" if "x \<notin> set C" "x < length table" for x
      using that len by (simp add: number_states)
    have n: "scc ! x \<noteq> Some (Suc count)" if "x < length table" for x using old [OF that] by fastforce
    have "?scc ! x \<noteq> None \<longleftrightarrow> accepting_scc nacc table x" if "x \<in> V \<union> set C" for x
      using that acc [of x] in_C(1) [OF _ q, of x] new [of x] kept [of x] less [OF that] yes by (cases "x \<in> set C") auto
    moreover have "?scc ! x = ?scc ! y \<longleftrightarrow> mutual table x y"
      if xy: "x \<in> V \<union> set C" "y \<in> V \<union> set C" "?scc ! x \<noteq> None" for x y
    proof (cases "x \<in> set C \<or> y \<in> set C")
      case True
      then have "mutual table x y \<longleftrightarrow> x \<in> set C \<and> y \<in> set C"
        using in_C(3) [OF _ less [OF xy(1)], of y] in_C(3) [OF _ less [OF xy(2)], of x] mutual_sym by blast
      moreover have "?scc ! x = ?scc ! y \<longleftrightarrow> x \<in> set C \<and> y \<in> set C"
        using True new [of x] new [of y] kept [OF _ less [OF xy(1)]] kept [OF _ less [OF xy(2)]]
          n [OF less [OF xy(1)]] n [OF less [OF xy(2)]] by (cases "x \<in> set C"; cases "y \<in> set C") auto
      ultimately show ?thesis by blast
    next
      case False
      then show ?thesis using same [of x y] xy kept [OF _ less [OF xy(1)]] kept [OF _ less [OF xy(2)]] by simp
    qed
    moreover have "0 < i \<and> i \<le> Suc count \<and> x \<in> V \<union> set C" if "x < length table" "?scc ! x = Some i" for x i
      using that new [of x] kept [of x] old [OF that(1), of i] by (cases "x \<in> set C") auto
    ultimately show ?thesis using len unfolding numbers_ok_def by (simp only: number_states_length) blast
  qed
qed

lemma components_ok:
  assumes table: "table_ok nacc table" "length table = n" and mir: "mirrored (targets_of table) preds n"
  shows "good_order preds stack \<Longrightarrow> set stack \<subseteq> {..<n} \<Longrightarrow> {..<n} \<subseteq> seen d \<union> set stack \<Longrightarrow>
    closed_in (targets_of table) (seen d) (seen d) \<Longrightarrow> length (d_visited d) = n \<Longrightarrow> length (d_leaved d) = n \<Longrightarrow>
    numbers_ok nacc table (seen d) count scc \<Longrightarrow>
    \<exists>count' scc'. components nacc table count stack d scc = Some (count', scc') \<and>
      numbers_ok nacc table {..<n} count' scc'"
proof (induction stack arbitrary: count d scc)
  case Nil
  then have "seen d = {..<n}" by (auto simp: seen_def)
  then show ?case using Nil.prems(7) by simp
next
  case (Cons q R)
  note good = Cons.prems(1) and less = Cons.prems(2) and all = Cons.prems(3) and closed = Cons.prems(4)
    and len = Cons.prems(5,6) and ok = Cons.prems(7)
  have q: "q < n" and R: "good_order preds R" "set R \<subseteq> {..<n}" using good less by simp_all
  show ?case
  proof (cases "q \<in> seen d")
    case True
    then have "d_visited d ! q \<noteq> 0" by (simp add: seen_def)
    moreover have "{..<n} \<subseteq> seen d \<union> set R" using all True by auto
    ultimately show ?thesis using Cons.IH [OF R _ closed len ok] by simp
  next
    case False
    let ?d = "d\<lparr>d_found := []\<rparr>"
    have s: "seen ?d = seen d" by (simp add: seen_def)
    have d: "search_ok (targets_of table) n ?d"
      using len by (simp add: search_ok_def closed_in_def)
    have few: "unseen n ?d \<le> Suc (length table)"
      using card_mono [of "{..<n}" "{..<n} - seen ?d"] table(2) by (simp add: unseen_def)
    obtain d' T where d': "search_tree (targets_of table) (Suc (length table)) q ?d = Some d'"
      "search_ok (targets_of table) n d'" "searches (targets_of table) {q} ?d T d'" "q \<in> set T"
      using search_tree_ok [OF _ d q _ few] table_inside [OF table(1)] table(2) False s by auto
    have T: "set T = {x. x < n \<and> mutual table q x}" "closed_in (targets_of table) (seen d') (seen d')"
      using component_found [OF table mir good _ less _ q _ _ d'(3,2,4)] all closed False s by simp_all
    have found: "d_found d' = T" "seen d' = seen d \<union> set T" "set T \<inter> seen d = {}"
      using d'(3) s by (simp_all add: searches_def)
    define C where "C = set_insert_all (<) (d_found d') []"
    have C: "set C = {x. x < length table \<and> mutual table q x}" "seen d' = seen d \<union> set C" "set C \<inter> seen d = {}"
      using T(1) found table(2) by (simp_all add: C_def)
    have rest: "{..<n} \<subseteq> seen d' \<union> set R" using all d'(4) found(2) by auto
    have len': "length (d_visited d') = n" "length (d_leaved d') = n" using d'(2) by (simp_all add: search_ok_def)
    have sub: "seen d \<subseteq> {..<length table}" using len table(2) by (auto simp: seen_def)
    have acc: "is_accepting nacc table C \<longleftrightarrow> accepting_scc nacc table q"
      using is_accepting_component [OF table(1) C(1)] q table(2) by simp
    have zero: "d_visited d ! q = 0" using False q len by (simp add: seen_def)
    note add = numbers_add [OF ok table(1) _ C(1,3) sub] 
    show ?thesis
    proof (cases "accepting_scc nacc table q")
      case True
      have "numbers_ok nacc table (seen d') (Suc count) (fold (\<lambda>s scc. scc[s := Some (Suc count)]) C scc)"
        using add(1) True q table(2) C(2) by simp
      from Cons.IH [OF R rest T(2) len' this] show ?thesis
        using zero d'(1) acc True by (simp add: dfs_util2_def C_def [symmetric])
    next
      case no: False
      have "numbers_ok nacc table (seen d') count scc"
        using add(2) no q table(2) C(2) by simp
      from Cons.IH [OF R rest T(2) len' this] show ?thesis
        using zero d'(1) acc no by (simp add: dfs_util2_def C_def [symmetric])
    qed
  qed
qed

text \<open>Both searches together.\<close>

lemma fresh_search_ok: "search_ok succs n (fresh_search n)" "seen (fresh_search n) = {}" "d_found (fresh_search n) = []"
  by (auto simp: search_ok_def fresh_search_def seen_def closed_in_def)

lemma compute_acc_scc_ok:
  assumes table: "table_ok nacc table" "length table = n" and "inside (sources_of a) n"
    and mir: "mirrored (targets_of table) (sources_of a) n" and ids: "map st_id (t1_states a) = [0..<n]"
  shows "\<exists>count scc. compute_acc_scc a nacc table = Some (count, scc) \<and> numbers_ok nacc table {..<n} count scc"
proof -
  have few: "unseen n (fresh_search n) \<le> Suc n" by (simp add: unseen_def fresh_search_ok(2))
  obtain d T where d: "visit_all (search_tree (sources_of a) (Suc n)) [0..<n] (fresh_search n) = Some d"
    "search_ok (sources_of a) n d" "searches (sources_of a) (set [0..<n]) (fresh_search n) T d" "set [0..<n] \<subseteq> seen d"
    using visit_all_ok [where descend = "search_tree (sources_of a) (Suc n)" and k = "Suc n" and qs = "[0..<n]",
      OF search_tree_ok [OF assms(3)] fresh_search_ok(1) _ few] by auto
  have f: "seen d = set (d_found d)" using d(3) fresh_search_ok by (simp add: searches_def)
  have all: "set (d_found d) = {..<n}" using d(4) f seen_less [OF d(2)] by auto
  have good: "good_order (sources_of a) (d_found d)" using d(2) by (simp add: search_ok_def)
  have none: "numbers_ok nacc table (seen (fresh_search n)) 0 (replicate n None)"
    using table(2) by (auto simp: numbers_ok_def fresh_search_ok(2))
  have "\<exists>count scc. components nacc table 0 (d_found d) (fresh_search n) (replicate n None) = Some (count, scc) \<and>
      numbers_ok nacc table {..<n} count scc"
    using components_ok [OF table mir good _ _ _ _ _ none] all
    by (simp add: fresh_search_ok closed_in_def) (simp add: fresh_search_def)
  then show ?thesis
    using d(1) table(2) ids by (simp add: compute_acc_scc_def dfs_util1_def)
qed

section \<open>The automata of a tableau\<close>

lemma made_table:
  assumes m: "made_of g u c S a" and t: "out_transitions a = Some table"
  shows "table_ok u table" "inside (sources_of a) (length table)"
    and "mirrored (targets_of table) (sources_of a) (length table)"
    and "map st_id (t1_states a) = [0..<length table]"
proof -
  have same: "same_states S (t1_states a)" using m make_tgba1_states by (auto simp: made_of_def)
  then have len: "length (t1_states a) = length S" by (simp add: same_states_def)
  note tl = table_steps(1) [OF m t]
  show ids: "map st_id (t1_states a) = [0..<length table]"
    using same len tl by (intro nth_equalityI) (simp_all add: same_states_def)
  have steps: "y \<in> set (sources_of a x) \<longleftrightarrow>
      (\<exists>e \<in> set (st_edges (S ! x)). y < length S \<and> st_id (S ! y) \<in> set (e_sources e))" if x: "x < length S" for x y
  proof -
    have l: "list_all2 (renumbered S) (st_edges (S ! x)) (st_edges (t1_states a ! x))"
      using same x by (simp add: same_states_def)
    have "y \<in> set (sources_of a x) \<longleftrightarrow> (\<exists>e' \<in> set (st_edges (t1_states a ! x)). y \<in> set (e_sources e'))"
      by (auto simp: sources_of_def)
    also have "\<dots> \<longleftrightarrow> (\<exists>e \<in> set (st_edges (S ! x)). y < length S \<and> st_id (S ! y) \<in> set (e_sources e))"
    proof (intro iffI; elim bexE)
      fix e' assume e': "e' \<in> set (st_edges (t1_states a ! x))" "y \<in> set (e_sources e')"
      obtain e where "e \<in> set (st_edges (S ! x))" "renumbered S e e'"
        using list_all2_elem(2) [OF l e'(1)] by blast
      then show "\<exists>e \<in> set (st_edges (S ! x)). y < length S \<and> st_id (S ! y) \<in> set (e_sources e)"
        using e'(2) by (auto simp: renumbered_def)
    next
      fix e assume e: "e \<in> set (st_edges (S ! x))" "y < length S \<and> st_id (S ! y) \<in> set (e_sources e)"
      obtain e' where "e' \<in> set (st_edges (t1_states a ! x))" "renumbered S e e'"
        using list_all2_elem(1) [OF l e(1)] by blast
      then show "\<exists>e' \<in> set (st_edges (t1_states a ! x)). y \<in> set (e_sources e')"
        using e(2) by (auto simp: renumbered_def)
    qed
    finally show ?thesis .
  qed
  show "inside (sources_of a) (length table)" using steps tl by (auto simp: inside_def)
  have edge: "tr_target t = q \<and> (\<forall>j \<in> set (tr_acc t). j < u)"
    if "make_transition (t1_trivial a) q e = Some t" "q < length S" "e \<in> set (st_edges (S ! q))" for q e t
  proof
    show "tr_target t = q" by (rule make_transition_target [OF that(1)])
    show "\<forall>j \<in> set (tr_acc t). j < u"
      using transition_meaning(2) [OF that(1) made_edge(2) [OF m that(2,3)] made_of_facts(2) [OF m]]
        made_edge(3) [OF m that(2,3)] by auto
  qed
  show "table_ok u table"
    unfolding table_ok_def
  proof (intro allI impI ballI)
    fix s t' assume s: "s < length table" "t' \<in> set (table ! s)"
    then obtain q e where "q < length S" "e \<in> set (st_edges (S ! q))" "make_transition (t1_trivial a) q e = Some t'"
      using table_steps(2) [OF m t] tl by auto
    then show "tr_target t' < length table \<and> (\<forall>j \<in> set (tr_acc t'). j < u)" using edge tl by metis
  qed
  show "mirrored (targets_of table) (sources_of a) (length table)"
    unfolding mirrored_def
  proof (intro allI impI)
    fix x y assume x: "x < length table" and y: "y < length table"
    have "y \<in> set (targets_of table x) \<longleftrightarrow> (\<exists>t' \<in> set (table ! x). tr_target t' = y)" by (auto simp: targets_of_def)
    also have "\<dots> \<longleftrightarrow> (\<exists>e \<in> set (st_edges (S ! y)). st_id (S ! x) \<in> set (e_sources e))"
    proof (intro iffI; elim bexE)
      fix t' assume t': "t' \<in> set (table ! x)" "tr_target t' = y"
      then obtain q e where "q < length S" "e \<in> set (st_edges (S ! q))" "st_id (S ! x) \<in> set (e_sources e)"
        "make_transition (t1_trivial a) q e = Some t'"
        using table_steps(2) [OF m t] x tl by auto
      then show "\<exists>e \<in> set (st_edges (S ! y)). st_id (S ! x) \<in> set (e_sources e)" using edge t'(2) by blast
    next
      fix e assume e: "e \<in> set (st_edges (S ! y))" "st_id (S ! x) \<in> set (e_sources e)"
      obtain t' where t': "make_transition (t1_trivial a) y e = Some t'" using made_edge(1) [OF m _ e(1)] y tl by auto
      then have "t' \<in> set (table ! x)" using table_steps(2) [OF m t, of x t'] x y tl e by auto
      then show "\<exists>t' \<in> set (table ! x). tr_target t' = y" using make_transition_target [OF t'] by blast
    qed
    also have "\<dots> \<longleftrightarrow> x \<in> set (sources_of a y)" using steps [of y x] x y tl by simp
    finally show "y \<in> set (targets_of table x) \<longleftrightarrow> x \<in> set (sources_of a y)" .
  qed
qed

lemma make_tgba2_exists:
  assumes m: "made_of g u c S a"
  shows "\<exists>b. make_tgba2 a = Some b"
    and "make_tgba2 a = Some b \<Longrightarrow> \<exists>count. numbers_ok u (t2_states b) {..<length S} count (t2_acc_scc b)"
proof -
  obtain table where t: "out_transitions a = Some table" using out_transitions_exists [OF m] by blast
  note tl = table_steps(1) [OF m t]
  obtain count scc where c: "compute_acc_scc a u table = Some (count, scc)" "numbers_ok u table {..<length table} count scc"
    using compute_acc_scc_ok [OF made_table(1) [OF m t] refl made_table(2-4) [OF m t]] by blast
  show "\<exists>b. make_tgba2 a = Some b" using t c(1) made_of_facts(3) [OF m] by (simp add: make_tgba2_def)
  show "\<exists>count. numbers_ok u (t2_states b) {..<length S} count (t2_acc_scc b)" if "make_tgba2 a = Some b"
    using that t c made_of_facts(3) [OF m] tl by (auto simp: make_tgba2_def)
qed

section \<open>The whole translation\<close>

lemma names_node_set: "s \<in> names g \<longleftrightarrow> (\<exists>v. Atom v s \<in> node_set g)"
  by (induction g) auto

lemma labelled_names:
  assumes "whole f" "proper f" "labelled_formula neg f = Some (g, u)"
  shows "names g \<subseteq> names f"
proof -
  obtain h where h: "normal_form neg (simplify_loop f) = Some h"
    and g: "do { (h, u) \<leftarrow> count_label 0 h; h \<leftarrow> compute_uparents h; Some (h, u) } = Some (g, u)"
    using assms(3) by (auto simp: labelled_formula_def split: bind_splits)
  obtain h' n k where "count_label 0 h = Some (h', n)" "compute_uparents h' = Some k" "shape k = shape h"
    using count_compute [OF normal_form_unlabelled [OF h], of "[]" 0 0] by auto
  then have "names g = names h" using g names_shape [of k] names_shape [of h] by simp
  then show ?thesis using normal_form_names [OF h] simplify_loop_names [of f] by blast
qed

definition plain_names :: "ltl \<Rightarrow> bool" where
  "plain_names f \<longleftrightarrow> (\<forall>s \<in> names f. take 1 s \<noteq> ''!'')"

lemma tableau_plain:
  assumes "whole f" "proper f" "plain_names f" "tableau k neg f c = Some (g, u, S)"
  shows "plain_atoms g"
proof -
  have "labelled_formula neg f = Some (g, u)"
    using assms(4) by (auto simp: tableau_def split: bind_splits)
  then show ?thesis
    using labelled_names [OF assms(1,2)] assms(3) names_node_set by (fastforce simp: plain_names_def plain_atoms_def)
qed

lemma translation_of_tableau:
  assumes f: "whole f" "proper f" "plain_names f" and t: "tableau k neg f c = Some (g, u, S)"
  shows "\<exists>a b. make_tgba1 u g S = Some a \<and> make_tgba2 a = Some b \<and> ltl_to_tgba2 k neg f c = Some b \<and>
    made_of g u c S a"
proof -
  have "tableau_ok g u c S" using tableau_language [OF f(1,2) t] by blast
  then obtain c' where "states_ok g u c' S" by (auto simp: tableau_ok_def)
  then obtain a where a: "make_tgba1 u g S = Some a"
    using make_tgba1_exists tableau_numbered [OF f(1,2) t] by blast
  have m: "made_of g u c S a" by (rule made_of_tableau [OF f(1,2) t tableau_plain [OF f t] a])
  obtain b where b: "make_tgba2 a = Some b" using make_tgba2_exists(1) [OF m] by blast
  have "ltl_to_tgba2 k neg f c = Some b" using t a b by (simp add: ltl_to_tgba2_def ltl_to_tgba1_def)
  then show ?thesis using a b m by blast
qed

lemma translation_language:
  assumes f: "whole f" "proper f" "plain_names f" and b: "ltl_to_tgba2 k neg f c = Some b"
  shows "accepts2 b w \<longleftrightarrow> holds w 0 f \<noteq> neg"
proof -
  obtain g u S where t: "tableau k neg f c = Some (g, u, S)"
    using b by (auto simp: ltl_to_tgba2_def ltl_to_tgba1_def split: bind_splits)
  obtain a b' where a: "make_tgba1 u g S = Some a" "make_tgba2 a = Some b'" "ltl_to_tgba2 k neg f c = Some b'"
    using translation_of_tableau [OF f t] by blast
  then show ?thesis
    using tgba2_language [OF f(1,2) t tableau_plain [OF f t] a(1,2)] b by simp
qed

lemma translation_total:
  assumes "whole f" "proper f" "plain_names f"
  shows "\<exists>d b. \<forall>k \<ge> d. ltl_to_tgba2 k neg f c = Some b"
proof -
  obtain d g u S where t: "\<And>k. k \<ge> d \<Longrightarrow> tableau k neg f c = Some (g, u, S)"
    using tableau_total [OF assms(1,2)] by blast
  obtain b where b: "ltl_to_tgba2 d neg f c = Some b"
    using translation_of_tableau [OF assms t] by blast
  have "ltl_to_tgba2 k neg f c = ltl_to_tgba2 d neg f c" if "k \<ge> d" for k
    using t [OF that] t [of d] by (simp add: ltl_to_tgba2_def ltl_to_tgba1_def)
  then show ?thesis using b by auto
qed

end
