(* ===== verification/LtlAutomatonProps.thy ===== *)
theory LtlAutomatonProps
  imports LtlSearch LtlTerminates
begin

text \<open>
  What the translation of formulas to automata promises: it ends, the automata accept the words of
  the formula, and the accepting components are the ones of the graph.
\<close>

section \<open>The tableau\<close>

text \<open>
  For every formula without missing operands, whose propositions are not spelled like truth
  values, the expansion of the tableau ends: some depth of the recursion is enough, with every
  larger bound the result is the same, and no assertion fails and no index is out of range.
\<close>

theorem tableau_terminates:
  assumes "whole f" "proper f"
  shows "\<exists>b g u S. \<forall>k \<ge> b. tableau k neg f c = Some (g, u, S)"
  by (rule tableau_total [OF assms])

abbreviation a_until_b :: ltl where
  "a_until_b \<equiv> make_binary Until (make_label ''a'') (make_label ''b'')"

lemma a_until_b: "whole a_until_b" "proper a_until_b" "plain_names a_until_b"
  by (simp_all add: plain_names_def make_label_def truth_label_def)

theorem tableau_terminates_witness:
  "\<exists>b g u S. \<forall>k \<ge> b. tableau k True a_until_b 7 = Some (g, u, S)"
  by (rule tableau_terminates [OF a_until_b(1,2)])

text \<open>
  C5. The tableau is a generalised B\"uchi automaton for the formula: a word is accepted, by a run
  that starts in the state with the first number and takes edges of every acceptance set again and
  again, if and only if the formula holds at its start (or does not hold, for a negated formula).
\<close>

theorem tableau_accepts_models:
  assumes "whole f" "proper f" "tableau k neg f c = Some (g, u, S)"
  shows "accepts u c S w \<longleftrightarrow> holds w 0 f \<noteq> neg"
  using tableau_language [OF assms] by blast

lemma a_until_b_tableau:
  obtains g u S where "tableau 20 neg a_until_b 0 = Some (g, u, S)"
proof -
  have "tableau 20 neg a_until_b 0 \<noteq> None" by (cases neg; simp only:; code_simp)
  then show ?thesis using that by (metis not_None_eq prod_cases3)
qed

theorem tableau_accepts_models_witness:
  "\<exists>g u S. tableau 20 False a_until_b 0 = Some (g, u, S) \<and> accepts u 0 S (\<lambda>i. {''b''})
     \<and> \<not> accepts u 0 S (\<lambda>i. {''a''})"
proof -
  obtain g u S where t: "tableau 20 False a_until_b 0 = Some (g, u, S)" by (rule a_until_b_tableau)
  then show ?thesis
    using tableau_accepts_models [OF a_until_b(1,2) t]
    by (auto simp: makes make_label_def)
qed

abbreviation waiting_state :: state where
  "waiting_state \<equiv>
     \<lparr>st_id = 0,
      st_edges = [\<lparr>e_sources = [], e_label = [], e_acc = [True]\<rparr>,
                  \<lparr>e_sources = [0], e_label = [(Some [False], Atom [] ''a'')], e_acc = [False]\<rparr>],
      st_next = [(Some [], Binary [] Until 0 (Atom [] ''a'') (Atom [0] ''b''))]\<rparr>"

abbreviation done_state :: state where
  "done_state \<equiv>
     \<lparr>st_id = 2,
      st_edges = [\<lparr>e_sources = [0], e_label = [(Some [True], Atom [0] ''b'')], e_acc = [True]\<rparr>,
                  \<lparr>e_sources = [2], e_label = [], e_acc = [True]\<rparr>],
      st_next = []\<rparr>"

lemma a_until_b_states:
  "tableau 20 False a_until_b 0 =
     Some (Binary [] Until 0 (Atom [] ''a'') (Atom [0] ''b''), 1, [waiting_state, done_state])"
  by code_simp

text \<open>
  C38. The tableau is well formed: its states have different numbers, an edge comes from states of
  the tableau, has one mark for every acceptance set, and is labelled with propositions and negated
  propositions that are nodes of the formula; the states wait for nodes of the formula.
\<close>

theorem tableau_well_formed:
  assumes "whole f" "proper f" "tableau k neg f c = Some (g, u, S)" "q \<in> set S" "e \<in> set (st_edges q)"
  shows "distinct (map st_id S) \<and> set (e_sources e) \<subseteq> st_id ` set S \<and> length (e_acc e) = u \<and>
    (\<forall>p \<in> set (e_label e). snd p \<in> node_set g \<and> is_literal (snd p) \<and> \<not> is_boolean (snd p)) \<and>
    (\<forall>p \<in> set (st_next q). snd p \<in> node_set g)"
proof -
  have "tableau_ok g u c S" using tableau_language [OF assms(1-3)] by blast
  then obtain c' where ok: "states_ok g u c' S" by (auto simp: tableau_ok_def)
  have node: "snd p \<in> node_set g" if "pointer_in g p" for p
    using that at_path_node by (auto simp: pointer_in_def)
  have "edge_ok g u (ids S) e" "\<forall>p \<in> set (st_next q). pointer_in g p" "distinct (map st_id S)"
    using ok assms(4,5) unfolding states_ok_def state_ok_def by blast+
  then show ?thesis using node unfolding edge_ok_def ids_def by blast
qed

theorem tableau_well_formed_witness:
  "length (e_acc (st_edges done_state ! 0)) = 1"
  using tableau_well_formed [OF a_until_b(1,2) a_until_b_states, of done_state "st_edges done_state ! 0"] by simp

text \<open>
  C39. The tableau of a formula whose normal form has \<open>n\<close> operators has at most
  \<open>2 ^ (2 * n + 1)\<close> states.
\<close>

theorem tableau_bound:
  assumes "whole f" "proper f" "tableau k neg f c = Some (g, u, S)"
  shows "length S \<le> 2 ^ (2 * size g + 1)"
  by (rule tableau_size [OF assms])

theorem tableau_bound_witness:
  "\<exists>g u S. tableau 20 True a_until_b 0 = Some (g, u, S) \<and> length S \<le> 2 ^ (2 * size g + 1)"
proof -
  obtain g u S where t: "tableau 20 True a_until_b 0 = Some (g, u, S)" by (rule a_until_b_tableau)
  then show ?thesis using tableau_bound [OF a_until_b(1,2) t] by blast
qed

text \<open>
  C40. In a run that takes edges of every acceptance set again and again, what a state waits for
  comes true: if it waits for an until, its right operand holds at some later position, and its left
  operand holds at all positions before that.
\<close>

theorem awaited_until_comes:
  assumes "whole f" "proper f" "tableau k neg f c = Some (g, u, S)"
    and "run_over c S w r es" "accepting_run u es" "p \<in> set (st_next (r i))" "snd p = Binary v Until n l x"
  shows "\<exists>m \<ge> i. holds w m x \<and> (\<forall>j. i \<le> j \<and> j < m \<longrightarrow> holds w j l)"
proof -
  have t: "tableau_ok g u c S" using tableau_language [OF assms(1-3)] by blast
  then have s: "states_sound u S" by (simp add: tableau_ok_def)
  have "later r i (snd p)" using assms(6) by (auto simp: later_def keys_def)
  then have "holds w i (snd p)" using now_holds [OF t assms(4,5) later_now(1) [OF assms(4) s]] by blast
  then show ?thesis using assms(7) by auto
qed

theorem awaited_until_comes_witness:
  "\<exists>m \<ge> 0. holds (\<lambda>i. {''b''}) m (Atom [0] ''b'')"
proof -
  let ?r = "\<lambda>i. if i = 0 then waiting_state else done_state" and ?w = "\<lambda>i :: nat. {''b''}"
  let ?es = "\<lambda>i. if i = 0 then st_edges done_state ! 0 else st_edges done_state ! 1"
  have run: "run_over 0 [waiting_state, done_state] ?w ?r ?es" by (simp add: run_over_def)
  have "\<exists>k \<ge> i. e_acc (?es k) ! j" if "j < 1" for i j :: nat
    using that by (intro exI [of _ "Suc i"]) simp
  then have acc: "accepting_run 1 ?es" by (simp add: accepting_run_def)
  show ?thesis
    using awaited_until_comes [OF a_until_b(1,2) a_until_b_states run acc,
        of "(Some [], Binary [] Until 0 (Atom [] ''a'') (Atom [0] ''b''))" 0] by auto
qed

section \<open>The automaton with outgoing transitions\<close>

text \<open>
  C6. From a formula whose propositions are spelled neither like truth values nor with a leading
  exclamation mark, a bound that is large enough gives an automaton: renumbering finds every state,
  the texts of the literals are found, and the two searches for components return.
\<close>

theorem translation_terminates:
  assumes "whole f" "proper f" "plain_names f"
  shows "\<exists>d b. \<forall>k \<ge> d. ltl_to_tgba2 k neg f c = Some b"
  by (rule translation_total [OF assms])

theorem translation_terminates_witness:
  "\<exists>d b. \<forall>k \<ge> d. ltl_to_tgba2 k True a_until_b 0 = Some b"
  by (rule translation_terminates [OF a_until_b])

text \<open>
  C1. The automaton with outgoing transitions and numbered literals accepts exactly the words for
  which the formula holds (or does not hold, for a negated formula).
\<close>

theorem automaton_accepts_models:
  assumes "whole f" "proper f" "plain_names f" "ltl_to_tgba2 k neg f c = Some b"
  shows "accepts2 b w \<longleftrightarrow> holds w 0 f \<noteq> neg"
  by (rule translation_language [OF assms])

theorem automaton_accepts_models_witness:
  "case ltl_to_tgba2 20 True a_until_b 0 of None \<Rightarrow> False
   | Some b \<Rightarrow> accepts2 b (\<lambda>i. {''a''}) \<and> \<not> accepts2 b (\<lambda>i. {''b''})"
proof -
  have "ltl_to_tgba2 20 True a_until_b 0 \<noteq> None" by code_simp
  then obtain b where b: "ltl_to_tgba2 20 True a_until_b 0 = Some b" by blast
  then show ?thesis
    using automaton_accepts_models [OF a_until_b b] by (auto simp: makes make_label_def)
qed

text \<open>
  C7. The numbers of the components: the automaton has a list of transitions for every state, and
  these lead to states, are labelled with literals, and have marks of its acceptance sets. A state
  has a number exactly if the transitions inside its strongly connected component have all the
  marks, and two states have the same number exactly if they lead to each other.
\<close>

theorem accepting_components:
  assumes "whole f" "proper f" "plain_names f" "ltl_to_tgba2 k neg f c = Some b"
    and "x < t2_nstates b" "y < t2_nstates b"
  shows "length (t2_states b) = t2_nstates b \<and>
    (\<forall>t \<in> set (t2_states b ! x). tr_target t < t2_nstates b \<and> (\<forall>j \<in> set (tr_acc t). j < t2_nacc b)) \<and>
    (t2_acc_scc b ! x \<noteq> None \<longleftrightarrow> accepting_scc (t2_nacc b) (t2_states b) x) \<and>
    (t2_acc_scc b ! x \<noteq> None \<longrightarrow> (t2_acc_scc b ! x = t2_acc_scc b ! y \<longleftrightarrow> mutual (t2_states b) x y))"
proof -
  obtain g u S where t: "tableau k neg f c = Some (g, u, S)"
    using assms(4) by (auto simp: ltl_to_tgba2_def ltl_to_tgba1_def split: bind_splits)
  obtain a where a: "make_tgba2 a = Some b" and m: "made_of g u c S a"
    using translation_of_tableau [OF assms(1-3) t] assms(4) by auto
  obtain count where n: "numbers_ok u (t2_states b) {..<length S} count (t2_acc_scc b)"
    using make_tgba2_exists(2) [OF m a] by blast
  have b: "out_transitions a = Some (t2_states b)" "t2_nacc b = u" "t2_nstates b = length (t1_states a)"
    using a made_of_facts(3) [OF m] by (auto simp: make_tgba2_def split: bind_splits)
  have len: "length (t2_states b) = length S" "t2_nstates b = length S"
    using table_steps(1) [OF m b(1)] arg_cong [OF made_table(4) [OF m b(1)], of length] b(3) by simp_all
  have xy: "x \<in> {..<length S}" "y \<in> {..<length S}" using assms(5,6) len(2) by simp_all
  show ?thesis
  proof (intro conjI)
    show "\<forall>t \<in> set (t2_states b ! x). tr_target t < t2_nstates b \<and> (\<forall>j \<in> set (tr_acc t). j < t2_nacc b)"
      using made_table(1) [OF m b(1)] xy len b(2) by (simp add: table_ok_def)
    show "t2_acc_scc b ! x \<noteq> None \<longleftrightarrow> accepting_scc (t2_nacc b) (t2_states b) x"
      using n xy unfolding numbers_ok_def b(2) by blast
    show "t2_acc_scc b ! x \<noteq> None \<longrightarrow> (t2_acc_scc b ! x = t2_acc_scc b ! y \<longleftrightarrow> mutual (t2_states b) x y)"
      using n xy unfolding numbers_ok_def by blast
  qed (use len in simp)
qed

theorem accepting_components_witness:
  "case ltl_to_tgba2 20 False a_until_b 0 of None \<Rightarrow> False
   | Some b \<Rightarrow> \<not> mutual (t2_states b) 1 0 \<and> accepting_scc 1 (t2_states b) 1"
proof -
  have "case ltl_to_tgba2 20 False a_until_b 0 of None \<Rightarrow> False
    | Some b \<Rightarrow> t2_nstates b = 2 \<and> t2_nacc b = 1 \<and> t2_acc_scc b = [None, Some 1]" by code_simp
  then obtain b where b: "ltl_to_tgba2 20 False a_until_b 0 = Some b" "t2_nstates b = 2" "t2_nacc b = 1"
    "t2_acc_scc b = [None, Some 1]" by (auto split: option.splits)
  then show ?thesis using accepting_components [OF a_until_b b(1), of 1 0] by simp
qed

text \<open>
  An automaton without acceptance sets numbers components that no run stays in: in the one for
  \<open>X a\<close> the first state has no transition from itself or from any other state, yet it is marked as
  an accepting component.
\<close>

theorem transient_component_accepts:
  "case ltl_to_tgba2 20 False (make_unary Next (make_label ''a'')) 0 of None \<Rightarrow> False
   | Some b \<Rightarrow> t2_acc_scc b ! 0 = Some 3 \<and> 0 \<notin> set (concat (map (map tr_target) (t2_states b)))"
  by code_simp

text \<open>
  The way back from outgoing to incoming edges reads the number of an acceptance set into a
  truth value: a transition in the third set comes back as an edge in the second, and one in the
  second set of an automaton with one set makes the access throw.
\<close>

theorem backward_automaton_loses_sets:
  "map_option (\<lambda>a. map e_acc (st_edges (t1_states a ! 0)))
     (tgba1_of_tgba2 (b\<lparr>t2_nacc := 3, t2_states := [[\<lparr>tr_target = 0, tr_label = [], tr_acc = [2]\<rparr>]]\<rparr>)) =
     Some [[False, True, False]] \<and>
   tgba1_of_tgba2 (b\<lparr>t2_nacc := 1, t2_states := [[\<lparr>tr_target = 0, tr_label = [], tr_acc = [1]\<rparr>]]\<rparr>) = None"
  by (simp add: tgba1_of_tgba2_def add_edge_def eval_nat_numeral)

end
