(* ===== verification/McGraph.thy ===== *)
theory McGraph
  imports Main
begin

text \<open>
  The state space that the model checker explores (\<^verbatim>\<open>src/divine/mc/builder.hpp\<close>): the table of the
  states that were stored, and the successors of a state. What the machine does from a state is not
  modelled; it is an argument of the searches, which lists the successors of a state with the labels
  of the edges, in the order in which \<^verbatim>\<open>edges\<close> gives them. A state is the snapshot that stands for all
  snapshots the table holds for equal.
\<close>

section \<open>States and labels\<close>

text \<open>Of a label the searches read two flags; the trace, the choices and the interrupts are for the user.\<close>

record label =
  l_accepting :: bool
  l_error :: bool

type_synonym 'st successors = "'st \<Rightarrow> ('st \<times> label) list"

text \<open>The table, the number of states that were stored, and the initial state, if there is one.\<close>

record 'st builder =
  b_states :: "'st set"
  b_total :: nat
  b_initial :: "'st option"

definition store :: "'st \<Rightarrow> 'st builder \<Rightarrow> 'st builder \<times> bool" where
  "store s b =
     (if s \<in> b_states b then (b, False)
      else (b\<lparr>b_states := insert s (b_states b), b_total := Suc (b_total b)\<rparr>, True))"

text \<open>\<^verbatim>\<open>start\<close>: the machine boots to a state, or fails to.\<close>

definition start_builder :: "'st option \<Rightarrow> 'st builder" where
  "start_builder boot =
     (let b = \<lparr>b_states = {}, b_total = 0, b_initial = None\<rparr>
      in case boot of None \<Rightarrow> b | Some s \<Rightarrow> (fst (store s b))\<lparr>b_initial := Some s\<rparr>)"

text \<open>\<^verbatim>\<open>edges\<close>: every successor is stored and handed over, and with it whether it is new.\<close>

fun yield_edges ::
    "('st \<Rightarrow> label \<Rightarrow> bool \<Rightarrow> 's \<Rightarrow> 's) \<Rightarrow> ('st \<times> label) list \<Rightarrow> 'st builder \<Rightarrow> 's \<Rightarrow> 'st builder \<times> 's" where
  "yield_edges yield [] b s = (b, s)"
| "yield_edges yield ((t, l) # es) b s =
     (let (b, isnew) = store t b in yield_edges yield es b (yield t l isnew s))"

lemma store_states: "b_states (fst (store t b)) = insert t (b_states b)" "snd (store t b) \<longleftrightarrow> t \<notin> b_states b"
  "b_total b \<le> b_total (fst (store t b))" "b_initial (fst (store t b)) = b_initial b"
  by (auto simp: store_def)

section \<open>Verdicts\<close>

text \<open>\<^verbatim>\<open>Result\<close>; a job that has no verdict of its own says \<^verbatim>\<open>None\<close>, which is \<open>Unknown\<close> here.\<close>

datatype verdict = Unknown | Valid | Error | BootError

definition verdict :: "'st builder \<Rightarrow> bool \<Rightarrow> verdict" where
  "verdict b found = (if b_total b = 0 then BootError else if found then Error else Valid)"

section \<open>Paths\<close>

definition edge_in :: "'st successors \<Rightarrow> 'st \<Rightarrow> 'st \<Rightarrow> bool" where
  "edge_in succs x y \<longleftrightarrow> (\<exists>l. (y, l) \<in> set (succs x))"

definition accepting_edge :: "'st successors \<Rightarrow> 'st \<Rightarrow> 'st \<Rightarrow> bool" where
  "accepting_edge succs x y \<longleftrightarrow> (\<exists>l. (y, l) \<in> set (succs x) \<and> l_accepting l)"

definition error_edge :: "'st successors \<Rightarrow> 'st \<Rightarrow> 'st \<Rightarrow> bool" where
  "error_edge succs x y \<longleftrightarrow> (\<exists>l. (y, l) \<in> set (succs x) \<and> l_error l)"

definition goes :: "'st successors \<Rightarrow> 'st \<Rightarrow> 'st \<Rightarrow> bool" where
  "goes succs = (edge_in succs)\<^sup>*\<^sup>*"

definition finite_from :: "'st successors \<Rightarrow> 'st \<Rightarrow> bool" where
  "finite_from succs i \<longleftrightarrow> finite {x. goes succs i x}"

fun path :: "'st successors \<Rightarrow> 'st list \<Rightarrow> bool" where
  "path succs (x # y # xs) \<longleftrightarrow> edge_in succs x y \<and> path succs (y # xs)"
| "path succs xs \<longleftrightarrow> True"

lemma goes_refl [simp, intro]: "goes succs x x"
  by (simp add: goes_def)

lemma goes_trans [trans]: "goes succs x y \<Longrightarrow> goes succs y z \<Longrightarrow> goes succs x z"
  by (simp add: goes_def)

lemma goes_edge: "goes succs x y \<Longrightarrow> edge_in succs y z \<Longrightarrow> goes succs x z"
  by (simp add: goes_def)

lemma edge_goes: "edge_in succs x y \<Longrightarrow> goes succs x y"
  by (simp add: goes_def)

lemma some_edges: "(y, l) \<in> set (succs x) \<Longrightarrow> edge_in succs x y" "accepting_edge succs x y \<Longrightarrow> edge_in succs x y"
  "error_edge succs x y \<Longrightarrow> edge_in succs x y"
  by (auto simp: edge_in_def accepting_edge_def error_edge_def)

lemma goes_closed:
  assumes "goes succs x y" "x \<in> A" "\<And>x y. x \<in> A \<Longrightarrow> edge_in succs x y \<Longrightarrow> y \<in> A"
  shows "y \<in> A"
  using assms(1) unfolding goes_def by (induction rule: rtranclp_induct) (use assms(2,3) in auto)

lemma path_append:
  "path succs (xs @ [x]) \<Longrightarrow> path succs (y # ys) \<Longrightarrow> edge_in succs x y \<Longrightarrow> path succs (xs @ x # y # ys)"
  by (induction succs xs rule: path.induct) auto

lemma path_snoc: "path succs (xs @ [x, y]) \<longleftrightarrow> path succs (xs @ [x]) \<and> edge_in succs x y"
  by (induction succs xs rule: path.induct) auto

lemma path_goes: "path succs xs \<Longrightarrow> xs \<noteq> [] \<Longrightarrow> x \<in> set xs \<Longrightarrow> goes succs (hd xs) x"
proof (induction succs xs rule: path.induct)
  case (1 succs y z xs)
  have e: "goes succs y z" using 1(2) by (intro edge_goes) simp
  show ?case
  proof (cases "x = y")
    case False
    then have "goes succs z x" using 1 by auto
    then show ?thesis using goes_trans [OF e] by simp
  qed simp
qed auto

end
