(* ===== verification/McLiveness.thy ===== *)
theory McLiveness
  imports McGraph "HOL-Library.Monad_Syntax"
begin

text \<open>
  The search for accepting cycles (\<^verbatim>\<open>NestedDFS\<close> and \<^verbatim>\<open>Liveness\<close> in \<^verbatim>\<open>src/divine/mc/liveness.hpp\<close>). An
  edge accepts here, not a state. A deque is the list of its items from the back to the front.
\<close>

section \<open>The state of the search\<close>

record flags =
  outer_visited :: bool
  inner_visited :: bool
  in_outer_stack :: bool

datatype item_type = DfsStack | Successors

record 'st item =
  it_state :: 'st
  it_accepting :: bool
  it_error :: bool
  it_type :: item_type

definition edge_item :: "'st \<Rightarrow> label \<Rightarrow> 'st item" where
  "edge_item s l = \<lparr>it_state = s, it_accepting = l_accepting l, it_error = l_error l, it_type = Successors\<rparr>"

definition state_item :: "'st \<Rightarrow> 'st item" where
  "state_item s = \<lparr>it_state = s, it_accepting = False, it_error = False, it_type = Successors\<rparr>"

text \<open>
  The ranges of the counterexample are the items they span, from the front; the stacks do not change
  after a range is taken. A state whose flags were not materialised has \<open>None\<close> in the pool of flags,
  and looking there ends the search with \<open>Fault\<close>.
\<close>

record 'st counterexample =
  c_tail :: "'st item list"
  c_inner :: "'st item list"
  c_outer :: "'st item list"
  c_goal :: "'st option"

datatype status = Searching | Found | Fault

record 'st ndfs =
  n_builder :: "'st builder"
  n_flags :: "'st \<Rightarrow> flags option"
  n_inner :: "'st item list"
  n_outer :: "'st item list"
  n_example :: "'st counterexample"
  n_status :: status

definition init_state :: "'st \<Rightarrow> 'st ndfs \<Rightarrow> 'st ndfs" where
  "init_state s n =
     n\<lparr>n_flags := (n_flags n)(s \<mapsto> \<lparr>outer_visited = False, inner_visited = False, in_outer_stack = False\<rparr>)\<rparr>"

definition start_ndfs :: "'st builder \<Rightarrow> 'st ndfs" where
  "start_ndfs b =
     \<lparr>n_builder = b, n_flags = (\<lambda>s. None), n_inner = [], n_outer = [],
      n_example = \<lparr>c_tail = [], c_inner = [], c_outer = [], c_goal = None\<rparr>, n_status = Searching\<rparr>"

definition set_flags :: "'st \<Rightarrow> flags \<Rightarrow> 'st ndfs \<Rightarrow> 'st ndfs" where
  "set_flags s f n = n\<lparr>n_flags := (n_flags n)(s \<mapsto> f)\<rparr>"

text \<open>The edges of a state on one of the stacks; the builder is a part of the state of the search.\<close>

definition push_inner :: "'st \<Rightarrow> label \<Rightarrow> bool \<Rightarrow> 'st ndfs \<Rightarrow> 'st ndfs" where
  "push_inner t l isnew n =
     (let n = (if isnew then init_state t n else n) in n\<lparr>n_inner := edge_item t l # n_inner n\<rparr>)"

definition push_outer :: "'st \<Rightarrow> label \<Rightarrow> bool \<Rightarrow> 'st ndfs \<Rightarrow> 'st ndfs" where
  "push_outer t l isnew n =
     (let n = (if isnew then init_state t n else n) in n\<lparr>n_outer := edge_item t l # n_outer n\<rparr>)"

definition expand_with ::
    "('st \<Rightarrow> label \<Rightarrow> bool \<Rightarrow> 'st ndfs \<Rightarrow> 'st ndfs) \<Rightarrow> 'st successors \<Rightarrow> 'st \<Rightarrow> 'st ndfs \<Rightarrow> 'st ndfs" where
  "expand_with push succs s n =
     (let (b, n) = yield_edges push (succs s) (n_builder n) n in n\<lparr>n_builder := b\<rparr>)"

section \<open>The inner search\<close>

text \<open>
  The lasso closes at the seed, or at a state on the outer stack: then its last part is the outer
  stack behind that state, if there is anything.
\<close>

definition behind :: "'st \<Rightarrow> 'st item list \<Rightarrow> 'st item list" where
  "behind s items = tl (dropWhile (\<lambda>i. \<not> (it_state i = s \<and> it_type i = DfsStack)) items)"

definition close_lasso :: "'st \<Rightarrow> 'st item \<Rightarrow> 'st ndfs \<Rightarrow> 'st ndfs" where
  "close_lasso seed item n =
     (let c = (n_example n)\<lparr>c_goal := Some seed\<rparr>
      in n\<lparr>n_example :=
             (if it_state item = seed then c\<lparr>c_inner := rev (tl (n_inner n))\<rparr>
              else c\<lparr>c_inner := rev (n_inner n), c_outer := behind (it_state item) (rev (n_outer n))\<rparr>),
           n_status := Found\<rparr>)"

definition inner_step :: "'st successors \<Rightarrow> 'st \<Rightarrow> 'st ndfs \<Rightarrow> 'st ndfs" where
  "inner_step succs seed n =
     (case n_inner n of
        [] \<Rightarrow> n
      | item # rest \<Rightarrow>
          if it_type item = DfsStack then n\<lparr>n_inner := rest\<rparr>
          else
            (case n_flags n (it_state item) of
               None \<Rightarrow> n\<lparr>n_status := Fault\<rparr>
             | Some f \<Rightarrow>
                 let n = n\<lparr>n_inner := item\<lparr>it_type := DfsStack\<rparr> # rest\<rparr>
                 in if it_accepting item \<and> it_state item = seed \<or> in_outer_stack f
                    then close_lasso seed (item\<lparr>it_type := DfsStack\<rparr>) n
                    else if \<not> inner_visited f
                    then expand_with push_inner succs (it_state item)
                           (set_flags (it_state item) (f\<lparr>inner_visited := True\<rparr>) n)
                    else n\<lparr>n_inner := rest\<rparr>))"

partial_function (option) inner_loop :: "'st successors \<Rightarrow> 'st \<Rightarrow> 'st ndfs \<Rightarrow> 'st ndfs option" where
  "inner_loop succs seed n =
     (if n_inner n = [] \<or> n_status n \<noteq> Searching then Some n
      else inner_loop succs seed (inner_step succs seed n))"

declare inner_loop.simps [code]

definition inner :: "'st successors \<Rightarrow> 'st \<Rightarrow> 'st ndfs \<Rightarrow> 'st ndfs option" where
  "inner succs seed n = inner_loop succs seed (n\<lparr>n_inner := state_item seed # n_inner n\<rparr>)"

section \<open>The outer search\<close>

definition take_tail :: "'st item list \<Rightarrow> 'st ndfs \<Rightarrow> 'st ndfs" where
  "take_tail items n = n\<lparr>n_example := (n_example n)\<lparr>c_tail := rev items\<rparr>\<rparr>"

definition take_goal :: "'st \<Rightarrow> 'st ndfs \<Rightarrow> 'st ndfs" where
  "take_goal s n = n\<lparr>n_example := (n_example n)\<lparr>c_goal := Some s\<rparr>, n_status := Found\<rparr>"

definition outer_inner :: "'st successors \<Rightarrow> 'st \<Rightarrow> 'st ndfs \<Rightarrow> 'st ndfs option" where
  "outer_inner succs seed n =
     do {
       n \<leftarrow> inner succs seed n;
       Some (if n_status n = Found then take_tail (n_outer n) n else n)
     }"

definition outer_step :: "'st successors \<Rightarrow> 'st ndfs \<Rightarrow> 'st ndfs option" where
  "outer_step succs n =
     (case n_outer n of
        [] \<Rightarrow> Some n
      | item # rest \<Rightarrow>
          (case n_flags n (it_state item) of
             None \<Rightarrow> Some (n\<lparr>n_status := Fault\<rparr>)
           | Some f \<Rightarrow>
               if it_type item = DfsStack
               then if \<not> outer_visited f then Some (n\<lparr>n_status := Fault\<rparr>)
                    else let n = set_flags (it_state item) (f\<lparr>in_outer_stack := False\<rparr>) (n\<lparr>n_outer := rest\<rparr>)
                         in if it_accepting item then outer_inner succs (it_state item) n else Some n
               else
                 let n = n\<lparr>n_outer := item\<lparr>it_type := DfsStack\<rparr> # rest\<rparr>
                 in if \<not> outer_visited f
                    then let n = set_flags (it_state item) (f\<lparr>outer_visited := True, in_outer_stack := True\<rparr>) n
                         in if it_error item
                            then Some (take_tail rest (take_goal (it_state item) n))
                            else Some (expand_with push_outer succs (it_state item) n)
                    else let n = n\<lparr>n_outer := rest\<rparr>
                         in if it_accepting item
                            then if in_outer_stack f
                                 then Some (take_tail rest (take_goal (it_state item) n))
                                 else outer_inner succs (it_state item) n
                            else Some n))"

partial_function (option) outer_loop :: "'st successors \<Rightarrow> 'st ndfs \<Rightarrow> 'st ndfs option" where
  "outer_loop succs n =
     (if n_outer n = [] \<or> n_status n \<noteq> Searching then Some n
      else do { n \<leftarrow> outer_step succs n; outer_loop succs n })"

declare outer_loop.simps [code]

definition outer :: "'st successors \<Rightarrow> 'st \<Rightarrow> 'st ndfs \<Rightarrow> 'st ndfs option" where
  "outer succs from n = outer_loop succs (init_state from (n\<lparr>n_outer := state_item from # n_outer n\<rparr>))"

definition run_ndfs :: "'st successors \<Rightarrow> 'st builder \<Rightarrow> 'st ndfs option" where
  "run_ndfs succs b =
     (case b_initial b of None \<Rightarrow> Some (start_ndfs b) | Some s \<Rightarrow> outer succs s (start_ndfs b))"

section \<open>The job\<close>

definition ndfs_verdict :: "'st ndfs \<Rightarrow> verdict" where
  "ndfs_verdict n = verdict (n_builder n) (c_goal (n_example n) \<noteq> None)"

definition dfs_states :: "'st item list \<Rightarrow> 'st list" where
  "dfs_states items = map it_state [i \<leftarrow> items. it_type i = DfsStack]"

text \<open>The trace: the tail, the inner part of the lasso, its outer part, and the goal.\<close>

definition ndfs_trace :: "'st ndfs \<Rightarrow> 'st list" where
  "ndfs_trace n =
     (case c_goal (n_example n) of
        None \<Rightarrow> []
      | Some goal \<Rightarrow>
          dfs_states (c_tail (n_example n)) @ dfs_states (c_inner (n_example n)) @
          dfs_states (c_outer (n_example n)) @ [goal])"

definition liveness :: "'st successors \<Rightarrow> 'st option \<Rightarrow> 'st ndfs option" where
  "liveness succs boot = run_ndfs succs (start_builder boot)"

end
