(* ===== verification/McLivenessFacts.thy ===== *)
theory McLivenessFacts
  imports McLiveness
begin

text \<open>
  The search for accepting cycles: what the stacks hold, what the flags say, and why both loops end.
\<close>

section \<open>Flags and tables\<close>

definition visited :: "'st ndfs \<Rightarrow> 'st set" where
  "visited n = {s. \<exists>f. n_flags n s = Some f \<and> outer_visited f}"

definition marked :: "'st ndfs \<Rightarrow> 'st set" where
  "marked n = {s. \<exists>f. n_flags n s = Some f \<and> inner_visited f}"

definition open_states :: "'st ndfs \<Rightarrow> 'st set" where
  "open_states n = {s. \<exists>f. n_flags n s = Some f \<and> in_outer_stack f}"

definition same_flags :: "'st ndfs \<Rightarrow> 'st ndfs \<Rightarrow> bool" where
  "same_flags n n' \<longleftrightarrow> visited n' = visited n \<and> marked n' = marked n \<and> open_states n' = open_states n"

text \<open>Exactly the states in the table have flags.\<close>

definition tables_ok :: "'st ndfs \<Rightarrow> bool" where
  "tables_ok n \<longleftrightarrow> dom (n_flags n) = b_states (n_builder n)"

lemmas flag_sets = visited_def marked_def open_states_def

lemma flags_known: "visited n \<subseteq> dom (n_flags n)" "marked n \<subseteq> dom (n_flags n)"
  by (auto simp: visited_def marked_def)

lemma set_flags_simps [simp]:
  "n_builder (set_flags s f n) = n_builder n" "n_inner (set_flags s f n) = n_inner n"
  "n_outer (set_flags s f n) = n_outer n" "n_example (set_flags s f n) = n_example n"
  "n_status (set_flags s f n) = n_status n" "n_flags (set_flags s f n) = (n_flags n)(s \<mapsto> f)"
  by (simp_all add: set_flags_def)

lemma set_flags_sets:
  "visited (set_flags s f n) = (if outer_visited f then insert s (visited n) else visited n - {s})"
  "marked (set_flags s f n) = (if inner_visited f then insert s (marked n) else marked n - {s})"
  "open_states (set_flags s f n) = (if in_outer_stack f then insert s (open_states n) else open_states n - {s})"
  by (auto simp: visited_def marked_def open_states_def)

lemma flags_of_simps [simp]:
  "visited (n\<lparr>n_inner := xs\<rparr>) = visited n" "visited (n\<lparr>n_outer := xs\<rparr>) = visited n"
  "marked (n\<lparr>n_inner := xs\<rparr>) = marked n" "marked (n\<lparr>n_outer := xs\<rparr>) = marked n"
  "open_states (n\<lparr>n_inner := xs\<rparr>) = open_states n" "open_states (n\<lparr>n_outer := xs\<rparr>) = open_states n"
  "visited (n\<lparr>n_builder := b\<rparr>) = visited n" "marked (n\<lparr>n_builder := b\<rparr>) = marked n"
  "open_states (n\<lparr>n_builder := b\<rparr>) = open_states n"
  "visited (n\<lparr>n_example := c\<rparr>) = visited n" "marked (n\<lparr>n_example := c\<rparr>) = marked n"
  "open_states (n\<lparr>n_example := c\<rparr>) = open_states n"
  "visited (n\<lparr>n_status := st\<rparr>) = visited n" "marked (n\<lparr>n_status := st\<rparr>) = marked n"
  "open_states (n\<lparr>n_status := st\<rparr>) = open_states n"
  by (simp_all add: visited_def marked_def open_states_def)

section \<open>Expanding a state\<close>

definition edge_items :: "('st \<times> label) list \<Rightarrow> 'st item list" where
  "edge_items es = rev (map (\<lambda>(t, l). edge_item t l) es)"

text \<open>What a push does beside the stack: the flags of a new state are made.\<close>

definition pushes :: "'st ndfs \<Rightarrow> 'st ndfs \<Rightarrow> bool" where
  "pushes n n' \<longleftrightarrow> same_flags n n' \<and> n_example n' = n_example n \<and> n_status n' = n_status n"

lemma init_state_flags:
  assumes "s \<notin> dom (n_flags n)"
  shows "same_flags n (init_state s n)" "dom (n_flags (init_state s n)) = insert s (dom (n_flags n))"
  using assms by (auto simp: init_state_def same_flags_def visited_def marked_def open_states_def)

lemma init_state_simps [simp]:
  "n_builder (init_state s n) = n_builder n" "n_inner (init_state s n) = n_inner n"
  "n_outer (init_state s n) = n_outer n" "n_example (init_state s n) = n_example n"
  "n_status (init_state s n) = n_status n"
  by (simp_all add: init_state_def)

lemma push_step:
  assumes "store t b = (c, new)" "dom (n_flags n) = b_states b"
  shows "pushes n (push_inner t l new n)" "dom (n_flags (push_inner t l new n)) = b_states c"
    and "n_inner (push_inner t l new n) = edge_item t l # n_inner n" "n_outer (push_inner t l new n) = n_outer n"
    and "pushes n (push_outer t l new n)" "dom (n_flags (push_outer t l new n)) = b_states c"
    and "n_outer (push_outer t l new n) = edge_item t l # n_outer n" "n_inner (push_outer t l new n) = n_inner n"
proof -
  have st: "b_states c = insert t (b_states b)" "new \<longleftrightarrow> t \<notin> b_states b"
    using store_states [where t = t and b = b] assms(1) by simp_all
  define m where "m = (if new then init_state t n else n)"
  have m: "same_flags n m" "dom (n_flags m) = b_states c"
    using init_state_flags [of t n] st assms(2) by (auto simp: m_def same_flags_def)
  have m2: "n_inner m = n_inner n" "n_outer m = n_outer n" "n_example m = n_example n" "n_status m = n_status n"
    by (simp_all add: m_def)
  have p: "push_inner t l new n = m\<lparr>n_inner := edge_item t l # n_inner m\<rparr>"
    "push_outer t l new n = m\<lparr>n_outer := edge_item t l # n_outer m\<rparr>"
    by (simp_all add: push_inner_def push_outer_def m_def)
  show "pushes n (push_inner t l new n)" "dom (n_flags (push_inner t l new n)) = b_states c"
    "n_inner (push_inner t l new n) = edge_item t l # n_inner n" "n_outer (push_inner t l new n) = n_outer n"
    "pushes n (push_outer t l new n)" "dom (n_flags (push_outer t l new n)) = b_states c"
    "n_outer (push_outer t l new n) = edge_item t l # n_outer n" "n_inner (push_outer t l new n) = n_inner n"
    using m m2 by (simp_all add: p pushes_def same_flags_def)
qed

lemma pushes_trans: "pushes n m \<Longrightarrow> pushes m n' \<Longrightarrow> pushes n n'"
  by (simp add: pushes_def same_flags_def)

lemma pushes_refl [simp]: "pushes n n"
  by (simp add: pushes_def same_flags_def)

lemma edge_items_Cons: "edge_items ((t, l) # es) = edge_items es @ [edge_item t l]"
  by (simp add: edge_items_def)

lemma yield_push_inner:
  "yield_edges push_inner es b n = (b', n') \<Longrightarrow> dom (n_flags n) = b_states b \<Longrightarrow>
    pushes n n' \<and> n_inner n' = edge_items es @ n_inner n \<and> n_outer n' = n_outer n \<and>
    dom (n_flags n') = b_states b' \<and> b_total b \<le> b_total b'"
proof (induction es arbitrary: b n)
  case Nil
  then show ?case by (auto simp: edge_items_def)
next
  case (Cons e es)
  obtain t l where "e = (t, l)" by fastforce
  moreover obtain c new where "store t b = (c, new)" by fastforce
  ultimately have e: "e = (t, l)" "store t b = (c, new)" by blast+
  note step = push_step [OF e(2) Cons.prems(2), of l]
  have total: "b_total b \<le> b_total c" using store_states(3) [of b t] e(2) by simp
  have "yield_edges push_inner es c (push_inner t l new n) = (b', n')" using Cons.prems(1) e by simp
  from total Cons.IH [OF this step(2)] show ?case
    using step pushes_trans [OF step(1)] by (simp add: e(1) edge_items_Cons)
qed

lemma yield_push_outer:
  "yield_edges push_outer es b n = (b', n') \<Longrightarrow> dom (n_flags n) = b_states b \<Longrightarrow>
    pushes n n' \<and> n_outer n' = edge_items es @ n_outer n \<and> n_inner n' = n_inner n \<and>
    dom (n_flags n') = b_states b' \<and> b_total b \<le> b_total b'"
proof (induction es arbitrary: b n)
  case Nil
  then show ?case by (auto simp: edge_items_def)
next
  case (Cons e es)
  obtain t l where "e = (t, l)" by fastforce
  moreover obtain c new where "store t b = (c, new)" by fastforce
  ultimately have e: "e = (t, l)" "store t b = (c, new)" by blast+
  note step = push_step [OF e(2) Cons.prems(2), of l]
  have total: "b_total b \<le> b_total c" using store_states(3) [of b t] e(2) by simp
  have "yield_edges push_outer es c (push_outer t l new n) = (b', n')" using Cons.prems(1) e by simp
  from total Cons.IH [OF this step(6)] show ?case
    using step pushes_trans [OF step(5)] by (simp add: e(1) edge_items_Cons)
qed

lemma expand_with_ok:
  assumes "tables_ok n"
  shows "pushes n (expand_with push_inner succs s n)" "tables_ok (expand_with push_inner succs s n)"
    and "n_inner (expand_with push_inner succs s n) = edge_items (succs s) @ n_inner n"
    and "n_outer (expand_with push_inner succs s n) = n_outer n"
    and "b_total (n_builder n) \<le> b_total (n_builder (expand_with push_inner succs s n))"
    and "pushes n (expand_with push_outer succs s n)" "tables_ok (expand_with push_outer succs s n)"
    and "n_outer (expand_with push_outer succs s n) = edge_items (succs s) @ n_outer n"
    and "n_inner (expand_with push_outer succs s n) = n_inner n"
    and "b_total (n_builder n) \<le> b_total (n_builder (expand_with push_outer succs s n))"
proof -
  have d: "dom (n_flags n) = b_states (n_builder n)" using assms by (simp add: tables_ok_def)
  obtain b m where i: "yield_edges push_inner (succs s) (n_builder n) n = (b, m)" by fastforce
  obtain b' m' where o: "yield_edges push_outer (succs s) (n_builder n) n = (b', m')" by fastforce
  show "pushes n (expand_with push_inner succs s n)" "tables_ok (expand_with push_inner succs s n)"
    "n_inner (expand_with push_inner succs s n) = edge_items (succs s) @ n_inner n"
    "n_outer (expand_with push_inner succs s n) = n_outer n"
    "b_total (n_builder n) \<le> b_total (n_builder (expand_with push_inner succs s n))"
    using yield_push_inner [OF i d] by (simp_all add: expand_with_def i tables_ok_def pushes_def same_flags_def)
  show "pushes n (expand_with push_outer succs s n)" "tables_ok (expand_with push_outer succs s n)"
    "n_outer (expand_with push_outer succs s n) = edge_items (succs s) @ n_outer n"
    "n_inner (expand_with push_outer succs s n) = n_inner n"
    "b_total (n_builder n) \<le> b_total (n_builder (expand_with push_outer succs s n))"
    using yield_push_outer [OF o d] by (simp_all add: expand_with_def o tables_ok_def pushes_def same_flags_def)
qed

lemma yield_states: "b_states (fst (yield_edges push es b s)) = b_states b \<union> fst ` set es"
proof (induction es arbitrary: b s)
  case (Cons e es)
  obtain t l where "e = (t, l)" by fastforce
  moreover obtain c new where "store t b = (c, new)" by fastforce
  ultimately show ?case using Cons.IH [of c] store_states(1) [of t b] by simp
qed simp

lemma expand_with_dom:
  assumes "tables_ok n"
  shows "dom (n_flags (expand_with push_inner succs s n)) = dom (n_flags n) \<union> fst ` set (succs s)"
    and "dom (n_flags (expand_with push_outer succs s n)) = dom (n_flags n) \<union> fst ` set (succs s)"
  using expand_with_ok(2,7) [OF assms, of succs s] assms yield_states [of _ "succs s" "n_builder n" n]
  by (simp_all add: tables_ok_def expand_with_def split_beta)

section \<open>The stacks\<close>

text \<open>
  Every item but the first was pushed for an edge from the next item below it that is being searched.
\<close>

fun chain :: "'st successors \<Rightarrow> 'st \<Rightarrow> 'st item list \<Rightarrow> bool" where
  "chain succs r [] \<longleftrightarrow> True"
| "chain succs r (i # rest) \<longleftrightarrow>
     chain succs r rest \<and>
     (case dfs_states rest of
        [] \<Rightarrow> rest = [] \<and> it_state i = r \<and> \<not> it_accepting i \<and> \<not> it_error i
      | u # us \<Rightarrow> \<exists>l. (it_state i, l) \<in> set (succs u) \<and> it_accepting i = l_accepting l \<and> it_error i = l_error l)"

lemma dfs_states_simps [simp]:
  "dfs_states [] = []"
  "dfs_states (i # rest) = (if it_type i = DfsStack then it_state i # dfs_states rest else dfs_states rest)"
  "dfs_states (xs @ ys) = dfs_states xs @ dfs_states ys" "dfs_states (rev xs) = rev (dfs_states xs)"
  by (simp_all add: dfs_states_def rev_filter rev_map)

lemma edge_items_dfs [simp]: "dfs_states (edge_items es) = []"
  by (induction es) (auto simp: edge_items_def edge_item_def)

lemma edge_items_set: "set (edge_items es) = (\<lambda>(t, l). edge_item t l) ` set es"
  by (simp add: edge_items_def)

lemma chain_retype [simp]: "chain succs r (i\<lparr>it_type := t\<rparr> # rest) = chain succs r (i # rest)"
  by (simp split: list.split)

lemma chain_push:
  assumes "chain succs r items" "dfs_states items = u # us" "set es \<subseteq> set (succs u)"
  shows "chain succs r (edge_items es @ items)"
  using assms(3)
proof (induction es rule: rev_induct)
  case Nil
  then show ?case using assms(1) by (simp add: edge_items_def)
next
  case (snoc e es)
  obtain t l where e: "e = (t, l)" by (cases e)
  have "edge_items (es @ [e]) = edge_item t l # edge_items es" by (simp add: edge_items_def e)
  then show ?case using snoc assms(2) by (auto simp: e edge_item_def)
qed

lemma chain_path:
  "chain succs r items \<Longrightarrow> path succs (rev (dfs_states items)) \<and>
    (dfs_states items \<noteq> [] \<longrightarrow> hd (rev (dfs_states items)) = r)"
proof (induction succs r items rule: chain.induct)
  case (2 succs r i rest)
  show ?case
  proof (cases "it_type i = DfsStack")
    case True
    show ?thesis
    proof (cases "dfs_states rest")
      case Nil
      then show ?thesis using 2 True by simp
    next
      case (Cons u us)
      have "edge_in succs u (it_state i)" using 2 Cons by (auto simp: edge_in_def)
      then show ?thesis using 2 True Cons by (simp add: path_snoc hd_append split: if_splits)
    qed
  qed (use 2 in simp)
qed simp

lemma chain_goes:
  assumes "chain succs r items" "x \<in> set (dfs_states items)"
  shows "goes succs r x"
proof -
  have "path succs (rev (dfs_states items))" "hd (rev (dfs_states items)) = r"
    using chain_path [OF assms(1)] assms(2) by force+
  then show ?thesis using path_goes [of succs "rev (dfs_states items)" x] assms(2) by force
qed

lemma chain_item_goes:
  assumes "chain succs r (i # rest)"
  shows "goes succs r (it_state i)"
proof (cases "dfs_states rest")
  case (Cons u us)
  then have "goes succs r u" "edge_in succs u (it_state i)"
    using assms chain_goes [of succs r rest u] by (auto simp: edge_in_def)
  then show ?thesis by (rule goes_edge)
qed (use assms in simp)

section \<open>The inner search\<close>

definition waits :: "'st item list \<Rightarrow> 'st \<Rightarrow> bool" where
  "waits items y \<longleftrightarrow> (\<exists>i \<in> set items. it_state i = y \<and> it_type i = Successors)"

definition marks_close :: "'st successors \<Rightarrow> 'st set \<Rightarrow> 'st item list \<Rightarrow> bool" where
  "marks_close succs M items \<longleftrightarrow> (\<forall>x \<in> M. \<forall>y. edge_in succs x y \<longrightarrow> y \<in> M \<or> waits items y)"

text \<open>What the inner search does not touch.\<close>

definition framed :: "'st ndfs \<Rightarrow> 'st ndfs \<Rightarrow> bool" where
  "framed m n \<longleftrightarrow>
     tables_ok n \<and> visited n = visited m \<and> open_states n = open_states m \<and> n_outer n = n_outer m \<and>
     b_total (n_builder m) \<le> b_total (n_builder n) \<and> dom (n_flags m) \<subseteq> dom (n_flags n)"

lemma framed_same:
  "n_flags n' = n_flags n \<Longrightarrow> n_builder n' = n_builder n \<Longrightarrow> n_outer n' = n_outer n \<Longrightarrow> framed m n' = framed m n"
  by (simp add: framed_def tables_ok_def flag_sets)

definition inner_inv :: "'st successors \<Rightarrow> 'st \<Rightarrow> 'st ndfs \<Rightarrow> 'st ndfs \<Rightarrow> bool" where
  "inner_inv succs seed m n \<longleftrightarrow>
     framed m n \<and> n_example n = n_example m \<and> n_status n = Searching \<and>
     chain succs seed (n_inner n) \<and> it_state ` set (n_inner n) \<subseteq> visited m \<and>
     marked n \<subseteq> visited m - open_states m \<and> set (dfs_states (n_inner n)) \<subseteq> marked n \<and>
     marks_close succs (marked n) (n_inner n) \<and> (seed \<in> marked n \<or> waits (n_inner n) seed)"

definition lasso_found :: "'st successors \<Rightarrow> 'st \<Rightarrow> 'st ndfs \<Rightarrow> 'st ndfs \<Rightarrow> bool" where
  "lasso_found succs seed m n \<longleftrightarrow>
     framed m n \<and> n_status n = Found \<and>
     (\<exists>i rest. chain succs seed (i # rest) \<and> it_type i = DfsStack \<and>
        ((it_accepting i \<and> it_state i = seed \<and>
          n_example n = (n_example m)\<lparr>c_goal := Some seed, c_inner := rev rest\<rparr>) \<or>
         (it_state i \<in> open_states m \<and>
          n_example n = (n_example m)\<lparr>c_goal := Some seed, c_inner := rev (i # rest),
            c_outer := behind (it_state i) (rev (n_outer m))\<rparr>)))"

definition visits_close :: "'st successors \<Rightarrow> 'st ndfs \<Rightarrow> bool" where
  "visits_close succs m \<longleftrightarrow> (\<forall>x \<in> visited m - open_states m. \<forall>y. edge_in succs x y \<longrightarrow> y \<in> visited m)"

definition weight :: "'st item list \<Rightarrow> nat" where
  "weight items = sum_list (map (\<lambda>i. if it_type i = DfsStack then 1 else 2) items)"

lemma weight_Cons [simp]: "weight (i # rest) = (if it_type i = DfsStack then 1 else 2) + weight rest"
  by (simp add: weight_def)

lemma waits_simps [simp]:
  "waits [] y \<longleftrightarrow> False" "waits (i # rest) y \<longleftrightarrow> it_state i = y \<and> it_type i = Successors \<or> waits rest y"
  "waits (xs @ ys) y \<longleftrightarrow> waits xs y \<or> waits ys y"
  by (auto simp: waits_def)

lemma waits_edge: "edge_in succs x y \<Longrightarrow> waits (edge_items (succs x)) y"
  unfolding edge_in_def waits_def edge_items_set by (force simp: edge_item_def)

lemma edge_items_states: "it_state ` set (edge_items (succs x)) = {y. edge_in succs x y}"
  by (force simp: edge_items_set edge_item_def edge_in_def)

lemma inner_step_ok:
  assumes inv: "inner_inv succs seed m n" and seed: "seed \<notin> open_states m"
    and close: "visits_close succs m" and fin: "finite (visited m)" and items: "n_inner n = item # rest"
  shows "inner_inv succs seed m (inner_step succs seed n) \<and>
      ((card (visited m - marked (inner_step succs seed n)), weight (n_inner (inner_step succs seed n))),
       (card (visited m - marked n), weight (n_inner n))) \<in> less_than <*lex*> less_than \<or>
    lasso_found succs seed m (inner_step succs seed n)"
proof -
  let ?s = "it_state item"
  have frame: "framed m n" and ex: "n_example n = n_example m" "n_status n = Searching"
    and chain: "chain succs seed (item # rest)" and states: "?s \<in> visited m" "it_state ` set rest \<subseteq> visited m"
    and marks: "marked n \<subseteq> visited m - open_states m" "set (dfs_states (item # rest)) \<subseteq> marked n"
    and closed: "marks_close succs (marked n) (item # rest)" and has_seed: "seed \<in> marked n \<or> waits (item # rest) seed"
    using inv items by (simp_all add: inner_inv_def)
  have pop: "inner_inv succs seed m (n\<lparr>n_inner := rest\<rparr>) \<and>
      ((card (visited m - marked (n\<lparr>n_inner := rest\<rparr>)), weight (n_inner (n\<lparr>n_inner := rest\<rparr>))),
       (card (visited m - marked n), weight (n_inner n))) \<in> less_than <*lex*> less_than"
    if p: "it_type item = DfsStack \<or> ?s \<in> marked n"
  proof
    have w: "y \<in> marked n \<or> waits rest y" if "waits (item # rest) y" for y using p that by auto
    then have "marks_close succs (marked n) rest" using closed unfolding marks_close_def by blast
    moreover have "seed \<in> marked n \<or> waits rest seed" using has_seed w by blast
    moreover have "set (dfs_states rest) \<subseteq> marked n" using marks(2) by (auto split: if_splits)
    moreover have "framed m (n\<lparr>n_inner := rest\<rparr>)" using frame framed_same [of "n\<lparr>n_inner := rest\<rparr>" n] by simp
    ultimately show "inner_inv succs seed m (n\<lparr>n_inner := rest\<rparr>)"
      using ex chain states(2) marks(1) by (simp add: inner_inv_def)
  qed (simp add: items)
  show ?thesis
  proof (cases "it_type item = DfsStack")
    case True
    then have "inner_step succs seed n = n\<lparr>n_inner := rest\<rparr>" by (simp add: inner_step_def items)
    then show ?thesis using pop True by simp
  next
    case False
    then have type: "it_type item = Successors" by (cases "it_type item") simp_all
    obtain f where f: "n_flags n ?s = Some f" "outer_visited f"
    proof -
      have "?s \<in> visited n" using states(1) frame by (simp add: framed_def)
      then show ?thesis using that by (auto simp: visited_def)
    qed
    have same: "open_states m = open_states n" using frame by (simp add: framed_def)
    have flags: "in_outer_stack f \<longleftrightarrow> ?s \<in> open_states m" "inner_visited f \<longleftrightarrow> ?s \<in> marked n"
      using f unfolding same by (auto simp: flag_sets)
    define n1 where "n1 = n\<lparr>n_inner := item\<lparr>it_type := DfsStack\<rparr> # rest\<rparr>"
    have n1: "framed m n1" "n_inner n1 = item\<lparr>it_type := DfsStack\<rparr> # rest" "n_example n1 = n_example m"
      "n_outer n1 = n_outer m" "marked n1 = marked n" "n_status n1 = Searching"
      using frame ex framed_same [of n1 n] by (simp_all add: n1_def, simp_all add: framed_def)
    consider (found) "it_accepting item \<and> ?s = seed \<or> in_outer_stack f"
      | (new) "\<not> (it_accepting item \<and> ?s = seed \<or> in_outer_stack f)" "\<not> inner_visited f"
      | (old) "\<not> (it_accepting item \<and> ?s = seed \<or> in_outer_stack f)" "inner_visited f" by blast
    then show ?thesis
    proof cases
      case found
      then have step: "inner_step succs seed n = close_lasso seed (item\<lparr>it_type := DfsStack\<rparr>) n1"
        using f(1) type by (simp add: inner_step_def items n1_def)
      have fr: "framed m (close_lasso seed (item\<lparr>it_type := DfsStack\<rparr>) n1)"
        "n_status (close_lasso seed (item\<lparr>it_type := DfsStack\<rparr>) n1) = Found"
        using n1(1) framed_same [of "close_lasso seed (item\<lparr>it_type := DfsStack\<rparr>) n1" n1]
        by (simp_all add: close_lasso_def Let_def)
      have "?s \<in> open_states m \<or> it_accepting item \<and> ?s = seed" using found flags by blast
      moreover have "?s \<noteq> seed" if "?s \<in> open_states m" using that seed by blast
      moreover have chain': "chain succs seed (item\<lparr>it_type := DfsStack\<rparr> # rest)" using chain by (simp only: chain_retype)
      ultimately have "lasso_found succs seed m (close_lasso seed (item\<lparr>it_type := DfsStack\<rparr>) n1)"
        unfolding lasso_found_def using fr chain' n1
        by (intro conjI exI [of _ "item\<lparr>it_type := DfsStack\<rparr>"] exI [of _ rest])
          (auto simp: close_lasso_def Let_def simp del: chain.simps chain_retype)
      then show ?thesis using step by simp
    next
      case new
      define n2 where "n2 = set_flags ?s (f\<lparr>inner_visited := True\<rparr>) n1"
      have step: "inner_step succs seed n = expand_with push_inner succs ?s n2"
        using new f(1) type by (auto simp: inner_step_def items n1_def n2_def Let_def)
      have s: "?s \<in> visited m - open_states m" "?s \<notin> marked n" using states(1) flags new by blast+
      have n2: "tables_ok n2" "visited n2 = visited m" "open_states n2 = open_states m" "marked n2 = insert ?s (marked n)"
        "n_inner n2 = item\<lparr>it_type := DfsStack\<rparr> # rest" "n_outer n2 = n_outer m" "n_example n2 = n_example m"
        "n_status n2 = Searching" "b_total (n_builder m) \<le> b_total (n_builder n2)" "dom (n_flags m) \<subseteq> dom (n_flags n2)"
        using n1 f flags s frame unfolding n2_def framed_def tables_ok_def n1_def
        by (auto simp: set_flags_sets)
      let ?n = "expand_with push_inner succs ?s n2"
      note e = expand_with_ok(1-5) [OF n2(1), of succs ?s]
      have items': "n_inner ?n = edge_items (succs ?s) @ item\<lparr>it_type := DfsStack\<rparr> # rest" using e(3) n2(5) by simp
      have marked': "marked ?n = insert ?s (marked n)" using e(1) n2(4) by (simp add: pushes_def same_flags_def)
      have "chain succs seed (edge_items (succs ?s) @ item\<lparr>it_type := DfsStack\<rparr> # rest)"
        by (rule chain_push [where u = ?s and us = "dfs_states rest"]) (use chain in \<open>simp_all del: chain.simps\<close>)
      moreover have "it_state ` set (n_inner ?n) \<subseteq> visited m"
        using close s(1) states edge_items_states [of succs ?s] unfolding items' visits_close_def
        by (auto simp: image_Un)
      moreover have "marks_close succs (marked ?n) (n_inner ?n)"
        unfolding marks_close_def
      proof (intro ballI allI impI)
        fix x y assume x: "x \<in> marked ?n" "edge_in succs x y"
        show "y \<in> marked ?n \<or> waits (n_inner ?n) y"
        proof (cases "x = ?s")
          case True
          then show ?thesis using waits_edge [OF x(2)] items' by simp
        next
          case False
          then have "y \<in> marked n \<or> waits (item # rest) y" using x closed marked' by (auto simp: marks_close_def)
          then show ?thesis using marked' items' by auto
        qed
      qed
      moreover have "seed \<in> marked ?n \<or> waits (n_inner ?n) seed"
        using has_seed marked' items' by auto
      moreover have "framed m ?n" "n_example ?n = n_example m" "n_status ?n = Searching"
        using e n2 expand_with_dom(1) [OF n2(1), of succs ?s]
        by (auto simp: framed_def pushes_def same_flags_def)
      ultimately have inv': "inner_inv succs seed m ?n"
        using marks s(1) unfolding inner_inv_def items' marked' by (auto split: if_splits)
      have "card (visited m - insert ?s (marked n)) < card (visited m - marked n)"
        using s fin by (intro psubset_card_mono) auto
      then show ?thesis using inv' step marked' by simp
    next
      case old
      then have "inner_step succs seed n = n\<lparr>n_inner := rest\<rparr>"
        using f(1) type by (auto simp: inner_step_def items Let_def)
      then show ?thesis using pop old(2) flags(2) by simp
    qed
  qed
qed

lemma inner_loop_ok:
  assumes seed: "seed \<notin> open_states m" and close: "visits_close succs m" and fin: "finite (visited m)"
  shows "inner_inv succs seed m n \<Longrightarrow>
    \<exists>n'. inner_loop succs seed n = Some n' \<and>
      (inner_inv succs seed m n' \<and> n_inner n' = [] \<or> lasso_found succs seed m n')"
proof (induction n rule: wf_induct_rule [OF wf_inv_image [OF wf_lex_prod [OF wf_less_than wf_less_than],
      where f = "\<lambda>n. (card (visited m - marked n), weight (n_inner n))"]])
  case (1 n)
  have searching: "n_status n = Searching" using 1(2) by (simp add: inner_inv_def)
  show ?case
  proof (cases "n_inner n")
    case Nil
    then show ?thesis using 1(2) by (simp add: inner_loop.simps)
  next
    case (Cons item rest)
    let ?n = "inner_step succs seed n"
    have loop: "inner_loop succs seed n = inner_loop succs seed ?n"
      using Cons searching by (subst inner_loop.simps) simp
    consider (more) "inner_inv succs seed m ?n"
        "((card (visited m - marked ?n), weight (n_inner ?n)), (card (visited m - marked n), weight (n_inner n)))
          \<in> less_than <*lex*> less_than"
      | (found) "lasso_found succs seed m ?n"
      using inner_step_ok [OF 1(2) seed close fin Cons] by blast
    then show ?thesis
    proof cases
      case more
      show ?thesis using 1(1) [OF _ more(1)] more(2) loop by (simp add: inv_image_def)
    next
      case found
      then have "inner_loop succs seed ?n = Some ?n"
        by (subst inner_loop.simps) (simp add: lasso_found_def)
      then show ?thesis using loop found by simp
    qed
  qed
qed

text \<open>The search from a seed that was left: either it finds a lasso, or the marks are closed again.\<close>

definition marks_ok :: "'st successors \<Rightarrow> 'st ndfs \<Rightarrow> bool" where
  "marks_ok succs n \<longleftrightarrow> marked n \<subseteq> visited n - open_states n \<and> marks_close succs (marked n) []"

lemma inner_ok:
  assumes t: "tables_ok m" "n_status m = Searching" "n_inner m = []" and marks: "marks_ok succs m"
    and seed: "seed \<in> visited m - open_states m" and close: "visits_close succs m" and fin: "finite (visited m)"
  shows "\<exists>n. inner succs seed m = Some n \<and>
    (framed m n \<and> n_example n = n_example m \<and> n_status n = Searching \<and> n_inner n = [] \<and>
       marks_ok succs n \<and> seed \<in> marked n \<or>
     lasso_found succs seed m n)"
proof -
  let ?n = "m\<lparr>n_inner := [state_item seed]\<rparr>"
  have "inner_inv succs seed m ?n"
    using t marks seed unfolding marks_ok_def
    by (auto simp: inner_inv_def framed_def tables_ok_def state_item_def marks_close_def)
  from inner_loop_ok [OF _ close fin this] seed obtain n where
    n: "inner_loop succs seed ?n = Some n" "inner_inv succs seed m n \<and> n_inner n = [] \<or> lasso_found succs seed m n"
    by blast
  have "inner succs seed m = Some n" using n(1) t(3) by (simp add: inner_def)
  moreover have "framed m n \<and> n_example n = n_example m \<and> n_status n = Searching \<and> n_inner n = [] \<and>
      marks_ok succs n \<and> seed \<in> marked n" if "inner_inv succs seed m n" "n_inner n = []"
    using that by (simp add: inner_inv_def marks_ok_def framed_def)
  ultimately show ?thesis using n(2) by blast
qed

text \<open>What the marks say: nothing that is open is reached from them.\<close>

lemma marked_never_open:
  assumes "marks_ok succs n" "goes succs x y" "x \<in> marked n"
  shows "y \<notin> open_states n"
proof -
  have "y \<in> marked n"
    by (rule goes_closed [OF assms(2,3)]) (use assms(1) in \<open>auto simp: marks_ok_def marks_close_def\<close>)
  then show ?thesis using assms(1) by (auto simp: marks_ok_def)
qed

end
