(* ===== verification/McLasso.thy ===== *)
theory McLasso
  imports McLivenessFacts
begin

text \<open>
  The outer search: its invariant, the traces it reports, and that it ends.
\<close>

section \<open>Traces\<close>

definition accepting_lasso :: "'st successors \<Rightarrow> 'st list \<Rightarrow> bool" where
  "accepting_lasso succs t \<longleftrightarrow>
     path succs t \<and> (\<exists>us x g. t = us @ [x, g] \<and> accepting_edge succs x g \<and> g \<in> set (us @ [x]))"

definition error_trace :: "'st successors \<Rightarrow> 'st list \<Rightarrow> bool" where
  "error_trace succs t \<longleftrightarrow> path succs t \<and> (\<exists>us x g. t = us @ [x, g] \<and> error_edge succs x g)"

definition reported :: "'st successors \<Rightarrow> 'st \<Rightarrow> 'st ndfs \<Rightarrow> bool" where
  "reported succs r n \<longleftrightarrow>
     0 < b_total (n_builder n) \<and> n_status n = Found \<and> c_goal (n_example n) \<noteq> None \<and> hd (ndfs_trace n) = r \<and>
     (accepting_lasso succs (ndfs_trace n) \<or> error_trace succs (ndfs_trace n))"

lemma chain_top:
  assumes "chain succs r (i # rest)" "it_accepting i \<or> it_error i"
  obtains u us where "dfs_states rest = u # us" "edge_in succs u (it_state i)"
    "it_accepting i \<Longrightarrow> accepting_edge succs u (it_state i)" "it_error i \<Longrightarrow> error_edge succs u (it_state i)"
proof (cases "dfs_states rest")
  case Nil
  then show ?thesis using assms by simp
next
  case (Cons u us)
  then show ?thesis using assms(1) that by (auto simp: edge_in_def accepting_edge_def error_edge_def)
qed

lemma path_join:
  assumes "path succs (xs @ [x])" "path succs ys" "ys \<noteq> []" "edge_in succs x (hd ys)"
  shows "path succs (xs @ x # ys)"
  using assms path_append [of succs xs x "hd ys" "tl ys"] by simp

lemma path_suffix: "path succs (xs @ ys) \<Longrightarrow> path succs ys"
proof (induction xs)
  case (Cons x xs)
  then show ?case by (cases "xs @ ys") auto
qed simp

lemma behind_states: "dfs_states (behind s items) = tl (dropWhile (\<lambda>x. x \<noteq> s) (dfs_states items))"
  by (induction items) (auto simp: behind_def)

lemma behind_split:
  assumes "s \<in> set (dfs_states items)"
  obtains p where "dfs_states items = p @ s # dfs_states (behind s items)"
proof -
  have "dropWhile (\<lambda>x. x \<noteq> s) (dfs_states items) \<noteq> []" using assms by (auto simp: dropWhile_eq_Nil_conv)
  then obtain x xs where d: "dropWhile (\<lambda>x. x \<noteq> s) (dfs_states items) = x # xs"
    by (cases "dropWhile (\<lambda>x. x \<noteq> s) (dfs_states items)") auto
  then have "x = s" using hd_dropWhile [of "\<lambda>x. x \<noteq> s" "dfs_states items"] by simp
  then have "dfs_states items = takeWhile (\<lambda>x. x \<noteq> s) (dfs_states items) @ s # dfs_states (behind s items)"
    using d takeWhile_dropWhile_id [of "\<lambda>x. x \<noteq> s" "dfs_states items"] by (simp add: behind_states)
  then show ?thesis by (rule that)
qed

text \<open>
  The outer stack \<open>items\<close>, whose last edge accepts and leads to the seed, followed by an inner
  stack \<open>i # rest\<close> that leads from the seed back to it, or to a state of the outer stack.
\<close>

lemma lasso_at_seed:
  assumes outer: "chain succs r items" "dfs_states items = u # us" "accepting_edge succs u seed"
    and inner: "chain succs seed (i # rest)" "it_type i = DfsStack" "it_accepting i" "it_state i = seed"
  shows "accepting_lasso succs (rev (dfs_states items) @ rev (dfs_states rest) @ [seed])"
    and "hd (rev (dfs_states items) @ rev (dfs_states rest) @ [seed]) = r"
proof -
  obtain v vs where v: "dfs_states rest = v # vs" "accepting_edge succs v seed"
    by (rule chain_top [OF inner(1)]) (use inner(3,4) in auto)
  have p: "path succs (rev us @ [u])" "hd (rev us @ [u]) = r" using chain_path [OF outer(1)] outer(2) by simp_all
  have q: "path succs (rev vs @ [v, seed])" "hd (rev vs @ [v]) = seed"
    using chain_path [OF inner(1)] chain_path [of succs seed rest] inner v by (simp_all add: hd_append)
  have "path succs (rev us @ u # rev vs @ [v, seed])"
    by (intro path_join [OF p(1) q(1)]) (use some_edges(2) [OF outer(3)] q(2) in \<open>auto simp: hd_append split: if_splits\<close>)
  moreover have "seed \<in> set (rev us @ [u] @ rev vs @ [v])" using q(2) by (metis append_is_Nil_conv hd_in_set in_set_conv_decomp not_Cons_self2 set_append Un_iff)
  ultimately show "accepting_lasso succs (rev (dfs_states items) @ rev (dfs_states rest) @ [seed])"
    using v outer(2) unfolding accepting_lasso_def
    by (intro conjI exI [of _ "rev us @ [u] @ rev vs"] exI [of _ v] exI [of _ seed]) simp_all
  show "hd (rev (dfs_states items) @ rev (dfs_states rest) @ [seed]) = r" using p(2) outer(2) by (auto simp: hd_append split: if_splits)
qed

lemma lasso_at_stack:
  assumes outer: "chain succs r items" "dfs_states items = u # us" "accepting_edge succs u seed"
    and inner: "chain succs seed (i # rest)" "it_type i = DfsStack" "it_state i \<in> set (dfs_states items)"
  shows "accepting_lasso succs (rev (dfs_states items) @ rev (dfs_states (i # rest)) @
      dfs_states (behind (it_state i) (rev items)) @ [seed])"
    and "hd (rev (dfs_states items) @ rev (dfs_states (i # rest)) @
      dfs_states (behind (it_state i) (rev items)) @ [seed]) = r"
proof -
  let ?Q = "dfs_states (behind (it_state i) (rev items))" and ?I = "rev (dfs_states rest) @ [it_state i]"
  have p: "path succs (rev us @ [u])" "hd (rev us @ [u]) = r" using chain_path [OF outer(1)] outer(2) by simp_all
  have q: "path succs ?I" "hd ?I = seed" using chain_path [OF inner(1)] inner(2) by simp_all
  have acc: "edge_in succs u seed" using outer(3) by (auto simp: accepting_edge_def edge_in_def)
  obtain pre where b: "rev us @ [u] = pre @ it_state i # ?Q"
    using behind_split [of "it_state i" "rev items"] inner(3) outer(2) by (metis dfs_states_simps(4) rev.simps(2) set_rev)
  have "path succs (it_state i # ?Q)" using p(1) path_suffix unfolding b by blast
  moreover have lst: "last (it_state i # ?Q) = u" using b by (metis last_appendR last_snoc list.distinct(1))
  ultimately have "path succs ((butlast (it_state i # ?Q)) @ [u, seed])"
    using acc path_snoc [of succs "butlast (it_state i # ?Q)" u seed]
    by (metis append_butlast_last_id list.distinct(1))
  then have t: "path succs (it_state i # ?Q @ [seed])" using lst
    by (metis append_Cons append_butlast_last_id append_eq_append_conv2 append.assoc list.distinct(1) append_Nil)
  have "path succs (rev (dfs_states rest) @ it_state i # ?Q @ [seed])"
  proof (cases "?Q @ [seed]")
    case (Cons y ys)
    then show ?thesis using path_append [OF q(1), of y ys] t by simp
  qed simp
  then have "path succs (rev us @ u # rev (dfs_states rest) @ it_state i # ?Q @ [seed])"
    by (intro path_join [OF p(1)]) (use acc q(2) in \<open>auto simp: hd_append split: if_splits\<close>)
  moreover have "\<exists>vs. rev us @ u # rev (dfs_states rest) @ it_state i # ?Q = vs @ [u]"
    using lst by (metis append.assoc append_Cons append_butlast_last_id list.distinct(1))
  moreover have "seed \<in> set (rev us @ u # rev (dfs_states rest) @ it_state i # ?Q)"
    using q(2) by (cases "rev (dfs_states rest)") auto
  ultimately show "accepting_lasso succs (rev (dfs_states items) @ rev (dfs_states (i # rest)) @ ?Q @ [seed])"
    using outer(2,3) inner(2) unfolding accepting_lasso_def
    by (metis append.assoc append_Cons append_Nil dfs_states_simps(2) rev.simps(2))
  show "hd (rev (dfs_states items) @ rev (dfs_states (i # rest)) @ ?Q @ [seed]) = r"
    using p(2) outer(2) by (auto simp: hd_append split: if_splits)
qed

section \<open>The invariant\<close>

text \<open>
  An edge is settled when its target was visited and, if it accepts, is on no cycle. The edges of a
  state that is being searched are settled or stand for an item above it on the stack; \<open>over\<close> are
  the states and marks of these items.
\<close>

definition settled :: "'st successors \<Rightarrow> 'st set \<Rightarrow> 'st \<Rightarrow> 'st \<Rightarrow> label \<Rightarrow> bool" where
  "settled succs V x y l \<longleftrightarrow> y \<in> V \<and> (l_accepting l \<longrightarrow> \<not> goes succs y x)"

definition item_key :: "'st item \<Rightarrow> 'st \<times> bool" where
  "item_key i = (it_state i, it_accepting i)"

fun searched :: "'st successors \<Rightarrow> 'st set \<Rightarrow> ('st \<times> bool) set \<Rightarrow> 'st item list \<Rightarrow> bool" where
  "searched succs V over [] \<longleftrightarrow> True"
| "searched succs V over (i # rest) \<longleftrightarrow>
     (it_type i = DfsStack \<longrightarrow>
        (\<forall>(y, l) \<in> set (succs (it_state i)). settled succs V (it_state i) y l \<or> (y, l_accepting l) \<in> over)) \<and>
     searched succs V (insert (item_key i) over) rest"

lemma settled_mono: "settled succs V x y l \<Longrightarrow> V \<subseteq> W \<Longrightarrow> settled succs W x y l"
  by (auto simp: settled_def)

lemma searched_mono:
  "searched succs V A items \<Longrightarrow> V \<subseteq> W \<Longrightarrow> A \<subseteq> B \<Longrightarrow> searched succs W B items"
proof (induction succs V A items arbitrary: B rule: searched.induct)
  case (2 succs V A i rest)
  have "searched succs W (insert (item_key i) B) rest" using 2 by (intro 2) auto
  then show ?case using 2(2,3,4) settled_mono by fastforce
qed simp

text \<open>An item is dropped whose edge is settled.\<close>

lemma searched_drop:
  "searched succs V (insert (s, acc) A) items \<Longrightarrow> s \<in> V \<Longrightarrow>
    (\<And>x. acc \<Longrightarrow> x \<in> set (dfs_states items) \<Longrightarrow> \<not> goes succs s x) \<Longrightarrow> searched succs V A items"
proof (induction items arbitrary: A)
  case (Cons i rest)
  have "searched succs V (insert (item_key i) A) rest"
    by (rule Cons.IH) (use Cons.prems in \<open>auto simp: insert_commute split: if_splits\<close>)
  moreover have "settled succs V (it_state i) y l \<or> (y, l_accepting l) \<in> A"
    if t: "it_type i = DfsStack" and e: "(y, l) \<in> set (succs (it_state i))" for y l
  proof -
    have "settled succs V (it_state i) y l \<or> (y, l_accepting l) \<in> insert (s, acc) A" using Cons.prems(1) t e by auto
    moreover have "settled succs V (it_state i) s l" if "l_accepting l = acc"
      using Cons.prems(2) Cons.prems(3) [of "it_state i"] t that by (auto simp: settled_def)
    ultimately show ?thesis by blast
  qed
  ultimately show ?case by auto
qed simp

lemma searched_push:
  "searched succs V (A \<union> item_key ` set (edge_items es)) items \<Longrightarrow> searched succs V A (edge_items es @ items)"
proof (induction es arbitrary: A items rule: rev_induct)
  case (snoc e es)
  obtain t l where e: "e = (t, l)" by fastforce
  have i: "edge_items (es @ [e]) = edge_item t l # edge_items es" by (simp add: edge_items_def e)
  have "searched succs V (insert (item_key (edge_item t l)) A \<union> item_key ` set (edge_items es)) items"
    using snoc.prems i by simp
  from snoc.IH [OF this] show ?case using i by (simp add: edge_item_def)
qed (simp add: edge_items_def)

definition outer_base :: "'st successors \<Rightarrow> 'st \<Rightarrow> 'st ndfs \<Rightarrow> bool" where
  "outer_base succs r n \<longleftrightarrow>
     tables_ok n \<and> n_status n = Searching \<and> n_inner n = [] \<and>
     n_example n = \<lparr>c_tail = [], c_inner = [], c_outer = [], c_goal = None\<rparr> \<and> 0 < b_total (n_builder n) \<and>
     it_state ` set (n_outer n) \<subseteq> dom (n_flags n) \<and>
     open_states n = set (dfs_states (n_outer n)) \<and> distinct (dfs_states (n_outer n)) \<and>
     open_states n \<subseteq> visited n \<and> visited n \<subseteq> {x. goes succs r x} \<and> marks_ok succs n \<and>
     (\<forall>x \<in> visited n - open_states n. \<forall>(y, l) \<in> set (succs x). settled succs (visited n) x y l) \<and>
     (r \<in> visited n \<or> waits (n_outer n) r)"

definition outer_inv :: "'st successors \<Rightarrow> 'st \<Rightarrow> 'st ndfs \<Rightarrow> bool" where
  "outer_inv succs r n \<longleftrightarrow>
     outer_base succs r n \<and> chain succs r (n_outer n) \<and> searched succs (visited n) {} (n_outer n)"

text \<open>An item was taken from the stack, and its state was visited.\<close>

definition popped :: "'st successors \<Rightarrow> 'st \<Rightarrow> 'st item \<Rightarrow> 'st ndfs \<Rightarrow> bool" where
  "popped succs r i n \<longleftrightarrow>
     outer_base succs r n \<and> chain succs r (i # n_outer n) \<and>
     searched succs (visited n) {item_key i} (n_outer n) \<and> it_state i \<in> visited n"

lemma outer_baseD:
  assumes "outer_base succs r n"
  shows "tables_ok n" "n_status n = Searching" "n_inner n = []" "0 < b_total (n_builder n)"
    and "n_example n = \<lparr>c_tail = [], c_inner = [], c_outer = [], c_goal = None\<rparr>"
    and "it_state ` set (n_outer n) \<subseteq> dom (n_flags n)" "open_states n = set (dfs_states (n_outer n))"
    and "distinct (dfs_states (n_outer n))" "set (dfs_states (n_outer n)) \<subseteq> visited n"
    and "visited n \<subseteq> {x. goes succs r x}" "marks_ok succs n" "r \<in> visited n \<or> waits (n_outer n) r"
    and "\<And>x y l. x \<in> visited n \<Longrightarrow> x \<notin> open_states n \<Longrightarrow> (y, l) \<in> set (succs x) \<Longrightarrow> settled succs (visited n) x y l"
  using assms unfolding outer_base_def by (blast | fastforce)+

lemma outer_base_framed:
  assumes b: "outer_base succs r m" and f: "framed m n"
    and "n_example n = n_example m" "n_status n = Searching" "n_inner n = []" "marks_ok succs n"
  shows "outer_base succs r n"
proof -
  have fr: "tables_ok n" "visited n = visited m" "open_states n = open_states m" "n_outer n = n_outer m"
    using f by (simp_all add: framed_def)
  have "0 < b_total (n_builder n)" "it_state ` set (n_outer m) \<subseteq> dom (n_flags n)"
    using f outer_baseD(4,6) [OF b] by (force simp: framed_def)+
  then show ?thesis
    using b assms(3-) fr(1) unfolding outer_base_def fr(2-4) by (simp only: simp_thms) blast
qed

text \<open>When the stack is empty nothing that accepts is on a cycle.\<close>

lemma outer_inv_done:
  assumes inv: "outer_inv succs r n" and stack: "n_outer n = []" and x: "goes succs r x"
  shows "\<not> (\<exists>y. accepting_edge succs x y \<and> goes succs y x)"
proof -
  have b: "outer_base succs r n" using inv by (simp add: outer_inv_def)
  have o: "open_states n = {}" and r: "r \<in> visited n" using outer_baseD(7,12) [OF b] stack by simp_all
  have s: "\<forall>x \<in> visited n. \<forall>(y, l) \<in> set (succs x). settled succs (visited n) x y l"
    using outer_baseD(13) [OF b] o by auto
  have "x \<in> visited n"
    by (rule goes_closed [OF x r]) (use s in \<open>auto simp: edge_in_def settled_def\<close>)
  then show ?thesis using s by (auto simp: accepting_edge_def settled_def)
qed

lemma popped_quiet:
  assumes p: "popped succs r i n" and quiet: "it_accepting i \<Longrightarrow> \<forall>x \<in> open_states n. \<not> goes succs (it_state i) x"
  shows "outer_inv succs r n"
proof -
  have b: "outer_base succs r n" using p by (simp add: popped_def)
  have "\<not> goes succs (it_state i) x" if "it_accepting i" "x \<in> set (dfs_states (n_outer n))" for x
    using quiet that outer_baseD(7) [OF b] by simp
  then have "searched succs (visited n) {} (n_outer n)"
    using searched_drop [of succs "visited n" "it_state i" "it_accepting i" "{}" "n_outer n"] p
    by (simp add: popped_def item_key_def)
  then show ?thesis using p by (simp add: popped_def outer_inv_def)
qed

lemma popped_closes: "popped succs r i n \<Longrightarrow> visits_close succs n"
  using outer_baseD(13) unfolding popped_def visits_close_def edge_in_def settled_def by fastforce

lemma reported_lasso:
  assumes found: "lasso_found succs seed m n" and chain: "chain succs r (n_outer m)"
    and top: "dfs_states (n_outer m) = u # us" "accepting_edge succs u seed"
    and stack: "open_states m = set (dfs_states (n_outer m))"
    and ex: "n_example m = \<lparr>c_tail = [], c_inner = [], c_outer = [], c_goal = None\<rparr>"
    and total: "0 < b_total (n_builder m)"
  shows "reported succs r (take_tail (n_outer n) n)"
proof -
  obtain i rest where i: "chain succs seed (i # rest)" "it_type i = DfsStack"
    "it_accepting i \<and> it_state i = seed \<and> n_example n = (n_example m)\<lparr>c_goal := Some seed, c_inner := rev rest\<rparr> \<or>
     it_state i \<in> open_states m \<and>
       n_example n = (n_example m)\<lparr>c_goal := Some seed, c_inner := rev (i # rest),
            c_outer := behind (it_state i) (rev (n_outer m))\<rparr>"
    and fr: "framed m n" "n_status n = Found"
    using found unfolding lasso_found_def by blast
  have o: "n_outer n = n_outer m" using fr(1) by (simp add: framed_def)
  let ?t = "ndfs_trace (take_tail (n_outer n) n)"
  have "accepting_lasso succs ?t \<and> hd ?t = r \<and> c_goal (n_example (take_tail (n_outer n) n)) \<noteq> None"
    using i(3)
  proof (elim disjE conjE)
    assume seed: "it_accepting i" "it_state i = seed"
      and e: "n_example n = (n_example m)\<lparr>c_goal := Some seed, c_inner := rev rest\<rparr>"
    have "?t = rev (dfs_states (n_outer m)) @ rev (dfs_states rest) @ [seed]"
      using e ex o by (simp add: ndfs_trace_def take_tail_def)
    then show ?thesis
      using lasso_at_seed [OF chain top i(1,2) seed] e by (simp add: take_tail_def)
  next
    assume s: "it_state i \<in> open_states m"
      and e: "n_example n = (n_example m)\<lparr>c_goal := Some seed, c_inner := rev (i # rest),
            c_outer := behind (it_state i) (rev (n_outer m))\<rparr>"
    have "?t = rev (dfs_states (n_outer m)) @ rev (dfs_states (i # rest)) @
        dfs_states (behind (it_state i) (rev (n_outer m))) @ [seed]"
      unfolding ndfs_trace_def take_tail_def by (simp add: e ex o i(2))
    then show ?thesis
      using lasso_at_stack [OF chain top i(1,2)] s stack e by (simp add: take_tail_def)
  qed
  moreover have "0 < b_total (n_builder n)" using fr(1) total by (simp add: framed_def)
  ultimately show ?thesis using fr(2) by (simp add: reported_def take_tail_def)
qed

lemma outer_inner_ok:
  assumes p: "popped succs r i m" and acc: "it_accepting i" and closed: "it_state i \<notin> open_states m"
    and fin: "finite {x. goes succs r x}"
  shows "\<exists>n. outer_inner succs (it_state i) m = Some n \<and>
    (outer_inv succs r n \<and> n_outer n = n_outer m \<and> visited n = visited m \<or> reported succs r n)"
proof -
  let ?s = "it_state i"
  have b: "outer_base succs r m" and "?s \<in> visited m" using p by (simp_all add: popped_def)
  then have t: "tables_ok m" "n_status m = Searching" "n_inner m = []" "marks_ok succs m" "?s \<in> visited m"
    and vis: "visited m \<subseteq> {x. goes succs r x}"
    using outer_baseD [OF b] by blast+
  have s: "?s \<in> visited m - open_states m" using t(5) closed by simp
  have f: "finite (visited m)" using finite_subset [OF vis fin] .
  obtain n where n: "inner succs ?s m = Some n"
    "framed m n \<and> n_example n = n_example m \<and> n_status n = Searching \<and> n_inner n = [] \<and>
       marks_ok succs n \<and> ?s \<in> marked n \<or> lasso_found succs ?s m n"
    using inner_ok [OF t(1-4) s popped_closes [OF p] f] by blast
  have "\<exists>n'. outer_inner succs ?s m = Some n' \<and>
      (outer_inv succs r n' \<and> n_outer n' = n_outer m \<and> visited n' = visited m \<or> reported succs r n')"
    using n(2)
  proof (elim disjE)
    assume a: "framed m n \<and> n_example n = n_example m \<and> n_status n = Searching \<and> n_inner n = [] \<and>
       marks_ok succs n \<and> ?s \<in> marked n"
    then have o: "outer_inner succs ?s m = Some n" using n(1) by (simp add: outer_inner_def)
    have fr: "visited n = visited m" "n_outer n = n_outer m" using a by (simp_all add: framed_def)
    have "outer_base succs r n" using outer_base_framed [OF b] a by blast
    then have "popped succs r i n" using p fr by (simp add: popped_def)
    moreover have "\<forall>x \<in> open_states n. \<not> goes succs ?s x" using marked_never_open a by metis
    ultimately have "outer_inv succs r n" by (intro popped_quiet) auto
    then show ?thesis using o fr by blast
  next
    assume a: "lasso_found succs ?s m n"
    then have o: "outer_inner succs ?s m = Some (take_tail (n_outer n) n)"
      using n(1) by (simp add: outer_inner_def lasso_found_def)
    have c: "chain succs r (i # n_outer m)" using p by (simp add: popped_def)
    obtain u us where u: "dfs_states (n_outer m) = u # us" "accepting_edge succs u ?s"
      by (rule chain_top [OF c]) (use acc in auto)
    have "reported succs r (take_tail (n_outer n) n)"
      by (rule reported_lasso [OF a _ u]) (use c outer_baseD [OF b] in simp_all)
    then show ?thesis using o by blast
  qed
  then show ?thesis .
qed

section \<open>The outer search\<close>

definition outer_measure :: "'st successors \<Rightarrow> 'st \<Rightarrow> 'st ndfs \<Rightarrow> nat \<times> nat" where
  "outer_measure succs r n = (card ({x. goes succs r x} - visited n), weight (n_outer n))"

definition outer_progress :: "'st successors \<Rightarrow> 'st \<Rightarrow> 'st ndfs \<Rightarrow> 'st ndfs \<Rightarrow> bool" where
  "outer_progress succs r n n' \<longleftrightarrow>
     outer_inv succs r n' \<and> (outer_measure succs r n', outer_measure succs r n) \<in> less_than <*lex*> less_than \<or>
     reported succs r n'"

lemma outer_shrinks:
  assumes "n_outer n = item # rest" "n_outer n' = rest" "visited n' = visited n"
  shows "(outer_measure succs r n', outer_measure succs r n) \<in> less_than <*lex*> less_than"
  using assms by (simp add: outer_measure_def)

text \<open>An item whose state was visited leaves the stack.\<close>

lemma outer_pop_ok:
  assumes n: "n_outer n = item # rest" and m: "n_outer m = rest" "visited m = visited n"
    and p: "popped succs r item m" and closed: "it_state item \<notin> open_states m" and fin: "finite {x. goes succs r x}"
  shows "\<exists>n'. (if it_accepting item then outer_inner succs (it_state item) m else Some m) = Some n' \<and>
    outer_progress succs r n n'"
proof (cases "it_accepting item")
  case True
  obtain n' where n': "outer_inner succs (it_state item) m = Some n'"
    "outer_inv succs r n' \<and> n_outer n' = n_outer m \<and> visited n' = visited m \<or> reported succs r n'"
    using outer_inner_ok [OF p True closed fin] by blast
  have "outer_progress succs r n n'"
    using n'(2)
  proof
    assume a: "outer_inv succs r n' \<and> n_outer n' = n_outer m \<and> visited n' = visited m"
    then show ?thesis using outer_shrinks [OF n, of n'] m by (simp add: outer_progress_def)
  qed (simp add: outer_progress_def)
  then show ?thesis using n'(1) True by simp
next
  case False
  then have "outer_inv succs r m" by (intro popped_quiet [OF p]) simp
  then show ?thesis using outer_shrinks [OF n m] False by (simp add: outer_progress_def)
qed

lemma outer_back_ok:
  assumes inv: "outer_inv succs r n" and items: "n_outer n = item # rest" and type: "it_type item = DfsStack"
    and f: "n_flags n (it_state item) = Some f" and m: "m = set_flags (it_state item) (f\<lparr>in_outer_stack := False\<rparr>) (n\<lparr>n_outer := rest\<rparr>)"
  shows "popped succs r item m" "visited m = visited n" "it_state item \<notin> open_states m"
proof -
  let ?s = "it_state item"
  have b: "outer_base succs r n" and c: "chain succs r (item # rest)" and e: "searched succs (visited n) {} (item # rest)"
    using inv items by (simp_all add: outer_inv_def)
  note base = outer_baseD [OF b]
  have s: "?s \<in> visited n" "?s \<notin> set (dfs_states rest)" using base(8,9) items type by simp_all
  then have fl: "outer_visited f" "inner_visited f \<longleftrightarrow> ?s \<in> marked n" using f by (auto simp: flag_sets)
  have "?s \<notin> marked n" using base(7,11) items type by (auto simp: marks_ok_def)
  then have vm: "visited m = visited n" "marked m = marked n" "open_states m = set (dfs_states rest)"
    using fl s base(7) items type by (auto simp: m set_flags_sets)
  show "visited m = visited n" "?s \<notin> open_states m" using vm s(2) by simp_all
  have settle: "settled succs (visited n) ?s y l" if "(y, l) \<in> set (succs ?s)" for y l
    using e type that by auto
  have opens: "open_states m \<subseteq> open_states n" using vm(3) base(7) items type by auto
  then have m_ok: "marks_ok succs m" using base(11) vm(1,2) unfolding marks_ok_def by auto
  have "settled succs (visited m) x y l" if "x \<in> visited m - open_states m" "(y, l) \<in> set (succs x)" for x y l
  proof (cases "x = ?s")
    case True
    then show ?thesis using settle that(2) vm by simp
  next
    case False
    then have "x \<in> visited n" "x \<notin> open_states n" using that(1) vm base(7) items type by auto
    then show ?thesis using base(13) that(2) vm(1) by simp
  qed
  moreover note m_ok
  moreover have "tables_ok m" "n_status m = Searching" "n_inner m = []" "0 < b_total (n_builder m)"
    "n_example m = \<lparr>c_tail = [], c_inner = [], c_outer = [], c_goal = None\<rparr>"
    using base(1-5) f by (auto simp: m tables_ok_def)
  moreover have "it_state ` set (n_outer m) \<subseteq> dom (n_flags m)" using base(6) items by (auto simp: m)
  moreover have "n_outer m = rest" by (simp add: m)
  moreover have "distinct (dfs_states rest)" "set (dfs_states rest) \<subseteq> visited m" "visited m \<subseteq> {x. goes succs r x}"
    "r \<in> visited m \<or> waits rest r"
    using base(8,9,10,12) items type vm(1) by auto
  ultimately have "outer_base succs r m" unfolding outer_base_def using vm(3) by blast
  then show "popped succs r item m"
    using c e s(1) vm(1) \<open>n_outer m = rest\<close> by (simp add: popped_def)
qed

lemma outer_again_ok:
  assumes inv: "outer_inv succs r n" and items: "n_outer n = item # rest" and type: "it_type item = Successors"
    and s: "it_state item \<in> visited n"
  shows "popped succs r item (n\<lparr>n_outer := rest\<rparr>)"
proof -
  have b: "outer_base succs r n" and c: "chain succs r (item # rest)" and e: "searched succs (visited n) {} (item # rest)"
    using inv items by (simp_all add: outer_inv_def)
  note base = outer_baseD [OF b]
  have "outer_base succs r (n\<lparr>n_outer := rest\<rparr>)"
    unfolding outer_base_def
    using base items type s by (auto simp: tables_ok_def marks_ok_def)
  then show ?thesis using c e s by (simp add: popped_def)
qed

lemma outer_new_ok:
  assumes inv: "outer_inv succs r n" and items: "n_outer n = item # rest" and type: "it_type item = Successors"
    and f: "n_flags n (it_state item) = Some f" and new: "\<not> outer_visited f" and fin: "finite {x. goes succs r x}"
    and m: "m = set_flags (it_state item) (f\<lparr>outer_visited := True, in_outer_stack := True\<rparr>)
      (n\<lparr>n_outer := item\<lparr>it_type := DfsStack\<rparr> # rest\<rparr>)"
  shows "outer_progress succs r n (expand_with push_outer succs (it_state item) m)"
proof -
  let ?s = "it_state item" and ?n = "expand_with push_outer succs (it_state item) m"
  have b: "outer_base succs r n" and c: "chain succs r (item # rest)" and e: "searched succs (visited n) {} (item # rest)"
    using inv items by (simp_all add: outer_inv_def)
  note base = outer_baseD [OF b]
  have s: "?s \<notin> visited n" using f new by (auto simp: visited_def)
  then have s': "?s \<notin> marked n" "?s \<notin> open_states n" using base(7,9,11) by (auto simp: marks_ok_def)
  have fl: "\<not> inner_visited f" using f s'(1) by (auto simp: marked_def)
  have vm: "visited m = insert ?s (visited n)" "marked m = marked n" "open_states m = insert ?s (open_states n)"
    using fl s'(1) by (auto simp: m set_flags_sets)
  have tm: "tables_ok m" using base(1) f by (auto simp: m tables_ok_def)
  note x = expand_with_ok(6-10) [OF tm, of succs ?s]
  have vn: "visited ?n = insert ?s (visited n)" "marked ?n = marked n" "open_states ?n = insert ?s (open_states n)"
    using x(1) vm by (simp_all add: pushes_def same_flags_def)
  have stack: "n_outer ?n = edge_items (succs ?s) @ item\<lparr>it_type := DfsStack\<rparr> # rest" using x(3) by (simp add: m)
  have reach: "goes succs r ?s" using chain_item_goes [OF c] .
  have "settled succs (visited ?n) x y l" if "x \<in> visited ?n - open_states ?n" "(y, l) \<in> set (succs x)" for x y l
  proof -
    have "settled succs (visited n) x y l" using that vn base(13) by auto
    then show ?thesis by (rule settled_mono) (use vn in auto)
  qed
  moreover have "marks_ok succs ?n" using base(11) vn s' by (auto simp: marks_ok_def)
  moreover have "n_status ?n = Searching" "n_inner ?n = []" "0 < b_total (n_builder ?n)"
    "n_example ?n = \<lparr>c_tail = [], c_inner = [], c_outer = [], c_goal = None\<rparr>"
    using x(1,4,5) base(2-5) by (auto simp: m pushes_def)
  moreover have "it_state ` set (n_outer ?n) \<subseteq> dom (n_flags ?n)"
  proof -
    have "it_state ` set (edge_items (succs ?s)) = fst ` set (succs ?s)"
      by (force simp: edge_items_set edge_item_def)
    moreover have "it_state ` set (item # rest) \<subseteq> dom (n_flags m)" using base(6) items by (auto simp: m)
    ultimately show ?thesis unfolding stack expand_with_dom(2) [OF tm] by (auto simp: image_Un)
  qed
  moreover have "open_states ?n = set (dfs_states (n_outer ?n))" "distinct (dfs_states (n_outer ?n))"
    "open_states ?n \<subseteq> visited ?n" "visited ?n \<subseteq> {x. goes succs r x}" "r \<in> visited ?n \<or> waits (n_outer ?n) r"
    using stack vn base(7-10,12) items type s'(2) reach by auto
  ultimately have base': "outer_base succs r ?n" unfolding outer_base_def using x(2) by blast
  have "chain succs r (n_outer ?n)" unfolding stack
    by (rule chain_push [where u = ?s and us = "dfs_states rest"]) (use c in \<open>simp_all del: chain.simps\<close>)
  moreover have "searched succs (visited ?n) {} (n_outer ?n)"
    unfolding stack
  proof (rule searched_push)
    have "item_key (item\<lparr>it_type := DfsStack\<rparr>) = item_key item" by (simp add: item_key_def)
    moreover have "(y, l_accepting l) \<in> item_key ` set (edge_items (succs ?s))" if "(y, l) \<in> set (succs ?s)" for y l
      using that by (force simp: edge_items_set item_key_def edge_item_def)
    moreover have "searched succs (visited ?n) (insert (item_key item) (item_key ` set (edge_items (succs ?s)))) rest"
      by (rule searched_mono [of succs "visited n" "{item_key item}"]) (use e vn in auto)
    ultimately show "searched succs (visited ?n) ({} \<union> item_key ` set (edge_items (succs ?s)))
        (item\<lparr>it_type := DfsStack\<rparr> # rest)" by auto
  qed
  ultimately have "outer_inv succs r ?n" using base' by (simp add: outer_inv_def)
  moreover have "card ({x. goes succs r x} - visited ?n) < card ({x. goes succs r x} - visited n)"
    using s reach fin vn by (intro psubset_card_mono) auto
  ultimately show ?thesis by (simp add: outer_progress_def outer_measure_def)
qed

lemma reported_tail:
  assumes c: "chain succs r (item # rest)" and t: "n_status n = Searching"
    and ex: "n_example n = \<lparr>c_tail = [], c_inner = [], c_outer = [], c_goal = None\<rparr>"
    and total: "0 < b_total (n_builder n)"
    and goal: "it_error item \<or> it_accepting item \<and> it_state item \<in> set (dfs_states rest)"
  shows "reported succs r (take_tail rest (take_goal (it_state item) n))"
proof -
  let ?n = "take_tail rest (take_goal (it_state item) n)"
  obtain u us where u: "dfs_states rest = u # us" "edge_in succs u (it_state item)"
    "it_accepting item \<Longrightarrow> accepting_edge succs u (it_state item)" "it_error item \<Longrightarrow> error_edge succs u (it_state item)"
    by (rule chain_top [OF c]) (use goal in auto)
  have t: "ndfs_trace ?n = rev us @ [u, it_state item]"
    using ex u(1) by (simp add: ndfs_trace_def take_tail_def take_goal_def)
  have "path succs (rev us @ [u])" "hd (rev us @ [u]) = r" using chain_path [of succs r rest] c u(1) by simp_all
  then have p: "path succs (rev us @ [u, it_state item])" "hd (rev us @ [u, it_state item]) = r"
    using u(2) by (simp_all add: path_snoc hd_append split: if_splits)
  have "accepting_lasso succs (ndfs_trace ?n) \<or> error_trace succs (ndfs_trace ?n)"
    using goal
  proof
    assume "it_error item"
    then show ?thesis using u(4) p(1) unfolding t error_trace_def by blast
  next
    assume "it_accepting item \<and> it_state item \<in> set (dfs_states rest)"
    then have "accepting_edge succs u (it_state item)" "it_state item \<in> set (rev us @ [u])" using u by auto
    then show ?thesis using p(1) unfolding t accepting_lasso_def by blast
  qed
  then show ?thesis using p(2) t total by (simp add: reported_def take_tail_def take_goal_def)
qed

lemma outer_step_ok:
  assumes inv: "outer_inv succs r n" and items: "n_outer n = item # rest" and fin: "finite {x. goes succs r x}"
  shows "\<exists>n'. outer_step succs n = Some n' \<and> outer_progress succs r n n'"
proof -
  let ?s = "it_state item"
  have b: "outer_base succs r n" and c: "chain succs r (item # rest)" using inv items by (simp_all add: outer_inv_def)
  note base = outer_baseD [OF b]
  obtain f where f: "n_flags n ?s = Some f" using base(6) items by auto
  have opens: "set (dfs_states rest) = open_states n" if "it_type item = Successors"
    using base(7) items that by simp
  have vis: "outer_visited f \<longleftrightarrow> ?s \<in> visited n" "in_outer_stack f \<longleftrightarrow> ?s \<in> set (dfs_states rest)"
    if "it_type item = Successors"
    unfolding opens [OF that] using f by (auto simp: visited_def open_states_def)
  consider (backtrack) "it_type item = DfsStack"
    | (new) "it_type item = Successors" "\<not> outer_visited f"
    | (again) "it_type item = Successors" "outer_visited f" by (cases "it_type item") auto
  then show ?thesis
  proof cases
    case backtrack
    define m where "m = set_flags ?s (f\<lparr>in_outer_stack := False\<rparr>) (n\<lparr>n_outer := rest\<rparr>)"
    have "?s \<in> visited n" using base(9) items backtrack by simp
    then have "outer_visited f" using f by (auto simp: visited_def)
    then have step: "outer_step succs n = (if it_accepting item then outer_inner succs ?s m else Some m)"
      using items f backtrack by (simp add: outer_step_def m_def)
    note back_ok = outer_back_ok [OF inv items backtrack f m_def]
    have "n_outer m = rest" by (simp add: m_def)
    from outer_pop_ok [OF items this back_ok(2,1,3) fin] show ?thesis by (simp only: step)
  next
    case new
    define m where "m = set_flags ?s (f\<lparr>outer_visited := True, in_outer_stack := True\<rparr>)
      (n\<lparr>n_outer := item\<lparr>it_type := DfsStack\<rparr> # rest\<rparr>)"
    show ?thesis
    proof (cases "it_error item")
      case True
      then have "outer_step succs n = Some (take_tail rest (take_goal ?s m))"
        using items f new by (simp add: outer_step_def m_def)
      moreover have "reported succs r (take_tail rest (take_goal ?s m))"
        by (rule reported_tail [OF c]) (use base(2,4,5) True in \<open>simp_all add: m_def\<close>)
      ultimately show ?thesis by (simp add: outer_progress_def)
    next
      case False
      then have "outer_step succs n = Some (expand_with push_outer succs ?s m)"
        using items f new by (simp add: outer_step_def m_def)
      then show ?thesis using outer_new_ok [OF inv items new(1) f new(2) fin m_def] by simp
    qed
  next
    case again
    let ?m = "n\<lparr>n_outer := rest\<rparr>"
    have s: "?s \<in> visited n" using vis(1) again by blast
    show ?thesis
    proof (cases "it_accepting item \<and> in_outer_stack f")
      case True
      then have "outer_step succs n = Some (take_tail rest (take_goal ?s ?m))"
        using items f again by (simp add: outer_step_def)
      moreover have "reported succs r (take_tail rest (take_goal ?s ?m))"
        by (rule reported_tail [OF c]) (use base(2,4,5) True vis(2) again in simp_all)
      ultimately show ?thesis by (simp add: outer_progress_def)
    next
      case False
      have p: "popped succs r item ?m" by (rule outer_again_ok [OF inv items again(1) s])
      show ?thesis
      proof (cases "it_accepting item")
        case True
        then have "outer_step succs n = (if it_accepting item then outer_inner succs ?s ?m else Some ?m)"
          using items f again False by (simp add: outer_step_def)
        moreover have "?s \<notin> open_states ?m" using False True vis(2) again base(7) items by simp
        ultimately show ?thesis using outer_pop_ok [OF items _ _ p _ fin] by simp
      next
        case no: False
        then have "outer_step succs n = Some ?m" using items f again by (simp add: outer_step_def)
        moreover have "outer_inv succs r ?m" by (rule popped_quiet [OF p]) (use no in simp)
        ultimately show ?thesis using outer_shrinks [OF items, of ?m] by (simp add: outer_progress_def)
      qed
    qed
  qed
qed

lemma outer_loop_ok:
  assumes fin: "finite {x. goes succs r x}"
  shows "outer_inv succs r n \<Longrightarrow>
    \<exists>n'. outer_loop succs n = Some n' \<and> (outer_inv succs r n' \<and> n_outer n' = [] \<or> reported succs r n')"
proof (induction n rule: wf_induct_rule [OF wf_inv_image [OF wf_lex_prod [OF wf_less_than wf_less_than],
      where f = "outer_measure succs r"]])
  case (1 n)
  have searching: "n_status n = Searching" using 1(2) outer_baseD(2) by (auto simp: outer_inv_def)
  show ?case
  proof (cases "n_outer n")
    case Nil
    then show ?thesis using 1(2) by (simp add: outer_loop.simps)
  next
    case (Cons item rest)
    obtain n1 where n1: "outer_step succs n = Some n1" "outer_progress succs r n n1"
      using outer_step_ok [OF 1(2) Cons fin] by blast
    then have loop: "outer_loop succs n = outer_loop succs n1"
      using Cons searching by (subst outer_loop.simps) simp
    show ?thesis
      using n1(2) unfolding outer_progress_def
    proof (elim disjE conjE)
      assume "outer_inv succs r n1" "(outer_measure succs r n1, outer_measure succs r n) \<in> less_than <*lex*> less_than"
      then show ?thesis using 1(1) [of n1] loop by (simp add: inv_image_def)
    next
      assume a: "reported succs r n1"
      then have "outer_loop succs n1 = Some n1" by (subst outer_loop.simps) (simp add: reported_def)
      then show ?thesis using loop a by simp
    qed
  qed
qed

section \<open>The whole search\<close>

lemma liveness_ok:
  assumes "finite_from succs i"
  shows "\<exists>n. liveness succs (Some i) = Some n \<and> (reported succs i n \<or>
    ndfs_verdict n = Valid \<and> n_status n = Searching \<and> c_goal (n_example n) = None \<and>
    (\<forall>x y. goes succs i x \<longrightarrow> accepting_edge succs x y \<longrightarrow> \<not> goes succs y x))"
proof -
  define n where "n = init_state i ((start_ndfs (start_builder (Some i)))\<lparr>n_outer := [state_item i]\<rparr>)"
  have run: "liveness succs (Some i) = outer_loop succs n"
    by (simp add: liveness_def run_ndfs_def outer_def n_def start_builder_def start_ndfs_def)
  have flags: "visited n = {}" "marked n = {}" "open_states n = {}"
    by (auto simp: n_def init_state_def start_ndfs_def flag_sets split: if_splits)
  have "tables_ok n" "n_outer n = [state_item i]" "n_status n = Searching" "n_inner n = []" "0 < b_total (n_builder n)"
    "n_example n = \<lparr>c_tail = [], c_inner = [], c_outer = [], c_goal = None\<rparr>" "dom (n_flags n) = {i}"
    by (simp_all add: n_def init_state_def start_ndfs_def start_builder_def store_def Let_def tables_ok_def)
  then have "outer_inv succs i n"
    using flags by (simp add: outer_inv_def outer_base_def state_item_def marks_ok_def marks_close_def)
  then obtain n' where n': "outer_loop succs n = Some n'"
    "outer_inv succs i n' \<and> n_outer n' = [] \<or> reported succs i n'"
    using outer_loop_ok [OF assms [unfolded finite_from_def]] by blast
  have "ndfs_verdict n' = Valid \<and> n_status n' = Searching \<and> c_goal (n_example n') = None \<and>
      (\<forall>x y. goes succs i x \<longrightarrow> accepting_edge succs x y \<longrightarrow> \<not> goes succs y x)"
    if inv: "outer_inv succs i n'" "n_outer n' = []"
  proof -
    have b: "outer_base succs i n'" using inv(1) by (simp add: outer_inv_def)
    have "ndfs_verdict n' = Valid" "n_status n' = Searching" "c_goal (n_example n') = None"
      using outer_baseD(2,4,5) [OF b] by (simp_all add: ndfs_verdict_def verdict_def)
    then show ?thesis using outer_inv_done [OF inv] by blast
  qed
  then show ?thesis using n' run by auto
qed

text \<open>What a trace shows about the state space.\<close>

lemma path_to_last: "path succs (us @ [x]) \<Longrightarrow> g \<in> set (us @ [x]) \<Longrightarrow> goes succs g x"
proof (induction us)
  case (Cons u us)
  show ?case
  proof (cases "g = u")
    case True
    then show ?thesis using path_goes [OF Cons.prems(1), of x] by simp
  next
    case False
    moreover have "path succs (us @ [x])" using Cons.prems(1) by (cases "us @ [x]") auto
    ultimately show ?thesis using Cons by simp
  qed
qed simp

lemma lasso_cycle:
  assumes "accepting_lasso succs t" "hd t = i"
  shows "\<exists>x y. goes succs i x \<and> accepting_edge succs x y \<and> goes succs y x"
proof -
  obtain us x g where t: "t = us @ [x, g]" "path succs t" "accepting_edge succs x g" "g \<in> set (us @ [x])"
    using assms(1) by (auto simp: accepting_lasso_def)
  have "path succs (us @ [x])" using t(1,2) by (simp add: path_snoc)
  then have "goes succs g x" using t(4) by (rule path_to_last)
  moreover have "goes succs i x" using path_goes [OF t(2), of x] t(1) assms(2) by simp
  ultimately show ?thesis using t(3) by blast
qed

lemma error_trace_edge:
  assumes "error_trace succs t" "hd t = i"
  shows "\<exists>x y. goes succs i x \<and> error_edge succs x y"
proof -
  obtain us x g where t: "t = us @ [x, g]" "path succs t" "error_edge succs x g"
    using assms(1) by (auto simp: error_trace_def)
  then show ?thesis using path_goes [OF t(2), of x] assms(2) by auto
qed

end
