(* ===== verification/WorkQueue.thy ===== *)
theory WorkQueue
  imports Main
begin

text \<open>
  The queue of the workers of a search, and the counter that tells them when there is no work left
  (\<^verbatim>\<open>LockedQueue\<close>, \<^verbatim>\<open>Chunked\<close> and \<^verbatim>\<open>ApproximateCounter\<close> in \<^verbatim>\<open>src/bricks/brick-shmem\<close>), for one worker.
\<close>

section \<open>The queue\<close>

record 'a chunked =
  q_chunks :: "'a list list"
  q_size :: nat
  q_outgoing :: "'a list"
  q_incoming :: "'a list"

definition new_queue :: "'a chunked" where
  "new_queue = \<lparr>q_chunks = [], q_size = 2, q_outgoing = [], q_incoming = []\<rparr>"

text \<open>The queue of chunks: an empty one gives an empty chunk.\<close>

definition locked_push :: "'a list \<Rightarrow> 'a chunked \<Rightarrow> 'a chunked" where
  "locked_push c q = q\<lparr>q_chunks := q_chunks q @ [c]\<rparr>"

definition locked_pop :: "'a chunked \<Rightarrow> 'a list \<times> 'a chunked" where
  "locked_pop q =
     (case q_chunks q of [] \<Rightarrow> ([], q) | c # cs \<Rightarrow> (c, q\<lparr>q_chunks := cs\<rparr>))"

definition queue_flush :: "'a chunked \<Rightarrow> 'a chunked" where
  "queue_flush q =
     (if q_outgoing q \<noteq> []
      then let q = locked_push (q_outgoing q) (q\<lparr>q_outgoing := []\<rparr>)
           in if q_size q < 64 then q\<lparr>q_size := min (2 * q_size q) 64\<rparr> else q
      else q)"

definition queue_push :: "'a \<Rightarrow> 'a chunked \<Rightarrow> 'a chunked" where
  "queue_push x q =
     (let q = q\<lparr>q_outgoing := q_outgoing q @ [x]\<rparr>
      in if length (q_outgoing q) \<ge> q_size q then queue_flush q else q)"

text \<open>\<^verbatim>\<open>incoming = q->pop()\<close>, when there is nothing left of the chunk before.\<close>

definition refill :: "'a chunked \<Rightarrow> 'a chunked" where
  "refill q =
     (if q_incoming q = [] then let (c, q) = locked_pop q in q\<lparr>q_incoming := c\<rparr> else q)"

definition queue_empty :: "'a chunked \<Rightarrow> bool \<times> 'a chunked" where
  "queue_empty q = (let q = refill q in (q_incoming q = [], q))"

definition queue_pop :: "'a chunked \<Rightarrow> ('a \<times> 'a chunked) option" where
  "queue_pop q =
     (let q = refill q
      in case q_incoming q of [] \<Rightarrow> None | x # xs \<Rightarrow> Some (x, q\<lparr>q_incoming := xs\<rparr>))"

section \<open>The counter\<close>

text \<open>
  The shared part counts in steps; the local part is what this worker may still take of it. The
  numbers stay far below the width of \<^verbatim>\<open>intptr_t\<close>.
\<close>

record counter =
  k_shared :: int
  k_local :: int

definition counter_step :: int where
  "counter_step = 100000"

definition new_counter :: counter where
  "new_counter = \<lparr>k_shared = 0, k_local = 0\<rparr>"

definition counter_sync :: "counter \<Rightarrow> counter" where
  "counter_sync k =
     (if k_local k > 0
      then \<lparr>k_shared = (if k_shared k \<ge> k_local k then k_shared k - k_local k else 0), k_local = 0\<rparr>
      else k)"

definition counter_up :: "counter \<Rightarrow> counter" where
  "counter_up k =
     (let k = (if k_local k = 0 then \<lparr>k_shared = k_shared k + counter_step, k_local = counter_step\<rparr> else k)
      in k\<lparr>k_local := k_local k - 1\<rparr>)"

definition counter_down :: "counter \<Rightarrow> counter" where
  "counter_down k = k\<lparr>k_local := k_local k + 1\<rparr>"

definition counter_on :: "counter \<Rightarrow> bool" where
  "counter_on k \<longleftrightarrow> k_shared k \<noteq> 0"

text \<open>
  What a worker does with its queue: it pushes what it finds, and takes an item where there is one and
  flushes the queue where there is none. \<open>None\<close> is the failure of \<^verbatim>\<open>pop\<close> on an empty queue.
\<close>

datatype 'a queue_use = Push 'a | Take

fun use_queue :: "'a queue_use list \<Rightarrow> 'a chunked \<Rightarrow> ('a list \<times> 'a chunked) option" where
  "use_queue [] q = Some ([], q)"
| "use_queue (Push x # us) q = use_queue us (queue_push x q)"
| "use_queue (Take # us) q =
     (let (none, q) = queue_empty q
      in if none then use_queue us (queue_flush q)
         else (case queue_pop q of
                 None \<Rightarrow> None
               | Some (x, q) \<Rightarrow> map_option (\<lambda>(xs, q). (x # xs, q)) (use_queue us q)))"

section \<open>What they promise\<close>

text \<open>A queue whose items leave in the order in which they came, as the searches use it.\<close>

locale fifo =
  fixes items :: "'q \<Rightarrow> 'a list" and valid :: "'q \<Rightarrow> bool"
    and push :: "'a \<Rightarrow> 'q \<Rightarrow> 'q" and flush :: "'q \<Rightarrow> 'q"
    and empty :: "'q \<Rightarrow> bool \<times> 'q" and pop :: "'q \<Rightarrow> ('a \<times> 'q) option"
  assumes push: "valid q \<Longrightarrow> valid (push x q) \<and> items (push x q) = items q @ [x]"
    and flush: "valid q \<Longrightarrow> valid (flush q) \<and> items (flush q) = items q"
    and empty: "valid q \<Longrightarrow> valid (snd (empty q)) \<and> items (snd (empty q)) = items q"
    and not_empty: "valid q \<Longrightarrow> \<not> fst (empty q) \<Longrightarrow>
      \<exists>x q'. pop (snd (empty q)) = Some (x, q') \<and> valid q' \<and> items q = x # items q'"
    and flush_empty: "valid q \<Longrightarrow> fst (empty q) \<Longrightarrow> fst (empty (flush (snd (empty q)))) \<Longrightarrow> items q = []"
begin

lemma flushed_empty: "valid q \<Longrightarrow> fst (empty q) \<Longrightarrow> items q \<noteq> [] \<Longrightarrow> \<not> fst (empty (flush (snd (empty q))))"
  using flush_empty by blast

lemma push_not_nil: "valid q \<Longrightarrow> items (push x q) \<noteq> []"
  by (simp add: push)

end

definition queue_items :: "'a chunked \<Rightarrow> 'a list" where
  "queue_items q = q_incoming q @ concat (q_chunks q) @ q_outgoing q"

definition queue_ok :: "'a chunked \<Rightarrow> bool" where
  "queue_ok q \<longleftrightarrow> [] \<notin> set (q_chunks q) \<and> 0 < q_size q"

lemma queue_flush_ok: "queue_ok q \<Longrightarrow> queue_ok (queue_flush q) \<and> queue_items (queue_flush q) = queue_items q"
  by (auto simp: queue_flush_def queue_ok_def queue_items_def locked_push_def Let_def)

lemma refill_ok: "queue_ok q \<Longrightarrow> queue_ok (refill q) \<and> queue_items (refill q) = queue_items q"
  by (auto simp: refill_def locked_pop_def queue_ok_def queue_items_def split: list.split)

lemma refill_nil: "queue_ok q \<Longrightarrow> q_incoming (refill q) = [] \<Longrightarrow> q_chunks (refill q) = [] \<and> queue_items q = q_outgoing q"
  by (auto simp: refill_def locked_pop_def queue_ok_def queue_items_def split: list.splits if_splits)

lemma refill_again [simp]: "queue_ok q \<Longrightarrow> refill (refill q) = refill q"
  by (auto simp: refill_def locked_pop_def queue_ok_def split: list.split)

interpretation chunks: fifo queue_items queue_ok queue_push queue_flush queue_empty queue_pop
proof (unfold_locales, goal_cases)
  case (1 q x)
  let ?q = "q\<lparr>q_outgoing := q_outgoing q @ [x]\<rparr>"
  have "queue_ok ?q \<and> queue_items ?q = queue_items q @ [x]" using 1 by (simp add: queue_ok_def queue_items_def)
  then show ?case using queue_flush_ok [of ?q] by (simp add: queue_push_def Let_def)
next
  case (2 q)
  then show ?case by (rule queue_flush_ok)
next
  case (3 q)
  then show ?case using refill_ok by (simp add: queue_empty_def Let_def)
next
  case (4 q)
  then have i: "q_incoming (refill q) \<noteq> []" by (simp add: queue_empty_def Let_def)
  then obtain x xs where x: "q_incoming (refill q) = x # xs" by (cases "q_incoming (refill q)") auto
  have "queue_pop (snd (queue_empty q)) = Some (x, (refill q)\<lparr>q_incoming := xs\<rparr>)"
    using x 4(1) by (simp add: queue_pop_def queue_empty_def Let_def)
  moreover have "queue_ok ((refill q)\<lparr>q_incoming := xs\<rparr>)" "queue_items q = x # queue_items ((refill q)\<lparr>q_incoming := xs\<rparr>)"
    using refill_ok [OF 4(1)] x by (auto simp: queue_ok_def queue_items_def)
  ultimately show ?case by blast
next
  case (5 q)
  then have r: "q_incoming (refill q) = []" "q_chunks (refill q) = []" "queue_items q = q_outgoing q"
    using refill_nil [OF 5(1)] by (simp_all add: queue_empty_def Let_def)
  have o: "q_outgoing (refill q) = q_outgoing q" by (simp add: refill_def locked_pop_def split: list.split prod.split)
  show ?case
  proof (rule ccontr)
    assume "queue_items q \<noteq> []"
    then have "q_outgoing (refill q) \<noteq> []" using r(3) o by simp
    then have "q_incoming (refill (queue_flush (refill q))) \<noteq> []"
      using r(1,2) by (simp add: queue_flush_def refill_def [of "queue_flush (refill q)" for q] locked_push_def locked_pop_def Let_def refill_def)
    then show False using 5(3) by (simp add: queue_empty_def Let_def)
  qed
qed

fun pushed :: "'a queue_use list \<Rightarrow> 'a list" where
  "pushed [] = []"
| "pushed (Push x # us) = x # pushed us"
| "pushed (Take # us) = pushed us"

lemma use_queue_ok:
  "queue_ok q \<Longrightarrow> \<exists>xs q'. use_queue us q = Some (xs, q') \<and> queue_ok q' \<and> xs @ queue_items q' = queue_items q @ pushed us"
proof (induction us arbitrary: q)
  case (Cons u us)
  show ?case
  proof (cases u)
    case (Push x)
    then show ?thesis using Cons.IH [of "queue_push x q"] chunks.push [OF Cons.prems, of x] by simp
  next
    case Take
    show ?thesis
    proof (cases "fst (queue_empty q)")
      case True
      let ?q = "queue_flush (snd (queue_empty q))"
      have "queue_ok ?q" "queue_items ?q = queue_items q"
        using chunks.empty [OF Cons.prems] chunks.flush [of "snd (queue_empty q)"] by simp_all
      then show ?thesis using Cons.IH [of ?q] Take True by (simp add: split_beta)
    next
      case False
      obtain x q' where q': "queue_pop (snd (queue_empty q)) = Some (x, q')" "queue_ok q'" "queue_items q = x # queue_items q'"
        using chunks.not_empty [OF Cons.prems False] by blast
      obtain xs q'' where "use_queue us q' = Some (xs, q'')" "queue_ok q''" "xs @ queue_items q'' = queue_items q' @ pushed us"
        using Cons.IH [OF q'(2)] by blast
      then show ?thesis using q' Take False by (simp add: split_beta)
    qed
  qed
qed simp

text \<open>Chunks are short; the items that wait to be handed over are fewer than a chunk.\<close>

definition short_chunks :: "'a chunked \<Rightarrow> bool" where
  "short_chunks q \<longleftrightarrow>
     2 \<le> q_size q \<and> q_size q \<le> 64 \<and> length (q_outgoing q) < q_size q \<and>
     (\<forall>c \<in> set (q_chunks q). length c \<le> 64) \<and> length (q_incoming q) \<le> 64"

lemma short_flush:
  "short_chunks q \<or> (short_chunks (q\<lparr>q_outgoing := []\<rparr>) \<and> length (q_outgoing q) \<le> q_size q) \<Longrightarrow>
    short_chunks (queue_flush q)"
  by (auto simp: short_chunks_def queue_flush_def locked_push_def Let_def)

lemma short_push: "short_chunks q \<Longrightarrow> short_chunks (queue_push x q)"
  using short_flush [of "q\<lparr>q_outgoing := q_outgoing q @ [x]\<rparr>"]
  by (auto simp: short_chunks_def queue_push_def Let_def)

lemma short_refill: "short_chunks q \<Longrightarrow> short_chunks (refill q)"
  by (auto simp: short_chunks_def refill_def locked_pop_def split: list.splits)

lemma short_empty: "short_chunks q \<Longrightarrow> short_chunks (snd (queue_empty q))"
  by (simp add: queue_empty_def Let_def short_refill)

lemma short_pop: "short_chunks q \<Longrightarrow> queue_pop q = Some (x, q') \<Longrightarrow> short_chunks q'"
  using short_refill [of q] by (auto simp: queue_pop_def short_chunks_def Let_def split: list.splits)

lemma use_queue_short: "short_chunks q \<Longrightarrow> use_queue us q = Some (xs, q') \<Longrightarrow> short_chunks q'"
proof (induction us arbitrary: q xs)
  case (Cons u us)
  show ?case
  proof (cases u)
    case (Push x)
    then show ?thesis using Cons.IH [OF short_push [OF Cons.prems(1)]] Cons.prems(2) by simp
  next
    case Take
    let ?q = "snd (queue_empty q)"
    have q: "short_chunks ?q" by (rule short_empty [OF Cons.prems(1)])
    show ?thesis
    proof (cases "fst (queue_empty q)")
      case True
      then have "use_queue us (queue_flush ?q) = Some (xs, q')" using Take Cons.prems(2) by (simp add: split_beta)
      then show ?thesis by (rule Cons.IH [OF short_flush [OF disjI1 [OF q]]])
    next
      case False
      then obtain x q1 xs1 where "queue_pop ?q = Some (x, q1)" "use_queue us q1 = Some (xs1, q')"
        using Take Cons.prems(2) by (auto simp: split_beta split: option.splits)
      then show ?thesis using Cons.IH [OF short_pop [OF q]] by blast
    qed
  qed
qed simp

text \<open>The counter: the shared part is ahead of the work that is left by the local part.\<close>

definition counts :: "counter \<Rightarrow> nat \<Rightarrow> bool" where
  "counts k n \<longleftrightarrow> 0 \<le> k_local k \<and> k_shared k = k_local k + int n"

lemma counts_new: "counts new_counter 0"
  by (simp add: counts_def new_counter_def)

lemma counts_up: "counts k n \<Longrightarrow> counts (counter_up k) (Suc n)"
  by (simp add: counts_def counter_up_def counter_step_def Let_def)

lemma counts_down: "counts k (Suc n) \<Longrightarrow> counts (counter_down k) n"
  by (simp add: counts_def counter_down_def)

lemma counts_sync: "counts k n \<Longrightarrow> counts (counter_sync k) n \<and> (counter_on (counter_sync k) \<longleftrightarrow> n \<noteq> 0)"
  by (auto simp: counts_def counter_sync_def counter_on_def)

lemma counts_on: "counts k n \<Longrightarrow> n \<noteq> 0 \<Longrightarrow> counter_on k"
  by (simp add: counts_def counter_on_def)

end
