(* ===== verification/McSearch.thy ===== *)
theory McSearch
  imports McGraph WorkQueue "HOL-Library.Monad_Syntax"
begin

text \<open>
  The searches through a state space (\<^verbatim>\<open>src/divine/ss/search.hpp\<close>, \<^verbatim>\<open>listen.hpp\<close>) for one worker, and
  the search for errors that uses them (\<^verbatim>\<open>src/divine/mc/safety.hpp\<close>).
\<close>

section \<open>Listeners\<close>

datatype action = Process | Ignore | AsNeeded | Terminate

text \<open>A listener with its state.\<close>

record ('st, 'l) listener =
  on_edge :: "'st \<Rightarrow> 'st \<Rightarrow> label \<Rightarrow> bool \<Rightarrow> 'l \<Rightarrow> action \<times> 'l"
  on_state :: "'st \<Rightarrow> 'l \<Rightarrow> action \<times> 'l"
  on_closed :: "'st \<Rightarrow> 'l \<Rightarrow> action \<times> 'l"

definition wanted :: "action \<Rightarrow> bool \<Rightarrow> bool" where
  "wanted a isnew \<longleftrightarrow> a = Process \<or> a = AsNeeded \<and> isnew"

section \<open>Breadth first\<close>

record ('st, 'l) bfs =
  f_builder :: "'st builder"
  f_listener :: 'l
  f_terminate :: bool
  f_queue :: "'st chunked"
  f_work :: counter

text \<open>
  \<^verbatim>\<open>_state\<close> and \<^verbatim>\<open>_succs\<close>; the first component says whether \<^verbatim>\<open>Terminate\<close> was thrown, which leaves both
  at once.
\<close>

definition bfs_state :: "('st, 'l) listener \<Rightarrow> 'st \<Rightarrow> bool \<Rightarrow> ('st, 'l) bfs \<Rightarrow> bool \<times> ('st, 'l) bfs" where
  "bfs_state L x isnew f =
     (let (a, l) = on_state L x (f_listener f); f = f\<lparr>f_listener := l\<rparr>
      in if a = Terminate then (True, f\<lparr>f_terminate := True\<rparr>)
         else if wanted a isnew
         then (False, f\<lparr>f_queue := queue_push x (f_queue f), f_work := counter_up (f_work f)\<rparr>)
         else (False, f))"

fun bfs_succs ::
    "('st, 'l) listener \<Rightarrow> 'st \<Rightarrow> ('st \<times> label) list \<Rightarrow> ('st, 'l) bfs \<Rightarrow> bool \<times> ('st, 'l) bfs" where
  "bfs_succs L v [] f = (False, f)"
| "bfs_succs L v ((t, lab) # es) f =
     (let (b, isnew) = store t (f_builder f);
          (a, l) = on_edge L v t lab isnew (f_listener f);
          f = f\<lparr>f_builder := b, f_listener := l\<rparr>
      in if a = Terminate then (True, f\<lparr>f_terminate := True\<rparr>)
         else let (thrown, f) = (if wanted a isnew then bfs_state L t isnew f else (False, f))
              in if thrown then (True, f) else bfs_succs L v es f)"

text \<open>The loop of the worker; \<open>None\<close> also stands for taking an item from an empty queue.\<close>

partial_function (option) bfs_loop ::
    "('st, 'l) listener \<Rightarrow> 'st successors \<Rightarrow> ('st, 'l) bfs \<Rightarrow> ('st, 'l) bfs option" where
  "bfs_loop L succs f =
     (if \<not> counter_on (f_work f) \<or> f_terminate f then Some f
      else let (none, q) = queue_empty (f_queue f)
           in if none
              then bfs_loop L succs (f\<lparr>f_queue := queue_flush q, f_work := counter_sync (f_work f)\<rparr>)
              else (case queue_pop q of
                      None \<Rightarrow> None
                    | Some (v, q) \<Rightarrow>
                        let (thrown, f) = bfs_succs L v (succs v) (f\<lparr>f_queue := q\<rparr>)
                        in if thrown then Some f
                           else bfs_loop L succs (f\<lparr>f_work := counter_down (f_work f)\<rparr>)))"

declare bfs_loop.simps [code]

text \<open>
  \<^verbatim>\<open>_initials\<close>, and the copies of queue and counter that the worker gets: the original counter gives
  back what it did not use.
\<close>

definition bfs_start :: "('st, 'l) listener \<Rightarrow> 'st builder \<Rightarrow> 'l \<Rightarrow> ('st, 'l) bfs" where
  "bfs_start L b l =
     (let f = \<lparr>f_builder = b, f_listener = l, f_terminate = False, f_queue = new_queue, f_work = new_counter\<rparr>;
          f = (case b_initial b of
                 None \<Rightarrow> f
               | Some i \<Rightarrow>
                   let (a, l) = on_state L i (f_listener f); f = f\<lparr>f_listener := l\<rparr>
                   in if a = Process \<or> a = AsNeeded
                      then f\<lparr>f_queue := queue_push i (f_queue f), f_work := counter_up (f_work f)\<rparr> else f)
      in f\<lparr>f_queue := queue_flush (f_queue f), f_work := counter_sync (f_work f)\<rparr>)"

definition pseudo_bfs ::
    "('st, 'l) listener \<Rightarrow> 'st successors \<Rightarrow> 'st builder \<Rightarrow> 'l \<Rightarrow> ('st, 'l) bfs option" where
  "pseudo_bfs L succs b l = bfs_loop L succs (bfs_start L b l)"

section \<open>Depth first\<close>

datatype 'st dfs_item = Pre 'st | Post 'st

text \<open>Nothing in the worker catches \<^verbatim>\<open>Terminate\<close>: \<open>d_thrown\<close> is the exception that leaves it.\<close>

record ('st, 'l) dfs =
  d_builder :: "'st builder"
  d_listener :: 'l
  d_terminate :: bool
  d_stack :: "'st dfs_item list"
  d_thrown :: bool

fun dfs_succs :: "('st, 'l) listener \<Rightarrow> 'st \<Rightarrow> ('st \<times> label) list \<Rightarrow> ('st, 'l) dfs \<Rightarrow> ('st, 'l) dfs" where
  "dfs_succs L v [] d = d"
| "dfs_succs L v ((t, lab) # es) d =
     (let (b, isnew) = store t (d_builder d);
          (a, l) = on_edge L v t lab isnew (d_listener d);
          d = d\<lparr>d_builder := b, d_listener := l\<rparr>
      in if a = Terminate then d\<lparr>d_terminate := True, d_thrown := True\<rparr>
         else dfs_succs L v es (if wanted a isnew then d\<lparr>d_stack := Pre t # d_stack d\<rparr> else d))"

definition dfs_step :: "('st, 'l) listener \<Rightarrow> 'st successors \<Rightarrow> ('st, 'l) dfs \<Rightarrow> ('st, 'l) dfs" where
  "dfs_step L succs d =
     (case d_stack d of
        [] \<Rightarrow> d
      | Post x # rest \<Rightarrow> d\<lparr>d_stack := rest, d_listener := snd (on_closed L x (d_listener d))\<rparr>
      | Pre x # rest \<Rightarrow>
          let (a, l) = on_state L x (d_listener d); d = d\<lparr>d_stack := rest, d_listener := l\<rparr>
          in if a = Terminate then d\<lparr>d_terminate := True, d_thrown := True\<rparr>
             else if wanted a True then dfs_succs L x (succs x) (d\<lparr>d_stack := Post x # rest\<rparr>)
             else d)"

partial_function (option) dfs_loop ::
    "('st, 'l) listener \<Rightarrow> 'st successors \<Rightarrow> ('st, 'l) dfs \<Rightarrow> ('st, 'l) dfs option" where
  "dfs_loop L succs d =
     (if d_stack d = [] \<or> d_terminate d then Some d else dfs_loop L succs (dfs_step L succs d))"

declare dfs_loop.simps [code]

definition dfs_start :: "'st builder \<Rightarrow> 'l \<Rightarrow> ('st, 'l) dfs" where
  "dfs_start b l =
     \<lparr>d_builder = b, d_listener = l, d_terminate = False,
      d_stack = (case b_initial b of None \<Rightarrow> [] | Some i \<Rightarrow> [Pre i]), d_thrown = False\<rparr>"

definition depth_first ::
    "('st, 'l) listener \<Rightarrow> 'st successors \<Rightarrow> 'st builder \<Rightarrow> 'l \<Rightarrow> ('st, 'l) dfs option" where
  "depth_first L succs b l = dfs_loop L succs (dfs_start b l)"

section \<open>Listeners that only watch\<close>

text \<open>\<^verbatim>\<open>passive_listen\<close>: whatever the callbacks do, the search goes on as it needs.\<close>

definition passive_listen ::
    "('st \<Rightarrow> 'st \<Rightarrow> label \<Rightarrow> bool \<Rightarrow> 'l \<Rightarrow> 'l) \<Rightarrow> ('st \<Rightarrow> 'l \<Rightarrow> 'l) \<Rightarrow> ('st \<Rightarrow> 'l \<Rightarrow> 'l) \<Rightarrow>
      ('st, 'l) listener" where
  "passive_listen e s c =
     \<lparr>on_edge = (\<lambda>x t lab isnew l. (AsNeeded, e x t lab isnew l)),
      on_state = (\<lambda>x l. (AsNeeded, s x l)),
      on_closed = (\<lambda>x l. (Process, c x l))\<rparr>"

text \<open>One with callbacks that collect the edges and the states.\<close>

record 'st seen_log =
  log_edges :: "('st \<times> 'st \<times> label) list"
  log_states :: "'st list"

definition log_listener :: "('st, 'st seen_log) listener" where
  "log_listener =
     passive_listen (\<lambda>x t lab isnew l. l\<lparr>log_edges := log_edges l @ [(x, t, lab)]\<rparr>)
       (\<lambda>x l. l\<lparr>log_states := log_states l @ [x]\<rparr>) (\<lambda>x l. l)"

definition empty_log :: "'st seen_log" where
  "empty_log = \<lparr>log_edges = [], log_states = []\<rparr>"

section \<open>The search for errors\<close>

text \<open>The listener of \<^verbatim>\<open>Safety\<close>; the listener it wraps is its argument.\<close>

record ('st, 'n) safety =
  s_parent :: "'st \<Rightarrow> 'st option"
  s_error :: "('st \<times> 'st \<times> label) option"
  s_next :: 'n

definition safety_edge ::
    "('st, 'n) listener \<Rightarrow> 'st \<Rightarrow> 'st \<Rightarrow> label \<Rightarrow> bool \<Rightarrow> ('st, 'n) safety \<Rightarrow> action \<times> ('st, 'n) safety" where
  "safety_edge N x t lab isnew s =
     (let s = (if isnew then s\<lparr>s_parent := (s_parent s)(t \<mapsto> x)\<rparr> else s)
      in if l_error lab then (Terminate, s\<lparr>s_error := Some (x, t, lab)\<rparr>)
         else let (a, n) = on_edge N x t lab isnew (s_next s) in (a, s\<lparr>s_next := n\<rparr>))"

definition safety_listener :: "('st, 'n) listener \<Rightarrow> ('st, ('st, 'n) safety) listener" where
  "safety_listener N =
     \<lparr>on_edge = safety_edge N,
      on_state = (\<lambda>x s. let (a, n) = on_state N x (s_next s) in (a, s\<lparr>s_next := n\<rparr>)),
      on_closed = (\<lambda>x s. (Process, s))\<rparr>"

definition safety_start :: "'n \<Rightarrow> ('st, 'n) safety" where
  "safety_start n = \<lparr>s_parent = (\<lambda>x. None), s_error = None, s_next = n\<rparr>"

definition safety_bfs ::
    "('st, 'n) listener \<Rightarrow> 'n \<Rightarrow> 'st successors \<Rightarrow> 'st option \<Rightarrow> ('st, ('st, 'n) safety) bfs option" where
  "safety_bfs N n succs boot = pseudo_bfs (safety_listener N) succs (start_builder boot) (safety_start n)"

definition safety_dfs ::
    "('st, 'n) listener \<Rightarrow> 'n \<Rightarrow> 'st successors \<Rightarrow> 'st option \<Rightarrow> ('st, ('st, 'n) safety) dfs option" where
  "safety_dfs N n succs boot = depth_first (safety_listener N) succs (start_builder boot) (safety_start n)"

definition safety_verdict :: "('st, ('st, 'n) safety) bfs \<Rightarrow> verdict" where
  "safety_verdict f = verdict (f_builder f) (s_error (f_listener f) \<noteq> None)"

text \<open>
  \<^verbatim>\<open>ce_trace\<close>: from the source of the error edge back to the initial state along the parents.
\<close>

partial_function (option) trace_back :: "('st \<Rightarrow> 'st option) \<Rightarrow> 'st \<Rightarrow> 'st \<Rightarrow> 'st list \<Rightarrow> 'st list option" where
  "trace_back parent initial i trace =
     (if i = initial then Some (i # trace)
      else (case parent i of None \<Rightarrow> None | Some p \<Rightarrow> trace_back parent initial p (i # trace)))"

declare trace_back.simps [code]

definition safety_trace :: "('st, ('st, 'n) safety) bfs \<Rightarrow> 'st list option" where
  "safety_trace f =
     (case s_error (f_listener f) of
        None \<Rightarrow> Some []
      | Some (x, t, lab) \<Rightarrow>
          (case b_initial (f_builder f) of
             None \<Rightarrow> None
           | Some i \<Rightarrow> trace_back (s_parent (f_listener f)) i x [t]))"

end
