(* ===== verification/McSearchFacts.thy ===== *)
theory McSearchFacts
  imports McSearch
begin

text \<open>
  What both searches do for a listener that goes on where it is needed, or stops the search: every
  state that is reached is expanded once.
\<close>

definition edges_of :: "'st successors \<Rightarrow> 'st list \<Rightarrow> ('st \<times> 'st \<times> label) list" where
  "edges_of succs vs = concat (map (\<lambda>v. map (Pair v) (succs v)) vs)"

lemma edges_of_simps [simp]:
  "edges_of succs [] = []" "edges_of succs (vs @ ws) = edges_of succs vs @ edges_of succs ws"
  "edges_of succs [v] = map (Pair v) (succs v)"
  by (simp_all add: edges_of_def)

definition explored :: "'st successors \<Rightarrow> 'st \<Rightarrow> ('st \<times> 'st \<times> label) list \<Rightarrow> 'st list \<Rightarrow> bool" where
  "explored succs root es ss \<longleftrightarrow>
     distinct ss \<and> set ss = {x. goes succs root x} \<and>
     (\<exists>vs. distinct vs \<and> set vs = {x. goes succs root x} \<and> es = edges_of succs vs)"

text \<open>
  The contract of a listener: \<open>I es ss K l\<close> holds of its state \<open>l\<close> after it has seen the edges \<open>es\<close>
  and the states \<open>ss\<close>, when the states \<open>K\<close> are stored, until it stops the search, and then \<open>Stop\<close>
  holds. It does not stop at a state.
\<close>

locale explorer =
  fixes L :: "('st, 'l) listener" and succs :: "'st successors" and root :: 'st
    and I :: "('st \<times> 'st \<times> label) list \<Rightarrow> 'st list \<Rightarrow> 'st set \<Rightarrow> 'l \<Rightarrow> bool" and Stop :: "'l \<Rightarrow> bool"
  assumes on_edge: "I es ss K l \<Longrightarrow> goes succs root x \<Longrightarrow> x \<in> K \<Longrightarrow> (t, lab) \<in> set (succs x) \<Longrightarrow>
      (case on_edge L x t lab (t \<notin> K) l of (a, l') \<Rightarrow>
         a = AsNeeded \<and> I (es @ [(x, t, lab)]) ss (insert t K) l' \<or> a = Terminate \<and> Stop l')"
    and on_state: "I es ss K l \<Longrightarrow> fst (on_state L x l) = AsNeeded \<and> I es (ss @ [x]) K (snd (on_state L x l))"
    and on_closed: "I es ss K l \<Longrightarrow> I es ss K (snd (on_closed L x l))"
begin

lemma edge_cases:
  assumes "I es ss K l" "goes succs root x" "x \<in> K" "(t, lab) \<in> set (succs x)"
  obtains l' where "on_edge L x t lab (t \<notin> K) l = (AsNeeded, l')" "I (es @ [(x, t, lab)]) ss (insert t K) l'"
    | l' where "on_edge L x t lab (t \<notin> K) l = (Terminate, l')" "Stop l'"
proof -
  obtain a l' where e: "on_edge L x t lab (t \<notin> K) l = (a, l')" by fastforce
  show ?thesis using on_edge [OF assms] e that by auto
qed

lemma state_case:
  assumes "I es ss K l"
  obtains l' where "on_state L x l = (AsNeeded, l')" "I es (ss @ [x]) K l'"
  using on_state [OF assms, of x] by (metis prod.collapse)

text \<open>The states that were expanded, and those that wait.\<close>

definition progress :: "'st list \<Rightarrow> 'st list \<Rightarrow> ('st \<times> 'st \<times> label) list \<Rightarrow> 'st set \<Rightarrow> bool" where
  "progress vs waiting es K \<longleftrightarrow>
     distinct (vs @ waiting) \<and> set (vs @ waiting) = K \<and> K \<subseteq> {x. goes succs root x} \<and> root \<in> K \<and>
     es = edges_of succs vs \<and> (\<forall>v \<in> set vs. fst ` set (succs v) \<subseteq> K)"

lemma progress_done:
  assumes "progress vs [] es K"
  shows "set vs = {x. goes succs root x}" "distinct vs" "es = edges_of succs vs"
proof -
  have p: "set vs = K" "K \<subseteq> {x. goes succs root x}" "root \<in> K" "\<forall>v \<in> set vs. fst ` set (succs v) \<subseteq> K"
    using assms by (simp_all add: progress_def)
  have "y \<in> K" if "goes succs root y" for y
    by (rule goes_closed [OF that p(3)]) (use p in \<open>force simp: edge_in_def\<close>)
  then show "set vs = {x. goes succs root x}" using p(1,2) by blast
  show "distinct vs" "es = edges_of succs vs" using assms by (simp_all add: progress_def)
qed

lemma progress_step:
  assumes prog: "progress vs (x # waiting) es K"
    and new: "distinct ((vs @ [x]) @ waiting')" "set ((vs @ [x]) @ waiting') = K'" "K' = K \<union> fst ` set (succs x)"
  shows "progress (vs @ [x]) waiting' (es @ map (Pair x) (succs x)) K'"
proof -
  have K: "K \<subseteq> {x. goes succs root x}" "root \<in> K" "es = edges_of succs vs" "\<forall>v \<in> set vs. fst ` set (succs v) \<subseteq> K"
    "goes succs root x" using prog by (auto simp: progress_def)
  have "fst ` set (succs x) \<subseteq> {x. goes succs root x}" using goes_edge [OF K(5)] by (force simp: edge_in_def)
  moreover have "\<forall>v \<in> set (vs @ [x]). fst ` set (succs v) \<subseteq> K'" using K(4) new(3) by (simp add: le_supI1)
  ultimately show ?thesis using K(1-3) new by (simp add: progress_def)
qed

lemma progress_less:
  assumes "progress vs (x # waiting) es K" and finite: "finite_from succs root"
  shows "card ({x. goes succs root x} - set (vs @ [x])) < card ({x. goes succs root x} - set vs)"
proof (rule psubset_card_mono)
  show "finite ({x. goes succs root x} - set vs)" using finite by (simp add: finite_from_def)
  show "{x. goes succs root x} - set (vs @ [x]) \<subset> {x. goes succs root x} - set vs"
    using assms by (auto simp: progress_def)
qed

section \<open>Breadth first\<close>

definition bfs_inv :: "'st list \<Rightarrow> 'st list \<Rightarrow> ('st \<times> 'st \<times> label) list \<Rightarrow> ('st, 'l) bfs \<Rightarrow> bool" where
  "bfs_inv vs ss es f \<longleftrightarrow>
     queue_ok (f_queue f) \<and> \<not> f_terminate f \<and> b_initial (f_builder f) = Some root \<and> 0 < b_total (f_builder f) \<and>
     I es ss (b_states (f_builder f)) (f_listener f) \<and> distinct ss \<and> set ss = b_states (f_builder f)"

lemma bfs_succs_ok:
  assumes x: "goes succs root x"
  shows "bfs_inv vs ss es f \<Longrightarrow> x \<in> b_states (f_builder f) \<Longrightarrow> set es' \<subseteq> set (succs x) \<Longrightarrow>
    counts (f_work f) (Suc (length (queue_items (f_queue f)))) \<Longrightarrow> distinct (us @ queue_items (f_queue f)) \<Longrightarrow>
    set (us @ queue_items (f_queue f)) = b_states (f_builder f) \<Longrightarrow>
    \<exists>f'. bfs_succs L x es' f = (True, f') \<and> f_terminate f' \<and> Stop (f_listener f') \<and>
        b_initial (f_builder f') = Some root \<and> 0 < b_total (f_builder f') \<or>
      (\<exists>ss'. bfs_succs L x es' f = (False, f') \<and> bfs_inv vs ss' (es @ map (Pair x) es') f' \<and>
        counts (f_work f') (Suc (length (queue_items (f_queue f')))) \<and>
        distinct (us @ queue_items (f_queue f')) \<and> set (us @ queue_items (f_queue f')) = b_states (f_builder f') \<and>
        b_states (f_builder f') = b_states (f_builder f) \<union> fst ` set es')"
proof (induction es' arbitrary: es ss f)
  case Nil
  then show ?case by auto
next
  case (Cons e es')
  obtain t lab where e: "e = (t, lab)" by fastforce
  let ?K = "b_states (f_builder f)"
  obtain b new where b: "store t (f_builder f) = (b, new)" by fastforce
  have st: "b_states b = insert t ?K" "new \<longleftrightarrow> t \<notin> ?K" "b_total (f_builder f) \<le> b_total b"
    "b_initial b = b_initial (f_builder f)"
    using store_states [where t = t and b = "f_builder f"] b by simp_all
  have inv: "I es ss ?K (f_listener f)" "(t, lab) \<in> set (succs x)" using Cons.prems(1,3) e by (auto simp: bfs_inv_def)
  show ?case
  proof (cases rule: edge_cases [OF inv(1) x Cons.prems(2) inv(2)])
    case (2 l')
    then have "bfs_succs L x (e # es') f = (True, f\<lparr>f_builder := b, f_listener := l', f_terminate := True\<rparr>)"
      using b st(2) by (simp add: e)
    then show ?thesis using 2 st Cons.prems(1) by (auto simp: bfs_inv_def)
  next
    case (1 l')
    let ?f = "f\<lparr>f_builder := b, f_listener := l'\<rparr>"
    show ?thesis
    proof (cases "t \<in> ?K")
      case True
      then have step: "bfs_succs L x (e # es') f = bfs_succs L x es' ?f"
        using 1 b st(2) by (simp add: e wanted_def)
      have "bfs_inv vs ss (es @ [(x, t, lab)]) ?f"
        using Cons.prems(1) 1 st True by (auto simp: bfs_inv_def insert_absorb)
      from Cons.IH [OF this] Cons.prems st True show ?thesis
        unfolding step by (simp add: e insert_absorb)
    next
      case False
      obtain l2 where l2: "on_state L t l' = (AsNeeded, l2)" "I (es @ [(x, t, lab)]) (ss @ [t]) (insert t ?K) l2"
        using state_case [OF 1(2)] .
      let ?g = "f\<lparr>f_builder := b, f_listener := l2, f_queue := queue_push t (f_queue f), f_work := counter_up (f_work f)\<rparr>"
      have step: "bfs_succs L x (e # es') f = bfs_succs L x es' ?g"
        using 1 b st(2) False l2(1) by (simp add: e wanted_def bfs_state_def)
      have q: "queue_ok (queue_push t (f_queue f))" "queue_items (queue_push t (f_queue f)) = queue_items (f_queue f) @ [t]"
        using chunks.push [of "f_queue f" t] Cons.prems(1) by (auto simp: bfs_inv_def)
      have inv': "bfs_inv vs (ss @ [t]) (es @ [(x, t, lab)]) ?g"
        using Cons.prems(1) l2(2) st False q(1) by (auto simp: bfs_inv_def)
      have c: "counts (f_work ?g) (Suc (length (queue_items (f_queue ?g))))"
        using counts_up [OF Cons.prems(4)] q(2) by simp
      have d: "distinct (us @ queue_items (f_queue ?g))" "set (us @ queue_items (f_queue ?g)) = b_states (f_builder ?g)"
        using Cons.prems(5,6) q(2) st(1) False by auto
      from Cons.IH [OF inv' _ _ c d] Cons.prems(2,3) st(1) show ?thesis
        unfolding step by (simp add: e)
    qed
  qed
qed

lemma bfs_loop_ok:
  assumes finite: "finite_from succs root"
  shows "bfs_inv vs ss es f \<Longrightarrow> progress vs (queue_items (f_queue f)) es (b_states (f_builder f)) \<Longrightarrow>
    counts (f_work f) (length (queue_items (f_queue f))) \<Longrightarrow>
    \<exists>f'. bfs_loop L succs f = Some f' \<and> b_initial (f_builder f') = Some root \<and> 0 < b_total (f_builder f') \<and>
      (f_terminate f' \<and> Stop (f_listener f') \<or>
       \<not> f_terminate f' \<and>
       (\<exists>es ss. explored succs root es ss \<and> I es ss {x. goes succs root x} (f_listener f')))"
proof (induction "card ({x. goes succs root x} - set vs)" arbitrary: vs ss es f rule: less_induct)
  case less
  note inv = less.prems(1) and prog = less.prems(2) and work = less.prems(3)
  let ?q = "f_queue f" and ?K = "b_states (f_builder f)"
  have q: "queue_ok ?q" and running: "\<not> f_terminate f" using inv by (simp_all add: bfs_inv_def)
  have finished: "\<exists>es ss. explored succs root es ss \<and> I es ss {x. goes succs root x} (f_listener f)"
    if "queue_items ?q = []"
  proof -
    have p: "progress vs [] es ?K" using prog that by simp
    have "?K = {x. goes succs root x}" using progress_done(1) [OF p] p by (simp add: progress_def)
    then show ?thesis using progress_done [OF p] inv unfolding bfs_inv_def explored_def by metis
  qed
  have expand: ?case
    if f2: "bfs_inv vs ss es f2" "f_builder f2 = f_builder f" "f_listener f2 = f_listener f"
      and items: "queue_items (f_queue f2) = queue_items ?q" "counts (f_work f2) (length (queue_items ?q))"
      and some: "\<not> fst (queue_empty (f_queue f2))" and loop: "bfs_loop L succs f = bfs_loop L succs f2" for f2
  proof -
    have q2: "queue_ok (f_queue f2)" "\<not> f_terminate f2" using f2(1) by (simp_all add: bfs_inv_def)
    obtain v q' where v: "queue_pop (snd (queue_empty (f_queue f2))) = Some (v, q')" "queue_ok q'"
      "queue_items ?q = v # queue_items q'"
      using chunks.not_empty [OF q2(1) some] items(1) by auto
    have on: "counter_on (f_work f2)" using counts_on [OF items(2)] v(3) by simp
    let ?f = "f2\<lparr>f_queue := q'\<rparr>"
    have v_in: "v \<in> ?K" "goes succs root v" using prog v(3) by (auto simp: progress_def)
    have "bfs_inv vs ss es ?f" using f2(1) v(2) by (simp add: bfs_inv_def)
    from bfs_succs_ok [OF v_in(2) this, of "succs v" "vs @ [v]"]
    obtain f' where f': "bfs_succs L v (succs v) ?f = (True, f') \<and> f_terminate f' \<and> Stop (f_listener f') \<and>
        b_initial (f_builder f') = Some root \<and> 0 < b_total (f_builder f') \<or>
      (\<exists>ss'. bfs_succs L v (succs v) ?f = (False, f') \<and> bfs_inv vs ss' (es @ map (Pair v) (succs v)) f' \<and>
        counts (f_work f') (Suc (length (queue_items (f_queue f')))) \<and>
        distinct ((vs @ [v]) @ queue_items (f_queue f')) \<and>
        set ((vs @ [v]) @ queue_items (f_queue f')) = b_states (f_builder f') \<and>
        b_states (f_builder f') = ?K \<union> fst ` set (succs v))"
      using v_in(1) f2(2) items(2) v(3) prog by (auto simp: progress_def)
    have step: "bfs_loop L succs f2 = (let (thrown, f) = bfs_succs L v (succs v) ?f
        in if thrown then Some f else bfs_loop L succs (f\<lparr>f_work := counter_down (f_work f)\<rparr>))"
      using on q2(2) some v(1) by (subst bfs_loop.simps) (simp add: split_beta)
    show ?case
      using f'
    proof (elim disjE exE conjE)
      assume "bfs_succs L v (succs v) ?f = (True, f')" "f_terminate f'" "Stop (f_listener f')"
        "b_initial (f_builder f') = Some root" "0 < b_total (f_builder f')"
      then show ?thesis using loop step by simp
    next
      fix ss' assume s: "bfs_succs L v (succs v) ?f = (False, f')" "bfs_inv vs ss' (es @ map (Pair v) (succs v)) f'"
        "counts (f_work f') (Suc (length (queue_items (f_queue f'))))"
        "distinct ((vs @ [v]) @ queue_items (f_queue f'))"
        "set ((vs @ [v]) @ queue_items (f_queue f')) = b_states (f_builder f')"
        "b_states (f_builder f') = ?K \<union> fst ` set (succs v)"
      let ?g = "f'\<lparr>f_work := counter_down (f_work f')\<rparr>"
      have again: "bfs_loop L succs f = bfs_loop L succs ?g" using loop step s(1) by simp
      have "bfs_inv (vs @ [v]) ss' (es @ map (Pair v) (succs v)) ?g" using s(2) by (simp add: bfs_inv_def)
      moreover have "progress (vs @ [v]) (queue_items (f_queue ?g)) (es @ map (Pair v) (succs v)) (b_states (f_builder ?g))"
        using progress_step [OF _ s(4-6)] prog v(3) by simp
      moreover have "counts (f_work ?g) (length (queue_items (f_queue ?g)))" using counts_down [OF s(3)] by simp
      moreover have "card ({x. goes succs root x} - set (vs @ [v])) < card ({x. goes succs root x} - set vs)"
        using progress_less [OF _ finite] prog v(3) by metis
      ultimately show ?thesis unfolding again by (intro less.hyps) simp_all
    qed
  qed
  show ?case
  proof (cases "counter_on (f_work f)")
    case False
    then have "queue_items ?q = []" using counts_on [OF work] by auto
    then show ?thesis using False finished inv running by (subst bfs_loop.simps) (simp add: bfs_inv_def)
  next
    case on: True
    show ?thesis
    proof (cases "fst (queue_empty ?q)")
      case False
      then show ?thesis using expand [OF inv refl refl refl work False refl] by simp
    next
      case True
      let ?f = "f\<lparr>f_queue := queue_flush (snd (queue_empty ?q)), f_work := counter_sync (f_work f)\<rparr>"
      have loop: "bfs_loop L succs f = bfs_loop L succs ?f"
        using on running True by (subst bfs_loop.simps) (simp add: split_beta)
      have items: "queue_ok (f_queue ?f)" "queue_items (f_queue ?f) = queue_items ?q"
        using chunks.empty [OF q] chunks.flush [of "snd (queue_empty ?q)"] by auto
      have sync: "counts (f_work ?f) (length (queue_items ?q))" "counter_on (f_work ?f) \<longleftrightarrow> queue_items ?q \<noteq> []"
        using counts_sync [OF work] by simp_all
      have inv': "bfs_inv vs ss es ?f" using inv items(1) by (simp add: bfs_inv_def)
      show ?thesis
      proof (cases "queue_items ?q = []")
        case True
        then have "bfs_loop L succs ?f = Some ?f" using sync(2) by (subst bfs_loop.simps) simp
        then show ?thesis using loop finished [OF True] inv running by (simp add: bfs_inv_def)
      next
        case False
        then have "\<not> fst (queue_empty (f_queue ?f))" using chunks.flushed_empty [OF q True] by simp
        then show ?thesis using expand [OF inv' _ _ items(2) sync(1) _ loop] by simp
      qed
    qed
  qed
qed

lemma pseudo_bfs_ok:
  assumes finite: "finite_from succs root" and start: "I [] [] {root} l"
  shows "\<exists>f. pseudo_bfs L succs (start_builder (Some root)) l = Some f \<and>
    b_initial (f_builder f) = Some root \<and> 0 < b_total (f_builder f) \<and>
    (f_terminate f \<and> Stop (f_listener f) \<or>
     \<not> f_terminate f \<and> (\<exists>es ss. explored succs root es ss \<and> I es ss {x. goes succs root x} (f_listener f)))"
proof -
  let ?b = "start_builder (Some root)" and ?q = "queue_flush (queue_push root new_queue)"
  have b: "b_states ?b = {root}" "b_total ?b = 1" "b_initial ?b = Some root"
    by (simp_all add: start_builder_def store_def)
  obtain l' where l': "on_state L root l = (AsNeeded, l')" "I [] ([] @ [root]) {root} l'"
    using state_case [OF start] .
  have new: "queue_ok (new_queue :: 'st chunked)" "queue_items (new_queue :: 'st chunked) = []"
    by (simp_all add: queue_ok_def queue_items_def new_queue_def)
  have q: "queue_ok ?q" "queue_items ?q = [root]"
    using chunks.flush [of "queue_push root new_queue"] chunks.push [OF new(1), of root] new(2) by auto
  have f: "bfs_start L ?b l = \<lparr>f_builder = ?b, f_listener = l', f_terminate = False, f_queue = ?q,
      f_work = counter_sync (counter_up new_counter)\<rparr>"
    using l'(1) b(3) by (simp add: bfs_start_def Let_def)
  have "bfs_inv [] [root] [] (bfs_start L ?b l)" using f q b l'(2) by (simp add: bfs_inv_def)
  moreover have "progress [] (queue_items (f_queue (bfs_start L ?b l))) [] (b_states (f_builder (bfs_start L ?b l)))"
    using f q b by (simp add: progress_def)
  moreover have "counts (f_work (bfs_start L ?b l)) (length (queue_items (f_queue (bfs_start L ?b l))))"
    using f q counts_sync [OF counts_up [OF counts_new]] by simp
  ultimately show ?thesis unfolding pseudo_bfs_def by (rule bfs_loop_ok [OF finite])
qed

end

section \<open>Depth first\<close>

fun pre_states :: "'st dfs_item list \<Rightarrow> 'st list" where
  "pre_states [] = []"
| "pre_states (Pre x # rest) = x # pre_states rest"
| "pre_states (Post x # rest) = pre_states rest"

context explorer
begin

definition dfs_inv :: "'st list \<Rightarrow> ('st \<times> 'st \<times> label) list \<Rightarrow> ('st, 'l) dfs \<Rightarrow> bool" where
  "dfs_inv ss es d \<longleftrightarrow>
     \<not> d_terminate d \<and> \<not> d_thrown d \<and> b_initial (d_builder d) = Some root \<and> 0 < b_total (d_builder d) \<and>
     I es ss (b_states (d_builder d)) (d_listener d)"

definition dfs_thrown :: "('st, 'l) dfs \<Rightarrow> bool" where
  "dfs_thrown d \<longleftrightarrow> d_terminate d \<and> d_thrown d \<and> Stop (d_listener d) \<and> b_initial (d_builder d) = Some root"

lemma dfs_succs_ok:
  assumes x: "goes succs root x"
  shows "dfs_inv ss es d \<Longrightarrow> x \<in> b_states (d_builder d) \<Longrightarrow> set es' \<subseteq> set (succs x) \<Longrightarrow>
    distinct (us @ pre_states (d_stack d)) \<Longrightarrow> set (us @ pre_states (d_stack d)) = b_states (d_builder d) \<Longrightarrow>
    dfs_thrown (dfs_succs L x es' d) \<or>
    dfs_inv ss (es @ map (Pair x) es') (dfs_succs L x es' d) \<and>
      distinct (us @ pre_states (d_stack (dfs_succs L x es' d))) \<and>
      set (us @ pre_states (d_stack (dfs_succs L x es' d))) = b_states (d_builder (dfs_succs L x es' d)) \<and>
      b_states (d_builder (dfs_succs L x es' d)) = b_states (d_builder d) \<union> fst ` set es'"
proof (induction es' arbitrary: es d)
  case Nil
  then show ?case by simp
next
  case (Cons e es')
  obtain t lab where e: "e = (t, lab)" by fastforce
  let ?K = "b_states (d_builder d)"
  obtain b new where b: "store t (d_builder d) = (b, new)" by fastforce
  have st: "b_states b = insert t ?K" "new \<longleftrightarrow> t \<notin> ?K" "b_total (d_builder d) \<le> b_total b"
    "b_initial b = b_initial (d_builder d)"
    using store_states [where t = t and b = "d_builder d"] b by simp_all
  have inv: "I es ss ?K (d_listener d)" "(t, lab) \<in> set (succs x)" using Cons.prems(1,3) e by (auto simp: dfs_inv_def)
  show ?case
  proof (cases rule: edge_cases [OF inv(1) x Cons.prems(2) inv(2)])
    case (2 l')
    then show ?thesis using b st Cons.prems(1) by (simp add: e dfs_thrown_def dfs_inv_def)
  next
    case (1 l')
    let ?d = "d\<lparr>d_builder := b, d_listener := l'\<rparr>"
    have inv': "dfs_inv ss (es @ [(x, t, lab)]) ?d" using Cons.prems(1) 1 st by (simp add: dfs_inv_def)
    show ?thesis
    proof (cases "t \<in> ?K")
      case True
      then have step: "dfs_succs L x (e # es') d = dfs_succs L x es' ?d"
        using 1 b st(2) by (simp add: e wanted_def)
      from Cons.IH [OF inv'] Cons.prems st True show ?thesis unfolding step by (simp add: e insert_absorb)
    next
      case False
      let ?g = "?d\<lparr>d_stack := Pre t # d_stack d\<rparr>"
      have step: "dfs_succs L x (e # es') d = dfs_succs L x es' ?g"
        using 1 b st(2) False by (simp add: e wanted_def)
      have "dfs_inv ss (es @ [(x, t, lab)]) ?g" using inv' by (simp add: dfs_inv_def)
      moreover have "distinct (us @ pre_states (d_stack ?g))" "set (us @ pre_states (d_stack ?g)) = b_states (d_builder ?g)"
        using Cons.prems(4,5) st(1) False by auto
      ultimately show ?thesis using Cons.IH [of "es @ [(x, t, lab)]" ?g] Cons.prems(2,3) st(1)
        unfolding step by (simp add: e)
    qed
  qed
qed

lemma dfs_loop_ok:
  assumes finite: "finite_from succs root"
  shows "dfs_inv vs es d \<Longrightarrow> progress vs (pre_states (d_stack d)) es (b_states (d_builder d)) \<Longrightarrow>
    \<exists>d'. dfs_loop L succs d = Some d' \<and>
      (dfs_thrown d' \<or> \<not> d_thrown d' \<and>
       (\<exists>es ss. explored succs root es ss \<and> I es ss {x. goes succs root x} (d_listener d')))"
proof (induction "(card ({x. goes succs root x} - set vs), length (d_stack d))" arbitrary: vs es d
    rule: wf_induct_rule [OF wf_lex_prod [OF wf_less_than wf_less_than]])
  case 1
  note inv = 1(2) and prog = 1(3)
  let ?K = "b_states (d_builder d)"
  have running: "\<not> d_terminate d" "\<not> d_thrown d" and I: "I es vs ?K (d_listener d)" using inv by (simp_all add: dfs_inv_def)
  show ?case
  proof (cases "d_stack d")
    case Nil
    then have p: "progress vs [] es ?K" using prog by simp
    have "?K = {x. goes succs root x}" using progress_done(1) [OF p] p by (simp add: progress_def)
    then have "explored succs root es vs \<and> I es vs {x. goes succs root x} (d_listener d)"
      using progress_done [OF p] I unfolding explored_def by metis
    then show ?thesis using Nil running by (subst dfs_loop.simps) auto
  next
    case (Cons item rest)
    let ?d = "dfs_step L succs d"
    have loop: "dfs_loop L succs d = dfs_loop L succs ?d" using Cons running by (subst dfs_loop.simps) simp
    show ?thesis
    proof (cases item)
      case (Post x)
      then have d: "?d = d\<lparr>d_stack := rest, d_listener := snd (on_closed L x (d_listener d))\<rparr>"
        using Cons by (simp add: dfs_step_def)
      have "dfs_inv vs es ?d" using inv on_closed [OF I] d by (simp add: dfs_inv_def)
      moreover have "progress vs (pre_states (d_stack ?d)) es (b_states (d_builder ?d))" using prog Cons Post d by simp
      moreover have "length (d_stack ?d) < length (d_stack d)" using Cons d by simp
      ultimately show ?thesis unfolding loop by (intro 1(1)) simp_all
    next
      case (Pre x)
      obtain l' where l': "on_state L x (d_listener d) = (AsNeeded, l')" "I es (vs @ [x]) ?K l'" using state_case [OF I] .
      let ?g = "d\<lparr>d_listener := l', d_stack := Post x # rest\<rparr>"
      have d: "?d = dfs_succs L x (succs x) ?g" using Cons Pre l'(1) by (simp add: dfs_step_def wanted_def)
      have x: "x \<in> ?K" "goes succs root x" using prog Cons Pre by (auto simp: progress_def)
      have g: "dfs_inv (vs @ [x]) es ?g" using inv l'(2) by (simp add: dfs_inv_def)
      have w: "distinct ((vs @ [x]) @ pre_states (d_stack ?g))" "set ((vs @ [x]) @ pre_states (d_stack ?g)) = b_states (d_builder ?g)"
        using prog Cons Pre by (auto simp: progress_def)
      have "x \<in> b_states (d_builder ?g)" using x(1) by simp
      from dfs_succs_ok [OF x(2) g this subset_refl w]
      consider (thrown) "dfs_thrown ?d"
        | (more) "dfs_inv (vs @ [x]) (es @ map (Pair x) (succs x)) ?d"
          "distinct ((vs @ [x]) @ pre_states (d_stack ?d))"
          "set ((vs @ [x]) @ pre_states (d_stack ?d)) = b_states (d_builder ?d)"
          "b_states (d_builder ?d) = ?K \<union> fst ` set (succs x)"
        unfolding d by auto
      then show ?thesis
      proof cases
        case thrown
        then have "dfs_loop L succs ?d = Some ?d" by (subst dfs_loop.simps) (simp add: dfs_thrown_def)
        then show ?thesis using loop thrown by simp
      next
        case more
        have "progress vs (x # pre_states rest) es ?K" using prog Cons Pre by simp
        then have "progress (vs @ [x]) (pre_states (d_stack ?d)) (es @ map (Pair x) (succs x)) (b_states (d_builder ?d))"
          by (rule progress_step [OF _ more(2-4)])
        moreover have "card ({x. goes succs root x} - set (vs @ [x])) < card ({x. goes succs root x} - set vs)"
          by (rule progress_less [OF _ finite, where waiting = "pre_states rest"]) (use prog Cons Pre in simp)
        ultimately show ?thesis unfolding loop using more(1) by (intro 1(1)) simp_all
      qed
    qed
  qed
qed

lemma depth_first_ok:
  assumes finite: "finite_from succs root" and start: "I [] [] {root} l"
  shows "\<exists>d. depth_first L succs (start_builder (Some root)) l = Some d \<and>
    (dfs_thrown d \<or> \<not> d_thrown d \<and>
     (\<exists>es ss. explored succs root es ss \<and> I es ss {x. goes succs root x} (d_listener d)))"
  unfolding depth_first_def
proof (rule dfs_loop_ok [OF finite])
  let ?b = "start_builder (Some root)"
  have b: "b_states ?b = {root}" "b_total ?b = 1" "b_initial ?b = Some root"
    by (simp_all add: start_builder_def store_def)
  show "dfs_inv [] [] (dfs_start ?b l)" using b start by (simp add: dfs_inv_def dfs_start_def)
  show "progress [] (pre_states (d_stack (dfs_start ?b l))) [] (b_states (d_builder (dfs_start ?b l)))"
    using b by (simp add: progress_def dfs_start_def)
qed

end

end
