(* ===== verification/McSafetyFacts.thy ===== *)
theory McSafetyFacts
  imports McSearchFacts "HOL-Library.Multiset"
begin

text \<open>
  Two listeners that keep the contract of the searches: the one that writes down what it sees, and the
  one that looks for an error. For the second, the counterexample that the parents give.
\<close>

section \<open>What a search shows\<close>

interpretation logs: explorer log_listener succs root "\<lambda>es ss K l. log_edges l = es \<and> log_states l = ss" "\<lambda>l. False"
  for succs :: "'st successors" and root
  by unfold_locales (simp_all add: log_listener_def passive_listen_def)

lemma empty_log_simps: "log_edges empty_log = []" "log_states empty_log = []"
  by (simp_all add: empty_log_def)

lemma bfs_explores:
  assumes "finite_from succs root"
  shows "\<exists>f. pseudo_bfs log_listener succs (start_builder (Some root)) empty_log = Some f \<and>
    explored succs root (log_edges (f_listener f)) (log_states (f_listener f))"
  using logs.pseudo_bfs_ok [OF assms, of empty_log] empty_log_simps by auto

lemma dfs_explores:
  assumes "finite_from succs root"
  shows "\<exists>d. depth_first log_listener succs (start_builder (Some root)) empty_log = Some d \<and> \<not> d_thrown d \<and>
    explored succs root (log_edges (d_listener d)) (log_states (d_listener d))"
  using logs.depth_first_ok [OF assms, of empty_log] empty_log_simps unfolding logs.dfs_thrown_def by auto

lemma explored_edges:
  assumes "explored succs root es ss" "goes succs root x" "(t, lab) \<in> set (succs x)"
  shows "(x, t, lab) \<in> set es"
  using assms by (force simp: explored_def edges_of_def)

lemma explored_unique:
  assumes "explored succs root es ss" "explored succs root es' ss'"
  shows "mset es = mset es' \<and> mset ss = mset ss'"
proof -
  have same: "mset xs = mset ys" if "distinct xs" "distinct ys" "set xs = set ys" for xs ys :: "'a list"
    using that by (simp add: set_eq_iff_mset_eq_distinct)
  obtain vs vs' where v: "distinct vs" "distinct vs'" "set vs = set vs'" "es = edges_of succs vs" "es' = edges_of succs vs'"
    using assms unfolding explored_def by metis
  have "mset (edges_of succs us) = (\<Sum>v \<in># mset us. mset (map (Pair v) (succs v)))" for us
    by (induction us) (simp_all add: edges_of_def)
  then have "mset es = mset es'" using same [OF v(1-3)] v(4,5) by simp
  moreover have "mset ss = mset ss'" using assms same by (simp add: explored_def)
  ultimately show ?thesis by simp
qed

section \<open>The parents\<close>

abbreviation is_parent :: "('st \<Rightarrow> 'st option) \<Rightarrow> 'st \<Rightarrow> 'st \<Rightarrow> bool" where
  "is_parent P p x \<equiv> P x = Some p"

definition parents_ok :: "'st successors \<Rightarrow> 'st \<Rightarrow> 'st set \<Rightarrow> ('st \<Rightarrow> 'st option) \<Rightarrow> bool" where
  "parents_ok succs root K P \<longleftrightarrow>
     dom P \<subseteq> K \<and> (\<forall>p x. is_parent P p x \<longrightarrow> edge_in succs p x) \<and> (\<forall>x \<in> K. (is_parent P)\<^sup>*\<^sup>* root x)"

lemma parents_start: "parents_ok succs root {root} (\<lambda>x. None)"
  by (simp add: parents_ok_def)

lemma parents_known: "parents_ok succs root K P \<Longrightarrow> t \<in> K \<Longrightarrow> parents_ok succs root (insert t K) P"
  by (simp add: insert_absorb)

lemma parents_new:
  assumes ok: "parents_ok succs root K P" and t: "t \<notin> K" and x: "x \<in> K" "edge_in succs x t"
  shows "parents_ok succs root (insert t K) (P(t \<mapsto> x))"
  unfolding parents_ok_def
proof (intro conjI ballI allI impI)
  show "dom (P(t \<mapsto> x)) \<subseteq> insert t K" using ok by (auto simp: parents_ok_def)
  show "edge_in succs p y" if "is_parent (P(t \<mapsto> x)) p y" for p y
    using that ok x(2) by (auto simp: parents_ok_def split: if_splits)
  have "is_parent P p y \<longrightarrow> is_parent (P(t \<mapsto> x)) p y" for p y using ok t by (auto simp: parents_ok_def)
  then have up: "(is_parent (P(t \<mapsto> x)))\<^sup>*\<^sup>* root y" if "y \<in> K" for y
    using ok that rtranclp_mono [of "is_parent P" "is_parent (P(t \<mapsto> x))"] by (auto simp: parents_ok_def le_fun_def)
  have "(is_parent (P(t \<mapsto> x)))\<^sup>*\<^sup>* root t" by (rule rtranclp.rtrancl_into_rtrancl [OF up [OF x(1)]]) simp
  then show "(is_parent (P(t \<mapsto> x)))\<^sup>*\<^sup>* root y" if "y \<in> insert t K" for y
    using that up by (metis insert_iff)
qed

lemma parents_path:
  assumes "(is_parent P)\<^sup>*\<^sup>* root x" and edges: "\<And>p x. is_parent P p x \<Longrightarrow> edge_in succs p x"
  shows "\<exists>xs. trace_back P root x tr = Some (xs @ tr) \<and> xs \<noteq> [] \<and> hd xs = root \<and> last xs = x \<and> path succs xs"
  using assms(1)
proof (induction arbitrary: tr rule: rtranclp_induct)
  case base
  have "trace_back P root root tr = Some ([root] @ tr)" by (simp add: trace_back.simps [of P root root])
  then show ?case by (metis last.simps list.sel(1) not_Cons_self2 path.simps(3))
next
  case (step y z)
  show ?case
  proof (cases "z = root")
    case True
    have "trace_back P root root tr = Some ([root] @ tr)" by (simp add: trace_back.simps [of P root root])
    then show ?thesis unfolding True by (metis last.simps list.sel(1) not_Cons_self2 path.simps(3))
  next
    case False
    obtain xs where xs: "trace_back P root y (z # tr) = Some (xs @ z # tr)" "xs \<noteq> []" "hd xs = root" "last xs = y"
      "path succs xs" using step.IH [of "z # tr"] by auto
    have "xs = butlast xs @ [y]" using xs(2,4) by (metis append_butlast_last_id)
    then have "path succs (xs @ [z])" using xs(5) path_snoc [of succs "butlast xs" y z] edges [OF step.hyps(2)]
      by (metis append.assoc append_Cons append_Nil)
    moreover have "trace_back P root z tr = Some ((xs @ [z]) @ tr)"
      using False step.hyps(2) xs(1) by (simp add: trace_back.simps [of P root z])
    ultimately show ?thesis using xs(2,3) by (intro exI [of _ "xs @ [z]"]) simp
  qed
qed

section \<open>The search for errors\<close>

definition searching ::
    "'st successors \<Rightarrow> 'st \<Rightarrow> ('st \<times> 'st \<times> label) list \<Rightarrow> 'st set \<Rightarrow> ('st, 'n) safety \<Rightarrow> bool" where
  "searching succs root es K s \<longleftrightarrow>
     s_error s = None \<and> (\<forall>(x, t, lab) \<in> set es. \<not> l_error lab) \<and> parents_ok succs root K (s_parent s)"

definition error_seen :: "'st successors \<Rightarrow> 'st \<Rightarrow> ('st, 'n) safety \<Rightarrow> bool" where
  "error_seen succs root s \<longleftrightarrow>
     (\<exists>x t lab K. s_error s = Some (x, t, lab) \<and> (t, lab) \<in> set (succs x) \<and> l_error lab \<and> goes succs root x \<and>
        x \<in> K \<and> parents_ok succs root K (s_parent s))"

lemma safety_edge_ok:
  assumes s: "searching succs root es K s" and x: "goes succs root x" "x \<in> K" "(t, lab) \<in> set (succs x)"
  shows "case safety_edge (passive_listen e st c) x t lab (t \<notin> K) s of (a, s') \<Rightarrow>
    a = AsNeeded \<and> searching succs root (es @ [(x, t, lab)]) (insert t K) s' \<or> a = Terminate \<and> error_seen succs root s'"
proof -
  let ?P = "if t \<notin> K then (s_parent s)(t \<mapsto> x) else s_parent s"
  have ok: "parents_ok succs root K (s_parent s)" using s by (simp add: searching_def)
  have P: "parents_ok succs root (insert t K) ?P"
    using parents_new [OF ok _ x(2)] parents_known [OF ok] some_edges(1) [of t lab succs x] x(3) by auto
  show ?thesis
  proof (cases "l_error lab")
    case True
    then have "error_seen succs root (s\<lparr>s_parent := ?P, s_error := Some (x, t, lab)\<rparr>)"
      unfolding error_seen_def using x P by auto
    then show ?thesis using True by (simp add: safety_edge_def Let_def split: if_splits)
  next
    case False
    then have "searching succs root (es @ [(x, t, lab)]) (insert t K)
        ((if t \<notin> K then s\<lparr>s_parent := (s_parent s)(t \<mapsto> x)\<rparr> else s)\<lparr>s_next := n\<rparr>)" for n
      using s P by (auto simp: searching_def)
    from this [of "e x t lab (t \<notin> K) (s_next s)"] show ?thesis
      using False by (auto simp: safety_edge_def passive_listen_def)
  qed
qed

interpretation errors: explorer "safety_listener (passive_listen e st c)" succs root
    "\<lambda>es ss K s. searching succs root es K s" "error_seen succs root"
  for e :: "'st \<Rightarrow> 'st \<Rightarrow> label \<Rightarrow> bool \<Rightarrow> 'n \<Rightarrow> 'n" and st c succs root
proof (unfold_locales, goal_cases)
  case (1 es ss K s x t lab)
  then show ?case using safety_edge_ok [of succs root es K s x t lab e st c] by (simp add: safety_listener_def)
qed (simp_all add: safety_listener_def passive_listen_def searching_def split_beta)

lemma searched_all:
  assumes "explored succs root es ss" "searching succs root es K s"
  shows "s_error s = None" "\<not> (goes succs root x \<and> error_edge succs x y)"
proof -
  show "s_error s = None" using assms(2) by (simp add: searching_def)
  show "\<not> (goes succs root x \<and> error_edge succs x y)"
    using explored_edges [OF assms(1), of x] assms(2) by (fastforce simp: searching_def error_edge_def)
qed

lemma seen_error:
  assumes "error_seen succs root s"
  shows "s_error s \<noteq> None" "\<exists>x y. goes succs root x \<and> error_edge succs x y"
  using assms unfolding error_seen_def error_edge_def by (cases, auto)+

definition error_path :: "'st successors \<Rightarrow> 'st \<Rightarrow> 'st list \<Rightarrow> bool" where
  "error_path succs i xs \<longleftrightarrow>
     (\<exists>ys x t. xs = ys @ [x, t] \<and> hd xs = i \<and> path succs xs \<and> error_edge succs x t)"

lemma safety_trace_ok:
  assumes "error_seen succs root (f_listener f)" "b_initial (f_builder f) = Some root"
  shows "\<exists>xs. safety_trace f = Some xs \<and> error_path succs root xs"
proof -
  obtain x t lab K where s: "s_error (f_listener f) = Some (x, t, lab)" "(t, lab) \<in> set (succs x)" "l_error lab"
    "(is_parent (s_parent (f_listener f)))\<^sup>*\<^sup>* root x" "\<And>p x. is_parent (s_parent (f_listener f)) p x \<Longrightarrow> edge_in succs p x"
    using assms(1) unfolding error_seen_def parents_ok_def by blast
  obtain xs where xs: "trace_back (s_parent (f_listener f)) root x [t] = Some (xs @ [t])" "xs \<noteq> []" "hd xs = root"
    "last xs = x" "path succs xs" using parents_path [where tr = "[t]", OF s(4,5)] by auto
  have tr: "xs = butlast xs @ [x]" using xs(2,4) by (metis append_butlast_last_id)
  have e: "edge_in succs x t" using s(2) by (auto simp: edge_in_def)
  have "path succs (butlast xs @ [x, t])" using path_snoc [of succs "butlast xs" x t] xs(5) tr e by simp
  moreover have "error_edge succs x t" using s(2,3) by (auto simp: error_edge_def)
  moreover have t: "xs @ [t] = butlast xs @ [x, t]" by (subst tr) simp
  moreover have "hd (xs @ [t]) = root" using xs(2,3) by simp
  ultimately have "error_path succs root (xs @ [t])" unfolding error_path_def by metis
  then show ?thesis using xs(1) s(1) assms(2) by (simp add: safety_trace_def)
qed

lemma searching_start: "searching succs root [] {root} (safety_start n)"
  by (simp add: searching_def safety_start_def parents_start)

lemma safety_bfs_ok:
  assumes "finite_from succs i"
  shows "\<exists>f. safety_bfs (passive_listen e st c) n succs (Some i) = Some f \<and>
    (safety_verdict f = Error \<and> (\<exists>x y. goes succs i x \<and> error_edge succs x y) \<and>
       (\<exists>xs. safety_trace f = Some xs \<and> error_path succs i xs) \<or>
     safety_verdict f = Valid \<and> \<not> (\<exists>x y. goes succs i x \<and> error_edge succs x y) \<and> safety_trace f = Some [])"
proof -
  obtain f where f: "safety_bfs (passive_listen e st c) n succs (Some i) = Some f" "b_initial (f_builder f) = Some i"
    "0 < b_total (f_builder f)"
    "f_terminate f \<and> error_seen succs i (f_listener f) \<or> \<not> f_terminate f \<and>
     (\<exists>es ss. explored succs i es ss \<and> searching succs i es {x. goes succs i x} (f_listener f))"
    using errors.pseudo_bfs_ok [OF assms searching_start [of succs i n], of e st c] unfolding safety_bfs_def by (elim exE conjE)
  show ?thesis using f(4)
  proof (elim disjE conjE exE)
    assume "error_seen succs i (f_listener f)"
    then show ?thesis using f(1-3) seen_error [of succs i "f_listener f"] safety_trace_ok [of succs i f]
      by (intro exI [of _ f]) (simp add: safety_verdict_def verdict_def)
  next
    fix es ss
    assume "explored succs i es ss" "searching succs i es {x. goes succs i x} (f_listener f)"
    then have "s_error (f_listener f) = None" "\<not> (\<exists>x y. goes succs i x \<and> error_edge succs x y)"
      using searched_all by metis+
    then show ?thesis using f(1,3)
      by (intro exI [of _ f]) (simp add: safety_verdict_def verdict_def safety_trace_def)
  qed
qed

lemma safety_dfs_ok:
  assumes "finite_from succs i"
  shows "\<exists>d. safety_dfs (passive_listen e st c) n succs (Some i) = Some d \<and>
    (d_thrown d \<longleftrightarrow> (\<exists>x y. goes succs i x \<and> error_edge succs x y)) \<and>
    (d_thrown d \<longleftrightarrow> s_error (d_listener d) \<noteq> None)"
proof -
  obtain d where d: "safety_dfs (passive_listen e st c) n succs (Some i) = Some d"
    "d_thrown d \<and> error_seen succs i (d_listener d) \<or> \<not> d_thrown d \<and>
     (\<exists>es ss. explored succs i es ss \<and> searching succs i es {x. goes succs i x} (d_listener d))"
    using errors.depth_first_ok [OF assms searching_start [of succs i n], of e st c]
    unfolding safety_dfs_def errors.dfs_thrown_def by auto
  show ?thesis using d(2)
  proof (elim disjE conjE exE)
    assume "error_seen succs i (d_listener d)" "d_thrown d"
    then show ?thesis using d(1) seen_error [of succs i "d_listener d"] by (intro exI [of _ d]) simp
  next
    fix es ss
    assume "explored succs i es ss" "searching succs i es {x. goes succs i x} (d_listener d)" "\<not> d_thrown d"
    moreover from this have "s_error (d_listener d) = None" "\<not> (\<exists>x y. goes succs i x \<and> error_edge succs x y)"
      using searched_all by metis+
    ultimately show ?thesis using d(1) by (intro exI [of _ d]) simp
  qed
qed

end
