(* ===== verification/McProps.thy ===== *)
theory McProps
  imports McLasso McSafetyFacts
begin

text \<open>
  The properties of the model checker: what its verdicts say about the state space, for the search for
  accepting cycles and for the search for errors, and what the searches and their queue do.
\<close>

section \<open>Some state spaces\<close>

definition plain_label :: label where
  "plain_label = \<lparr>l_accepting = False, l_error = False\<rparr>"

definition accepting_label :: label where
  "accepting_label = \<lparr>l_accepting = True, l_error = False\<rparr>"

definition error_label :: label where
  "error_label = \<lparr>l_accepting = False, l_error = True\<rparr>"

text \<open>A way to a cycle of two states that accepts; a state that is reached twice, the second time with an error.\<close>

definition to_cycle :: "nat successors" where
  "to_cycle x =
     (if x = 0 then [(1, plain_label)] else if x = 1 then [(2, accepting_label)]
      else if x = 2 then [(1, plain_label), (3, plain_label)] else [])"

definition late_error :: "nat successors" where
  "late_error x =
     (if x = 0 then [(1, plain_label), (2, plain_label)] else if x = 1 then [(2, plain_label)]
      else if x = 2 then [(1, error_label)] else [])"

lemma finite_fromI:
  assumes "finite A" "i \<in> A" "\<And>x y. x \<in> A \<Longrightarrow> edge_in succs x y \<Longrightarrow> y \<in> A"
  shows "finite_from succs i"
proof -
  have "y \<in> A" if "goes succs i y" for y by (rule goes_closed [OF that assms(2) assms(3)])
  then show ?thesis unfolding finite_from_def using finite_subset [OF _ assms(1)] by blast
qed

lemma some_finite: "finite_from to_cycle 0" "finite_from late_error 0"
  by (rule finite_fromI [of "{0, 1, 2, 3}"],
      auto simp: to_cycle_def late_error_def edge_in_def split: if_splits)+

lemma no_errors: "\<not> error_edge to_cycle x y"
  by (auto simp: error_edge_def to_cycle_def plain_label_def accepting_label_def)

section \<open>Accepting cycles\<close>

text \<open>
  C2. When finitely many states can be reached, the search for accepting cycles ends, without looking
  up a state that it has not met. When it says Valid, no cycle that can be reached has an accepting
  edge, and there is no trace; otherwise it says Error, and the trace is a path from the initial state
  that either closes a cycle with an accepting edge or ends in an error edge.
\<close>

theorem liveness_verdict:
  assumes "finite_from succs i"
  shows "\<exists>n. liveness succs (Some i) = Some n \<and> n_status n \<noteq> Fault \<and>
    (ndfs_verdict n = Valid \<and> ndfs_trace n = [] \<and>
       \<not> (\<exists>x y. goes succs i x \<and> accepting_edge succs x y \<and> goes succs y x) \<or>
     ndfs_verdict n = Error \<and> hd (ndfs_trace n) = i \<and>
       (accepting_lasso succs (ndfs_trace n) \<or> error_trace succs (ndfs_trace n)))"
proof -
  obtain n where n: "liveness succs (Some i) = Some n" "reported succs i n \<or>
    ndfs_verdict n = Valid \<and> n_status n = Searching \<and> c_goal (n_example n) = None \<and>
    (\<forall>x y. goes succs i x \<longrightarrow> accepting_edge succs x y \<longrightarrow> \<not> goes succs y x)"
    using liveness_ok [OF assms] by (elim exE conjE)
  from n(2) show ?thesis
  proof
    assume "reported succs i n"
    then show ?thesis using n(1) by (auto simp: reported_def ndfs_verdict_def verdict_def)
  next
    assume "ndfs_verdict n = Valid \<and> n_status n = Searching \<and> c_goal (n_example n) = None \<and>
      (\<forall>x y. goes succs i x \<longrightarrow> accepting_edge succs x y \<longrightarrow> \<not> goes succs y x)"
    then show ?thesis using n(1) by (intro exI [of _ n]) (auto simp: ndfs_trace_def)
  qed
qed

theorem liveness_verdict_witness:
  "map_option ndfs_verdict (liveness to_cycle (Some 0)) = Some Error \<and>
    map_option ndfs_trace (liveness to_cycle (Some 0)) = Some [0, 1, 2, 1, 2] \<and>
    (\<exists>n. liveness to_cycle (Some 0) = Some n \<and> n_status n \<noteq> Fault)"
proof (intro conjI)
  show "map_option ndfs_verdict (liveness to_cycle (Some 0)) = Some Error" by code_simp
  show "map_option ndfs_trace (liveness to_cycle (Some 0)) = Some [0, 1, 2, 1, 2]" by code_simp
  show "\<exists>n. liveness to_cycle (Some 0) = Some n \<and> n_status n \<noteq> Fault"
    using liveness_verdict [OF some_finite(1)] by blast
qed

text \<open>
  C18. Where no error can be reached, the search for accepting cycles says Error exactly when a cycle
  with an accepting edge can be reached, and Valid otherwise.
\<close>

theorem liveness_exact:
  assumes "finite_from succs i" "\<forall>x y. goes succs i x \<longrightarrow> \<not> error_edge succs x y"
  shows "map_option ndfs_verdict (liveness succs (Some i)) =
    Some (if \<exists>x y. goes succs i x \<and> accepting_edge succs x y \<and> goes succs y x then Error else Valid)"
proof -
  obtain n where n: "liveness succs (Some i) = Some n" "reported succs i n \<or>
    ndfs_verdict n = Valid \<and> n_status n = Searching \<and> c_goal (n_example n) = None \<and>
    (\<forall>x y. goes succs i x \<longrightarrow> accepting_edge succs x y \<longrightarrow> \<not> goes succs y x)"
    using liveness_ok [OF assms(1)] by (elim exE conjE)
  from n(2) show ?thesis
  proof
    assume r: "reported succs i n"
    then have "\<not> error_trace succs (ndfs_trace n)"
      using error_trace_edge [of succs "ndfs_trace n" i] assms(2) by (auto simp: reported_def)
    then have "accepting_lasso succs (ndfs_trace n)" "hd (ndfs_trace n) = i" "ndfs_verdict n = Error"
      using r by (auto simp: reported_def ndfs_verdict_def verdict_def)
    note l = this
    have "\<exists>x y. goes succs i x \<and> accepting_edge succs x y \<and> goes succs y x" by (rule lasso_cycle [OF l(1,2)])
    then show ?thesis by (subst if_P) (simp_all add: n(1) l(3))
  next
    assume v: "ndfs_verdict n = Valid \<and> n_status n = Searching \<and> c_goal (n_example n) = None \<and>
      (\<forall>x y. goes succs i x \<longrightarrow> accepting_edge succs x y \<longrightarrow> \<not> goes succs y x)"
    then have "\<not> (\<exists>x y. goes succs i x \<and> accepting_edge succs x y \<and> goes succs y x)" by blast
    then show ?thesis using v by (subst if_not_P) (simp_all add: n(1))
  qed
qed

theorem liveness_exact_witness:
  "\<exists>x y. goes to_cycle 0 x \<and> accepting_edge to_cycle x y \<and> goes to_cycle y x"
proof -
  have "\<forall>x y. goes to_cycle 0 x \<longrightarrow> \<not> error_edge to_cycle x y" using no_errors by simp
  note exact = liveness_exact [OF some_finite(1) this]
  have "map_option ndfs_verdict (liveness to_cycle (Some 0)) = Some Error" by code_simp
  then have "(if ?thesis then Error else Valid) = Error" using exact by (simp only: option.inject)
  then show ?thesis by (rule contrapos_pp) simp
qed

section \<open>Errors\<close>

text \<open>
  C3. When finitely many states can be reached, the breadth first search for errors ends, whatever a
  listener behind it does. It says Error exactly when an error edge can be reached, and then the trace
  is a path from the initial state whose last edge is an error; otherwise it says Valid.
\<close>

theorem safety_verdict_exact:
  assumes "finite_from succs i"
  shows "\<exists>f. safety_bfs (passive_listen e st c) n succs (Some i) = Some f \<and>
    (safety_verdict f = Error \<and> (\<exists>x y. goes succs i x \<and> error_edge succs x y) \<and>
       (\<exists>xs. safety_trace f = Some xs \<and> error_path succs i xs) \<or>
     safety_verdict f = Valid \<and> \<not> (\<exists>x y. goes succs i x \<and> error_edge succs x y) \<and> safety_trace f = Some [])"
  by (rule safety_bfs_ok [OF assms])

theorem safety_verdict_exact_witness:
  "map_option safety_verdict (safety_bfs log_listener empty_log late_error (Some 0)) = Some Error \<and>
    Option.bind (safety_bfs log_listener empty_log late_error (Some 0)) safety_trace = Some [0, 2, 1] \<and>
    (\<exists>x y. goes late_error 0 x \<and> error_edge late_error x y)"
proof (intro conjI)
  show v: "map_option safety_verdict (safety_bfs log_listener empty_log late_error (Some 0)) = Some Error"
    by code_simp
  show "Option.bind (safety_bfs log_listener empty_log late_error (Some 0)) safety_trace = Some [0, 2, 1]"
    by code_simp
  show "\<exists>x y. goes late_error 0 x \<and> error_edge late_error x y"
  proof -
    obtain f where "safety_bfs log_listener empty_log late_error (Some 0) = Some f"
      "safety_verdict f = Error \<and> (\<exists>x y. goes late_error 0 x \<and> error_edge late_error x y) \<or> safety_verdict f = Valid"
      using safety_verdict_exact [OF some_finite(2), of _ _ _ empty_log] unfolding log_listener_def by blast
    then show ?thesis using v by (elim disjE conjE) simp_all
  qed
qed

text \<open>
  C20. The depth first search for errors ends as well; but nothing catches the exception that ends it,
  which leaves the worker exactly when an error edge can be reached.
\<close>

theorem safety_dfs_throws:
  assumes "finite_from succs i"
  shows "\<exists>d. safety_dfs (passive_listen e st c) n succs (Some i) = Some d \<and>
    (d_thrown d \<longleftrightarrow> (\<exists>x y. goes succs i x \<and> error_edge succs x y)) \<and>
    (d_thrown d \<longleftrightarrow> s_error (d_listener d) \<noteq> None)"
  by (rule safety_dfs_ok [OF assms])

theorem safety_dfs_throws_witness:
  "map_option d_thrown (safety_dfs log_listener empty_log late_error (Some 0)) = Some True \<and>
    (\<exists>x y. goes late_error 0 x \<and> error_edge late_error x y)"
proof
  show v: "map_option d_thrown (safety_dfs log_listener empty_log late_error (Some 0)) = Some True"
    by code_simp
  show "\<exists>x y. goes late_error 0 x \<and> error_edge late_error x y"
  proof -
    obtain d where "safety_dfs log_listener empty_log late_error (Some 0) = Some d"
      "d_thrown d \<longleftrightarrow> (\<exists>x y. goes late_error 0 x \<and> error_edge late_error x y)"
      using safety_dfs_throws [OF some_finite(2), of _ _ _ empty_log] unfolding log_listener_def by blast
    then show ?thesis using v by simp
  qed
qed

section \<open>The searches and the queue\<close>

text \<open>
  C19. Both searches end on a finite state space, and show a listener every state that can be reached
  once, and every edge between such states once; so they show the same, in different orders.
\<close>

theorem searches_agree:
  assumes "finite_from succs i"
  shows "\<exists>f d. pseudo_bfs log_listener succs (start_builder (Some i)) empty_log = Some f \<and>
    depth_first log_listener succs (start_builder (Some i)) empty_log = Some d \<and> \<not> d_thrown d \<and>
    explored succs i (log_edges (f_listener f)) (log_states (f_listener f)) \<and>
    mset (log_edges (f_listener f)) = mset (log_edges (d_listener d)) \<and>
    mset (log_states (f_listener f)) = mset (log_states (d_listener d))"
proof -
  obtain f where f: "pseudo_bfs log_listener succs (start_builder (Some i)) empty_log = Some f"
    "explored succs i (log_edges (f_listener f)) (log_states (f_listener f))"
    using bfs_explores [OF assms] by blast
  obtain d where d: "depth_first log_listener succs (start_builder (Some i)) empty_log = Some d" "\<not> d_thrown d"
    "explored succs i (log_edges (d_listener d)) (log_states (d_listener d))"
    using dfs_explores [OF assms] by blast
  show ?thesis using f d explored_unique [OF f(2) d(3)] by blast
qed

theorem searches_agree_witness:
  "map_option (\<lambda>f. log_states (f_listener f)) (pseudo_bfs log_listener late_error (start_builder (Some 0)) empty_log) =
      Some [0, 1, 2] \<and>
    map_option (\<lambda>d. log_states (d_listener d)) (depth_first log_listener late_error (start_builder (Some 0)) empty_log) =
      Some [0, 2, 1] \<and>
    (\<exists>f d. pseudo_bfs log_listener late_error (start_builder (Some 0)) empty_log = Some f \<and>
      depth_first log_listener late_error (start_builder (Some 0)) empty_log = Some d \<and>
      mset (log_edges (f_listener f)) = mset (log_edges (d_listener d)))"
proof (intro conjI)
  show "map_option (\<lambda>f. log_states (f_listener f)) (pseudo_bfs log_listener late_error (start_builder (Some 0)) empty_log) =
      Some [0, 1, 2]" by code_simp
  show "map_option (\<lambda>d. log_states (d_listener d)) (depth_first log_listener late_error (start_builder (Some 0)) empty_log) =
      Some [0, 2, 1]" by code_simp
  show "\<exists>f d. pseudo_bfs log_listener late_error (start_builder (Some 0)) empty_log = Some f \<and>
      depth_first log_listener late_error (start_builder (Some 0)) empty_log = Some d \<and>
      mset (log_edges (f_listener f)) = mset (log_edges (d_listener d))"
    using searches_agree [OF some_finite(2)] by blast
qed

text \<open>
  C21. However a worker pushes and takes, it never takes from an empty queue; what it has taken,
  followed by what is in the queue, is what it has pushed, in that order; and chunks stay short.
\<close>

theorem queue_in_order:
  "\<exists>xs q. use_queue us new_queue = Some (xs, q) \<and> xs @ queue_items q = pushed us \<and>
    list_all (\<lambda>c. c \<noteq> [] \<and> length c \<le> 64) (q_chunks q) \<and> length (q_outgoing q) < 64 \<and> q_size q \<le> 64"
proof -
  have new: "queue_ok new_queue" "queue_items new_queue = []" "short_chunks new_queue"
    by (simp_all add: queue_ok_def queue_items_def new_queue_def short_chunks_def)
  obtain xs q where q: "use_queue us new_queue = Some (xs, q)" "queue_ok q" "xs @ queue_items q = pushed us"
    using use_queue_ok [OF new(1), of us] new(2) by auto
  have "short_chunks q" using use_queue_short [OF new(3) q(1)] .
  then show ?thesis using q by (auto simp: queue_ok_def short_chunks_def list_all_iff)
qed



text \<open>When the program does not boot, both searches end at once and say so.\<close>

theorem boot_errors:
  "map_option ndfs_verdict (liveness succs None) = Some BootError \<and>
    map_option safety_verdict (safety_bfs N n succs None) = Some BootError"
proof -
  have "\<not> counter_on (counter_sync new_counter)"
    by (simp add: counter_on_def counter_sync_def new_counter_def)
  then have "safety_bfs N n succs None = Some (bfs_start (safety_listener N) (start_builder None) (safety_start n))"
    unfolding safety_bfs_def pseudo_bfs_def
    by (subst bfs_loop.simps) (simp add: bfs_start_def start_builder_def)
  then show ?thesis
    by (simp add: liveness_def run_ndfs_def start_builder_def start_ndfs_def ndfs_verdict_def verdict_def
        bfs_start_def safety_verdict_def)
qed

end
