(* ===== verification/McChoice.thy ===== *)
theory McChoice
  imports "HOL-Library.Monad_Syntax"
begin

text \<open>
  How a step of the machine is run once for every sequence of its choices (\<^verbatim>\<open>choose\<close> and \<^verbatim>\<open>finished\<close> of
  \<^verbatim>\<open>Context\<close> in \<^verbatim>\<open>src/divine/mc/context.hpp\<close>, the first loop of \<^verbatim>\<open>edges\<close> in \<^verbatim>\<open>builder.hpp\<close>). What a step does
  between its choices is not modelled: a step is a tree that asks for choices and has results at its
  leaves.
\<close>

section \<open>Choices\<close>

text \<open>
  \<^verbatim>\<open>taken\<close> and \<^verbatim>\<open>total\<close> have type \<^verbatim>\<open>int\<close> in the code; where a step has at least one option, \<^verbatim>\<open>taken\<close> stays
  below \<^verbatim>\<open>total\<close> and no addition overflows.
\<close>

record choice =
  ch_taken :: int
  ch_total :: int

definition make_choice :: "int \<Rightarrow> int \<Rightarrow> choice" where
  "make_choice t n = \<lparr>ch_taken = t, ch_total = n\<rparr>"

record chooser =
  x_stack :: "choice list"
  x_lock :: "choice list"
  x_level :: nat

definition new_chooser :: chooser where
  "new_chooser = \<lparr>x_stack = [], x_lock = [], x_level = 0\<rparr>"

definition bump :: "choice \<Rightarrow> choice" where
  "bump c = c\<lparr>ch_taken := ch_taken c + 1\<rparr>"

text \<open>\<open>None\<close>: a failed assertion.\<close>

definition ctx_choose :: "int \<Rightarrow> chooser \<Rightarrow> (int \<times> chooser) option" where
  "ctx_choose count x =
     (case x_lock x of
        rv # lock \<Rightarrow>
          if count = ch_total rv then Some (ch_taken rv, x\<lparr>x_lock := lock, x_stack := x_stack x @ [rv]\<rparr>) else None
      | [] \<Rightarrow>
          if x_level x > length (x_stack x) then None
          else
            let x = x\<lparr>x_level := Suc (x_level x)\<rparr>; i = x_level x - 1
            in if x_level x < length (x_stack x) then Some (ch_taken (x_stack x ! i), x)
               else if x_level x = length (x_stack x)
               then let c = bump (x_stack x ! i)
                    in Some (ch_taken c, x\<lparr>x_stack := list_update (x_stack x) i c\<rparr>)
               else Some (0, x\<lparr>x_stack := x_stack x @ [make_choice 0 count]\<rparr>))"

definition last_option :: "choice \<Rightarrow> bool" where
  "last_option c \<longleftrightarrow> ch_taken c + 1 = ch_total c"

definition resize :: "nat \<Rightarrow> choice list \<Rightarrow> choice list" where
  "resize n cs = take n cs @ replicate (n - length cs) (make_choice 0 (-1))"

fun pop_full :: "choice list \<Rightarrow> choice list" where
  "pop_full [] = []"
| "pop_full (c # cs) = (let cs = pop_full cs in if cs = [] \<and> last_option c then [] else c # cs)"

definition finished :: "chooser \<Rightarrow> bool \<times> chooser" where
  "finished x =
     (let cs = pop_full (resize (x_level x) (x_stack x))
      in (cs = [], x\<lparr>x_stack := cs, x_level := 0\<rparr>))"

section \<open>Steps\<close>

datatype 'r run = Done 'r | Ask int "int \<Rightarrow> 'r run"

primrec play :: "'r run \<Rightarrow> chooser \<Rightarrow> ('r \<times> chooser) option" where
  "play (Done r) x = Some (r, x)"
| "play (Ask n f) x = (case ctx_choose n x of None \<Rightarrow> None | Some (t, x) \<Rightarrow> play (f t) x)"

text \<open>
  The loop over the runs: every result with the choices that led to it. \<open>None\<close> stands both for a failed
  assertion of \<open>choose\<close> and for a loop that makes run after run without end.
\<close>

partial_function (option) all_runs :: "'r run \<Rightarrow> chooser \<Rightarrow> (('r \<times> choice list) list \<times> chooser) option" where
  "all_runs r x =
     do {
       (o', x) \<leftarrow> play r x;
       let lock = take (x_level x) (x_stack x);
       let (stop, x) = finished x;
       if stop then Some ([(o', lock)], x)
       else do {
         (os, x) \<leftarrow> all_runs r x;
         Some ((o', lock) # os, x)
       }
     }"

declare all_runs.simps [code]

section \<open>All sequences of choices\<close>

primrec leaves :: "'r run \<Rightarrow> ('r \<times> choice list) list" where
  "leaves (Done r) = [(r, [])]"
| "leaves (Ask n f) = concat (map (\<lambda>t. map (\<lambda>(r, l). (r, make_choice t n # l)) (leaves (f t))) [0..n - 1])"

text \<open>A step asks for one of at least one option.\<close>

primrec asks_ok :: "'r run \<Rightarrow> bool" where
  "asks_ok (Done r) \<longleftrightarrow> True"
| "asks_ok (Ask n f) \<longleftrightarrow> 0 < n \<and> (\<forall>t \<in> {0..n - 1}. asks_ok (f t))"

abbreviation under :: "choice \<Rightarrow> ('r \<times> choice list) list \<Rightarrow> ('r \<times> choice list) list" where
  "under c \<equiv> map (\<lambda>(r, l). (r, c # l))"

definition later :: "int \<Rightarrow> (int \<Rightarrow> 'r run) \<Rightarrow> int \<Rightarrow> ('r \<times> choice list) list" where
  "later n f t = concat (map (\<lambda>t. under (make_choice t n) (leaves (f t))) [t..n - 1])"

lemma later_simps:
  "t < n \<Longrightarrow> later n f t = under (make_choice t n) (leaves (f t)) @ later n f (t + 1)" "n \<le> t \<Longrightarrow> later n f t = []"
  "leaves (Ask n f) = later n f 0"
  by (simp_all add: later_def upto_rec1)

text \<open>
  The stack between two runs: along it lies the path of the run before, up to the last choice that has
  options left. Of the leaves, those after that path are left.
\<close>

fun stack_ok :: "'r run \<Rightarrow> choice list \<Rightarrow> bool" where
  "stack_ok r [] \<longleftrightarrow> asks_ok r"
| "stack_ok (Done r) (c # cs) \<longleftrightarrow> False"
| "stack_ok (Ask n f) (c # cs) \<longleftrightarrow>
     asks_ok (Ask n f) \<and> ch_total c = n \<and> 0 \<le> ch_taken c \<and> ch_taken c < n \<and>
     (if cs = [] then ch_taken c + 1 < n else stack_ok (f (ch_taken c)) cs)"

fun runs_left :: "'r run \<Rightarrow> choice list \<Rightarrow> ('r \<times> choice list) list" where
  "runs_left r [] = leaves r"
| "runs_left (Done r) (c # cs) = []"
| "runs_left (Ask n f) (c # cs) =
     (if cs = [] then [] else under c (runs_left (f (ch_taken c)) cs)) @ later n f (ch_taken c + 1)"

fun is_leaf :: "'r run \<Rightarrow> 'r \<Rightarrow> choice list \<Rightarrow> bool" where
  "is_leaf (Done r) o' l \<longleftrightarrow> o' = r \<and> l = []"
| "is_leaf (Ask n f) o' [] \<longleftrightarrow> False"
| "is_leaf (Ask n f) o' (c # l) \<longleftrightarrow>
     asks_ok (Ask n f) \<and> ch_total c = n \<and> 0 \<le> ch_taken c \<and> ch_taken c < n \<and> is_leaf (f (ch_taken c)) o' l"

fun runs_after :: "'r run \<Rightarrow> choice list \<Rightarrow> ('r \<times> choice list) list" where
  "runs_after (Ask n f) (c # cs) = under c (runs_after (f (ch_taken c)) cs) @ later n f (ch_taken c + 1)"
| "runs_after r cs = []"

lemma choice_eq: "c = make_choice (ch_taken c) (ch_total c)"
  by (simp add: make_choice_def)

lemma choice_sels [simp]: "ch_taken (make_choice t n) = t" "ch_total (make_choice t n) = n"
  by (simp_all add: make_choice_def)

text \<open>What a run does, from a stack whose first part has been used.\<close>

lemma play_fresh:
  "asks_ok r \<Longrightarrow>
    \<exists>o' l. play r \<lparr>x_stack = q, x_lock = [], x_level = length q\<rparr> =
        Some (o', \<lparr>x_stack = q @ l, x_lock = [], x_level = length (q @ l)\<rparr>) \<and>
      is_leaf r o' l \<and> leaves r = (o', l) # runs_after r l"
proof (induction r arbitrary: q)
  case (Ask n f)
  let ?c = "make_choice 0 n"
  have n: "0 < n" "asks_ok (f 0)" using Ask.prems by auto
  obtain o' l where IH: "play (f 0) \<lparr>x_stack = q @ [?c], x_lock = [], x_level = length (q @ [?c])\<rparr> =
      Some (o', \<lparr>x_stack = (q @ [?c]) @ l, x_lock = [], x_level = length ((q @ [?c]) @ l)\<rparr>)"
    "is_leaf (f 0) o' l" "leaves (f 0) = (o', l) # runs_after (f 0) l"
    using Ask.IH [OF _ n(2), of "q @ [?c]"] by auto
  have "play (Ask n f) \<lparr>x_stack = q, x_lock = [], x_level = length q\<rparr> =
      Some (o', \<lparr>x_stack = q @ ?c # l, x_lock = [], x_level = length (q @ ?c # l)\<rparr>)"
    using IH(1) by (simp add: ctx_choose_def)
  moreover have "is_leaf (Ask n f) o' (?c # l)" using IH(2) Ask.prems n(1) by simp
  moreover have "leaves (Ask n f) = (o', ?c # l) # runs_after (Ask n f) (?c # l)"
    using later_simps(1) [OF n(1), of f] IH(3) by (simp add: later_simps(3) del: leaves.simps)
  ultimately show ?case by blast
qed simp

lemma play_stack:
  "stack_ok r s \<Longrightarrow>
    \<exists>o' l. play r \<lparr>x_stack = q @ s, x_lock = [], x_level = length q\<rparr> =
        Some (o', \<lparr>x_stack = q @ l, x_lock = [], x_level = length (q @ l)\<rparr>) \<and>
      is_leaf r o' l \<and> runs_left r s = (o', l) # runs_after r l"
proof (induction r s arbitrary: q rule: stack_ok.induct)
  case (1 r)
  then show ?case using play_fresh [of r q] by simp
next
  case (3 n f c cs)
  have c: "ch_total c = n" "0 \<le> ch_taken c" "ch_taken c < n" and ok: "asks_ok (Ask n f)" using "3.prems" by simp_all
  show ?case
  proof (cases "cs = []")
    case True
    let ?t = "ch_taken c + 1"
    let ?c = "make_choice ?t n"
    have t: "?t < n" "asks_ok (f ?t)" using "3.prems" True c by auto
    obtain o' l where IH: "play (f ?t) \<lparr>x_stack = q @ [?c], x_lock = [], x_level = length (q @ [?c])\<rparr> =
        Some (o', \<lparr>x_stack = (q @ [?c]) @ l, x_lock = [], x_level = length ((q @ [?c]) @ l)\<rparr>)"
      "is_leaf (f ?t) o' l" "leaves (f ?t) = (o', l) # runs_after (f ?t) l"
      using play_fresh [OF t(2), of "q @ [?c]"] by auto
    have "bump c = ?c" using c(1) by (simp add: make_choice_def bump_def)
    then have "play (Ask n f) \<lparr>x_stack = q @ c # cs, x_lock = [], x_level = length q\<rparr> =
        Some (o', \<lparr>x_stack = q @ ?c # l, x_lock = [], x_level = length (q @ ?c # l)\<rparr>)"
      using IH(1) True by (simp add: ctx_choose_def)
    moreover have "is_leaf (Ask n f) o' (?c # l)" using IH(2) ok t(1) c by simp
    moreover have "runs_left (Ask n f) (c # cs) = (o', ?c # l) # runs_after (Ask n f) (?c # l)"
      using later_simps(1) [OF t(1), of f] IH(3) True by simp
    ultimately show ?thesis by blast
  next
    case False
    then have s: "stack_ok (f (ch_taken c)) cs" using "3.prems" by simp
    obtain o' l where IH: "play (f (ch_taken c)) \<lparr>x_stack = (q @ [c]) @ cs, x_lock = [], x_level = length (q @ [c])\<rparr> =
        Some (o', \<lparr>x_stack = (q @ [c]) @ l, x_lock = [], x_level = length ((q @ [c]) @ l)\<rparr>)"
      "is_leaf (f (ch_taken c)) o' l" "runs_left (f (ch_taken c)) cs = (o', l) # runs_after (f (ch_taken c)) l"
      using "3.IH" [OF False s, of "q @ [c]"] by auto
    have "play (Ask n f) \<lparr>x_stack = q @ c # cs, x_lock = [], x_level = length q\<rparr> =
        Some (o', \<lparr>x_stack = q @ c # l, x_lock = [], x_level = length (q @ c # l)\<rparr>)"
      using IH(1) False by (simp add: ctx_choose_def)
    moreover have "is_leaf (Ask n f) o' (c # l)" using IH(2) ok c by simp
    ultimately show ?thesis using IH(3) False by (intro exI [of _ o'] exI [of _ "c # l"]) simp
  qed
qed simp

text \<open>What \<^verbatim>\<open>finished\<close> leaves of the path of a run.\<close>

lemma leaf_pop:
  "is_leaf r o' l \<Longrightarrow>
    (if pop_full l = [] then runs_after r l = [] else stack_ok r (pop_full l) \<and> runs_left r (pop_full l) = runs_after r l)"
proof (induction r o' l rule: is_leaf.induct)
  case (3 n f o' c l)
  have c: "ch_total c = n" "0 \<le> ch_taken c" "ch_taken c < n" "asks_ok (Ask n f)" "is_leaf (f (ch_taken c)) o' l"
    using "3.prems" by simp_all
  show ?case
  proof (cases "pop_full l = []")
    case True
    have r: "runs_after (f (ch_taken c)) l = []" using "3.IH" [OF c(5)] True by simp
    show ?thesis
    proof (cases "last_option c")
      case True
      then show ?thesis using r c(1) \<open>pop_full l = []\<close> later_simps(2) [of n "ch_taken c + 1" f] by (simp add: last_option_def)
    next
      case False
      then have "ch_taken c + 1 < n" using c(1,3) by (simp add: last_option_def)
      then show ?thesis using r c False True by simp
    qed
  next
    case False
    then show ?thesis using "3.IH" [OF c(5)] c(1-4) by simp
  qed
qed simp_all

lemma all_runs_ok:
  "stack_ok r s \<Longrightarrow> all_runs r \<lparr>x_stack = s, x_lock = [], x_level = 0\<rparr> = Some (runs_left r s, new_chooser)"
proof (induction "length (runs_left r s)" arbitrary: s rule: less_induct)
  case less
  obtain o' l where l: "play r \<lparr>x_stack = s, x_lock = [], x_level = 0\<rparr> =
      Some (o', \<lparr>x_stack = l, x_lock = [], x_level = length l\<rparr>)"
    "is_leaf r o' l" "runs_left r s = (o', l) # runs_after r l"
    using play_stack [OF less.prems, of "[]"] by auto
  have fin: "finished \<lparr>x_stack = l, x_lock = [], x_level = length l\<rparr> =
      (pop_full l = [], \<lparr>x_stack = pop_full l, x_lock = [], x_level = 0\<rparr>)"
    by (simp add: finished_def resize_def Let_def)
  show ?case
  proof (cases "pop_full l = []")
    case True
    then show ?thesis using leaf_pop [OF l(2)] l(1,3) fin
      by (subst all_runs.simps) (simp add: new_chooser_def)
  next
    case False
    then have s: "stack_ok r (pop_full l)" "runs_left r (pop_full l) = runs_after r l" using leaf_pop [OF l(2)] by simp_all
    have "all_runs r \<lparr>x_stack = pop_full l, x_lock = [], x_level = 0\<rparr> = Some (runs_left r (pop_full l), new_chooser)"
      by (rule less.hyps [OF _ s(1)]) (simp add: l(3) s(2))
    then show ?thesis using False l(1,3) fin s(2) by (subst all_runs.simps) simp
  qed
qed

lemma all_runs_leaves: "asks_ok r \<Longrightarrow> all_runs r new_chooser = Some (leaves r, new_chooser)"
  using all_runs_ok [of r "[]"] by (simp add: new_chooser_def)

section \<open>Runs again\<close>

lemma leaf_iff:
  "asks_ok r \<Longrightarrow> (o', l) \<in> set (leaves r) \<longleftrightarrow> is_leaf r o' l"
proof (induction r arbitrary: l)
  case (Ask n f)
  show ?case
  proof (cases l)
    case (Cons c l')
    have "(o', l) \<in> set (leaves (Ask n f)) \<longleftrightarrow>
        (\<exists>t. 0 \<le> t \<and> t < n \<and> (o', l') \<in> set (leaves (f t)) \<and> c = make_choice t n)"
      using Cons by (auto simp: image_iff split_beta) force
    also have "\<dots> \<longleftrightarrow> is_leaf (Ask n f) o' l"
    proof -
      have "c = make_choice t n \<longleftrightarrow> t = ch_taken c \<and> ch_total c = n" for t
        using choice_eq [of c] by auto
      moreover have "(o', l') \<in> set (leaves (f t)) \<longleftrightarrow> is_leaf (f t) o' l'" if "0 \<le> t" "t < n" for t
        using Ask.IH [of "f t"] Ask.prems that by auto
      ultimately show ?thesis using Cons Ask.prems by auto
    qed
    finally show ?thesis .
  qed (auto simp: image_iff)
qed auto

text \<open>A run with its choices locked takes the same path.\<close>

lemma play_locked:
  "is_leaf r o' l \<Longrightarrow> play r \<lparr>x_stack = q, x_lock = l @ k, x_level = i\<rparr> =
    Some (o', \<lparr>x_stack = q @ l, x_lock = k, x_level = i\<rparr>)"
  by (induction r o' l arbitrary: q rule: is_leaf.induct) (simp_all add: ctx_choose_def)

text \<open>No sequence of choices is run twice.\<close>

lemma distinct_parts:
  "distinct ts \<Longrightarrow> (\<And>t. distinct (g t)) \<Longrightarrow> (\<And>t u. t \<noteq> u \<Longrightarrow> set (g t) \<inter> set (g u) = {}) \<Longrightarrow>
    distinct (concat (map g ts))"
proof (induction ts)
  case (Cons t ts)
  have "set (g t) \<inter> set (g u) = {}" if "u \<in> set ts" for u using Cons.prems(1) that by (intro Cons.prems(3)) auto
  then have "set (g t) \<inter> set (concat (map g ts)) = {}" by (simp add: Int_UN_distrib)
  then show ?case using Cons by simp
qed simp

lemma leaves_distinct: "distinct (map snd (leaves r))"
proof (induction r)
  case (Ask n f)
  let ?g = "\<lambda>t. map ((#) (make_choice t n)) (map snd (leaves (f t)))"
  have "map snd (leaves (Ask n f)) = concat (map ?g [0..n - 1])" by (simp add: map_concat comp_def split_def)
  moreover have "distinct (?g t)" for t using Ask.IH [of "f t"] by (simp add: distinct_map inj_on_def)
  moreover have "set (?g t) \<inter> set (?g u) = {}" if "t \<noteq> u" for t u using that by (auto simp: make_choice_def)
  ultimately show ?case using distinct_parts [of "[0..n - 1]" ?g] by simp
qed simp

end
