(* ===== verification/IntervalSet.thy ===== *)
theory IntervalSet
  imports Main
begin

text \<open>
  Sets of intervals (\<^verbatim>\<open>IntervalSet\<close> in \<^verbatim>\<open>src/bricks/brick-data\<close>): a map from the first point of an interval
  to the point behind its last, as the list of its entries in their order. The searches use them for
  the memory that a step reads and writes.
\<close>

section \<open>Operations\<close>

type_synonym 'a iset = "('a \<times> 'a) list"

text \<open>The entries up to \<^verbatim>\<open>upper_bound\<close> and those from there on.\<close>

definition upto_bound :: "'a::linorder \<Rightarrow> 'a iset \<Rightarrow> 'a iset" where
  "upto_bound x m = takeWhile (\<lambda>p. fst p \<le> x) m"

definition from_bound :: "'a::linorder \<Rightarrow> 'a iset \<Rightarrow> 'a iset" where
  "from_bound x m = dropWhile (\<lambda>p. fst p \<le> x) m"

record inserted =
  was_contained :: bool
  had_intersection :: bool

text \<open>The loop of \<^verbatim>\<open>insert\<close>, which absorbs the intervals that follow.\<close>

fun iset_absorb :: "'a::linorder \<Rightarrow> 'a \<times> 'a \<Rightarrow> bool \<Rightarrow> 'a iset \<Rightarrow> ('a \<times> 'a) \<times> bool \<times> 'a iset" where
  "iset_absorb b prev had [] = (prev, had, [])"
| "iset_absorb b prev had (p # rest) =
     (if fst p \<le> b then iset_absorb b (fst prev, snd p) (had \<or> fst p < b) rest
      else (prev, had, p # rest))"

definition iset_insert :: "'a::linorder \<times> 'a \<Rightarrow> 'a iset \<Rightarrow> ('a iset \<times> inserted) option" where
  "iset_insert v m =
     (if \<not> fst v < snd v then None
      else
        let before = upto_bound (fst v) m; behind = from_bound (fst v) m
        in if (before = [] \<or> snd (last before) < fst v) \<and> (behind = [] \<or> snd v < fst (hd behind))
           then Some (before @ v # behind, \<lparr>was_contained = False, had_intersection = False\<rparr>)
           else if before \<noteq> [] \<and> fst (last before) \<le> fst v \<and> snd v \<le> snd (last before)
           then Some (m, \<lparr>was_contained = True, had_intersection = True\<rparr>)
           else
             let (before, prev, had) =
                   (if before \<noteq> [] \<and> fst v \<le> snd (last before)
                    then (butlast before, last before, fst v < snd (last before))
                    else (before, (fst v, snd (hd behind)), False));
                 (prev, had, behind) = iset_absorb (snd v) prev had behind;
                 prev = (if snd prev < snd v then (fst prev, snd v) else prev)
             in Some (before @ prev # behind, \<lparr>was_contained = False, had_intersection = had\<rparr>))"

definition iset_find :: "'a::linorder \<Rightarrow> 'a iset \<Rightarrow> ('a \<times> 'a) option" where
  "iset_find x m =
     (let before = upto_bound x m
      in if before = [] \<or> snd (last before) < x then None else Some (last before))"

definition iset_count :: "'a::linorder \<Rightarrow> 'a iset \<Rightarrow> bool" where
  "iset_count x m \<longleftrightarrow> iset_find x m \<noteq> None"

definition iset_intersect :: "'a::linorder \<times> 'a \<Rightarrow> 'a iset \<Rightarrow> bool option" where
  "iset_intersect v m =
     (if \<not> fst v < snd v then None
      else
        let before = upto_bound (fst v) m; behind = from_bound (fst v) m
        in if behind = [] then Some (m \<noteq> [] \<and> fst v < snd (last before))
           else if before = [] then Some (\<not> snd v \<le> fst (hd behind))
           else Some (fst v < fst (hd behind) \<and> fst (hd behind) < snd v \<or> fst v < snd (last before)))"

section \<open>The points of a set\<close>

definition points :: "'a::linorder iset \<Rightarrow> 'a set" where
  "points m = (\<Union>p \<in> set m. {fst p..<snd p})"

text \<open>\<^verbatim>\<open>_validate\<close>: intervals are not empty, and there is a gap between any two.\<close>

fun iset_ok :: "'a::linorder iset \<Rightarrow> bool" where
  "iset_ok [] \<longleftrightarrow> True"
| "iset_ok [p] \<longleftrightarrow> fst p < snd p"
| "iset_ok (p # q # m) \<longleftrightarrow> fst p < snd p \<and> snd p < fst q \<and> iset_ok (q # m)"

lemma points_simps [simp]:
  "points [] = {}" "points (p # m) = {fst p..<snd p} \<union> points m" "points (m @ n) = points m \<union> points n"
  by (auto simp: points_def)

lemma iset_ok_Cons: "iset_ok (p # m) \<longleftrightarrow> fst p < snd p \<and> iset_ok m \<and> (\<forall>q \<in> set m. snd p < fst q)"
proof (induction m arbitrary: p)
  case (Cons q m)
  have "\<forall>r \<in> set m. snd p < fst r" if "snd p < fst q" "iset_ok (q # m)"
    using Cons.IH [of q] that by (meson less_trans)
  then show ?case by auto
qed simp

lemma iset_ok_append:
  "iset_ok (m @ n) \<longleftrightarrow> iset_ok m \<and> iset_ok n \<and> (\<forall>p \<in> set m. \<forall>q \<in> set n. snd p < fst q)"
  by (induction m) (auto simp: iset_ok_Cons)

lemma iset_ok_less: "iset_ok m \<Longrightarrow> p \<in> set m \<Longrightarrow> fst p < snd p"
  by (induction m) (auto simp: iset_ok_Cons)

lemma bounds_append: "upto_bound x m @ from_bound x m = m"
  by (simp add: upto_bound_def from_bound_def)

lemma upto_bound_le: "p \<in> set (upto_bound x m) \<Longrightarrow> fst p \<le> x"
  by (auto simp: upto_bound_def dest: set_takeWhileD)

lemma from_bound_less:
  assumes "iset_ok m" "p \<in> set (from_bound x m)"
  shows "x < fst p"
proof -
  obtain q n where n: "from_bound x m = q # n" using assms(2) by (cases "from_bound x m") auto
  have q: "x < fst q" using n unfolding from_bound_def by (metis dropWhile_eq_Cons_conv not_le)
  have "iset_ok (q # n)" using assms(1) bounds_append [of x m] n by (metis iset_ok_append)
  then show ?thesis using assms(2) n q by (auto simp: iset_ok_Cons)
qed

lemma iset_split:
  assumes "iset_ok m"
  shows "iset_ok (upto_bound x m)" "iset_ok (from_bound x m)"
    and "p \<in> set (upto_bound x m) \<Longrightarrow> q \<in> set (from_bound x m) \<Longrightarrow> snd p < fst q"
    and "points m = points (upto_bound x m) \<union> points (from_bound x m)"
  using assms bounds_append [of x m] by (metis iset_ok_append points_simps(3))+

lemma last_bound:
  assumes "iset_ok m" "upto_bound x m = before" "before \<noteq> []"
  shows "before = butlast before @ [last before]" "fst (last before) \<le> x" "fst (last before) < snd (last before)"
    and "p \<in> set (butlast before) \<Longrightarrow> snd p < fst (last before)"
proof -
  show b: "before = butlast before @ [last before]" using assms(3) by simp
  show "fst (last before) \<le> x" using upto_bound_le [of "last before" x m] assms(2,3) by simp
  have ok: "iset_ok (butlast before @ [last before])" using iset_split(1) [OF assms(1), of x] assms(2) b by metis
  then show "fst (last before) < snd (last before)" by (simp add: iset_ok_append)
  show "p \<in> set (butlast before) \<Longrightarrow> snd p < fst (last before)" using ok by (simp add: iset_ok_append)
qed

section \<open>Intersection\<close>

lemma in_butlast: "p \<in> set xs \<Longrightarrow> p = last xs \<or> p \<in> set (butlast xs)"
  by (induction xs) auto

lemma first_behind:
  assumes "iset_ok m" "from_bound x m = behind"
  shows "(\<exists>q \<in> set behind. fst q < b) \<longleftrightarrow> behind \<noteq> [] \<and> fst (hd behind) < b"
proof (cases behind)
  case (Cons q n)
  have "iset_ok (q # n)" using iset_split(2) [OF assms(1), of x] assms(2) Cons by simp
  then have "fst q < fst r" if "r \<in> set n" for r using that by (auto simp: iset_ok_Cons dest: less_trans)
  then show ?thesis using Cons by (auto dest: less_trans)
qed simp

lemma in_before:
  assumes m: "iset_ok m" "upto_bound a m = before" and y: "a \<le> y" "y \<in> points before"
  shows "before \<noteq> [] \<and> y < snd (last before)"
proof -
  obtain p where p: "p \<in> set before" "fst p \<le> y" "y < snd p" using y(2) by (auto simp: points_def)
  have ne: "before \<noteq> []" using p(1) by auto
  show ?thesis
  proof (cases "p = last before")
    case False
    then have "p \<in> set (butlast before)" using in_butlast [OF p(1)] by blast
    then have "snd p < fst (last before)" "fst (last before) \<le> a" using last_bound(2,4) [OF m ne] by auto
    then show ?thesis using p(3) y(1) by auto
  qed (use p ne in simp)
qed

lemma meets_iff:
  assumes "iset_ok m" "a < b"
  shows "{a..<b} \<inter> points m \<noteq> {} \<longleftrightarrow>
    upto_bound a m \<noteq> [] \<and> a < snd (last (upto_bound a m)) \<or> from_bound a m \<noteq> [] \<and> fst (hd (from_bound a m)) < b"
    (is "?lhs \<longleftrightarrow> ?rhs")
proof
  assume ?lhs
  then obtain y where y: "a \<le> y" "y < b" "y \<in> points m" by auto
  then consider "y \<in> points (upto_bound a m)" | "y \<in> points (from_bound a m)" using iset_split(4) [OF assms(1), of a] by auto
  then show ?rhs
  proof cases
    case 1
    then show ?thesis using in_before [OF assms(1) refl y(1)] y(1) by auto
  next
    case 2
    then have "\<exists>q \<in> set (from_bound a m). fst q < b" using y(2) by (force simp: points_def)
    then show ?thesis using first_behind [OF assms(1) refl] by blast
  qed
next
  assume ?rhs
  then consider "upto_bound a m \<noteq> []" "a < snd (last (upto_bound a m))"
    | "from_bound a m \<noteq> []" "fst (hd (from_bound a m)) < b" by blast
  then show ?lhs
  proof cases
    case 1
    then have "a \<in> points (upto_bound a m)" using last_bound(2) [OF assms(1) refl 1(1)] by (auto simp: points_def)
    then have "a \<in> {a..<b} \<inter> points m" using iset_split(4) [OF assms(1), of a] assms(2) by auto
    then show ?thesis by blast
  next
    case 2
    let ?q = "hd (from_bound a m)"
    have q: "?q \<in> set (from_bound a m)" "?q \<in> set m" using 2(1) bounds_append [of a m] by (auto, metis Un_iff list.set_sel(1) set_append)
    have "a < fst ?q" "fst ?q < snd ?q" using from_bound_less [OF assms(1) q(1)] iset_ok_less [OF assms(1) q(2)] .
    then have "fst ?q \<in> {a..<b} \<inter> points m" using q(2) 2(2) by (auto simp: points_def)
    then show ?thesis by blast
  qed
qed

lemma iset_intersect_ok:
  assumes "iset_ok m" "a < b"
  shows "iset_intersect (a, b) m = Some ({a..<b} \<inter> points m \<noteq> {})"
proof -
  have "upto_bound a m \<noteq> []" if "from_bound a m = []" "m \<noteq> []" using bounds_append [of a m] that by auto
  moreover have "a < fst (hd (from_bound a m))" if "from_bound a m \<noteq> []"
    using from_bound_less [OF assms(1), of "hd (from_bound a m)" a] that by simp
  moreover have "upto_bound a [] = []" by (simp add: upto_bound_def)
  ultimately show ?thesis
    using assms(2) unfolding iset_intersect_def meets_iff [OF assms] Let_def by (auto simp: not_le)
qed

section \<open>Insertion\<close>

lemma absorb_ok:
  "iset_absorb b prev had rest = (prev', had', rest') \<Longrightarrow> iset_ok rest \<Longrightarrow> \<forall>q \<in> set rest. snd prev < fst q \<Longrightarrow>
    fst prev < snd prev \<Longrightarrow>
    fst prev' = fst prev \<and> fst prev < snd prev' \<and> iset_ok rest' \<and>
    (\<forall>q \<in> set rest'. b < fst q \<and> snd prev' < fst q) \<and>
    {fst prev..<max b (snd prev)} \<union> points rest = {fst prev..<max b (snd prev')} \<union> points rest' \<and>
    (had' \<longleftrightarrow> had \<or> rest \<noteq> [] \<and> fst (hd rest) < b)"
proof (induction b prev had rest rule: iset_absorb.induct)
  case (2 b prev had p rest)
  have p: "fst p < snd p" "iset_ok rest" "\<forall>q \<in> set rest. snd p < fst q" "snd prev < fst p"
    using "2.prems"(2,3) by (auto simp: iset_ok_Cons)
  show ?case
  proof (cases "fst p \<le> b")
    case True
    have a: "fst (fst prev, snd p) < snd (fst prev, snd p)" using p(1,4) "2.prems"(4) by (auto dest: less_trans)
    have IH: "fst prev' = fst prev \<and> fst prev < snd prev' \<and> iset_ok rest' \<and>
      (\<forall>q \<in> set rest'. b < fst q \<and> snd prev' < fst q) \<and>
      {fst prev..<max b (snd p)} \<union> points rest = {fst prev..<max b (snd prev')} \<union> points rest' \<and>
      (had' \<longleftrightarrow> (had \<or> fst p < b) \<or> rest \<noteq> [] \<and> fst (hd rest) < b)"
      using "2.IH" [OF True _ p(2) _ a] "2.prems"(1) True p(3) by simp
    have "{fst prev..<max b (snd prev)} \<union> {fst p..<snd p} = {fst prev..<max b (snd p)}"
      using True p(1,4) "2.prems"(4) by (auto simp: less_max_iff_disj)
    then have "{fst prev..<max b (snd prev)} \<union> points (p # rest) = {fst prev..<max b (snd prev')} \<union> points rest'"
      using IH by auto
    moreover have "fst p < b" if "rest \<noteq> []" "fst (hd rest) < b"
      using that p(1,3) by (auto simp: neq_Nil_conv)
    ultimately show ?thesis using IH by auto
  next
    case False
    then have "prev' = prev" "had' = had" "rest' = p # rest" using "2.prems"(1) by auto
    moreover have "b < snd p" using False p(1) by simp
    ultimately show ?thesis using False "2.prems"(2-4) p by (auto dest: less_trans)
  qed
qed auto

lemma contained_iff:
  assumes m: "iset_ok m" and v: "a < b"
  shows "{a..<b} \<subseteq> points m \<longleftrightarrow> upto_bound a m \<noteq> [] \<and> b \<le> snd (last (upto_bound a m))"
proof -
  let ?B = "upto_bound a m" and ?N = "from_bound a m"
  note B = last_bound [where x = a, OF m refl]
  have split: "points m = points ?B \<union> points ?N" "iset_ok ?B" "iset_ok ?N"
    "\<And>p q. p \<in> set ?B \<Longrightarrow> q \<in> set ?N \<Longrightarrow> snd p < fst q" using iset_split [where x = a, OF m] by blast+
  have N: "a < fst q" if "q \<in> set ?N" for q by (rule from_bound_less [OF m that])
  have a_in: "a \<in> points m \<longleftrightarrow> ?B \<noteq> [] \<and> a < snd (last ?B)"
  proof
    assume "a \<in> points m"
    moreover have "a \<notin> points ?N" using N by (auto simp: points_def not_le)
    ultimately have "a \<in> points ?B" using split(1) by auto
    then show "?B \<noteq> [] \<and> a < snd (last ?B)" using in_before [OF m refl order_refl] by blast
  next
    assume "?B \<noteq> [] \<and> a < snd (last ?B)"
    then have "a \<in> points ?B" using B(2) by (auto simp: points_def)
    then show "a \<in> points m" using split(1) by simp
  qed
  have gap: "snd (last ?B) \<notin> points m" if "?B \<noteq> []"
  proof
    assume "snd (last ?B) \<in> points m"
    then consider "snd (last ?B) \<in> points ?B" | "snd (last ?B) \<in> points ?N" using split(1) by auto
    then show False
    proof cases
      case 1
      have "iset_ok (butlast ?B @ [last ?B])" using split(2) that by simp
      then have "snd p < fst (last ?B)" if "p \<in> set (butlast ?B)" for p using that by (simp add: iset_ok_append)
      then have "snd p \<le> snd (last ?B)" if "p \<in> set ?B" for p
        using that B(3) \<open>?B \<noteq> []\<close> B(1) by (metis Un_iff empty_iff empty_set less_imp_le less_trans order_refl set_ConsD set_append)
      then show ?thesis using 1 by (force simp: points_def)
    next
      case 2
      then show ?thesis using split(4) [of "last ?B"] that by (force simp: points_def)
    qed
  qed
  show ?thesis
  proof
    assume s: "{a..<b} \<subseteq> points m"
    then have "?B \<noteq> [] \<and> a < snd (last ?B)" using a_in v by auto
    then show "?B \<noteq> [] \<and> b \<le> snd (last ?B)" using gap s by (meson atLeastLessThan_iff less_imp_le not_le subsetD)
  next
    assume "?B \<noteq> [] \<and> b \<le> snd (last ?B)"
    note b = this
    then have "{a..<b} \<subseteq> {fst (last ?B)..<snd (last ?B)}" using B(2) by auto
    moreover have "{fst (last ?B)..<snd (last ?B)} \<subseteq> points ?B"
      using UN_upper [of "last ?B" "set ?B" "\<lambda>p. {fst p..<snd p}"] b by (simp add: points_def)
    ultimately show "{a..<b} \<subseteq> points m" using split(1) by (metis le_supI1 subset_trans)
  qed
qed

text \<open>What \<^verbatim>\<open>insert\<close> promises.\<close>

definition insert_spec :: "'a::linorder \<Rightarrow> 'a \<Rightarrow> 'a iset \<Rightarrow> 'a iset \<Rightarrow> inserted \<Rightarrow> bool" where
  "insert_spec a b m m' i \<longleftrightarrow>
     iset_ok m' \<and> points m' = points m \<union> {a..<b} \<and>
     (had_intersection i \<longleftrightarrow> {a..<b} \<inter> points m \<noteq> {}) \<and> (was_contained i \<longleftrightarrow> {a..<b} \<subseteq> points m)"

lemma insert_fresh:
  assumes m: "iset_ok m" and v: "a < b" and fresh: "upto_bound a m = [] \<or> snd (last (upto_bound a m)) < a"
      "from_bound a m = [] \<or> b < fst (hd (from_bound a m))"
  shows "\<exists>m' i. iset_insert (a, b) m = Some (m', i) \<and> insert_spec a b m m' i"
proof -
  let ?B = "upto_bound a m" and ?N = "from_bound a m"
  note B = last_bound [where x = a, OF m refl]
  have split: "points m = points ?B \<union> points ?N" "iset_ok ?B" "iset_ok ?N"
    "\<And>p q. p \<in> set ?B \<Longrightarrow> q \<in> set ?N \<Longrightarrow> snd p < fst q" using iset_split [where x = a, OF m] by blast+
  have i: "iset_insert (a, b) m = Some (?B @ (a, b) # ?N, \<lparr>was_contained = False, had_intersection = False\<rparr>)"
    using fresh v by (simp add: iset_insert_def Let_def)
  have "snd p < a" if "p \<in> set ?B" for p
    using that fresh(1) B(1,3,4) by (metis Un_iff empty_iff empty_set less_trans set_ConsD set_append)
  moreover have "b < fst q" if "q \<in> set ?N" for q
    using fresh(2) first_behind [OF m refl, of a "fst q"] that split(3)
    by (cases ?N) (auto simp: iset_ok_Cons dest: less_trans)
  ultimately have "iset_ok (?B @ (a, b) # ?N)" using split v by (auto simp: iset_ok_append iset_ok_Cons)
  moreover have "points (?B @ (a, b) # ?N) = points m \<union> {a..<b}" using split(1) by auto
  moreover have "\<not> {a..<b} \<inter> points m \<noteq> {}" unfolding meets_iff [OF m v] using fresh by auto
  moreover have "\<not> {a..<b} \<subseteq> points m" unfolding contained_iff [OF m v] using fresh(1) v by auto
  ultimately show ?thesis using i by (simp add: insert_spec_def)
qed

lemma insert_extend:
  assumes m: "iset_ok m" and v: "a < b" and extend: "upto_bound a m \<noteq> []" "a \<le> snd (last (upto_bound a m))" "snd (last (upto_bound a m)) < b"
  shows "\<exists>m' i. iset_insert (a, b) m = Some (m', i) \<and> insert_spec a b m m' i"
proof -
  let ?B = "upto_bound a m" and ?N = "from_bound a m"
  note B = last_bound [where x = a, OF m refl]
  have split: "points m = points ?B \<union> points ?N" "iset_ok ?B" "iset_ok ?N"
    "\<And>p q. p \<in> set ?B \<Longrightarrow> q \<in> set ?N \<Longrightarrow> snd p < fst q" using iset_split [where x = a, OF m] by blast+
  obtain prev had rest where r: "iset_absorb b (last ?B) (a < snd (last ?B)) ?N = (prev, had, rest)"
    using prod_cases3 by blast
  have A: "fst prev = fst (last ?B) \<and> fst (last ?B) < snd prev \<and> iset_ok rest \<and>
    (\<forall>q \<in> set rest. b < fst q \<and> snd prev < fst q) \<and>
    {fst (last ?B)..<max b (snd (last ?B))} \<union> points ?N = {fst (last ?B)..<max b (snd prev)} \<union> points rest \<and>
    (had \<longleftrightarrow> a < snd (last ?B) \<or> ?N \<noteq> [] \<and> fst (hd ?N) < b)"
    by (rule absorb_ok [OF r split(3)]) (use split(4) extend(1) B(3) in auto)
  let ?p = "(fst (last ?B), max b (snd prev))"
  have i: "iset_insert (a, b) m = Some (butlast ?B @ ?p # rest, \<lparr>was_contained = False, had_intersection = had\<rparr>)"
  proof -
    have "\<not> snd (last ?B) < a" "\<not> b \<le> snd (last ?B)" using extend by auto
    then have "iset_insert (a, b) m = Some (butlast ?B @ (if snd prev < b then (fst prev, b) else prev) # rest,
        \<lparr>was_contained = False, had_intersection = had\<rparr>)"
      using extend(1,2) v r by (simp add: iset_insert_def Let_def)
    then show ?thesis using conjunct1 [OF A] by (auto simp: prod_eq_iff max_def)
  qed
  have "iset_ok (butlast ?B)" using split(2) extend(1) B(1) by (metis iset_ok_append)
  moreover have "fst (last ?B) < max b (snd prev)" "\<forall>q \<in> set rest. max b (snd prev) < fst q" using A by (simp_all add: less_max_iff_disj)
  moreover have "snd p < fst (last ?B) \<and> snd p < fst q" if "p \<in> set (butlast ?B)" "q \<in> set rest" for p q
    using B(4) [OF extend(1) that(1)] A that(2) by (meson less_trans)
  moreover have "snd p < fst (last ?B)" if "p \<in> set (butlast ?B)" for p using B(4) [OF extend(1) that] .
  ultimately have "iset_ok (butlast ?B @ ?p # rest)" using A by (auto simp: iset_ok_append iset_ok_Cons)
  moreover have "points (butlast ?B @ ?p # rest) = points m \<union> {a..<b}"
  proof -
    have "points ?B = points (butlast ?B) \<union> {fst (last ?B)..<snd (last ?B)}"
      using B(1) [OF extend(1)] by (metis points_simps sup_bot.right_neutral)
    moreover have "{fst (last ?B)..<snd (last ?B)} \<union> {a..<b} = {fst (last ?B)..<max b (snd (last ?B))}"
      using extend B(2) by (auto simp: less_max_iff_disj)
    ultimately show ?thesis using A split(1) by auto
  qed
  moreover have "\<not> {a..<b} \<subseteq> points m" unfolding contained_iff [OF m v] using extend(3) by (simp add: not_le)
  moreover have "had \<longleftrightarrow> {a..<b} \<inter> points m \<noteq> {}" unfolding meets_iff [OF m v] using A extend(1) by simp
  ultimately show ?thesis using i by (simp add: insert_spec_def)
qed

lemma insert_front:
  assumes m: "iset_ok m" and v: "a < b" and front: "upto_bound a m = [] \<or> snd (last (upto_bound a m)) < a"
      "from_bound a m \<noteq> []" "fst (hd (from_bound a m)) \<le> b"
  shows "\<exists>m' i. iset_insert (a, b) m = Some (m', i) \<and> insert_spec a b m m' i"
proof -
  let ?B = "upto_bound a m" and ?N = "from_bound a m"
  note B = last_bound [where x = a, OF m refl]
  have split: "points m = points ?B \<union> points ?N" "iset_ok ?B" "iset_ok ?N"
    "\<And>p q. p \<in> set ?B \<Longrightarrow> q \<in> set ?N \<Longrightarrow> snd p < fst q" using iset_split [where x = a, OF m] by blast+
  have N: "a < fst q" if "q \<in> set ?N" for q by (rule from_bound_less [OF m that])
  obtain n ns where n: "?N = n # ns" using front(2) by (cases ?N) auto
  have ns: "iset_ok ns" "\<forall>q \<in> set ns. snd n < fst q" "fst n < snd n" "a < fst n" "fst n \<le> b"
    using split(3) n N front(3) by (auto simp: iset_ok_Cons)
  obtain prev had rest where r: "iset_absorb b (a, snd n) (fst n < b) ns = (prev, had, rest)"
    using prod_cases3 by blast
  have A: "fst prev = fst (a, snd n) \<and> fst (a, snd n) < snd prev \<and> iset_ok rest \<and>
    (\<forall>q \<in> set rest. b < fst q \<and> snd prev < fst q) \<and>
    {fst (a, snd n)..<max b (snd (a, snd n))} \<union> points ns = {fst (a, snd n)..<max b (snd prev)} \<union> points rest \<and>
    (had \<longleftrightarrow> fst n < b \<or> ns \<noteq> [] \<and> fst (hd ns) < b)"
    by (rule absorb_ok [OF r ns(1)]) (use ns in auto)
  let ?p = "(a, max b (snd prev))"
  have out: "\<not> (?B \<noteq> [] \<and> a \<le> snd (last ?B))" "\<not> (?B \<noteq> [] \<and> b \<le> snd (last ?B))" using front(1) v by auto
  have i: "iset_insert (a, b) m = Some (?B @ ?p # rest, \<lparr>was_contained = False, had_intersection = had\<rparr>)"
  proof -
    have "\<not> b < fst n" using ns(5) by simp
    then have "iset_insert (a, b) m = Some (?B @ (if snd prev < b then (fst prev, b) else prev) # rest,
        \<lparr>was_contained = False, had_intersection = had\<rparr>)"
      using out front(1) v r n by (auto simp: iset_insert_def Let_def)
    then show ?thesis using conjunct1 [OF A] by (auto simp: prod_eq_iff max_def)
  qed
  have low: "snd p < a" if "p \<in> set ?B" for p
    using that front(1) B(1,3,4) by (metis Un_iff empty_iff empty_set less_trans set_ConsD set_append)
  moreover have "\<forall>q \<in> set rest. a < fst q" using A v by (auto dest: less_trans)
  ultimately have "snd p < fst q" if "p \<in> set ?B" "q \<in> set rest" for p q using that by (meson less_trans)
  note far = this
  have "iset_ok (?p # rest)" using A v unfolding iset_ok_Cons by (simp add: less_max_iff_disj)
  then have "iset_ok (?B @ ?p # rest)" unfolding iset_ok_append using split(2) low far by auto
  moreover have "points (?B @ ?p # rest) = points m \<union> {a..<b}"
  proof -
    have "{fst n..<snd n} \<union> {a..<b} = {a..<max b (snd n)}" using ns(3-5) by (auto simp: less_max_iff_disj)
    then show ?thesis using A split(1) n by auto
  qed
  moreover have "\<not> {a..<b} \<subseteq> points m" unfolding contained_iff [OF m v] using out(2) by simp
  moreover have "had \<longleftrightarrow> {a..<b} \<inter> points m \<noteq> {}"
  proof -
    have "fst n < fst q" if "q \<in> set ns" for q using ns(2,3) that by (auto dest: less_trans)
    then have "fst n < b" if "ns \<noteq> []" "fst (hd ns) < b" using that by (metis less_trans list.set_sel(1))
    then have "had \<longleftrightarrow> fst n < b" using A by blast
    moreover have "\<not> (?B \<noteq> [] \<and> a < snd (last ?B))" using front(1) by auto
    ultimately show ?thesis unfolding meets_iff [OF m v] using n by auto
  qed
  ultimately show ?thesis using i by (simp add: insert_spec_def)
qed

lemma insert_inside:
  assumes m: "iset_ok m" and v: "a < b" and inside: "upto_bound a m \<noteq> []" "b \<le> snd (last (upto_bound a m))"
  shows "\<exists>m' i. iset_insert (a, b) m = Some (m', i) \<and> insert_spec a b m m' i"
proof -
  let ?B = "upto_bound a m" and ?N = "from_bound a m"
  note B = last_bound [where x = a, OF m refl]
  have split: "points m = points ?B \<union> points ?N" "iset_ok ?B" "iset_ok ?N"
    "\<And>p q. p \<in> set ?B \<Longrightarrow> q \<in> set ?N \<Longrightarrow> snd p < fst q" using iset_split [where x = a, OF m] by blast+
  have "iset_insert (a, b) m = Some (m, \<lparr>was_contained = True, had_intersection = True\<rparr>)"
    using inside v B(2) by (auto simp: iset_insert_def Let_def)
  moreover have "{a..<b} \<inter> points m \<noteq> {}" unfolding meets_iff [OF m v] using inside v by auto
  moreover have "{a..<b} \<subseteq> points m" unfolding contained_iff [OF m v] using inside by simp
  ultimately show ?thesis using m by (simp add: insert_spec_def Un_absorb2)
qed

lemma iset_insert_ok:
  assumes "iset_ok m" "a < b"
  shows "\<exists>m' i. iset_insert (a, b) m = Some (m', i) \<and> insert_spec a b m m' i"
proof -
  let ?B = "upto_bound a m" and ?N = "from_bound a m"
  consider (fresh) "?B = [] \<or> snd (last ?B) < a" "?N = [] \<or> b < fst (hd ?N)"
    | (inside) "?B \<noteq> []" "b \<le> snd (last ?B)"
    | (extend) "?B \<noteq> []" "a \<le> snd (last ?B)" "snd (last ?B) < b"
    | (front) "?B = [] \<or> snd (last ?B) < a" "?N \<noteq> []" "fst (hd ?N) \<le> b"
    using assms(2) by (meson not_le)
  then show ?thesis
  proof cases
    case fresh
    then show ?thesis by (rule insert_fresh [OF assms])
  next
    case inside
    then show ?thesis by (rule insert_inside [OF assms])
  next
    case extend
    then show ?thesis by (rule insert_extend [OF assms])
  next
    case front
    then show ?thesis by (rule insert_front [OF assms])
  qed
qed

text \<open>Where intervals end: \<^verbatim>\<open>find\<close> takes the point behind an interval for one of its points.\<close>

lemma iset_find_ok:
  assumes "iset_ok m"
  shows "iset_count x m \<longleftrightarrow> x \<in> points m \<or> (\<exists>p \<in> set m. snd p = x)"
proof -
  let ?B = "upto_bound x m" and ?N = "from_bound x m"
  have find: "iset_count x m \<longleftrightarrow> ?B \<noteq> [] \<and> x \<le> snd (last ?B)"
    by (auto simp: iset_count_def iset_find_def Let_def not_less)
  have closed: "iset_count x m \<longleftrightarrow> (\<exists>p \<in> set m. fst p \<le> x \<and> x \<le> snd p)"
  proof
    assume "iset_count x m"
    then have b: "?B \<noteq> []" "x \<le> snd (last ?B)" using find by simp_all
    then have "last ?B \<in> set m" using bounds_append [of x m] by (metis Un_iff last_in_set set_append)
    then show "\<exists>p \<in> set m. fst p \<le> x \<and> x \<le> snd p" using b(2) last_bound(2) [OF assms refl b(1)] by blast
  next
    assume "\<exists>p \<in> set m. fst p \<le> x \<and> x \<le> snd p"
    then obtain p where p: "p \<in> set m" "fst p \<le> x" "x \<le> snd p" by blast
    have "p \<in> set ?B" using p(1,2) bounds_append [of x m] from_bound_less [OF assms, of p x] by (metis Un_iff not_le set_append)
    then have ne: "?B \<noteq> []" by auto
    show "iset_count x m"
    proof (cases "p = last ?B")
      case False
      then have "p \<in> set (butlast ?B)" using in_butlast [OF \<open>p \<in> set ?B\<close>] by blast
      then show ?thesis using last_bound(2,4) [OF assms refl ne] p(3) by (meson leD le_less_trans)
    qed (use find ne p(3) in simp)
  qed
  show ?thesis unfolding closed using iset_ok_less [OF assms] by (force simp: points_def le_less)
qed

end
