(* ===== verification/McEdges.thy ===== *)
theory McEdges
  imports McGraph McChoice IntervalSet "HOL-Library.AList"
begin

text \<open>
  The successors of a state (\<^verbatim>\<open>edges\<close> in \<^verbatim>\<open>src/divine/mc/builder.hpp\<close>): the step of the machine is run for
  every sequence of choices, and what each task reads and writes on the way is kept
  (\<^verbatim>\<open>src/divine/mc/context.hpp\<close>). A run whose task touches memory that another task touches as well is
  made again, with interrupts where it does so. The machine is an argument.
\<close>

section \<open>Runs\<close>

text \<open>
  What a run ends with: the snapshot and the label, whether it is feasible, the task it was (\<open>None\<close> is
  the null pointer), and the memory it read and wrote while that is tracked.
\<close>

record ('st, 't, 'a) outcome =
  o_snap :: 'st
  o_label :: label
  o_feasible :: bool
  o_task :: "'t option"
  o_loads :: "'a iset"
  o_stores :: "'a iset"

text \<open>The step from a state, given the reads and the writes that are to be interrupted.\<close>

type_synonym ('st, 't, 'a) machine = "'st \<Rightarrow> 'a iset \<Rightarrow> 'a iset \<Rightarrow> ('st, 't, 'a) outcome run"

type_synonym ('t, 'a) critical = "('t \<times> 'a iset \<times> 'a iset) list"

fun insert_all :: "'a::linorder iset \<Rightarrow> 'a iset \<Rightarrow> 'a iset option" where
  "insert_all [] m = Some m"
| "insert_all (v # vs) m = (case iset_insert v m of None \<Rightarrow> None | Some (m, i) \<Rightarrow> insert_all vs m)"

text \<open>\<^verbatim>\<open>swap_critical\<close> at the start and at the end of a run: its accesses join those of its task.\<close>

definition track :: "('st, 't, 'a::linorder) outcome \<Rightarrow> ('t, 'a) critical \<Rightarrow> ('t, 'a) critical option" where
  "track o' crit =
     (case o_task o' of
        None \<Rightarrow> Some crit
      | Some t \<Rightarrow>
          do {
            let (loads, stores) = (case map_of crit t of None \<Rightarrow> ([], []) | Some c \<Rightarrow> c);
            loads \<leftarrow> insert_all (o_loads o') loads;
            stores \<leftarrow> insert_all (o_stores o') stores;
            Some (AList.update t (loads, stores) crit)
          })"

fun track_all :: "('st, 't, 'a::linorder) outcome list \<Rightarrow> ('t, 'a) critical \<Rightarrow> ('t, 'a) critical option" where
  "track_all [] crit = Some crit"
| "track_all (o' # os) crit = (case track o' crit of None \<Rightarrow> None | Some crit \<Rightarrow> track_all os crit)"

section \<open>Conflicts\<close>

text \<open>The intervals of another task that meet ours.\<close>

fun add_meeting :: "'a::linorder iset \<Rightarrow> 'a iset \<Rightarrow> 'a iset \<Rightarrow> 'a iset option" where
  "add_meeting us [] m = Some m"
| "add_meeting us (v # vs) m =
     (case iset_intersect v us of
        None \<Rightarrow> None
      | Some b \<Rightarrow>
          (case (if b then map_option fst (iset_insert v m) else Some m) of
             None \<Rightarrow> None
           | Some m \<Rightarrow> add_meeting us vs m))"

text \<open>
  The table is \<open>all\<close>; for a task that is not in it, the loop over the table would change the table, and
  the behaviour is undefined.
\<close>

fun conflicts ::
    "'t option \<Rightarrow> ('t, 'a::linorder) critical \<Rightarrow> ('t, 'a) critical \<Rightarrow> 'a iset \<times> 'a iset \<Rightarrow> ('a iset \<times> 'a iset) option" where
  "conflicts t all [] ls = Some ls"
| "conflicts t all ((u, loads, stores) # cs) (l, s) =
     (if t = Some u then conflicts t all cs (l, s)
      else (case Option.bind t (map_of all) of
              None \<Rightarrow> None
            | Some (our_loads, our_stores) \<Rightarrow>
                do {
                  s \<leftarrow> add_meeting our_stores loads s;
                  l \<leftarrow> add_meeting our_loads stores l;
                  s \<leftarrow> add_meeting our_stores stores s;
                  conflicts t all cs (l, s)
                }))"

section \<open>Successors\<close>

definition edge_of :: "('st, 't, 'a) outcome \<Rightarrow> ('st \<times> label) list" where
  "edge_of o' = (if o_feasible o' then [(o_snap o', o_label o')] else [])"

definition check ::
    "('st, 't, 'a::linorder) machine \<Rightarrow> 'st \<Rightarrow> ('t, 'a) critical \<Rightarrow> ('st, 't, 'a) outcome \<times> choice list \<Rightarrow>
      ('st \<times> label) list option" where
  "check M from crit c =
     do {
       let (o', lock) = c;
       (l, s) \<leftarrow> conflicts (o_task o') crit crit ([], []);
       if s = [] \<and> l = [] then Some (edge_of o')
       else do {
         (o2, x) \<leftarrow> play (M from l s) (new_chooser\<lparr>x_lock := lock\<rparr>);
         if o_task o2 \<noteq> o_task o' then None
         else if o_feasible o2 \<and> take (length (x_stack x)) lock \<noteq> x_stack x then None
         else Some (edge_of o2)
       }
     }"

fun check_all ::
    "('st, 't, 'a::linorder) machine \<Rightarrow> 'st \<Rightarrow> ('t, 'a) critical \<Rightarrow> (('st, 't, 'a) outcome \<times> choice list) list \<Rightarrow>
      ('st \<times> label) list option" where
  "check_all M from crit [] = Some []"
| "check_all M from crit (c # cs) =
     do { es \<leftarrow> check M from crit c; fs \<leftarrow> check_all M from crit cs; Some (es @ fs) }"

definition edges :: "('st, 't, 'a::linorder) machine \<Rightarrow> 'st \<Rightarrow> ('st \<times> label) list option" where
  "edges M from =
     do {
       (rs, x) \<leftarrow> all_runs (M from [] []) new_chooser;
       crit \<leftarrow> track_all (map fst rs) [];
       check_all M from crit rs
     }"

section \<open>What is tracked\<close>

definition accesses_ok :: "('st, 't, 'a::linorder) outcome \<Rightarrow> bool" where
  "accesses_ok o' \<longleftrightarrow> (\<forall>v \<in> set (o_loads o' @ o_stores o'). fst v < snd v)"

definition loads_by :: "('st, 't, 'a::linorder) outcome set \<Rightarrow> 't \<Rightarrow> 'a set" where
  "loads_by R t = (\<Union>r \<in> {r \<in> R. o_task r = Some t}. points (o_loads r))"

definition stores_by :: "('st, 't, 'a::linorder) outcome set \<Rightarrow> 't \<Rightarrow> 'a set" where
  "stores_by R t = (\<Union>r \<in> {r \<in> R. o_task r = Some t}. points (o_stores r))"

lemma insert_all_ok:
  "iset_ok m \<Longrightarrow> (\<And>v. v \<in> set vs \<Longrightarrow> fst v < snd v) \<Longrightarrow>
    \<exists>m'. insert_all vs m = Some m' \<and> iset_ok m' \<and> points m' = points m \<union> points vs"
proof (induction vs arbitrary: m)
  case (Cons v vs)
  obtain m' i where m': "iset_insert v m = Some (m', i)" "iset_ok m'" "points m' = points m \<union> {fst v..<snd v}"
    using iset_insert_ok [OF Cons.prems(1), of "fst v" "snd v"] Cons.prems(2) [of v] by (auto simp: insert_spec_def)
  then show ?case using Cons.IH [OF m'(2)] Cons.prems(2) by auto
qed simp

definition tracked :: "('st, 't, 'a::linorder) outcome set \<Rightarrow> ('t, 'a) critical \<Rightarrow> bool" where
  "tracked R crit \<longleftrightarrow>
     distinct (map fst crit) \<and> fst ` set crit = {t. \<exists>r \<in> R. o_task r = Some t} \<and>
     (\<forall>(t, l, s) \<in> set crit. iset_ok l \<and> iset_ok s \<and> points l = loads_by R t \<and> points s = stores_by R t)"

lemma tracked_empty: "tracked {} []"
  by (simp add: tracked_def)

lemma track_ok:
  assumes "tracked R crit" "accesses_ok r"
  shows "\<exists>crit'. track r crit = Some crit' \<and> tracked (insert r R) crit'"
proof (cases "o_task r")
  case None
  then have "loads_by (insert r R) = loads_by R" "stores_by (insert r R) = stores_by R"
    by (auto simp: loads_by_def stores_by_def fun_eq_iff)
  then show ?thesis using assms(1) None by (auto simp: track_def tracked_def)
next
  case (Some t)
  have by_t: "loads_by (insert r R) t = loads_by R t \<union> points (o_loads r)"
    "stores_by (insert r R) t = stores_by R t \<union> points (o_stores r)"
    using Some by (auto simp: loads_by_def stores_by_def)
  have by_u: "loads_by (insert r R) u = loads_by R u" "stores_by (insert r R) u = stores_by R u" if "u \<noteq> t" for u
    using that Some by (auto simp: loads_by_def stores_by_def)
  obtain l s where ls: "(case map_of crit t of None \<Rightarrow> ([], []) | Some c \<Rightarrow> c) = (l, s)" by fastforce
  have old: "iset_ok l \<and> iset_ok s \<and> points l = loads_by R t \<and> points s = stores_by R t"
  proof (cases "map_of crit t")
    case None
    then have "t \<notin> fst ` set crit" by (simp add: map_of_eq_None_iff)
    then have "loads_by R t = {}" "stores_by R t = {}" using assms(1) by (auto simp: tracked_def loads_by_def stores_by_def)
    then show ?thesis using ls None by simp
  next
    case (Some c)
    then show ?thesis using ls assms(1) map_of_SomeD [OF Some] by (auto simp: tracked_def)
  qed
  obtain l' where l': "insert_all (o_loads r) l = Some l'" "iset_ok l'" "points l' = points l \<union> points (o_loads r)"
    using insert_all_ok [of l "o_loads r"] old assms(2) by (auto simp: accesses_ok_def)
  obtain s' where s': "insert_all (o_stores r) s = Some s'" "iset_ok s'" "points s' = points s \<union> points (o_stores r)"
    using insert_all_ok [of s "o_stores r"] old assms(2) by (auto simp: accesses_ok_def)
  have track: "track r crit = Some (AList.update t (l', s') crit)" using Some ls l'(1) s'(1) by (simp add: track_def)
  have keys: "distinct (map fst (AList.update t (l', s') crit))" using assms(1) by (simp add: tracked_def distinct_update)
  have dom: "fst ` set (AList.update t (l', s') crit) = insert t (fst ` set crit)" by (simp add: dom_update)
  have "iset_ok m \<and> iset_ok n \<and> points m = loads_by (insert r R) u \<and> points n = stores_by (insert r R) u"
    if "(u, m, n) \<in> set (AList.update t (l', s') crit)" for u m n
  proof -
    have look: "map_of (AList.update t (l', s') crit) u = Some (m, n)" by (rule map_of_is_SomeI [OF keys that])
    show ?thesis
    proof (cases "u = t")
      case True
      then show ?thesis using look l' s' old by_t by (simp add: update_conv')
    next
      case False
      then have "(u, m, n) \<in> set crit" using look by (simp add: update_conv' map_of_SomeD)
      then show ?thesis using assms(1) by_u [OF False] by (auto simp: tracked_def)
    qed
  qed
  then have "tracked (insert r R) (AList.update t (l', s') crit)"
    using keys dom assms(1) Some unfolding tracked_def by auto
  then show ?thesis using track by blast
qed

lemma track_all_ok:
  "tracked R crit \<Longrightarrow> (\<And>r. r \<in> set rs \<Longrightarrow> accesses_ok r) \<Longrightarrow>
    \<exists>crit'. track_all rs crit = Some crit' \<and> tracked (R \<union> set rs) crit'"
proof (induction rs arbitrary: R crit)
  case (Cons r rs)
  obtain crit' where c: "track r crit = Some crit'" "tracked (insert r R) crit'" using track_ok [OF Cons.prems(1)] Cons.prems(2) by auto
  then show ?case using Cons.IH [OF c(2)] Cons.prems(2) by auto
qed simp

section \<open>Which runs conflict\<close>

lemma no_points: "iset_ok m \<Longrightarrow> points m = {} \<longleftrightarrow> m = []"
  by (cases m) (auto simp: iset_ok_Cons)

definition meeting :: "'a::linorder set \<Rightarrow> 'a iset \<Rightarrow> 'a set" where
  "meeting us vs = points [v \<leftarrow> vs. {fst v..<snd v} \<inter> us \<noteq> {}]"

lemma meeting_bounds: "points vs \<inter> us \<subseteq> meeting us vs" "meeting us vs \<subseteq> points vs"
  by (auto simp: meeting_def points_def)

lemma meeting_empty:
  assumes "iset_ok vs"
  shows "meeting us vs = {} \<longleftrightarrow> points vs \<inter> us = {}"
proof
  assume "points vs \<inter> us = {}"
  then have "[v \<leftarrow> vs. {fst v..<snd v} \<inter> us \<noteq> {}] = []" by (auto simp: filter_empty_conv points_def)
  then show "meeting us vs = {}" by (simp add: meeting_def)
qed (use meeting_bounds(1) in blast)

lemma add_meeting_ok:
  "iset_ok m \<Longrightarrow> iset_ok us \<Longrightarrow> (\<And>v. v \<in> set vs \<Longrightarrow> fst v < snd v) \<Longrightarrow>
    \<exists>m'. add_meeting us vs m = Some m' \<and> iset_ok m' \<and> points m' = points m \<union> meeting (points us) vs"
proof (induction vs arbitrary: m)
  case (Cons v vs)
  have v: "iset_intersect v us = Some ({fst v..<snd v} \<inter> points us \<noteq> {})"
    using iset_intersect_ok [OF Cons.prems(2), of "fst v" "snd v"] Cons.prems(3) by simp
  show ?case
  proof (cases "{fst v..<snd v} \<inter> points us = {}")
    case True
    then show ?thesis using Cons.IH [OF Cons.prems(1,2)] Cons.prems(3) v by (simp add: meeting_def)
  next
    case False
    obtain m' i where m': "iset_insert v m = Some (m', i)" "iset_ok m'" "points m' = points m \<union> {fst v..<snd v}"
      using iset_insert_ok [OF Cons.prems(1), of "fst v" "snd v"] Cons.prems(3) [of v] by (auto simp: insert_spec_def)
    then show ?thesis using Cons.IH [OF m'(2) Cons.prems(2)] Cons.prems(3) v False by (auto simp: meeting_def)
  qed
qed (simp add: meeting_def)

text \<open>What the other tasks of the table add, for a task that reads \<open>ours\<close> and writes \<open>ourw\<close>.\<close>

definition read_conflicts :: "'t \<Rightarrow> 'a::linorder set \<Rightarrow> ('t, 'a) critical \<Rightarrow> 'a set" where
  "read_conflicts t ours cs = (\<Union>(u, l, s) \<in> {c \<in> set cs. fst c \<noteq> t}. meeting ours s)"

definition write_conflicts :: "'t \<Rightarrow> 'a::linorder set \<Rightarrow> ('t, 'a) critical \<Rightarrow> 'a set" where
  "write_conflicts t ourw cs = (\<Union>(u, l, s) \<in> {c \<in> set cs. fst c \<noteq> t}. meeting ourw l \<union> meeting ourw s)"

lemma conflicts_ok:
  assumes t: "map_of all t = Some (ul, us)" "iset_ok ul" "iset_ok us"
  shows "(\<And>u m n. (u, m, n) \<in> set cs \<Longrightarrow> iset_ok m \<and> iset_ok n) \<Longrightarrow> iset_ok l \<Longrightarrow> iset_ok s \<Longrightarrow>
    \<exists>l' s'. conflicts (Some t) all cs (l, s) = Some (l', s') \<and> iset_ok l' \<and> iset_ok s' \<and>
      points l' = points l \<union> read_conflicts t (points ul) cs \<and>
      points s' = points s \<union> write_conflicts t (points us) cs"
proof (induction cs arbitrary: l s)
  case (Cons c cs)
  obtain u m n where c: "c = (u, m, n)" by (cases c) auto
  have mn: "iset_ok m" "iset_ok n" using Cons.prems(1) [of u m n] c by simp_all
  have rest: "\<And>u m n. (u, m, n) \<in> set cs \<Longrightarrow> iset_ok m \<and> iset_ok n" using Cons.prems(1) by (meson list.set_intros(2))
  show ?case
  proof (cases "u = t")
    case True
    then have "read_conflicts t X (c # cs) = read_conflicts t X cs" "write_conflicts t X (c # cs) = write_conflicts t X cs" for X
      using c by (auto simp: read_conflicts_def write_conflicts_def)
    then show ?thesis using Cons.IH [OF rest Cons.prems(2,3)] True c by simp
  next
    case False
    obtain s1 where s1: "add_meeting us m s = Some s1" "iset_ok s1" "points s1 = points s \<union> meeting (points us) m"
      using add_meeting_ok [OF Cons.prems(3) t(3)] iset_ok_less [OF mn(1)] by blast
    obtain l1 where l1: "add_meeting ul n l = Some l1" "iset_ok l1" "points l1 = points l \<union> meeting (points ul) n"
      using add_meeting_ok [OF Cons.prems(2) t(2)] iset_ok_less [OF mn(2)] by blast
    obtain s2 where s2: "add_meeting us n s1 = Some s2" "iset_ok s2" "points s2 = points s1 \<union> meeting (points us) n"
      using add_meeting_ok [OF s1(2) t(3)] iset_ok_less [OF mn(2)] by blast
    have step: "conflicts (Some t) all (c # cs) (l, s) = conflicts (Some t) all cs (l1, s2)"
      using False t(1) s1(1) l1(1) s2(1) c by simp
    have "read_conflicts t X (c # cs) = meeting X n \<union> read_conflicts t X cs"
      "write_conflicts t X (c # cs) = meeting X m \<union> meeting X n \<union> write_conflicts t X cs" for X
      using c False by (auto simp: read_conflicts_def write_conflicts_def)
    then show ?thesis using Cons.IH [OF rest l1(2) s2(2)] l1(3) s1(3) s2(3) unfolding step by (auto simp: Un_assoc)
  qed
qed (simp add: read_conflicts_def write_conflicts_def)

text \<open>Two tasks conflict when one writes what the other one reads or writes.\<close>

definition conflicting :: "('st, 't, 'a::linorder) outcome set \<Rightarrow> 't \<Rightarrow> bool" where
  "conflicting R t \<longleftrightarrow>
     (\<exists>u. u \<noteq> t \<and> (loads_by R t \<inter> stores_by R u \<noteq> {} \<or> stores_by R t \<inter> loads_by R u \<noteq> {} \<or>
        stores_by R t \<inter> stores_by R u \<noteq> {}))"

text \<open>The interrupts for a task: where it meets another one it stops, and nowhere but at what others access.\<close>

definition interrupts_ok :: "('st, 't, 'a::linorder) outcome set \<Rightarrow> 't \<Rightarrow> 'a iset \<Rightarrow> 'a iset \<Rightarrow> bool" where
  "interrupts_ok R t l s \<longleftrightarrow>
     iset_ok l \<and> iset_ok s \<and>
     loads_by R t \<inter> (\<Union>u \<in> - {t}. stores_by R u) \<subseteq> points l \<and> points l \<subseteq> (\<Union>u \<in> - {t}. stores_by R u) \<and>
     stores_by R t \<inter> (\<Union>u \<in> - {t}. loads_by R u \<union> stores_by R u) \<subseteq> points s \<and>
     points s \<subseteq> (\<Union>u \<in> - {t}. loads_by R u \<union> stores_by R u)"

lemma no_task:
  assumes "\<not> (\<exists>r \<in> R. o_task r = Some u)"
  shows "loads_by R u = {}" "stores_by R u = {}"
  using assms by (auto simp: loads_by_def stores_by_def)

lemma table_conflicts:
  assumes "tracked R crit"
  shows "read_conflicts t X crit \<subseteq> (\<Union>u \<in> - {t}. stores_by R u)"
    "X \<inter> (\<Union>u \<in> - {t}. stores_by R u) \<subseteq> read_conflicts t X crit"
    "write_conflicts t X crit \<subseteq> (\<Union>u \<in> - {t}. loads_by R u \<union> stores_by R u)"
    "X \<inter> (\<Union>u \<in> - {t}. loads_by R u \<union> stores_by R u) \<subseteq> write_conflicts t X crit"
proof -
  have entry: "points l = loads_by R u \<and> points s = stores_by R u" if "(u, l, s) \<in> set crit" for u l s
    using assms that by (auto simp: tracked_def)
  have present: "\<exists>l s. (u, l, s) \<in> set crit" if "y \<in> loads_by R u \<union> stores_by R u" for u y
  proof -
    have "\<exists>r \<in> R. o_task r = Some u" using that no_task [of R u] by auto
    then have "u \<in> fst ` set crit" using assms by (simp add: tracked_def)
    then obtain c where "c \<in> set crit" "u = fst c" by blast
    then show ?thesis by (metis prod.collapse)
  qed
  show "read_conflicts t X crit \<subseteq> (\<Union>u \<in> - {t}. stores_by R u)"
    "write_conflicts t X crit \<subseteq> (\<Union>u \<in> - {t}. loads_by R u \<union> stores_by R u)"
    using entry meeting_bounds(2) unfolding read_conflicts_def write_conflicts_def by fastforce+
  show "X \<inter> (\<Union>u \<in> - {t}. stores_by R u) \<subseteq> read_conflicts t X crit"
  proof
    fix y assume "y \<in> X \<inter> (\<Union>u \<in> - {t}. stores_by R u)"
    then obtain u where u: "u \<noteq> t" "y \<in> X" "y \<in> stores_by R u" by auto
    obtain l s where ls: "(u, l, s) \<in> set crit" using present [of y u] u(3) by blast
    then have "y \<in> points s" using entry [OF ls] u(3) by simp
    then have "y \<in> meeting X s" using u(2) meeting_bounds(1) [of s X] by blast
    then show "y \<in> read_conflicts t X crit" using ls u(1) unfolding read_conflicts_def by force
  qed
  show "X \<inter> (\<Union>u \<in> - {t}. loads_by R u \<union> stores_by R u) \<subseteq> write_conflicts t X crit"
  proof
    fix y assume "y \<in> X \<inter> (\<Union>u \<in> - {t}. loads_by R u \<union> stores_by R u)"
    then obtain u where u: "u \<noteq> t" "y \<in> X" "y \<in> loads_by R u \<union> stores_by R u" by auto
    obtain l s where ls: "(u, l, s) \<in> set crit" using present [OF u(3)] by blast
    then have "y \<in> points l \<union> points s" using entry [OF ls] u(3) by simp
    then have "y \<in> meeting X l \<union> meeting X s"
      using u(2) meeting_bounds(1) [of l X] meeting_bounds(1) [of s X] by blast
    then show "y \<in> write_conflicts t X crit" using ls u(1) unfolding write_conflicts_def by force
  qed
qed

lemma task_conflicts:
  assumes R: "tracked R crit" "\<exists>r \<in> R. o_task r = Some t"
  shows "\<exists>l s. conflicts (Some t) crit crit ([], []) = Some (l, s) \<and> interrupts_ok R t l s \<and>
    (l = [] \<and> s = [] \<longleftrightarrow> \<not> conflicting R t)"
proof -
  have "t \<in> fst ` set crit" using R by (simp add: tracked_def)
  then obtain ul us where t: "map_of crit t = Some (ul, us)" by (metis map_of_eq_None_iff not_None_eq surj_pair)
  have ok: "iset_ok l \<and> iset_ok s \<and> points l = loads_by R u \<and> points s = stores_by R u" if "(u, l, s) \<in> set crit" for u l s
    using R(1) that by (auto simp: tracked_def)
  note ours = ok [OF map_of_SomeD [OF t]]
  obtain l s where ls: "conflicts (Some t) crit crit ([], []) = Some (l, s)" "iset_ok l" "iset_ok s"
    "points l = read_conflicts t (loads_by R t) crit" "points s = write_conflicts t (stores_by R t) crit"
    using conflicts_ok [where cs = crit and l = "[]" and s = "[]", OF t] ok ours by auto
  note tab = table_conflicts [where t = t, OF R(1)]
  have i: "interrupts_ok R t l s" unfolding interrupts_ok_def using ls(2-5) tab by simp
  have "read_conflicts t (loads_by R t) crit = {} \<longleftrightarrow> (\<forall>u. u \<noteq> t \<longrightarrow> loads_by R t \<inter> stores_by R u = {})" (is "?r \<longleftrightarrow> ?r'")
  proof
    assume ?r then show ?r' using tab(2) [of "loads_by R t"] by blast
  next
    assume r: ?r'
    have "meeting (loads_by R t) n = {}" if "(u, m, n) \<in> set crit" "u \<noteq> t" for u m n
      using r ok [OF that(1)] that(2) meeting_empty [of n "loads_by R t"] by (simp add: Int_commute)
    then show ?r unfolding read_conflicts_def by auto
  qed
  moreover have "write_conflicts t (stores_by R t) crit = {} \<longleftrightarrow>
    (\<forall>u. u \<noteq> t \<longrightarrow> stores_by R t \<inter> loads_by R u = {} \<and> stores_by R t \<inter> stores_by R u = {})" (is "?w \<longleftrightarrow> ?w'")
  proof
    assume ?w then show ?w' using tab(4) [of "stores_by R t"] by blast
  next
    assume w: ?w'
    have "meeting (stores_by R t) m = {} \<and> meeting (stores_by R t) n = {}" if "(u, m, n) \<in> set crit" "u \<noteq> t" for u m n
      using w ok [OF that(1)] that(2) meeting_empty [of n "stores_by R t"] meeting_empty [of m "stores_by R t"]
      by (simp add: Int_commute [of "stores_by R t"])
    then show ?w unfolding write_conflicts_def by auto
  qed
  ultimately have "l = [] \<and> s = [] \<longleftrightarrow> \<not> conflicting R t"
    using no_points [OF ls(2)] no_points [OF ls(3)] ls(4,5) unfolding conflicting_def by metis
  then show ?thesis using ls(1) i by blast
qed

section \<open>The successors\<close>

text \<open>
  What the successors of a state rest on: its steps ask for at least one option and access memory in
  intervals that are not empty, and every run says which task it is of.
\<close>

definition machine_ok :: "('st, 't, 'a::linorder) machine \<Rightarrow> 'st \<Rightarrow> bool" where
  "machine_ok M from \<longleftrightarrow>
     asks_ok (M from [] []) \<and> (\<forall>(r, p) \<in> set (leaves (M from [] [])). accesses_ok r \<and> o_task r \<noteq> None)"

definition results :: "('st, 't, 'a) machine \<Rightarrow> 'st \<Rightarrow> ('st, 't, 'a) outcome set" where
  "results M from = fst ` set (leaves (M from [] []))"

definition conflict_free :: "('st, 't, 'a::linorder) machine \<Rightarrow> 'st \<Rightarrow> ('st, 't, 'a) outcome \<Rightarrow> bool" where
  "conflict_free M from r \<longleftrightarrow> (\<forall>t. o_task r = Some t \<longrightarrow> \<not> conflicting (results M from) t)"

text \<open>
  A run made again with the interrupts \<open>i\<close> and its choices locked; \<open>None\<close> when an assertion of
  \<open>choose\<close> or of \<open>edges\<close> fails: it has to be of the same task and, if it is feasible, its
  choices have to be the locked ones, as far as it goes.
\<close>

definition run_again ::
    "('st, 't, 'a::linorder) machine \<Rightarrow> 'st \<Rightarrow> 'a iset \<times> 'a iset \<Rightarrow> ('st, 't, 'a) outcome \<times> choice list \<Rightarrow>
      ('st, 't, 'a) outcome option" where
  "run_again M from i c =
     (case play (M from (fst i) (snd i)) (new_chooser\<lparr>x_lock := snd c\<rparr>) of
        None \<Rightarrow> None
      | Some (r, x) \<Rightarrow>
          if o_task r = o_task (fst c) \<and> (o_feasible r \<longrightarrow> take (length (x_stack x)) (snd c) = x_stack x)
          then Some r else None)"

text \<open>The edges for a run, with the interrupts of each task given: none or one, or a failed assertion.\<close>

definition successors_of ::
    "('st, 't, 'a::linorder) machine \<Rightarrow> 'st \<Rightarrow> ('t \<Rightarrow> 'a iset \<times> 'a iset) \<Rightarrow>
      ('st, 't, 'a) outcome \<times> choice list \<Rightarrow> ('st \<times> label) list option" where
  "successors_of M from ints c =
     (if conflict_free M from (fst c) then Some (edge_of (fst c))
      else map_option edge_of (run_again M from (ints (the (o_task (fst c)))) c))"

lemma play_again:
  assumes "is_leaf r o' (take k p)"
  shows "play r (new_chooser\<lparr>x_lock := p\<rparr>) =
    Some (o', \<lparr>x_stack = take k p, x_lock = drop k p, x_level = 0\<rparr>)"
proof -
  have "new_chooser\<lparr>x_lock := p\<rparr> = \<lparr>x_stack = [], x_lock = take k p @ drop k p, x_level = 0\<rparr>"
    by (simp add: new_chooser_def)
  then show ?thesis using play_locked [OF assms, where q = "[]" and k = "drop k p" and i = 0] by simp
qed

lemma run_again_leaf:
  assumes "is_leaf (M from (fst i) (snd i)) r' (take k p)" "o_task r' = o_task r"
  shows "run_again M from i (r, p) = Some r'"
proof -
  have "take (min (length p) k) p = take k p" by (simp add: min_def)
  then show ?thesis using play_again [OF assms(1)] assms(2) by (simp add: run_again_def)
qed

definition interrupts :: "('t, 'a::linorder) critical \<Rightarrow> 't \<Rightarrow> 'a iset \<times> 'a iset" where
  "interrupts crit t = the (conflicts (Some t) crit crit ([], []))"

lemma check_eq:
  assumes M: "machine_ok M from" and c: "c \<in> set (leaves (M from [] []))"
    and crit: "tracked (results M from) crit"
  shows "check M from crit c = successors_of M from (interrupts crit) c"
proof -
  obtain r p where rp: "c = (r, p)" by fastforce
  obtain t where t: "o_task r = Some t" using M c rp by (auto simp: machine_ok_def)
  have "\<exists>r \<in> results M from. o_task r = Some t" using c rp t by (force simp: results_def)
  then obtain l s where ls: "conflicts (Some t) crit crit ([], []) = Some (l, s)"
    "l = [] \<and> s = [] \<longleftrightarrow> \<not> conflicting (results M from) t"
    using task_conflicts [OF crit] by blast
  have i: "interrupts crit t = (l, s)" using ls(1) by (simp add: interrupts_def)
  have free: "conflict_free M from r \<longleftrightarrow> \<not> conflicting (results M from) t" using t by (simp add: conflict_free_def)
  show ?thesis
  proof (cases "conflicting (results M from) t")
    case False
    then show ?thesis using ls t rp free by (simp add: check_def successors_of_def)
  next
    case True
    then have "(s = [] \<and> l = []) = False" using ls(2) by blast
    then show ?thesis using ls(1) t rp free True i
      by (auto simp: check_def successors_of_def run_again_def split: option.split)
  qed
qed

lemma check_all_eq:
  assumes "machine_ok M from" "tracked (results M from) crit"
  shows "set cs \<subseteq> set (leaves (M from [] [])) \<Longrightarrow>
    check_all M from crit cs = map_option concat (those (map (successors_of M from (interrupts crit)) cs))"
proof (induction cs)
  case (Cons c cs)
  have "check M from crit c = successors_of M from (interrupts crit) c"
    using check_eq [OF assms(1) _ assms(2), of c] Cons.prems by auto
  then show ?case using Cons by (auto simp: map_option_case split: option.split)
qed simp

lemma interrupts_fit:
  assumes "tracked (results M from) crit" "\<exists>r \<in> results M from. o_task r = Some t"
  shows "interrupts_ok (results M from) t (fst (interrupts crit t)) (snd (interrupts crit t))"
proof -
  obtain l s where "conflicts (Some t) crit crit ([], []) = Some (l, s)" "interrupts_ok (results M from) t l s"
    using task_conflicts [OF assms] by blast
  then show ?thesis by (simp add: interrupts_def)
qed

lemma edges_eq:
  assumes "machine_ok M from"
  obtains crit where "tracked (results M from) crit"
    "edges M from = map_option concat (those (map (successors_of M from (interrupts crit)) (leaves (M from [] []))))"
proof -
  have runs: "all_runs (M from [] []) new_chooser = Some (leaves (M from [] []), new_chooser)"
    using assms by (intro all_runs_leaves) (simp add: machine_ok_def)
  have "accesses_ok r" if "r \<in> results M from" for r using that assms by (auto simp: machine_ok_def results_def)
  then obtain crit where "track_all (map fst (leaves (M from [] []))) [] = Some crit" "tracked (results M from) crit"
    using track_all_ok [OF tracked_empty, of "map fst (leaves (M from [] []))"] by (auto simp: results_def)
  with runs show thesis using that check_all_eq [OF assms, of crit "leaves (M from [] [])"] by (simp add: edges_def)
qed

lemma those_Some: "(\<And>c. c \<in> set cs \<Longrightarrow> f c = Some (g c)) \<Longrightarrow> those (map f cs) = Some (map g cs)"
  by (induction cs) simp_all

lemma edges_independent:
  assumes "machine_ok M from" "\<And>r. r \<in> results M from \<Longrightarrow> conflict_free M from r"
  shows "edges M from = Some (concat (map (edge_of \<circ> fst) (leaves (M from [] []))))"
proof -
  obtain crit where e: "edges M from =
      map_option concat (those (map (successors_of M from (interrupts crit)) (leaves (M from [] []))))"
    using edges_eq [OF assms(1)] by blast
  have "those (map (successors_of M from (interrupts crit)) (leaves (M from [] []))) =
      Some (map (edge_of \<circ> fst) (leaves (M from [] [])))"
    using assms(2) by (intro those_Some) (simp add: successors_of_def results_def)
  then show ?thesis using e by simp
qed

end
