(* ===== verification/McMachineProps.thy ===== *)
theory McMachineProps
  imports McSafetyFacts McEdges
begin

text \<open>
  The properties of how successors are computed: the enumeration of choices, the sets of intervals, the
  interrupts of tasks that conflict, and what the search for errors then says of the machine.
\<close>

section \<open>Choices\<close>

text \<open>
  C8. The loop over the runs of a step ends and makes exactly one run for every sequence of choices, in
  their order, when the step always has an option; and with the choices of a run locked, the step does
  that run again.
\<close>

theorem every_choice_once:
  assumes "asks_ok r"
  shows "all_runs r new_chooser = Some (leaves r, new_chooser) \<and> distinct (map snd (leaves r)) \<and>
    (\<forall>o' l. (o', l) \<in> set (leaves r) \<longleftrightarrow> is_leaf r o' l) \<and>
    (\<forall>o' l. is_leaf r o' l \<longrightarrow> play r (new_chooser\<lparr>x_lock := l\<rparr>) = Some (o', new_chooser\<lparr>x_stack := l\<rparr>))"
proof (intro conjI allI impI)
  show "all_runs r new_chooser = Some (leaves r, new_chooser)" by (rule all_runs_leaves [OF assms])
  show "distinct (map snd (leaves r))" by (rule leaves_distinct)
  show "(o', l) \<in> set (leaves r) \<longleftrightarrow> is_leaf r o' l" for o' l by (rule leaf_iff [OF assms])
  show "play r (new_chooser\<lparr>x_lock := l\<rparr>) = Some (o', new_chooser\<lparr>x_stack := l\<rparr>)" if "is_leaf r o' l" for o' l
    using play_locked [OF that, where q = "[]" and k = "[]" and i = 0] by (simp add: new_chooser_def)
qed

definition two_choices :: "int run" where
  "two_choices = Ask 2 (\<lambda>t. if t = 0 then Done 7 else Ask 3 (\<lambda>u. Done u))"

theorem every_choice_once_witness:
  "map_option (map fst \<circ> fst) (all_runs two_choices new_chooser) = Some [7, 0, 1, 2] \<and>
    distinct (map snd (leaves two_choices))"
proof
  have "asks_ok two_choices" by (simp add: two_choices_def)
  note once = every_choice_once [OF this]
  have "map fst (leaves two_choices) = [7, 0, 1, 2]" by (simp add: two_choices_def upto_rec1)
  then show "map_option (map fst \<circ> fst) (all_runs two_choices new_chooser) = Some [7, 0, 1, 2]" using once by simp
  show "distinct (map snd (leaves two_choices))" using once by blast
qed

section \<open>Sets of intervals\<close>

text \<open>
  C11. Inserting an interval adds its points, keeps the intervals apart, and says whether they were there
  already or whether some were; \<open>iset_intersect\<close> says whether some are there.
\<close>

theorem interval_set_exact:
  assumes "iset_ok m" "a < b"
  shows "iset_intersect (a, b) m = Some ({a..<b} \<inter> points m \<noteq> {}) \<and>
    (\<exists>m' i. iset_insert (a, b) m = Some (m', i) \<and> iset_ok m' \<and> points m' = points m \<union> {a..<b} \<and>
      (had_intersection i \<longleftrightarrow> {a..<b} \<inter> points m \<noteq> {}) \<and> (was_contained i \<longleftrightarrow> {a..<b} \<subseteq> points m))"
  using iset_intersect_ok [OF assms] iset_insert_ok [OF assms] unfolding insert_spec_def by blast

theorem interval_set_exact_witness:
  "iset_insert (4, 9) [(0 :: int, 3), (5, 6), (9, 12)] =
      Some ([(0, 3), (4, 12)], \<lparr>was_contained = False, had_intersection = True\<rparr>) \<and>
    iset_intersect (4, 9) [(0 :: int, 3), (5, 6), (9, 12)] = Some True \<and>
    {4..<9} \<inter> points [(0 :: int, 3), (5, 6), (9, 12)] \<noteq> {}"
proof (intro conjI)
  show "iset_insert (4, 9) [(0 :: int, 3), (5, 6), (9, 12)] =
      Some ([(0, 3), (4, 12)], \<lparr>was_contained = False, had_intersection = True\<rparr>)" by code_simp
  show i: "iset_intersect (4, 9) [(0 :: int, 3), (5, 6), (9, 12)] = Some True" by code_simp
  show "{4..<9} \<inter> points [(0 :: int, 3), (5, 6), (9, 12)] \<noteq> {}"
    using interval_set_exact [of "[(0 :: int, 3), (5, 6), (9, 12)]" 4 9] i by simp
qed

text \<open>The point behind an interval counts as one of its points, though intervals are half-open.\<close>

theorem interval_end_counts: "iset_count (3 :: int) [(0, 3)] \<and> 3 \<notin> points [(0 :: int, 3)]"
proof
  show "iset_count (3 :: int) [(0, 3)]" by code_simp
qed simp

section \<open>Successors\<close>


definition plain_outcome :: "nat \<Rightarrow> nat \<Rightarrow> int iset \<Rightarrow> int iset \<Rightarrow> (nat, nat, int) outcome" where
  "plain_outcome x t l s =
     \<lparr>o_snap = x, o_label = \<lparr>l_accepting = False, l_error = False\<rparr>, o_feasible = True, o_task = Some t,
      o_loads = l, o_stores = s\<rparr>"

text \<open>Two tasks, one of which writes what the other one reads; an interrupt leaves them where they are.\<close>

definition racing :: "(nat, nat, int) machine" where
  "racing x l s =
     Ask 2 (\<lambda>t. Done (if t = 0 then plain_outcome (if s = [] then 1 else 10) 1 [] [(0, 4)]
                      else plain_outcome (if l = [] then 2 else 20) 2 [(2, 6)] []))"

lemma racing_ok: "machine_ok racing x"
  by (auto simp: machine_ok_def racing_def accesses_ok_def plain_outcome_def upto_rec1)





section \<open>The search for errors of a machine\<close>

definition step_to :: "('st, 't, 'a) machine \<Rightarrow> 'st \<Rightarrow> 'st \<Rightarrow> label \<Rightarrow> bool" where
  "step_to M x y lab \<longleftrightarrow> (\<exists>r p. is_leaf (M x [] []) r p \<and> o_feasible r \<and> o_snap r = y \<and> o_label r = lab)"

definition machine_successors :: "('st, 't, 'a::linorder) machine \<Rightarrow> 'st successors" where
  "machine_successors M x = (case edges M x of None \<Rightarrow> [] | Some es \<Rightarrow> es)"

lemma machine_successors_iff:
  assumes "machine_ok M x" "\<And>r. r \<in> results M x \<Longrightarrow> conflict_free M x r"
  shows "(y, lab) \<in> set (machine_successors M x) \<longleftrightarrow> step_to M x y lab"
proof -
  have "asks_ok (M x [] [])" using assms(1) by (simp add: machine_ok_def)
  note leaf = leaf_iff [OF this]
  have "machine_successors M x = concat (map (edge_of \<circ> fst) (leaves (M x [] [])))"
    using edges_independent [OF assms] by (simp add: machine_successors_def)
  then have "(y, lab) \<in> set (machine_successors M x) \<longleftrightarrow>
      (\<exists>r p. (r, p) \<in> set (leaves (M x [] [])) \<and> (y, lab) \<in> set (edge_of r))" by (simp add: Bex_def)
  moreover have "(y, lab) \<in> set (edge_of r) \<longleftrightarrow> o_feasible r \<and> o_snap r = y \<and> o_label r = lab" for r
    by (auto simp: edge_of_def)
  ultimately show ?thesis unfolding step_to_def leaf by metis
qed

text \<open>
  C10. Where the tasks of a machine do not conflict, the search for errors over the successors that
  \<open>edges\<close> gives says Error exactly when some sequence of choices leads through feasible steps to an error.
\<close>

theorem machine_safety:
  assumes "\<forall>x. machine_ok M x \<and> (\<forall>r \<in> results M x. conflict_free M x r)"
    and "finite_from (machine_successors M) i"
  shows "map_option safety_verdict (safety_bfs (passive_listen e st c) n (machine_successors M) (Some i)) =
    Some (if \<exists>x y lab. (\<lambda>x y. \<exists>lab. step_to M x y lab)\<^sup>*\<^sup>* i x \<and> step_to M x y lab \<and> l_error lab
          then Error else Valid)"
proof -
  let ?S = "machine_successors M"
  have steps: "(y, lab) \<in> set (?S x) \<longleftrightarrow> step_to M x y lab" for x y lab
    using machine_successors_iff [of M x] assms(1) by blast
  have "edge_in ?S = (\<lambda>x y. \<exists>lab. step_to M x y lab)" by (intro ext) (simp add: edge_in_def steps)
  then have goes: "goes ?S = (\<lambda>x y. \<exists>lab. step_to M x y lab)\<^sup>*\<^sup>*" by (simp add: goes_def)
  have err: "error_edge ?S x y \<longleftrightarrow> (\<exists>lab. step_to M x y lab \<and> l_error lab)" for x y by (simp add: error_edge_def steps)
  obtain f where "safety_bfs (passive_listen e st c) n ?S (Some i) = Some f"
    "safety_verdict f = Error \<and> (\<exists>x y. goes ?S i x \<and> error_edge ?S x y) \<or>
     safety_verdict f = Valid \<and> \<not> (\<exists>x y. goes ?S i x \<and> error_edge ?S x y)"
    using safety_bfs_ok [OF assms(2), of e st c n] by blast
  then show ?thesis unfolding goes err by (elim disjE conjE) auto
qed

text \<open>One task that counts to two, or waits; its second step fails.\<close>

definition counting :: "(nat, nat, int) machine" where
  "counting x l s =
     Ask 2 (\<lambda>t. Done \<lparr>o_snap = (if t = 0 \<or> x \<ge> 2 then x else Suc x),
       o_label = \<lparr>l_accepting = False, l_error = (x = 1 \<and> t = 1)\<rparr>, o_feasible = True, o_task = Some 1,
       o_loads = [], o_stores = []\<rparr>)"

lemma counting_leaf:
  "is_leaf (counting x l s) r p \<longleftrightarrow> (\<exists>c. p = [c] \<and> ch_total c = 2 \<and> 0 \<le> ch_taken c \<and> ch_taken c < 2 \<and>
     r = \<lparr>o_snap = (if ch_taken c = 0 \<or> x \<ge> 2 then x else Suc x),
       o_label = \<lparr>l_accepting = False, l_error = (x = 1 \<and> ch_taken c = 1)\<rparr>, o_feasible = True, o_task = Some 1,
       o_loads = [], o_stores = []\<rparr>)"
  by (cases p) (auto simp: counting_def)

lemma counting_ok: "machine_ok counting x" "r \<in> results counting x \<Longrightarrow> conflict_free counting x r"
proof -
  have asks: "asks_ok (counting x [] [])" by (simp add: counting_def)
  note leaf = leaf_iff [OF asks]
  show "machine_ok counting x"
    using asks leaf by (auto simp: machine_ok_def accesses_ok_def counting_leaf)
  have "o_stores r = []" if "r \<in> results counting x" for r
    using that leaf by (auto simp: results_def counting_leaf)
  then have "stores_by (results counting x) t = {}" for t by (simp add: stores_by_def)
  then show "r \<in> results counting x \<Longrightarrow> conflict_free counting x r"
    by (simp add: conflict_free_def conflicting_def)
qed

lemma counting_finite: "finite_from (machine_successors counting) 0"
proof -
  have step: "y \<le> 2" if x: "x \<le> 2" and e: "edge_in (machine_successors counting) x y" for x y
  proof -
    obtain lab where "step_to counting x y lab"
      using e machine_successors_iff [OF counting_ok, of x y] unfolding edge_in_def by blast
    then show ?thesis using x by (auto simp: step_to_def counting_leaf split: if_splits)
  qed
  have reach: "y \<in> {..2}" if "goes (machine_successors counting) 0 y" for y
  proof (rule goes_closed [OF that])
    show "y \<in> {..2}" if "x \<in> {..2}" "edge_in (machine_successors counting) x y" for x y
      using step [of x y] that by simp
  qed simp
  have "{x. goes (machine_successors counting) 0 x} \<subseteq> {..2}"
  proof
    fix x assume "x \<in> {x. goes (machine_successors counting) 0 x}"
    then show "x \<in> {..2}" using reach [of x] by simp
  qed
  then show ?thesis unfolding finite_from_def by (rule finite_subset) simp
qed

theorem machine_safety_witness:
  "\<exists>x y lab. (\<lambda>x y. \<exists>lab. step_to counting x y lab)\<^sup>*\<^sup>* 0 x \<and> step_to counting x y lab \<and> l_error lab"
proof -
  have "\<forall>x. machine_ok counting x \<and> (\<forall>r \<in> results counting x. conflict_free counting x r)" using counting_ok by blast
  note safe = machine_safety [OF this counting_finite]
  obtain e st c where log: "(log_listener :: (nat, nat seen_log) listener) = passive_listen e st c" by (simp add: log_listener_def)
  have "map_option safety_verdict (safety_bfs log_listener empty_log (machine_successors counting) (Some 0)) = Some Error"
    by code_simp
  then have "(if ?thesis then Error else Valid) = Error" using safe [of e st c empty_log] unfolding log by (simp only: option.inject)
  then show ?thesis by (rule contrapos_pp) simp
qed

end
