(* ===== verification/Spec2Isabelle.thy ===== *)
theory Spec2Isabelle
  imports VmValueProps StorageProps MetadataProps HeapProps LtlProps LtlAutomatonProps McProps McMachineProps
begin

text \<open>
  Three parts of DIVINE, a model checker for C and C++. The memory of its virtual machine: the values
  it computes with, and the heap that keeps what the machine knows about every byte of its memory
  beside the bytes themselves. The specifications: formulas of linear temporal logic and their
  translation to B\"uchi automata. And the searches that decide what to tell the user: those for
  errors and for accepting cycles in the state space of a program.

  \<^bold>\<open>Values\<close> (\<^verbatim>\<open>src/divine/vm\<close>). \<open>BitLevel\<close> has the masks and byte views the rest uses
  (\<^verbatim>\<open>bricks/brick-bitlevel\<close>). \<open>VmPointer\<close> has the pointers (\<^verbatim>\<open>pointer.hpp\<close>, \<^verbatim>\<open>divm.h\<close>): an object
  identifier and an offset in 64 bits, the classes of identifiers and the conversions between them.
  \<open>VmValue\<close> has the integers and pointers of the machine (\<^verbatim>\<open>value.hpp\<close>): each carries its raw bits, a
  mask of the bits that are defined, a set of taints and, for an integer, where in it an object
  identifier is. \<open>VmValueFacts\<close> and \<open>VmValueProps\<close> show, for the bitwise operations, the shifts and
  the conversions between widths, that no bit is marked defined that depends on an undefined one, that
  sums, products, shifts and the like yield no object identifier that no operand had, and that the
  complement does.

  \<^bold>\<open>Storage of intervals\<close> (\<^verbatim>\<open>src/divine/mem/exceptions.hpp\<close>). \<open>IntervalMap\<close> has the maps from intervals
  of offsets to data, \<open>SnapMap\<close> the storage that keeps one such map for each object, in a local tree
  or in a frozen snapshot. \<open>StorageProps\<close> shows that the storage implements functions from
  offsets to data. Offsets are integers; where the code computes with them, in \<^verbatim>\<open>uint32_t\<close> and \<^verbatim>\<open>int\<close>, to
  copy a range, the conversions are written out, and the property has the ranges in which they
  do no harm.

  \<^bold>\<open>Shadow memory\<close> (\<^verbatim>\<open>src/divine/mem\<close>). \<open>MetaForms\<close> has the forms of the metadata of a 4-byte word
  (\<^verbatim>\<open>bitset.hpp\<close> and the first part of \<^verbatim>\<open>metadata.hpp\<close>), \<open>ExceptionMap\<close> the exceptions of words whose
  metadata does not fit (\<^verbatim>\<open>exceptions.hpp\<close>), \<open>ShadowLayers\<close> the stack of layers that track pointers,
  definedness and taint (\<^verbatim>\<open>base.hpp\<close>, \<^verbatim>\<open>pointers.hpp\<close>, \<^verbatim>\<open>definedness.hpp\<close>, \<^verbatim>\<open>taint.hpp\<close>), and \<open>Metadata\<close>
  the layer on top that stores the compressed form and copies, compares and enumerates
  (\<^verbatim>\<open>metadata.hpp\<close>). \<open>MetadataWrite\<close> has the invariant \<open>sh_ok\<close> of the shadow memory and what a write
  and a read do; \<open>MetadataProps\<close> has the properties.

  \<^bold>\<open>Heap\<close> (\<^verbatim>\<open>src/divine/mem\<close>). \<open>HeapData\<close> has the layer of user metadata (\<^verbatim>\<open>usermeta.hpp\<close>) and the one that
  resolves object identifiers through exceptions and a snapshot, and makes, resizes, frees, reads, writes
  and copies objects (\<^verbatim>\<open>data.hpp\<close>, \<^verbatim>\<open>data.tpp\<close>); what the pool answers to an allocation is an argument.
  \<open>HeapFacts\<close> shows that the binary search is a lookup, that \<^verbatim>\<open>make\<close> ends, and how a write changes an
  object. \<open>HeapCompare\<close> has the comparison of two objects, of all that can be reached from two roots
  (\<^verbatim>\<open>util.tpp\<close>), and of two states (\<^verbatim>\<open>src/divine/mc/hasher.hpp\<close>). \<open>HeapCompareFacts\<close> has the contract
  \<open>pointer_callback\<close> under which the comparison of objects decides a relation of their contents, its
  interpretations for the recursion and for the sharing of objects, and the relation \<open>alike\<close> that the
  comparison of heaps decides; the bound on the depth of the recursion is the number of items of the
  first heap plus one. The code looks at less than it should: \<open>alike\<close> leaves out definedness, taint, the
  fragments of pointers and all but the first of the bytes after the last word. \<open>HeapSame\<close> has isomorphism,
  which leaves out nothing, shows that isomorphic heaps are alike (but for one case, a fragment of a
  pointer right after the last word), and that alike heaps are isomorphic where none of what is left
  out occurs. \<open>HeapProps\<close> has the properties.

  \<^bold>\<open>Formulas\<close> (\<^verbatim>\<open>src/divine/ltl\<close>). \<open>LtlForm\<close> has the nodes, their comparators, printing and the normal
  form (\<^verbatim>\<open>ltl.hpp\<close>, \<^verbatim>\<open>ltl.cpp\<close>), \<open>LtlFacts\<close> their meaning over infinite words, \<open>LtlParse\<close> the tokenizers
  and the parser, \<open>LtlSimplify\<close> the simplifier. \<open>LtlRoundtrip\<close> and \<open>LtlProps\<close> show that the parser reads
  what was printed, and that simplifier and normal form end and keep the meaning. A formula is a
  tree here: the code builds trees, and the one use of the address of a node, to compare the labels of
  edges as sets of pointers, is kept as the path of the node in the formula that is translated. The
  field \<^verbatim>\<open>id\<close> of a node is left out; the comparators read it only to answer at once for one and
  the same node.

  \<^bold>\<open>Automata\<close> (\<^verbatim>\<open>src/divine/ltl/buchi.hpp\<close>, \<^verbatim>\<open>buchi.cpp\<close>). \<open>LtlAutomaton\<close> has the tableau: its nodes, the
  rules and the expansion to states, with the numbers of \<^verbatim>\<open>newNodeId\<close> as a part of the state.
  \<open>LtlGraph\<close> has the automaton with incoming edges, the one with outgoing transitions, and the search
  for accepting components. The theories \<open>LtlSets\<close>, \<open>LtlLabels\<close> and \<open>LtlEntails\<close> hold facts on the
  ordered sets of formulas, on the labels that \<^verbatim>\<open>countAndLabelU\<close> and \<^verbatim>\<open>computeUParents\<close> give, and on what a
  set of literals and awaited formulas entails; \<open>LtlExpand\<close> what one round of \<^verbatim>\<open>expand\<close> does to a node.
  \<open>LtlTableau\<close> has the successful expansions as an inductive relation and its invariant,
  \<open>LtlComplete\<close> and \<open>LtlSound\<close> show that no step of a word is missed and that none is invented,
  \<open>LtlLanguage\<close> that the tableau accepts the words of the formula, and \<open>LtlTerminates\<close> that the expansion
  ends: a state is new only if it waits for a set of nodes of the formula that no other state waits
  for. \<open>LtlGraphFacts\<close> carries the language over to the automaton with outgoing transitions, and
  \<open>LtlSearch\<close> shows that the two searches find the strongly connected components. \<open>LtlAutomatonProps\<close>
  has the properties. The first argument of \<open>expand\<close>, \<open>tableau\<close> and \<open>ltl_to_tgba2\<close> bounds the depth
  of the recursion, and the properties show that some bound is enough; the searches for components
  have the number of states as their bound, which is enough as well.

  \<^bold>\<open>Model checking\<close> (\<^verbatim>\<open>src/divine/mc\<close>, \<^verbatim>\<open>src/divine/ss\<close>). \<open>McGraph\<close> has the table of states and how successors
  reach a search (\<^verbatim>\<open>builder.hpp\<close>); for the searches the successors of a state are an
  argument, and the properties ask that finitely many states can be reached. \<open>McLiveness\<close> has the nested
  search for accepting cycles with its two stacks and the counterexample (\<^verbatim>\<open>liveness.hpp\<close>).
  \<open>McLivenessFacts\<close> and \<open>McLasso\<close> have its invariants: what the inner search marked cannot reach the
  outer stack, and the stacks are paths. \<open>WorkQueue\<close> has the chunked queue and the
  counter of work (\<^verbatim>\<open>src/bricks/brick-shmem\<close>) with the interface \<open>fifo\<close>; \<open>McSearch\<close> the breadth first and
  depth first searches with one worker (\<^verbatim>\<open>search.hpp\<close>, \<^verbatim>\<open>listen.hpp\<close>) and the search for errors
  (\<^verbatim>\<open>safety.hpp\<close>). \<open>McSearchFacts\<close> has the contract \<open>explorer\<close> of a listener, for which both searches show
  every state and every edge once; \<open>McSafetyFacts\<close> interprets it for a listener that only watches and for
  the one that looks for errors. \<open>McProps\<close> has the properties.

  \<^bold>\<open>Successors\<close> (\<^verbatim>\<open>src/divine/mc/context.hpp\<close>, \<^verbatim>\<open>builder.hpp\<close>). \<open>McChoice\<close> has the stack of choices with \<^verbatim>\<open>choose\<close>
  and \<^verbatim>\<open>finished\<close>, and the loop that runs a step for every sequence of choices; \<open>IntervalSet\<close> the sets of
  intervals that hold what a task accesses (\<^verbatim>\<open>src/bricks/brick-data\<close>); \<open>McEdges\<close> the conflicts between tasks
  and the runs that are made again with interrupts. A step of the machine is an argument: a tree that asks
  for choices and ends with a snapshot, a label and the memory it touched. \<open>McMachineProps\<close> shows that
  every sequence of choices is run once, which runs are made again and what edges come of that, and what
  the search for errors then says of the machine where tasks do not conflict.

  A failed assertion of the code, and an access outside an array, is the value \<open>None\<close> in the
  model. Loops are recursive functions over the number of rounds left, or functions with a measure;
  the loops of the searches and the loop over the runs of a step, which need not end, are partial
  functions, for which \<open>None\<close> is also that they do not return; the properties show that they do. The
  simplifier of formulas is total also on trees with missing operands, where the code would follow a
  null pointer.

  Not modelled: printing and dumping, the reader and the writer of automata as text, hashing, the
  mutexes of the exception maps (the model is sequential), the memory pool, whose pointers are numbers
  here, the snapshots of the heap with their reference counts and the table of shared objects
  (\<^verbatim>\<open>cow.tpp\<close>, of which only the match of two objects is here), \<^verbatim>\<open>clone\<close> and \<^verbatim>\<open>leaked\<close>, and searches with more
  than one worker.
\<close>

end
